(* ===== verification/Kyzo_Prelude.thy ===== *)
theory Kyzo_Prelude
  imports Complex_Main "HOL-Library.Word" "HOL-Library.List_Lexorder"
begin

text \<open>
  The vocabulary every component of the development shares.

  \<^item> Machine types of the Rust source: \<open>u8\<close>, \<open>u16\<close>, \<open>u32\<close>, \<open>u64\<close>, \<open>u128\<close> and \<open>i64\<close> are
    words of that width; an \<open>i64\<close> is read with \<open>sint\<close>. A byte slice is a list of \<open>u8\<close>.
  \<^item> \<open>std::cmp::Ordering\<close> with \<open>then\<close>, \<open>reverse\<close> and the derived \<open>cmp\<close> of a linear order; the
    order of byte slices (\<open>memcmp\<close>) is the lexicographic order of \<open>List_Lexorder\<close>.
  \<^item> \<open>to_be_bytes\<close> / \<open>from_be_bytes\<close>, \<open>leading_zeros\<close> and \<open>trailing_zeros\<close> of the unsigned types.
\<close>

unbundle bit_operations_syntax

section \<open>Machine types\<close>

type_synonym u8 = "8 word"
type_synonym u16 = "16 word"
type_synonym u32 = "32 word"
type_synonym u64 = "64 word"
type_synonym u128 = "128 word"
type_synonym i64 = "64 word"
type_synonym bytes = "u8 list"

abbreviation i64_min :: i64 where
  "i64_min \<equiv> 0x8000000000000000"

abbreviation i64_max :: i64 where
  "i64_max \<equiv> 0x7FFFFFFFFFFFFFFF"

section \<open>Ordering\<close>

datatype ordering = Less | Equal | Greater

fun ord_then :: "ordering \<Rightarrow> ordering \<Rightarrow> ordering" where
  "ord_then Equal o2 = o2"
| "ord_then Less o2 = Less"
| "ord_then Greater o2 = Greater"

fun ord_reverse :: "ordering \<Rightarrow> ordering" where
  "ord_reverse Less = Greater"
| "ord_reverse Equal = Equal"
| "ord_reverse Greater = Less"

definition ocmp :: "'a::linorder \<Rightarrow> 'a \<Rightarrow> ordering" where
  "ocmp a b = (if a < b then Less else if a = b then Equal else Greater)"

section \<open>Results\<close>

text \<open>\<open>Result<T, E>\<close> is \<open>'e + 'a\<close>; \<open>rbind\<close> is the \<open>?\<close> operator followed by the rest of the body.\<close>

fun rbind :: "'e + 'a \<Rightarrow> ('a \<Rightarrow> 'e + 'b) \<Rightarrow> 'e + 'b" where
  "rbind (Inl e) f = Inl e"
| "rbind (Inr a) f = f a"

definition map_err :: "('e \<Rightarrow> 'f) \<Rightarrow> 'e + 'a \<Rightarrow> 'f + 'a" where
  "map_err f r = map_sum f id r"

text \<open>Collecting a list of results: the first error, or all the values.\<close>

primrec collect_results :: "('b \<Rightarrow> 'e + 'c) \<Rightarrow> 'b list \<Rightarrow> 'e + 'c list" where
  "collect_results f [] = Inr []"
| "collect_results f (x # xs) = rbind (f x) (\<lambda>y. rbind (collect_results f xs) (\<lambda>ys. Inr (y # ys)))"

section \<open>Byte order\<close>

primrec be_nat :: "nat \<Rightarrow> nat \<Rightarrow> bytes" where
  "be_nat 0 x = []"
| "be_nat (Suc n) x = of_nat (x div 256 ^ n mod 256) # be_nat n x"

definition be_val :: "bytes \<Rightarrow> nat" where
  "be_val bs = foldl (\<lambda>acc b. acc * 256 + unat b) 0 bs"

definition to_be_bytes :: "'a::len word \<Rightarrow> bytes" where
  "to_be_bytes w = be_nat (LENGTH('a) div 8) (unat w)"

definition from_be_bytes :: "bytes \<Rightarrow> 'a::len word" where
  "from_be_bytes bs = of_nat (be_val bs)"

fun bit_length :: "nat \<Rightarrow> nat" where
  "bit_length n = (if n = 0 then 0 else Suc (bit_length (n div 2)))"

fun count_trailing :: "nat \<Rightarrow> nat" where
  "count_trailing n = (if n = 0 \<or> odd n then 0 else Suc (count_trailing (n div 2)))"

declare bit_length.simps [simp del] count_trailing.simps [simp del]

definition leading_zeros :: "'a::len word \<Rightarrow> nat" where
  "leading_zeros w = LENGTH('a) - bit_length (unat w)"

definition trailing_zeros :: "'a::len word \<Rightarrow> nat" where
  "trailing_zeros w = (if w = 0 then LENGTH('a) else count_trailing (unat w))"

section \<open>Lemmas on results\<close>

lemma rbind_cong [fundef_cong]:
  "r = r' \<Longrightarrow> (\<And>a. r' = Inr a \<Longrightarrow> f a = g a) \<Longrightarrow> rbind r f = rbind r' g"
  by (cases r') auto

lemma rbind_eq_Inl: "rbind r f = Inl e \<longleftrightarrow> r = Inl e \<or> (\<exists>x. r = Inr x \<and> f x = Inl e)"
  by (cases r) simp_all

lemma rbind_eq_Inr: "rbind r f = Inr b \<longleftrightarrow> (\<exists>a. r = Inr a \<and> f a = Inr b)"
  by (cases r) auto

lemma map_err_simps [simp]: "map_err f (Inl e) = Inl (f e)" "map_err f (Inr a) = Inr a"
  by (simp_all add: map_err_def)

lemma map_err_eq_Inr [simp]: "map_err f r = Inr a \<longleftrightarrow> r = Inr a"
  by (cases r) auto

lemma collect_results_cong [fundef_cong]:
  "xs = ys \<Longrightarrow> (\<And>x. x \<in> set ys \<Longrightarrow> f x = g x) \<Longrightarrow> collect_results f xs = collect_results g ys"
  by (induction ys arbitrary: xs) auto

lemma collect_results_Inr: "(\<And>x. x \<in> set xs \<Longrightarrow> f x = Inr (g x)) \<Longrightarrow> collect_results f xs = Inr (map g xs)"
  by (induction xs) simp_all

lemma nth_list_update_read: "j < length xs \<Longrightarrow> xs[i := x] ! j = (if i = j then x else xs ! j)"
  by (cases "i = j") simp_all

section \<open>Lemmas on orderings\<close>

lemma ord_then_Equal2 [simp]: "ord_then c Equal = c"
  by (cases c) auto

lemma ord_then_assoc: "ord_then (ord_then a b) c = ord_then a (ord_then b c)"
  by (cases a) auto

lemma ord_then_eq_Equal [simp]: "ord_then a b = Equal \<longleftrightarrow> a = Equal \<and> b = Equal"
  by (cases a) auto

lemma ord_then_eq_Less: "ord_then a b = Less \<longleftrightarrow> a = Less \<or> a = Equal \<and> b = Less"
  by (cases a) auto

lemma ord_then_eq_Greater: "ord_then a b = Greater \<longleftrightarrow> a = Greater \<or> a = Equal \<and> b = Greater"
  by (cases a) auto

lemma ord_then_nonequal: "a \<noteq> Equal \<Longrightarrow> ord_then a b = a"
  by (cases a) auto

lemma ord_reverse_reverse [simp]: "ord_reverse (ord_reverse c) = c"
  by (cases c) auto

lemma ord_reverse_eq [simp]:
  "ord_reverse c = Less \<longleftrightarrow> c = Greater"
  "ord_reverse c = Equal \<longleftrightarrow> c = Equal"
  "ord_reverse c = Greater \<longleftrightarrow> c = Less"
  by (cases c; simp)+

lemma ord_reverse_then: "ord_reverse (ord_then a b) = ord_then (ord_reverse a) (ord_reverse b)"
  by (cases a) auto

lemma ocmp_simps [simp]:
  "ocmp a b = Less \<longleftrightarrow> a < b"
  "ocmp a b = Equal \<longleftrightarrow> a = b"
  "ocmp a b = Greater \<longleftrightarrow> b < a"
  by (auto simp: ocmp_def)

lemma ocmp_refl [simp]: "ocmp a a = Equal"
  by simp

lemma ocmp_eqI: "(a < b \<longleftrightarrow> c < d) \<Longrightarrow> (a = b \<longleftrightarrow> c = d) \<Longrightarrow> ocmp a b = ocmp c d"
  by (simp add: ocmp_def)

lemma ord_reverse_ocmp: "ord_reverse (ocmp a b) = ocmp b a"
  by (auto simp: ocmp_def)

lemma ocmp_mono:
  assumes "\<And>a b. a < b \<Longrightarrow> f a < f b"
  shows "ocmp (f a) (f b) = ocmp a b"
proof (rule ocmp_eqI)
  show "f a < f b \<longleftrightarrow> a < b"
    using assms by (metis less_asym neqE)
  show "f a = f b \<longleftrightarrow> a = b"
    using assms by (metis less_irrefl neqE)
qed

lemma ocmp_Cons [simp]: "ocmp (a # xs) (b # ys) = ord_then (ocmp a b) (ocmp xs ys)"
  by (auto simp: ocmp_def)

lemma ocmp_Nil [simp]: "ocmp [] (b # ys) = Less" "ocmp (b # ys) [] = Greater"
  by (simp_all add: ocmp_def)

lemma ocmp_append_same [simp]: "ocmp (xs @ as) (xs @ bs) = ocmp as bs"
  by (induction xs) auto

lemma ocmp_append_eq_length:
  "length as = length bs \<Longrightarrow> ocmp (as @ x) (bs @ y) = ord_then (ocmp as bs) (ocmp x y)"
  by (induction as bs rule: list_induct2) (auto simp: ord_then_assoc)

lemma ocmp_pair_le: "ocmp a b \<noteq> Greater \<longleftrightarrow> a \<le> b" "ocmp a b \<noteq> Less \<longleftrightarrow> b \<le> a"
  by auto


section \<open>Lemmas on byte order\<close>

lemma unat_lt2p: "unat (w :: 'a::len word) < 2 ^ LENGTH('a)"
  by (rule unsigned_less)

lemma length_be_nat [simp]: "length (be_nat n x) = n"
  by (induction n) auto

lemma unat_byte_of_nat [simp]: "unat (of_nat (x mod 256) :: u8) = x mod 256"
  by (simp add: unat_of_nat)

lemma mod_pow_Suc: "(x::nat) mod 256 ^ Suc n = (x div 256 ^ n mod 256) * 256 ^ n + x mod 256 ^ n"
proof -
  have "x mod (256 ^ n * 256) = 256 ^ n * (x div 256 ^ n mod 256) + x mod 256 ^ n"
    by (rule mod_mult2_eq)
  then show ?thesis
    by (simp add: mult.commute)
qed

lemma mult_add_lex:
  fixes a b c d m :: nat
  assumes "c < m" "d < m"
  shows "a * m + c < b * m + d \<longleftrightarrow> a < b \<or> a = b \<and> c < d"
    and "a * m + c = b * m + d \<longleftrightarrow> a = b \<and> c = d"
proof -
  have *: "x * m + y < z * m + w" if "x < z" "y < m" for x y z w :: nat
  proof -
    have "x * m + y < x * m + m" using that by simp
    also have "\<dots> = Suc x * m" by simp
    also have "\<dots> \<le> z * m" using that by (intro mult_le_mono1) simp
    finally show ?thesis by simp
  qed
  show "a * m + c < b * m + d \<longleftrightarrow> a < b \<or> a = b \<and> c < d"
    using *[of a b c d] *[of b a d c] assms by (cases a b rule: linorder_cases) auto
  show "a * m + c = b * m + d \<longleftrightarrow> a = b \<and> c = d"
    using *[of a b c d] *[of b a d c] assms by (cases a b rule: linorder_cases) auto
qed

lemma ocmp_mult_add:
  fixes a b c d m :: nat
  assumes "c < m" "d < m"
  shows "ocmp (a * m + c) (b * m + d) = ord_then (ocmp a b) (ocmp c d)"
  using mult_add_lex[OF assms, of a b] by (auto simp: ocmp_def)

lemma ocmp_unat: "ocmp (unat a) (unat b) = ocmp a b"
  by (rule ocmp_eqI) (simp_all add: word_less_nat_alt word_unat_eq_iff)

lemma ocmp_be_nat: "ocmp (be_nat n x) (be_nat n y) = ocmp (x mod 256 ^ n) (y mod 256 ^ n)"
proof (induction n)
  case 0
  then show ?case by simp
next
  case (Suc n)
  have "ocmp (be_nat (Suc n) x) (be_nat (Suc n) y)
      = ord_then (ocmp (x div 256 ^ n mod 256) (y div 256 ^ n mod 256))
          (ocmp (x mod 256 ^ n) (y mod 256 ^ n))"
    using Suc by (simp flip: ocmp_unat)
  then show ?case
    unfolding mod_pow_Suc by (simp add: ocmp_mult_add)
qed

lemma be_val_Nil [simp]: "be_val [] = 0"
  by (simp add: be_val_def)

lemma be_val_append1: "be_val (bs @ [b]) = be_val bs * 256 + unat b"
  by (simp add: be_val_def)

lemma be_val_Cons [simp]: "be_val (b # bs) = unat b * 256 ^ length bs + be_val bs"
proof (induction bs rule: rev_induct)
  case Nil
  then show ?case by (simp add: be_val_def)
next
  case (snoc x xs)
  then show ?case
    using be_val_append1[of "b # xs" x] by (simp add: be_val_append1 algebra_simps)
qed

lemma be_val_be_nat [simp]: "be_val (be_nat n x) = x mod 256 ^ n"
  by (induction n) (simp_all add: mod_pow_Suc del: power_Suc)

lemma be_val_less: "be_val bs < 256 ^ length bs"
proof (induction bs)
  case (Cons b bs)
  have "unat b < 256"
    using unat_lt2p[of b] by simp
  then have "(unat b + 1) * 256 ^ length bs \<le> 256 * 256 ^ length bs"
    by (intro mult_le_mono1) simp
  then have "unat b * 256 ^ length bs + 256 ^ length bs \<le> 256 * 256 ^ length bs"
    by (simp only: add_mult_distrib mult_1)
  with Cons show ?case
    by (simp only: be_val_Cons list.size power_Suc add_Suc_right add_0_right)
qed simp

lemma be_nat_add_mult [simp]: "be_nat n (a * 256 ^ n + x) = be_nat n x"
proof (induction n arbitrary: a)
  case (Suc n)
  have "(a * 256 ^ Suc n + x) div 256 ^ n = a * 256 + x div 256 ^ n"
    using div_mult_self3[of "256 ^ n :: nat" "a * 256" x] by (simp add: ac_simps)
  moreover have "be_nat n (a * 256 ^ Suc n + x) = be_nat n x"
    using Suc[of "a * 256"] by (simp add: ac_simps)
  ultimately show ?case by simp
qed simp

lemma be_nat_be_val [simp]: "be_nat (length bs) (be_val bs) = bs"
proof (induction bs)
  case (Cons b bs)
  have "unat b < 256"
    using unat_lt2p[of b] by simp
  then have "of_nat ((unat b * 256 ^ length bs + be_val bs) div 256 ^ length bs mod 256) = b"
    using be_val_less[of bs] by simp
  with Cons show ?case by simp
qed simp

lemma length_to_be_bytes [simp]: "length (to_be_bytes (w :: 'a::len word)) = LENGTH('a) div 8"
  by (simp add: to_be_bytes_def)

lemma pow_256: "(256::nat) ^ n = 2 ^ (8 * n)"
  by (simp add: power_mult)

lemma unat_less_256_pow:
  "LENGTH('a) = 8 * k \<Longrightarrow> unat (w :: 'a::len word) < 256 ^ k"
  using unat_lt2p[of w] by (simp add: pow_256)

lemma ocmp_to_be_bytes:
  fixes v w :: "'a::len word"
  assumes "8 dvd LENGTH('a)"
  shows "ocmp (to_be_bytes v) (to_be_bytes w) = ocmp v w"
proof -
  from assms obtain k where k: "LENGTH('a) = 8 * k" by (auto elim: dvdE)
  show ?thesis
    using unat_less_256_pow[OF k, of v] unat_less_256_pow[OF k, of w]
    by (simp add: to_be_bytes_def ocmp_be_nat ocmp_unat k)
qed

lemma from_to_be_bytes:
  fixes w :: "'a::len word"
  assumes "8 dvd LENGTH('a)"
  shows "from_be_bytes (to_be_bytes w) = w"
proof -
  from assms obtain k where k: "LENGTH('a) = 8 * k" by (auto elim: dvdE)
  show ?thesis
    using unat_less_256_pow[OF k, of w] by (simp add: to_be_bytes_def from_be_bytes_def k)
qed

lemma to_from_be_bytes:
  assumes "LENGTH('a::len) = 8 * length bs"
  shows "to_be_bytes (from_be_bytes bs :: 'a word) = bs"
proof -
  have "be_val bs < 2 ^ LENGTH('a)"
    using be_val_less[of bs] assms by (simp add: pow_256)
  then have "unat (of_nat (be_val bs) :: 'a word) = be_val bs"
    by (simp add: unat_of_nat)
  then show ?thesis
    using assms by (simp add: to_be_bytes_def from_be_bytes_def)
qed

lemmas to_be_64 [simp] =
  ocmp_to_be_bytes[where 'a = 64, simplified] from_to_be_bytes[where 'a = 64, simplified]
lemmas to_be_32 [simp] =
  ocmp_to_be_bytes[where 'a = 32, simplified] from_to_be_bytes[where 'a = 32, simplified]
lemmas to_be_16 [simp] =
  ocmp_to_be_bytes[where 'a = 16, simplified] from_to_be_bytes[where 'a = 16, simplified]

section \<open>Lemmas on bit lengths\<close>

lemma bit_length_0 [simp]: "bit_length 0 = 0"
  by (simp add: bit_length.simps)

lemma bit_length_pos: "0 < n \<Longrightarrow> bit_length n = Suc (bit_length (n div 2))"
  by (simp add: bit_length.simps[of n])

lemma bit_length_le_iff: "bit_length n \<le> k \<longleftrightarrow> n < 2 ^ k"
proof (induction n arbitrary: k rule: bit_length.induct)
  case (1 n)
  show ?case
  proof (cases "n = 0")
    case False
    then show ?thesis
    proof (cases k)
      case (Suc j)
      have "n div 2 < 2 ^ j \<longleftrightarrow> n < 2 ^ Suc j" by auto
      with 1[of j] False Suc show ?thesis by (simp add: bit_length_pos)
    qed (simp add: bit_length_pos)
  qed simp
qed

lemma bit_length_less: "n < 2 ^ bit_length n"
  using bit_length_le_iff[of n "bit_length n"] by simp

lemma bit_length_ge: "0 < n \<Longrightarrow> 2 ^ (bit_length n - 1) \<le> n"
  using bit_length_le_iff[of n "bit_length n - 1"] by (simp add: bit_length_pos not_less)

lemma bit_length_unique:
  assumes "2 ^ k \<le> n" "n < 2 ^ Suc k"
  shows "bit_length n = Suc k"
proof -
  have "bit_length n \<le> Suc k" using assms(2) by (subst bit_length_le_iff)
  moreover have "\<not> bit_length n \<le> k" using assms(1) by (subst bit_length_le_iff) simp
  ultimately show ?thesis by simp
qed

lemma bit_length_unat: "bit_length (unat (w :: 'a::len word)) \<le> LENGTH('a)"
  by (simp add: bit_length_le_iff unat_lt2p)

lemma leading_zeros_length:
  "LENGTH('a) - leading_zeros (w :: 'a::len word) = bit_length (unat w)"
  using bit_length_unat[of w] by (simp add: leading_zeros_def)

lemma count_trailing_iff:
  assumes "0 < n"
  shows "k \<le> count_trailing n \<longleftrightarrow> 2 ^ k dvd n"
  using assms
proof (induction n arbitrary: k rule: count_trailing.induct)
  case (1 n)
  show ?case
  proof (cases k)
    case (Suc j)
    show ?thesis
    proof (cases "odd n")
      case True
      then have "\<not> 2 ^ Suc j dvd n" by (metis dvd_mult_left power_Suc)
      with True Suc show ?thesis by (simp add: count_trailing.simps[of n])
    next
      case False
      then have "2 ^ Suc j dvd n \<longleftrightarrow> 2 ^ j dvd n div 2"
        by (auto elim!: evenE)
      with False Suc 1 show ?thesis
        by (auto simp: count_trailing.simps[of n] elim!: evenE)
    qed
  qed simp
qed

lemma trailing_zeros_iff:
  assumes "w \<noteq> (0 :: 'a::len word)"
  shows "k \<le> trailing_zeros w \<longleftrightarrow> 2 ^ k dvd unat w"
  using assms by (simp add: trailing_zeros_def count_trailing_iff unat_gt_0)


section \<open>Bit operations read as natural numbers\<close>

lemma unat_take_bit: "unat (take_bit n (w :: 'a::len word)) = unat w mod 2 ^ n"
  by (simp add: unsigned_take_bit_eq take_bit_eq_mod[of n "unat w"])

lemma unat_and_mask: "unat ((w :: 'a::len word) AND mask n) = unat w mod 2 ^ n"
  by (simp add: unat_take_bit flip: take_bit_eq_mask)

lemma unat_drop_bit: "unat (drop_bit n (w :: 'a::len word)) = unat w div 2 ^ n"
  by (simp add: unat_drop_bit_eq drop_bit_eq_div[of n "unat w"])

lemma unat_mask: "unat (mask n :: 'a::len word) = 2 ^ min n LENGTH('a) - 1"
proof -
  have "unat (mask n :: 'a word) = unat (take_bit n (- 1 :: 'a word))"
    by (simp only: take_bit_minus_one_eq_mask)
  also have "\<dots> = take_bit n (mask LENGTH('a))"
    by (simp only: unsigned_take_bit_eq unsigned_minus_1_eq_mask)
  also have "\<dots> = mask (min n LENGTH('a))"
    by (rule take_bit_of_mask)
  finally show ?thesis
    by (simp only: mask_eq_exp_minus_1)
qed

lemma unat_not: "unat (NOT w) = 2 ^ LENGTH('a) - Suc (unat (w :: 'a::len word))"
proof -
  have "unat (NOT w) = unat (- 1 - w)" by (simp only: not_eq_complement minus_diff_commute)
  also have "\<dots> = unat (- 1 :: 'a word) - unat w" by (rule unat_sub) simp
  finally show ?thesis
    by (simp add: unsigned_minus_1_eq_mask mask_eq_exp_minus_1)
qed

lemma not_less_not_iff: "NOT a < NOT b \<longleftrightarrow> b < (a :: 'a::len word)"
  using unat_lt2p[of a] unat_lt2p[of b] unfolding word_less_nat_alt unat_not by linarith

lemma unat_not_mod:
  assumes "i \<le> LENGTH('a)"
  shows "unat (NOT x :: 'a::len word) mod 2 ^ i = 2 ^ i - 1 - unat x mod 2 ^ i"
proof -
  have "unat x mod 2 ^ i < 2 ^ i" by simp
  then have "unat x mod 2 ^ i \<le> 2 ^ i - 1" by linarith
  then have le: "take_bit i x \<le> mask i"
    unfolding word_le_nat_alt unat_take_bit unat_mask using assms by (simp add: min_def)
  have "unat (take_bit i (NOT x)) = unat (mask i - take_bit i x)"
    by (simp add: take_bit_not_eq_mask_diff)
  also have "\<dots> = unat (mask i :: 'a word) - unat (take_bit i x)"
    by (rule unat_sub[OF le])
  finally show ?thesis
    using assms by (simp add: unat_take_bit unat_mask min_def)
qed

lemma bit_unat: "bit (x :: 'a::len word) i \<longleftrightarrow> odd (unat x div 2 ^ i)"
  using bit_unsigned_iff[where 'a = nat, of x i] bit_imp_le_length[of x i]
  by (auto simp: bit_iff_odd[of "unat x"])

section \<open>Signed words\<close>

lemma sint_bounds: "- (2 ^ 63) \<le> sint (v :: i64)" "sint (v :: i64) < 2 ^ 63"
  using sint_ge[of v] sint_lt[of v] by simp_all

lemma uint_i64: "uint (v :: i64) = (if sint v < 0 then sint v + 2 ^ 64 else sint v)"
proof -
  have mod: "uint v = sint v mod 2 ^ 64"
    by (simp add: uint_sint take_bit_eq_mod)
  have "sint v mod 2 ^ 64 = sint v" if "0 \<le> sint v"
    using that sint_bounds[of v] by (intro mod_pos_pos_trivial) simp_all
  moreover have "sint v mod 2 ^ 64 = sint v + 2 ^ 64" if "sint v < 0"
  proof -
    have "(sint v + 2 ^ 64) mod 2 ^ 64 = sint v + 2 ^ 64"
      using that sint_bounds[of v] by (intro mod_pos_pos_trivial) simp_all
    then show ?thesis by simp
  qed
  ultimately show ?thesis using mod by simp
qed

lemma sint_inject: "sint a = sint b \<longleftrightarrow> a = (b :: i64)"
proof -
  have "sint a = sint b \<Longrightarrow> uint a = uint b" by (simp only: uint_i64)
  then show ?thesis by (metis word_uint_eq_iff)
qed

lemma sint_i64_neg_iff: "sint (v :: i64) < 0 \<longleftrightarrow> 2 ^ 63 \<le> uint v"
  using sint_bounds[of v] by (simp add: uint_i64)

end
