(* ===== verification/Order_Code.thy ===== *)
theory Order_Code
  imports Kyzo_Prelude
begin

text \<open>
  The contract of an order-preserving, self-terminating code: comparing two encodings, whatever
  bytes follow them, gives the comparison of the two values, and only when that is \<open>Equal\<close> the
  comparison of what follows. Numeric keys, terminated byte strings, wide payloads, whole values
  and whole tuples are shown to satisfy it by interpreting the locale on their definitions; the
  consequences (order preservation, injectivity, prefix-freeness, the laws of the comparison) are
  proved once here. The second part lifts the law to sequences closed by a terminator that sorts
  below every element.
\<close>

section \<open>The contract\<close>

locale order_code =
  fixes wf :: "'a \<Rightarrow> bool"
    and enc :: "'a \<Rightarrow> bytes"
    and cmp :: "'a \<Rightarrow> 'a \<Rightarrow> ordering"
  assumes law: "wf a \<Longrightarrow> wf b \<Longrightarrow> ocmp (enc a @ x) (enc b @ y) = ord_then (cmp a b) (ocmp x y)"
    and cmp_eq: "wf a \<Longrightarrow> wf b \<Longrightarrow> cmp a b = Equal \<longleftrightarrow> a = b"
begin

lemma order_preserving: "wf a \<Longrightarrow> wf b \<Longrightarrow> ocmp (enc a) (enc b) = cmp a b"
  using law[of a b "[]" "[]"] by simp

lemma less_iff: "wf a \<Longrightarrow> wf b \<Longrightarrow> enc a < enc b \<longleftrightarrow> cmp a b = Less"
  using order_preserving[of a b] by (auto simp: ocmp_def split: if_splits)

lemma append_cancel:
  assumes "wf a" "wf b"
  shows "enc a @ x = enc b @ y \<longleftrightarrow> a = b \<and> x = y"
proof -
  have "enc a @ x = enc b @ y \<longleftrightarrow> ocmp (enc a @ x) (enc b @ y) = Equal" by simp
  also have "\<dots> \<longleftrightarrow> a = b \<and> x = y"
    by (simp only: law[OF assms] ord_then_eq_Equal cmp_eq[OF assms] ocmp_simps)
  finally show ?thesis .
qed

lemma enc_inject: "wf a \<Longrightarrow> wf b \<Longrightarrow> enc a = enc b \<longleftrightarrow> a = b"
  using append_cancel[of a b "[]" "[]"] by simp

lemma prefix_free: "wf a \<Longrightarrow> wf b \<Longrightarrow> enc b = enc a @ x \<Longrightarrow> a = b \<and> x = []"
  using append_cancel[of a b x "[]"] by simp

lemma cmp_reverse: "wf a \<Longrightarrow> wf b \<Longrightarrow> cmp b a = ord_reverse (cmp a b)"
  by (simp add: ord_reverse_ocmp flip: order_preserving)

lemma cmp_trans:
  "wf a \<Longrightarrow> wf b \<Longrightarrow> wf c \<Longrightarrow> cmp a b = Less \<Longrightarrow> cmp b c = Less \<Longrightarrow> cmp a c = Less"
  by (simp flip: order_preserving)

text \<open>Everything that starts with one encoding sits on one side of any other value's encoding.\<close>

lemma extension_side:
  "wf a \<Longrightarrow> wf b \<Longrightarrow> a \<noteq> b \<Longrightarrow> ocmp (enc a @ x) (enc b @ y) = cmp a b"
  by (simp add: law cmp_eq ord_then_nonequal)

end

text \<open>
  A codec adds the decoder: it inverts the encoding in front of any bytes and accepts nothing that
  is not an encoding. That the comparison is \<open>Equal\<close> on equal values only is then a consequence.
\<close>

locale codec =
  fixes wf :: "'a \<Rightarrow> bool"
    and enc :: "'a \<Rightarrow> bytes"
    and cmp :: "'a \<Rightarrow> 'a \<Rightarrow> ordering"
    and dec :: "bytes \<Rightarrow> 'e + 'a \<times> nat"
  assumes code_law: "wf a \<Longrightarrow> wf b \<Longrightarrow> ocmp (enc a @ x) (enc b @ y) = ord_then (cmp a b) (ocmp x y)"
    and dec_enc: "wf a \<Longrightarrow> dec (enc a @ rest) = Inr (a, length (enc a))"
    and dec_canonical: "dec bs = Inr (a, n)
      \<Longrightarrow> wf a \<and> n = length (enc a) \<and> (\<exists>rest. bs = enc a @ rest)"
begin

lemma dec_iff: "dec bs = Inr (a, n) \<longleftrightarrow> wf a \<and> n = length (enc a) \<and> (\<exists>rest. bs = enc a @ rest)"
  using dec_enc dec_canonical by blast

lemma dec_take: "dec bs = Inr (a, n) \<Longrightarrow> take n bs = enc a \<and> n \<le> length bs"
  using dec_canonical by fastforce

lemma dec_eq: "wf a \<Longrightarrow> wf b \<Longrightarrow> enc a = enc b \<Longrightarrow> a = b"
  using dec_enc[of a "[]"] dec_enc[of b "[]"] by simp

end

sublocale codec \<subseteq> order: order_code wf enc cmp
proof
  show law: "ocmp (enc a @ x) (enc b @ y) = ord_then (cmp a b) (ocmp x y)" if "wf a" "wf b" for a b x y
    using that by (rule code_law)
  show "cmp a b = Equal \<longleftrightarrow> a = b" if "wf a" "wf b" for a b
    using law[OF that, of "[]" "[]"] dec_eq[OF that] by auto
qed

section \<open>Sequences\<close>

fun list_cmp :: "('a \<Rightarrow> 'a \<Rightarrow> ordering) \<Rightarrow> 'a list \<Rightarrow> 'a list \<Rightarrow> ordering" where
  "list_cmp cmp [] [] = Equal"
| "list_cmp cmp [] (_ # _) = Less"
| "list_cmp cmp (_ # _) [] = Greater"
| "list_cmp cmp (a # as) (b # bs) = ord_then (cmp a b) (list_cmp cmp as bs)"

lemma list_cmp_cong [fundef_cong]:
  "as = as' \<Longrightarrow> bs = bs' \<Longrightarrow> (\<And>a b. a \<in> set as' \<Longrightarrow> b \<in> set bs' \<Longrightarrow> f a b = g a b)
    \<Longrightarrow> list_cmp f as bs = list_cmp g as' bs'"
proof (induction as bs arbitrary: as' bs' rule: list_cmp.induct)
  case (4 cmp a as b bs)
  then show ?case by force
qed auto

lemma list_cmp_eq:
  "(\<And>a b. a \<in> set as \<Longrightarrow> b \<in> set bs \<Longrightarrow> cmp a b = Equal \<longleftrightarrow> a = b)
    \<Longrightarrow> list_cmp cmp as bs = Equal \<longleftrightarrow> as = bs"
  by (induction cmp as bs rule: list_cmp.induct) auto

lemma list_cmp_ocmp: "list_cmp ocmp as bs = ocmp as bs"
  by (induction "ocmp :: 'a \<Rightarrow> 'a \<Rightarrow> ordering" as bs rule: list_cmp.induct) auto

text \<open>
  The sequence law: elements with the code law, each starting above the terminator \<open>t\<close>, closed by
  \<open>t\<close>, compare lexicographically.
\<close>

lemma seq_code_law:
  assumes "\<And>a b x y. a \<in> set as \<Longrightarrow> b \<in> set bs
             \<Longrightarrow> ocmp (enc a @ x) (enc' b @ y) = ord_then (cmp a b) (ocmp x y)"
    and "\<And>a. a \<in> set as \<Longrightarrow> enc a \<noteq> [] \<and> t < hd (enc a)"
    and "\<And>b. b \<in> set bs \<Longrightarrow> enc' b \<noteq> [] \<and> t < hd (enc' b)"
  shows "ocmp (concat (map enc as) @ t # x) (concat (map enc' bs) @ t # y)
       = ord_then (list_cmp cmp as bs) (ocmp x y)"
  using assms
proof (induction cmp as bs rule: list_cmp.induct)
  case (2 cmp b bs)
  then show ?case by (cases "enc' b") (fastforce simp: ocmp_def)+
next
  case (3 cmp a as)
  then show ?case by (cases "enc a") (fastforce simp: ocmp_def)+
next
  case (4 cmp a as b bs)
  have "ocmp (concat (map enc as) @ t # x) (concat (map enc' bs) @ t # y)
      = ord_then (list_cmp cmp as bs) (ocmp x y)"
    by (rule "4.IH") (simp_all add: "4.prems")
  then show ?case by (simp add: "4.prems" ord_then_assoc)
qed simp

lemma ocmp_append_law:
  "ocmp as bs \<noteq> Equal \<Longrightarrow> length as = length bs \<Longrightarrow> ocmp (as @ x) (bs @ y) = ocmp as bs"
  by (simp add: ocmp_append_eq_length ord_then_nonequal)

text \<open>The comparison loop of the source: element by element, then by length.\<close>

fun zip_cmp :: "('a \<Rightarrow> 'a \<Rightarrow> ordering) \<Rightarrow> 'a list \<Rightarrow> 'a list \<Rightarrow> ordering" where
  "zip_cmp f (x # xs) (y # ys) =
     (case f x y of Equal \<Rightarrow> zip_cmp f xs ys | c \<Rightarrow> c)"
| "zip_cmp f _ _ = Equal"

definition slice_cmp :: "('a \<Rightarrow> 'a \<Rightarrow> ordering) \<Rightarrow> 'a list \<Rightarrow> 'a list \<Rightarrow> ordering" where
  "slice_cmp f xs ys = ord_then (zip_cmp f xs ys) (ocmp (length xs) (length ys))"

lemma ocmp_Suc [simp]: "ocmp (Suc a) (Suc b) = ocmp a b"
  by (simp add: ocmp_def)

lemma slice_cmp_list_cmp: "slice_cmp f xs ys = list_cmp f xs ys"
proof (induction f xs ys rule: list_cmp.induct)
  case (4 f a as b bs)
  then show ?case by (cases "f a b") (auto simp: slice_cmp_def)
qed (auto simp: slice_cmp_def ocmp_def)

lemma slice_cmp_cong [fundef_cong]:
  "as = as' \<Longrightarrow> bs = bs' \<Longrightarrow> (\<And>a b. a \<in> set as' \<Longrightarrow> b \<in> set bs' \<Longrightarrow> f a b = g a b)
    \<Longrightarrow> slice_cmp f as bs = slice_cmp g as' bs'"
  unfolding slice_cmp_list_cmp by (rule list_cmp_cong)

end
