(* ===== verification/Num_Key.thy ===== *)
theory Num_Key
  imports Order_Code
begin

text \<open>
  The unified numeric domain of \<open>crates/kyzo-model/src/value/number.rs\<close>: \<open>Num\<close> is an \<open>i64\<close> or an
  \<open>f64\<close>, ordered by exact real value with \<open>Int\<close> before \<open>Float\<close> on equal reals, and written as an
  order-preserving key.

  A float is its IEEE 754 binary64 bit pattern, a 64-bit word; the operations of \<open>f64\<close> that the
  source uses (\<open>is_nan\<close>, \<open>abs\<close>, negation, the comparisons with zero, \<open>to_bits\<close>) are read off the
  bits. \<open>num_real\<close> is the real number a finite \<open>Num\<close> denotes; it is the specification the
  comparison and the key are measured against, and no definition that models the code uses it.
\<close>

unbundle bit_operations_syntax

section \<open>Floats as bit patterns\<close>

type_synonym f64 = "64 word"

definition f64_abs :: "f64 \<Rightarrow> f64" where
  "f64_abs b = take_bit 63 b"

definition f64_neg :: "f64 \<Rightarrow> f64" where
  "f64_neg b = flip_bit 63 b"

definition f64_is_nan :: "f64 \<Rightarrow> bool" where
  "f64_is_nan b \<longleftrightarrow> 0x7FF0000000000000 < f64_abs b"

definition f64_is_infinite :: "f64 \<Rightarrow> bool" where
  "f64_is_infinite b \<longleftrightarrow> f64_abs b = 0x7FF0000000000000"

definition f64_is_finite :: "f64 \<Rightarrow> bool" where
  "f64_is_finite b \<longleftrightarrow> f64_abs b < 0x7FF0000000000000"

definition f64_eq_zero :: "f64 \<Rightarrow> bool" where
  "f64_eq_zero b \<longleftrightarrow> f64_abs b = 0"

definition f64_lt_zero :: "f64 \<Rightarrow> bool" where
  "f64_lt_zero b \<longleftrightarrow> bit b 63 \<and> \<not> f64_is_nan b \<and> \<not> f64_eq_zero b"

section \<open>Num and its normalizing constructors\<close>

datatype knum = NInt i64 | NFloat f64

definition CANON_NAN_BITS :: u64 where
  "CANON_NAN_BITS = 0x7FF8000000000000"

definition num_int :: "i64 \<Rightarrow> knum" where
  "num_int v = NInt v"

definition num_float :: "f64 \<Rightarrow> knum" where
  "num_float v =
     (if f64_is_nan v then NFloat CANON_NAN_BITS
      else if f64_eq_zero v then NFloat 0
      else NFloat v)"

fun as_int :: "knum \<Rightarrow> i64 option" where
  "as_int (NInt v) = Some v"
| "as_int (NFloat _) = None"

fun as_float :: "knum \<Rightarrow> f64 option" where
  "as_float (NFloat v) = Some v"
| "as_float (NInt _) = None"

definition CLASS_NEG :: u8 where "CLASS_NEG = 0x01"
definition CLASS_ZERO :: u8 where "CLASS_ZERO = 0x02"
definition CLASS_POS :: u8 where "CLASS_POS = 0x03"
definition CLASS_NAN :: u8 where "CLASS_NAN = 0x04"
definition REPR_INT :: u8 where "REPR_INT = 0x00"
definition REPR_FLOAT :: u8 where "REPR_FLOAT = 0x01"
definition EXP_OFFSET :: int where "EXP_OFFSET = 1080"
definition EXP_INF :: u16 where "EXP_INF = 0xFFFF"

fun repr_byte :: "knum \<Rightarrow> u8" where
  "repr_byte (NInt _) = REPR_INT"
| "repr_byte (NFloat _) = REPR_FLOAT"

section \<open>Sign and magnitude\<close>

datatype magnitude = Finite (exp_key: u16) (frac72: u128) | Inf

definition magnitude_finite :: "int \<Rightarrow> u128 \<Rightarrow> magnitude" where
  "magnitude_finite e f = Finite (word_of_int (e + EXP_OFFSET)) f"

definition unsigned_abs :: "i64 \<Rightarrow> u64" where
  "unsigned_abs v = (if sint v < 0 then - v else v)"

fun sign_magnitude :: "knum \<Rightarrow> bool \<times> magnitude" where
  "sign_magnitude (NInt v) =
     (let neg = sint v < 0;
          m = unsigned_abs v;
          bl = 64 - leading_zeros m;
          frac = push_bit (72 - bl) (ucast m)
      in (neg, magnitude_finite (int bl) frac))"
| "sign_magnitude (NFloat v) =
     (let neg = f64_lt_zero v in
      if f64_is_infinite v then (neg, Inf)
      else
        let bits = f64_abs v;
            expf = uint (drop_bit 52 bits);
            frac52 = bits AND mask 52
        in if 0 < expf then
             let sig53 = push_bit 52 1 OR frac52;
                 e = expf - 1023 + 1
             in (neg, magnitude_finite e (push_bit 19 (ucast sig53)))
           else
             let bl = 64 - leading_zeros frac52;
                 e = int bl - 1074
             in (neg, magnitude_finite e (push_bit (72 - bl) (ucast frac52))))"

fun num_class :: "knum \<Rightarrow> u8" where
  "num_class (NInt v) =
     (if v = 0 then CLASS_ZERO else if sint v < 0 then CLASS_NEG else CLASS_POS)"
| "num_class (NFloat v) =
     (if f64_is_nan v then CLASS_NAN
      else if v = 0 then CLASS_ZERO
      else if f64_lt_zero v then CLASS_NEG else CLASS_POS)"

section \<open>The order-preserving key\<close>

definition complement :: "bytes \<Rightarrow> bytes" where
  "complement bs = map (\<lambda>b. NOT b) bs"

fun magnitude_bytes :: "magnitude \<Rightarrow> bytes" where
  "magnitude_bytes Inf = to_be_bytes EXP_INF @ replicate 9 0xFF"
| "magnitude_bytes (Finite e f) = to_be_bytes e @ drop 7 (to_be_bytes f)"

definition signed_key :: "knum \<Rightarrow> bytes" where
  "signed_key n =
     (let (neg, mag) = sign_magnitude n;
          body = magnitude_bytes mag
      in (if neg then CLASS_NEG else CLASS_POS) #
         (if neg then complement body else body) @ [repr_byte n])"

fun encode_key :: "knum \<Rightarrow> bytes" where
  "encode_key (NInt v) =
     (if v = 0 then [CLASS_ZERO, REPR_INT] else signed_key (NInt v))"
| "encode_key (NFloat v) =
     (if v = 0 then [CLASS_ZERO, REPR_FLOAT]
      else if f64_is_nan v then [CLASS_NAN, REPR_FLOAT]
      else signed_key (NFloat v))"

datatype num_decode_error =
  NumTruncated | BadClass | BadRepr | BadInfinity | Denormalized | IntRange | FloatRange

definition rebuild_int :: "bool \<Rightarrow> int \<Rightarrow> u128 \<Rightarrow> num_decode_error + knum" where
  "rebuild_int neg e f =
     (if \<not> (1 \<le> e \<and> e \<le> 64) then Inl IntRange
      else
        let shift = nat (72 - e) in
        if trailing_zeros f < shift then Inl IntRange
        else
          let m = ucast (drop_bit shift f) :: u64 in
          if neg then
            if push_bit 63 1 < m then Inl IntRange else Inr (num_int (- m))
          else
            if i64_max < m then Inl IntRange else Inr (num_int m))"

definition rebuild_float :: "bool \<Rightarrow> int \<Rightarrow> u128 \<Rightarrow> num_decode_error + knum" where
  "rebuild_float neg e f =
     (if - 1021 \<le> e then
        if 1024 < e then Inl FloatRange
        else if trailing_zeros f < 19 then Inl FloatRange
        else
          let sig53 = ucast (drop_bit 19 f) :: u64;
              expf = word_of_int (e - 1 + 1023) :: u64;
              v = push_bit 52 expf OR (sig53 AND mask 52)
          in Inr (num_float (if neg then f64_neg v else v))
      else
        let bl = e + 1074 in
        if \<not> (1 \<le> bl \<and> bl \<le> 52) then Inl FloatRange
        else
          let shift = nat (72 - bl) in
          if trailing_zeros f < shift then Inl FloatRange
          else
            let v = ucast (drop_bit shift f) :: u64
            in Inr (num_float (if neg then f64_neg v else v)))"

definition f64_infinity :: f64 where
  "f64_infinity = 0x7FF0000000000000"

definition decode_body :: "bool \<Rightarrow> bytes \<Rightarrow> u8 \<Rightarrow> num_decode_error + knum \<times> nat" where
  "decode_body neg body repr =
     (let ex = from_be_bytes (take 2 body) :: u16;
          f = from_be_bytes (drop 2 body) :: u128
      in if ex = EXP_INF then
           if f \<noteq> push_bit 72 1 - 1 \<or> repr \<noteq> REPR_FLOAT then Inl BadInfinity
           else Inr (num_float (if neg then f64_neg f64_infinity else f64_infinity), 13)
         else
           let e = uint ex - EXP_OFFSET in
           if drop_bit 71 f \<noteq> 1 then Inl Denormalized
           else if repr = REPR_INT then map_sum id (\<lambda>n. (n, 13)) (rebuild_int neg e f)
           else if repr = REPR_FLOAT then map_sum id (\<lambda>n. (n, 13)) (rebuild_float neg e f)
           else Inl BadRepr)"

definition decode_signed :: "bool \<Rightarrow> bytes \<Rightarrow> num_decode_error + knum \<times> nat" where
  "decode_signed neg bs =
     (if length bs < 13 then Inl NumTruncated
      else
        let body = take 11 (drop 1 bs)
        in decode_body neg (if neg then complement body else body) (bs ! 12))"

definition decode_key :: "bytes \<Rightarrow> num_decode_error + knum \<times> nat" where
  "decode_key bs =
     (case bs of
        [] \<Rightarrow> Inl NumTruncated
      | c # rest \<Rightarrow>
          if c = CLASS_ZERO then
            (case rest of
               [] \<Rightarrow> Inl NumTruncated
             | r # _ \<Rightarrow> if r = REPR_INT then Inr (num_int 0, 2)
                        else if r = REPR_FLOAT then Inr (num_float 0, 2)
                        else Inl BadRepr)
          else if c = CLASS_NAN then
            (case rest of
               [] \<Rightarrow> Inl NumTruncated
             | r # _ \<Rightarrow> if r = REPR_FLOAT then Inr (num_float CANON_NAN_BITS, 2)
                        else Inl BadRepr)
          else if c = CLASS_NEG \<or> c = CLASS_POS then decode_signed (c = CLASS_NEG) bs
          else Inl BadClass)"

section \<open>The storage order and the numeric order\<close>

fun magnitude_cmp :: "magnitude \<Rightarrow> magnitude \<Rightarrow> ordering" where
  "magnitude_cmp Inf Inf = Equal"
| "magnitude_cmp Inf (Finite _ _) = Greater"
| "magnitude_cmp (Finite _ _) Inf = Less"
| "magnitude_cmp (Finite ea fa) (Finite eb fb) = ord_then (ocmp ea eb) (ocmp fa fb)"

definition num_cmp :: "knum \<Rightarrow> knum \<Rightarrow> ordering" where
  "num_cmp a b =
     (let ca = num_class a; cb = num_class b in
      if ca \<noteq> cb then ocmp ca cb
      else if ca = CLASS_ZERO \<or> ca = CLASS_NAN then ocmp (repr_byte a) (repr_byte b)
      else
        let (neg, ma) = sign_magnitude a;
            mb = snd (sign_magnitude b);
            mag = magnitude_cmp ma mb;
            re = (if neg then ord_reverse mag else mag)
        in ord_then re (ocmp (repr_byte a) (repr_byte b)))"


section \<open>Word arithmetic of the magnitude\<close>

lemma unat_push_ucast:
  assumes "unat (m :: u64) * 2 ^ k < 2 ^ 128"
  shows "unat (push_bit k (ucast m :: u128)) = unat m * 2 ^ k"
proof -
  have "unat (ucast m :: u128) = unat m"
    using unat_lt2p[of m] by (simp add: unsigned_ucast_eq take_bit_nat_eq_self)
  then show ?thesis
    using assms by (simp add: unsigned_push_bit_eq push_bit_eq_mult[of k "unat m"] take_bit_nat_eq_self)
qed

lemma push_mod_bound:
  assumes "n < 2 ^ bl" "bl \<le> 72"
  shows "n * 2 ^ (72 - bl) < (2::nat) ^ 72"
proof -
  have "n * 2 ^ (72 - bl) < 2 ^ bl * 2 ^ (72 - bl)"
    using assms by simp
  also have "\<dots> = 2 ^ 72"
    using assms(2) by (simp flip: power_add)
  finally show ?thesis .
qed

lemma push_mod_lower:
  assumes "0 < n" "bit_length n \<le> 72"
  shows "(2::nat) ^ 71 \<le> n * 2 ^ (72 - bit_length n)"
proof -
  have pos: "0 < bit_length n" using assms(1) by (simp add: bit_length_pos)
  then have "(2::nat) ^ 71 = 2 ^ (bit_length n - 1) * 2 ^ (72 - bit_length n)"
    using assms(2) by (simp flip: power_add)
  also have "\<dots> \<le> n * 2 ^ (72 - bit_length n)"
    using bit_length_ge[OF assms(1)] by simp
  finally show ?thesis .
qed

section \<open>The key embeds the comparison\<close>

lemma length_complement [simp]: "length (complement bs) = length bs"
  by (simp add: complement_def)

lemma complement_complement [simp]: "complement (complement bs) = bs"
  by (simp add: complement_def comp_def)

lemma ocmp_complement:
  "length as = length bs \<Longrightarrow> ocmp (complement as) (complement bs) = ord_reverse (ocmp as bs)"
proof (induction as bs rule: list_induct2)
  case (Cons a as b bs)
  have "ocmp (NOT a) (NOT b) = ord_reverse (ocmp a b)"
    by (auto simp: ord_reverse_ocmp ocmp_def not_less_not_iff)
  with Cons show ?case
    by (simp add: complement_def ord_reverse_then)
qed (simp add: complement_def)


section \<open>What sign and magnitude compute\<close>

definition f64_expo :: "f64 \<Rightarrow> nat" where
  "f64_expo v = unat (f64_abs v) div 2 ^ 52"

definition f64_fraction :: "f64 \<Rightarrow> nat" where
  "f64_fraction v = unat (f64_abs v) mod 2 ^ 52"

lemma unat_f64_abs: "unat (f64_abs v) = f64_expo v * 2 ^ 52 + f64_fraction v"
  unfolding f64_expo_def f64_fraction_def by (rule div_mult_mod_eq[symmetric])

lemma f64_fraction_less: "f64_fraction v < 2 ^ 52"
  by (simp add: f64_fraction_def)

lemma f64_expo_le: "f64_expo v \<le> 2047"
proof -
  have "unat (f64_abs v) < 2 ^ 63"
    by (simp add: f64_abs_def unat_take_bit)
  then show ?thesis
    unfolding f64_expo_def by simp
qed

lemma f64_finite_expo: "f64_is_finite v \<longleftrightarrow> f64_expo v \<le> 2046"
proof -
  have "f64_is_finite v \<longleftrightarrow> unat (f64_abs v) < 2047 * 2 ^ 52"
    by (simp add: f64_is_finite_def word_less_nat_alt)
  then show ?thesis
    using f64_fraction_less[of v] by (simp add: unat_f64_abs) linarith
qed

lemma f64_trichotomy: "f64_is_nan v \<or> f64_is_infinite v \<or> f64_is_finite v"
  by (auto simp: f64_is_nan_def f64_is_infinite_def f64_is_finite_def)

lemma f64_finite_not: "f64_is_finite v \<Longrightarrow> \<not> f64_is_nan v \<and> \<not> f64_is_infinite v"
  by (auto simp: f64_is_nan_def f64_is_infinite_def f64_is_finite_def)

lemma uint_unsigned_abs [simp]: "uint (unsigned_abs v) = \<bar>sint v\<bar>"
proof (cases "sint v < 0")
  case True
  then have "uint (- v) = (- (sint v + 2 ^ 64)) mod 2 ^ 64"
    by (simp add: uint_word_ariths(4) uint_i64[of v])
  also have "\<dots> = (- sint v) mod 2 ^ 64"
    by (metis add_uminus_conv_diff minus_add_distrib minus_mod_self2)
  also have "\<dots> = - sint v"
    using True sint_bounds[of v] by (intro mod_pos_pos_trivial) simp_all
  finally show ?thesis
    using True by (simp add: unsigned_abs_def)
next
  case False
  then show ?thesis
    by (simp add: unsigned_abs_def uint_i64)
qed


lemma unat_push_normalized:
  assumes "unat (m :: u64) < 2 ^ bl" "bl \<le> 72"
  shows "unat (push_bit (72 - bl) (ucast m :: u128)) = unat m * 2 ^ (72 - bl)"
proof (rule unat_push_ucast)
  have "unat m * 2 ^ (72 - bl) < 2 ^ 72" using assms by (rule push_mod_bound)
  then show "unat m * 2 ^ (72 - bl) < 2 ^ 128" by simp
qed

text \<open>
  A finite number is a significand times a power of two. This is the reading of the bits that IEEE
  754 gives; the real value is defined from it.
\<close>

fun num_finite :: "knum \<Rightarrow> bool" where
  "num_finite (NInt v) = True"
| "num_finite (NFloat v) = f64_is_finite v"

fun num_neg :: "knum \<Rightarrow> bool" where
  "num_neg (NInt v) \<longleftrightarrow> sint v < 0"
| "num_neg (NFloat v) \<longleftrightarrow> bit v 63"

fun num_sig :: "knum \<Rightarrow> nat" where
  "num_sig (NInt v) = nat \<bar>sint v\<bar>"
| "num_sig (NFloat v) = (if f64_expo v = 0 then f64_fraction v else 2 ^ 52 + f64_fraction v)"

fun num_ulp :: "knum \<Rightarrow> int" where
  "num_ulp (NInt v) = 0"
| "num_ulp (NFloat v) = int (max 1 (f64_expo v)) - 1075"

definition num_real :: "knum \<Rightarrow> real" where
  "num_real n =
     (if num_finite n then (if num_neg n then - 1 else 1) * (real (num_sig n) * 2 powi num_ulp n)
      else 0)"

text \<open>
  The extended line: \<open>-\<infinity>\<close> below every finite number, then \<open>+\<infinity>\<close>, then NaN.
\<close>

fun num_level :: "knum \<Rightarrow> nat" where
  "num_level (NInt v) = 1"
| "num_level (NFloat v) =
     (if f64_is_nan v then 3 else if f64_is_finite v then 1 else if bit v 63 then 0 else 2)"

lemma num_sig_less: "num_sig n < 2 ^ 64"
proof (cases n)
  case (NInt v)
  then show ?thesis using sint_bounds[of v] by (simp add: nat_less_iff)
next
  case (NFloat v)
  then show ?thesis using f64_fraction_less[of v] by simp
qed

lemma num_sig_bit_length: "bit_length (num_sig n) \<le> 64"
  using num_sig_less[of n] by (simp only: bit_length_le_iff)

lemma num_sig_zero_iff:
  "num_sig (NInt v) = 0 \<longleftrightarrow> v = 0"
  "num_sig (NFloat v) = 0 \<longleftrightarrow> f64_eq_zero v"
proof -
  show "num_sig (NInt v) = 0 \<longleftrightarrow> v = 0" by (simp add: signed_eq_0_iff)
  have "f64_eq_zero v \<longleftrightarrow> unat (f64_abs v) = 0"
    by (simp add: f64_eq_zero_def unat_eq_0)
  then show "num_sig (NFloat v) = 0 \<longleftrightarrow> f64_eq_zero v"
    by (auto simp: unat_f64_abs)
qed

lemma sign_magnitude_int:
  assumes "v \<noteq> 0"
  shows "\<exists>f. sign_magnitude (NInt v)
             = (sint v < 0, magnitude_finite (int (bit_length (num_sig (NInt v)))) f)
           \<and> unat f = num_sig (NInt v) * 2 ^ (72 - bit_length (num_sig (NInt v)))"
proof -
  let ?m = "unsigned_abs v" and ?s = "num_sig (NInt v)"
  have m: "unat ?m = ?s"
    by (simp add: unat_eq_nat_uint)
  have "sign_magnitude (NInt v)
      = (sint v < 0, magnitude_finite (int (bit_length ?s)) (push_bit (72 - bit_length ?s) (ucast ?m)))"
    using leading_zeros_length[of ?m] by (simp add: Let_def m del: num_sig.simps)
  moreover have "unat (push_bit (72 - bit_length ?s) (ucast ?m :: u128)) = ?s * 2 ^ (72 - bit_length ?s)"
    using unat_push_normalized[of ?m "bit_length ?s"] bit_length_less[of ?s]
      num_sig_bit_length[of "NInt v"] by (simp only: m)
  ultimately show ?thesis by blast
qed

lemma unat_sig53:
  "unat (push_bit 52 1 OR (f64_abs v AND mask 52) :: u64) = 2 ^ 52 + f64_fraction v"
proof -
  have "push_bit 52 1 OR (f64_abs v AND mask 52) = push_bit 52 1 + (f64_abs v AND mask 52)"
  proof (rule disjunctive_add_eq_or[symmetric], rule bit_eqI)
    fix n
    show "bit (push_bit 52 1 AND (f64_abs v AND mask 52)) n = bit (0 :: u64) n"
      by (simp only: bit_and_iff bit_push_bit_iff bit_mask_iff bit_1_iff bit_0_eq bot_apply) auto
  qed
  moreover have "unat (f64_abs v AND mask 52) = f64_fraction v"
    by (simp add: f64_fraction_def unat_and_mask)
  ultimately show ?thesis
    using f64_fraction_less[of v] by (simp add: unat_plus_if')
qed


lemma unat_frac52: "unat (f64_abs v AND mask 52) = f64_fraction v"
  by (simp add: f64_fraction_def unat_and_mask)

lemma sign_magnitude_float:
  assumes "f64_is_finite v"
  shows "\<exists>f. sign_magnitude (NFloat v)
             = (f64_lt_zero v,
                magnitude_finite (num_ulp (NFloat v) + int (bit_length (num_sig (NFloat v)))) f)
           \<and> unat f = num_sig (NFloat v) * 2 ^ (72 - bit_length (num_sig (NFloat v)))"
proof (cases "f64_expo v = 0")
  case False
  define S :: u64 where "S = push_bit 52 1 OR (f64_abs v AND mask 52)"
  have e: "uint (drop_bit 52 (f64_abs v)) = int (f64_expo v)"
    unfolding f64_expo_def unat_drop_bit[symmetric] by simp
  have sig: "num_sig (NFloat v) = unat S"
    unfolding S_def unat_sig53 using False by simp
  have "2 ^ 52 \<le> unat S" "unat S < 2 ^ Suc 52"
    using f64_fraction_less[of v] unfolding S_def unat_sig53 by simp_all
  then have bl: "bit_length (unat S) = 53"
    by (subst bit_length_unique) simp_all
  have "sign_magnitude (NFloat v)
      = (f64_lt_zero v, magnitude_finite (int (f64_expo v) - 1022) (push_bit 19 (ucast S)))"
    using f64_finite_not[OF assms] False by (simp add: Let_def e S_def)
  moreover have "unat S < 2 ^ 53"
    using bit_length_less[of "unat S"] by (simp only: bl)
  then have "unat (push_bit (72 - 53) (ucast S :: u128)) = unat S * 2 ^ (72 - 53)"
    by (rule unat_push_normalized) simp
  ultimately show ?thesis
    unfolding sig bl using False by (intro exI[of _ "push_bit 19 (ucast S)"]) simp
next
  case True
  let ?s = "f64_abs v AND mask 52 :: u64"
  have e: "drop_bit 52 (f64_abs v) = 0"
    using True by (simp add: word_unat_eq_iff unat_drop_bit f64_expo_def)
  have sig: "num_sig (NFloat v) = unat ?s"
    using True by (simp add: unat_frac52)
  have bl: "bit_length (unat ?s) \<le> 52"
    using f64_fraction_less[of v] by (simp only: bit_length_le_iff unat_frac52)
  have "sign_magnitude (NFloat v)
      = (f64_lt_zero v, magnitude_finite (int (bit_length (unat ?s)) - 1074)
           (push_bit (72 - bit_length (unat ?s)) (ucast ?s)))"
    using f64_finite_not[OF assms] leading_zeros_length[of ?s] by (simp add: Let_def e)
  moreover have "unat (push_bit (72 - bit_length (unat ?s)) (ucast ?s :: u128))
      = unat ?s * 2 ^ (72 - bit_length (unat ?s))"
    by (rule unat_push_normalized) (use bl bit_length_less[of "unat ?s"] in auto)
  ultimately show ?thesis
    unfolding sig using True by (intro exI conjI) simp_all
qed

lemma f64_lt_zero_bit: "\<not> f64_is_nan v \<Longrightarrow> \<not> f64_eq_zero v \<Longrightarrow> f64_lt_zero v = bit v 63"
  by (simp add: f64_lt_zero_def)

lemma sign_magnitude_finite:
  assumes "num_finite n" "num_sig n \<noteq> 0"
  shows "\<exists>f. sign_magnitude n
             = (num_neg n, magnitude_finite (num_ulp n + int (bit_length (num_sig n))) f)
           \<and> unat f = num_sig n * 2 ^ (72 - bit_length (num_sig n))"
proof (cases n)
  case (NInt v)
  with assms(2) have "v \<noteq> 0" by auto
  from sign_magnitude_int[OF this] show ?thesis
    by (simp only: NInt num_ulp.simps num_neg.simps add_0)
next
  case (NFloat v)
  with assms have fin: "f64_is_finite v" and "\<not> f64_eq_zero v"
    using num_sig_zero_iff(2)[of v] by auto
  then have "f64_lt_zero v = bit v 63"
    using f64_lt_zero_bit[of v] f64_finite_not[of v] by blast
  with sign_magnitude_float[OF fin] show ?thesis
    by (simp only: NFloat num_neg.simps)
qed

lemma num_exp_range:
  assumes "num_finite n" "num_sig n \<noteq> 0"
  shows "- 1073 \<le> num_ulp n + int (bit_length (num_sig n))"
    and "num_ulp n + int (bit_length (num_sig n)) \<le> 1024"
proof -
  have bl: "1 \<le> bit_length (num_sig n)"
    using assms(2) by (simp add: bit_length_pos)
  show "- 1073 \<le> num_ulp n + int (bit_length (num_sig n))"
    using bl by (cases n) (simp_all del: num_sig.simps)
  show "num_ulp n + int (bit_length (num_sig n)) \<le> 1024"
  proof (cases n)
    case (NInt v)
    with num_sig_bit_length[of n] show ?thesis by simp
  next
    case (NFloat v)
    have "num_sig n < 2 ^ 53"
      using f64_fraction_less[of v] NFloat by simp
    then have "bit_length (num_sig n) \<le> 53" by (simp only: bit_length_le_iff)
    moreover have "num_ulp n \<le> 971"
      using assms(1) NFloat f64_finite_expo[of v] by simp
    ultimately show ?thesis by linarith
  qed
qed

lemma uint_exp_key:
  assumes "- 1073 \<le> e" "e \<le> 1024"
  shows "uint (exp_key (magnitude_finite e f)) = e + 1080"
  unfolding magnitude_finite_def EXP_OFFSET_def magnitude.sel unsigned_of_int take_bit_eq_mod
  using assms by (subst mod_pos_pos_trivial) simp_all

section \<open>Normalized numbers\<close>

fun num_wf :: "knum \<Rightarrow> bool" where
  "num_wf (NInt v) = True"
| "num_wf (NFloat v) \<longleftrightarrow> (f64_is_nan v \<longrightarrow> v = CANON_NAN_BITS) \<and> (f64_eq_zero v \<longrightarrow> v = 0)"

lemma f64_zero_facts [simp]:
  "f64_eq_zero 0" "\<not> f64_is_nan 0" "f64_is_nan CANON_NAN_BITS" "\<not> f64_eq_zero CANON_NAN_BITS"
  by (simp_all add: f64_eq_zero_def f64_is_nan_def f64_abs_def CANON_NAN_BITS_def
      word_less_nat_alt word_unat_eq_iff unat_take_bit)

lemma num_wf_constructors: "num_wf (num_int i)" "num_wf (num_float v)"
  by (simp_all add: num_int_def num_float_def)

lemma num_float_wf: "num_wf (NFloat v) \<Longrightarrow> num_float v = NFloat v"
  by (auto simp: num_float_def)

fun mag_ok :: "magnitude \<Rightarrow> bool" where
  "mag_ok Inf = True"
| "mag_ok (Finite e f) \<longleftrightarrow> e < EXP_INF \<and> unat f < 2 ^ 72"

definition num_signed :: "knum \<Rightarrow> bool" where
  "num_signed n \<longleftrightarrow> num_class n \<noteq> CLASS_ZERO \<and> num_class n \<noteq> CLASS_NAN"

lemmas class_defs = CLASS_NEG_def CLASS_ZERO_def CLASS_POS_def CLASS_NAN_def
lemmas repr_defs = REPR_INT_def REPR_FLOAT_def

lemma fst_sign_magnitude [simp]:
  "fst (sign_magnitude (NInt v)) \<longleftrightarrow> sint v < 0"
  "fst (sign_magnitude (NFloat v)) = f64_lt_zero v"
  by (simp_all only: sign_magnitude.simps Let_def if_distrib[of fst] fst_conv if_cancel)

declare sign_magnitude.simps [simp del]

lemma num_signed_iff [simp]:
  "num_signed (NInt v) \<longleftrightarrow> v \<noteq> 0"
  "num_signed (NFloat v) \<longleftrightarrow> \<not> f64_is_nan v \<and> v \<noteq> 0"
  by (simp_all add: num_signed_def class_defs)

lemma num_signed_cases:
  assumes "num_wf n" "num_signed n"
  obtains (finite) "num_finite n" "num_sig n \<noteq> 0"
  | (infinite) v where "n = NFloat v" "f64_is_infinite v"
proof (cases n)
  case (NInt v)
  with assms(2) have "v \<noteq> 0" by (auto simp: num_signed_def)
  with NInt show thesis by (intro finite) (simp_all add: signed_eq_0_iff)
next
  case (NFloat v)
  with assms have "\<not> f64_is_nan v" "v \<noteq> 0"
    by (auto simp: num_signed_def split: if_splits)
  with assms NFloat have "\<not> f64_eq_zero v" by simp
  with NFloat \<open>\<not> f64_is_nan v\<close> f64_trichotomy[of v] num_sig_zero_iff(2)[of v] show thesis
    by (cases "f64_is_infinite v") (auto intro: finite infinite simp del: num_sig.simps)
qed

lemma num_signed_magnitude:
  assumes "num_wf n" "num_signed n"
  shows "mag_ok (snd (sign_magnitude n))"
    and "num_class n = (if fst (sign_magnitude n) then CLASS_NEG else CLASS_POS)"
proof -
  show "mag_ok (snd (sign_magnitude n))"
    using assms
  proof (cases rule: num_signed_cases)
    case finite
    then obtain f where sm: "snd (sign_magnitude n) = magnitude_finite (num_ulp n + int (bit_length (num_sig n))) f"
      and f: "unat f = num_sig n * 2 ^ (72 - bit_length (num_sig n))"
      using sign_magnitude_finite by fastforce
    have "unat f < 2 ^ 72"
      unfolding f using num_sig_bit_length[of n] by (intro push_mod_bound bit_length_less) simp
    moreover have "uint (exp_key (magnitude_finite (num_ulp n + int (bit_length (num_sig n))) f)) \<le> 2104"
      using num_exp_range[OF finite] by (subst uint_exp_key) simp_all
    ultimately show ?thesis
      unfolding sm by (simp add: magnitude_finite_def EXP_INF_def word_less_def)
  next
    case (infinite v)
    then show ?thesis by (simp add: sign_magnitude.simps)
  qed
  show "num_class n = (if fst (sign_magnitude n) then CLASS_NEG else CLASS_POS)"
    using assms(2) by (cases n) simp_all
qed

lemma drop_be_nat: "drop k (be_nat (k + n) x) = be_nat n x"
  by (induction k) simp_all

lemma frac72_bytes: "drop 7 (to_be_bytes (f :: u128)) = be_nat 9 (unat f)"
  using drop_be_nat[of 7 9 "unat f"] by (simp add: to_be_bytes_def)

lemma length_magnitude_bytes [simp]: "length (magnitude_bytes m) = 11"
  by (cases m) simp_all

lemma ocmp_magnitude_bytes:
  "mag_ok a \<Longrightarrow> mag_ok b \<Longrightarrow> ocmp (magnitude_bytes a) (magnitude_bytes b) = magnitude_cmp a b"
  by (induction a b rule: magnitude_cmp.induct)
    (auto simp: ocmp_append_eq_length frac72_bytes ocmp_be_nat ocmp_unat ocmp_def[of EXP_INF]
      ocmp_def[where b = EXP_INF])

definition key_body :: "knum \<Rightarrow> bytes" where
  "key_body n =
     (if num_signed n then
        let (neg, mag) = sign_magnitude n;
            body = magnitude_bytes mag
        in if neg then complement body else body
      else [])"

lemma encode_key_shape:
  assumes "num_wf n"
  shows "encode_key n = num_class n # key_body n @ [repr_byte n]"
proof (cases "num_signed n")
  case True
  have "encode_key n = signed_key n"
    using True by (cases n) simp_all
  with num_signed_magnitude(2)[OF assms True] True show ?thesis
    by (cases "sign_magnitude n") (simp add: signed_key_def key_body_def)
next
  case False
  then show ?thesis
    by (cases n) (auto simp: key_body_def)
qed

lemma length_key_body: "length (key_body n) = (if num_signed n then 11 else 0)"
  by (cases "sign_magnitude n") (simp add: key_body_def Let_def)

lemma num_cmp_key_body:
  assumes "num_wf a" "num_wf b" "num_class a = num_class b"
  shows "num_cmp a b = ord_then (ocmp (key_body a) (key_body b)) (ocmp (repr_byte a) (repr_byte b))"
proof (cases "num_signed a")
  case True
  with assms(3) have b: "num_signed b" by (simp add: num_signed_def)
  obtain na ma nb mb where sm: "sign_magnitude a = (na, ma)" "sign_magnitude b = (nb, mb)"
    by fastforce
  have "(if na then CLASS_NEG else CLASS_POS) = (if nb then CLASS_NEG else CLASS_POS)"
    using num_signed_magnitude(2)[OF assms(1) True] num_signed_magnitude(2)[OF assms(2) b] assms(3)
    by (simp only: sm fst_conv)
  then have "na = nb"
    by (simp add: class_defs split: if_splits)
  moreover have "ocmp (magnitude_bytes ma) (magnitude_bytes mb) = magnitude_cmp ma mb"
    using num_signed_magnitude(1)[OF assms(1) True] num_signed_magnitude(1)[OF assms(2) b]
    by (simp add: sm ocmp_magnitude_bytes)
  ultimately show ?thesis
    using True b assms(3)
    by (simp add: num_cmp_def key_body_def sm ocmp_complement num_signed_def Let_def)
next
  case False
  with assms(3) show ?thesis
    by (auto simp: num_cmp_def key_body_def num_signed_def)
qed

lemma encode_key_law:
  assumes "num_wf a" "num_wf b"
  shows "ocmp (encode_key a @ x) (encode_key b @ y) = ord_then (num_cmp a b) (ocmp x y)"
proof (cases "num_class a = num_class b")
  case True
  then have "length (key_body a) = length (key_body b)"
    by (simp add: length_key_body num_signed_def)
  then have "ocmp (key_body a @ repr_byte a # x) (key_body b @ repr_byte b # y)
      = ord_then (num_cmp a b) (ocmp x y)"
    by (simp only: ocmp_append_eq_length num_cmp_key_body[OF assms True] ocmp_Cons ord_then_assoc)
  then show ?thesis
    by (simp only: encode_key_shape[OF assms(1)] encode_key_shape[OF assms(2)] True
        append_Cons append_assoc append_Nil ocmp_Cons ocmp_refl ord_then.simps)
next
  case False
  then have "num_cmp a b = ocmp (num_class a) (num_class b)" "num_cmp a b \<noteq> Equal"
    by (simp_all add: num_cmp_def)
  then show ?thesis
    by (simp only: encode_key_shape[OF assms(1)] encode_key_shape[OF assms(2)]
        append_Cons ocmp_Cons ord_then_nonequal not_False_eq_True)
qed

section \<open>The comparison is the exact real order\<close>

lemma ocmp_scaled:
  assumes "2 ^ 71 \<le> F" "F < 2 ^ 72" "2 ^ 71 \<le> G" "G < 2 ^ 72"
  shows "ocmp (real F * 2 powi (D - 72)) (real G * 2 powi (E - 72)) = ord_then (ocmp D E) (ocmp F G)"
proof -
  have less: "real F * 2 powi (D - 72) < real G * 2 powi (E - 72)"
    if "D < E" "F < 2 ^ 72" "2 ^ 71 \<le> G" for D E F G
  proof -
    have "real F * 2 powi (D - 72) < 2 ^ 72 * 2 powi (D - 72)"
      using that(2) by (intro mult_strict_right_mono) (simp_all add: less_imp_of_nat_less)
    also have "\<dots> = 2 ^ 71 * 2 powi (D + 1 - 72)"
      by (simp add: power_int_add power_int_diff)
    also have "\<dots> \<le> real G * 2 powi (E - 72)"
      using that(1,3) by (intro mult_mono power_int_increasing) simp_all
    finally show ?thesis .
  qed
  consider "D < E" | "D = E" | "E < D" by linarith
  then show ?thesis
  proof cases
    case 1
    with less[of D E F G] assms show ?thesis by (simp add: ocmp_def)
  next
    case 2
    then show ?thesis by (simp add: ocmp_def)
  next
    case 3
    with less[of E D G F] assms show ?thesis by (simp add: ocmp_def)
  qed
qed

lemma sign_magnitude_real:
  assumes "num_wf n" "num_signed n" "num_finite n"
  obtains E f where "sign_magnitude n = (num_real n < 0, magnitude_finite E f)"
    "\<bar>num_real n\<bar> = real (unat f) * 2 powi (E - 72)" "num_real n \<noteq> 0"
    "2 ^ 71 \<le> unat f" "unat f < 2 ^ 72" "- 1073 \<le> E" "E \<le> 1024"
proof -
  have sig: "num_sig n \<noteq> 0"
    using assms by (cases rule: num_signed_cases) (auto dest: f64_finite_not)
  let ?bl = "bit_length (num_sig n)" and ?E = "num_ulp n + int (bit_length (num_sig n))"
  from sign_magnitude_finite[OF assms(3) sig] obtain f
    where f: "sign_magnitude n = (num_neg n, magnitude_finite ?E f)"
      "unat f = num_sig n * 2 ^ (72 - ?bl)" by blast
  have bl: "?bl \<le> 64" by (rule num_sig_bit_length)
  have scaled: "real (unat f) * 2 powi (?E - 72) = real (num_sig n) * 2 powi num_ulp n"
  proof -
    have "(2::real) ^ (72 - ?bl) * 2 powi (?E - 72) = 2 powi (int (72 - ?bl) + (?E - 72))"
      by (subst power_int_add) simp_all
    also have "int (72 - ?bl) + (?E - 72) = num_ulp n" using bl by simp
    finally show ?thesis by (simp add: f(2))
  qed
  define X where "X = real (num_sig n) * 2 powi num_ulp n"
  have "0 < X"
    unfolding X_def using sig by (intro mult_pos_pos) simp_all
  moreover have "num_real n = (if num_neg n then - 1 else 1) * X"
    using assms(3) by (simp add: X_def num_real_def)
  ultimately have neg: "num_real n < 0 \<longleftrightarrow> num_neg n" and abs: "\<bar>num_real n\<bar> = X"
    and nonzero: "num_real n \<noteq> 0"
    by simp_all
  have range: "2 ^ 71 \<le> unat f" "unat f < 2 ^ 72"
    unfolding f(2) using push_mod_lower[of "num_sig n"] push_mod_bound[OF bit_length_less, of "num_sig n"] bl sig
    by simp_all
  have "sign_magnitude n = (num_real n < 0, magnitude_finite ?E f)"
    "\<bar>num_real n\<bar> = real (unat f) * 2 powi (?E - 72)"
    using f(1) neg abs by (simp_all only: X_def scaled)
  then show thesis
    using that num_exp_range[OF assms(3) sig] range nonzero by blast
qed

lemma ocmp_exp_key:
  assumes "- 1073 \<le> D" "D \<le> 1024" "- 1073 \<le> E" "E \<le> 1024"
  shows "magnitude_cmp (magnitude_finite D f) (magnitude_finite E g)
       = ord_then (ocmp D E) (ocmp (unat f) (unat g))"
proof -
  have "ocmp (exp_key (magnitude_finite D f)) (exp_key (magnitude_finite E g)) = ocmp D E"
    unfolding ocmp_def word_less_def word_uint_eq_iff using assms by (simp add: uint_exp_key)
  then show ?thesis
    by (simp add: magnitude_finite_def ocmp_unat)
qed

lemma num_cmp_finite:
  assumes "num_wf a" "num_wf b" "num_signed a" "num_signed b" "num_finite a" "num_finite b"
    "num_class a = num_class b"
  shows "num_cmp a b = ord_then (ocmp (num_real a) (num_real b)) (ocmp (repr_byte a) (repr_byte b))"
proof -
  obtain D f where a: "sign_magnitude a = (num_real a < 0, magnitude_finite D f)"
    "\<bar>num_real a\<bar> = real (unat f) * 2 powi (D - 72)"
    "2 ^ 71 \<le> unat f" "unat f < 2 ^ 72" "- 1073 \<le> D" "D \<le> 1024"
    using sign_magnitude_real[OF assms(1,3,5)] by metis
  obtain E g where b: "sign_magnitude b = (num_real b < 0, magnitude_finite E g)"
    "\<bar>num_real b\<bar> = real (unat g) * 2 powi (E - 72)"
    "2 ^ 71 \<le> unat g" "unat g < 2 ^ 72" "- 1073 \<le> E" "E \<le> 1024"
    using sign_magnitude_real[OF assms(2,4,6)] by metis
  have "(if num_real a < 0 then CLASS_NEG else CLASS_POS)
      = (if num_real b < 0 then CLASS_NEG else CLASS_POS)"
    using num_signed_magnitude(2)[OF assms(1,3)] num_signed_magnitude(2)[OF assms(2,4)] assms(7)
    by (simp only: a(1) b(1) fst_conv)
  then have sgn: "num_real a < 0 \<longleftrightarrow> num_real b < 0"
    by (simp add: class_defs split: if_splits)
  have mag: "magnitude_cmp (magnitude_finite D f) (magnitude_finite E g)
      = ocmp \<bar>num_real a\<bar> \<bar>num_real b\<bar>"
    using ocmp_scaled[OF a(3,4) b(3,4), of D E] a(5,6) b(5,6) by (simp only: ocmp_exp_key a(2) b(2))
  have real: "(if num_real a < 0 then ord_reverse (ocmp \<bar>num_real a\<bar> \<bar>num_real b\<bar>)
         else ocmp \<bar>num_real a\<bar> \<bar>num_real b\<bar>) = ocmp (num_real a) (num_real b)"
    using sgn by (auto simp: ord_reverse_ocmp ocmp_def)
  have "num_cmp a b
      = ord_then (if num_real a < 0
                  then ord_reverse (magnitude_cmp (magnitude_finite D f) (magnitude_finite E g))
                  else magnitude_cmp (magnitude_finite D f) (magnitude_finite E g))
          (ocmp (repr_byte a) (repr_byte b))"
    using assms(3,4,7) by (simp add: num_cmp_def Let_def a(1) b(1) num_signed_def)
  then show ?thesis by (simp only: mag real)
qed

lemma num_class_finite:
  assumes "num_wf n" "num_finite n"
  shows "num_class n
       = (if num_real n < 0 then CLASS_NEG else if num_real n = 0 then CLASS_ZERO else CLASS_POS)"
proof (cases "num_signed n")
  case True
  then show ?thesis
    using num_signed_magnitude(2)[OF assms(1) True] sign_magnitude_real[OF assms(1) True assms(2)]
    by (metis fst_conv)
next
  case False
  have "num_sig n = 0" "num_class n = CLASS_ZERO"
    using False assms f64_finite_not num_sig_zero_iff by (cases n; force)+
  then show ?thesis by (simp add: num_real_def)
qed

lemma num_unsigned_real:
  assumes "num_wf n" "num_finite n" "\<not> num_signed n"
  shows "num_real n = 0"
  using assms(3) unfolding num_signed_def num_class_finite[OF assms(1,2)]
  by (simp add: class_defs split: if_splits)

lemma num_class_infinite:
  assumes "num_wf n" "\<not> num_finite n"
  shows "num_level n = 0 \<and> num_class n = CLASS_NEG \<and> sign_magnitude n = (True, Inf)
       \<or> num_level n = 2 \<and> num_class n = CLASS_POS \<and> sign_magnitude n = (False, Inf)
       \<or> num_level n = 3 \<and> num_class n = CLASS_NAN"
proof -
  from assms obtain v where n: "n = NFloat v" "\<not> f64_is_finite v" by (cases n) auto
  show ?thesis
  proof (cases "f64_is_nan v")
    case False
    with n f64_trichotomy[of v] have inf: "f64_is_infinite v" by blast
    then have "\<not> f64_eq_zero v" "v \<noteq> 0"
      by (auto simp: f64_is_infinite_def f64_eq_zero_def f64_abs_def)
    with n inf False show ?thesis
      by (simp add: f64_lt_zero_bit sign_magnitude.simps)
  qed (simp add: n)
qed

lemma num_level_finite: "num_finite n \<Longrightarrow> num_level n = 1"
  by (cases n) (auto dest: f64_finite_not)

lemma num_real_infinite: "\<not> num_finite n \<Longrightarrow> num_real n = 0"
  by (simp add: num_real_def)

lemma num_cmp_class: "num_class a \<noteq> num_class b \<Longrightarrow> num_cmp a b = ocmp (num_class a) (num_class b)"
  by (simp add: num_cmp_def)

lemma num_cmp_unsigned:
  "num_class a = num_class b \<Longrightarrow> \<not> num_signed a \<Longrightarrow> num_cmp a b = ocmp (repr_byte a) (repr_byte b)"
  by (auto simp: num_cmp_def num_signed_def)

definition num_spec_cmp :: "knum \<Rightarrow> knum \<Rightarrow> ordering" where
  "num_spec_cmp a b = ord_then (ocmp (num_level a) (num_level b)) (ocmp (num_real a) (num_real b))"

lemma num_cmp_both_finite:
  assumes "num_wf a" "num_wf b" "num_finite a" "num_finite b"
  shows "num_cmp a b = ord_then (num_spec_cmp a b) (ocmp (repr_byte a) (repr_byte b))"
proof (cases "num_class a = num_class b")
  case True
  show ?thesis
  proof (cases "num_signed a")
    case s: True
    with True have "num_signed b" by (simp add: num_signed_def)
    with num_cmp_finite[OF assms(1,2) s] assms True show ?thesis
      by (simp add: num_spec_cmp_def num_level_finite)
  next
    case False
    with True have "\<not> num_signed b" by (simp add: num_signed_def)
    with False have "num_real a = 0" "num_real b = 0"
      using assms num_unsigned_real by blast+
    with num_cmp_unsigned[OF True False] assms show ?thesis
      by (simp add: num_spec_cmp_def num_level_finite)
  qed
next
  case False
  then have "ocmp (num_class a) (num_class b) = ocmp (num_real a) (num_real b) \<and> num_real a \<noteq> num_real b"
    unfolding num_class_finite[OF assms(1,3)] num_class_finite[OF assms(2,4)]
    by (auto simp: class_defs ocmp_def split: if_splits)
  with num_cmp_class[OF False] assms show ?thesis
    by (simp add: num_spec_cmp_def num_level_finite ord_then_nonequal)
qed

lemma num_cmp_reverse: "num_wf a \<Longrightarrow> num_wf b \<Longrightarrow> num_cmp b a = ord_reverse (num_cmp a b)"
  using encode_key_law[of a b "[]" "[]"] encode_key_law[of b a "[]" "[]"]
  by (simp flip: ord_reverse_ocmp[of "encode_key a" "encode_key b"])

lemma ocmp_byte_levels [simp]:
  "ocmp (1::u8) 2 = Less" "ocmp (1::u8) 3 = Less" "ocmp (1::u8) 4 = Less"
  "ocmp (2::u8) 3 = Less" "ocmp (2::u8) 4 = Less" "ocmp (3::u8) 4 = Less"
  "ocmp (2::u8) 1 = Greater" "ocmp (3::u8) 1 = Greater" "ocmp (4::u8) 1 = Greater"
  "ocmp (3::u8) 2 = Greater" "ocmp (4::u8) 2 = Greater" "ocmp (4::u8) 3 = Greater"
  by (simp_all add: ocmp_def)

lemma num_cmp_finite_infinite:
  assumes "num_wf a" "num_wf b" "num_finite a" "\<not> num_finite b"
  shows "num_cmp a b = (if num_level b = 0 then Greater else Less)" "num_level b \<noteq> 1"
proof -
  have mag: "num_cmp a b = (if num_real a < 0 then Greater else Less)"
    if cls: "num_class a = num_class b" "sign_magnitude b = (s, Inf)" and sgn: "num_signed a" for s
  proof -
    obtain E f where "sign_magnitude a = (num_real a < 0, magnitude_finite E f)"
      using sign_magnitude_real[OF assms(1) sgn assms(3)] by metis
    with cls sgn show ?thesis
      by (simp add: num_cmp_def num_signed_def magnitude_finite_def)
  qed
  have "num_class a = CLASS_ZERO \<or> num_class a = CLASS_NEG \<and> num_real a < 0
      \<or> num_class a = CLASS_POS \<and> \<not> num_real a < 0"
    using num_class_finite[OF assms(1,3)] by simp
  with num_class_infinite[OF assms(2,4)] mag
  show "num_cmp a b = (if num_level b = 0 then Greater else Less)"
    by (elim disjE conjE) (simp_all add: num_cmp_class class_defs num_signed_def)
  show "num_level b \<noteq> 1"
    using num_class_infinite[OF assms(2,4)] by auto
qed

lemma num_cmp_infinite:
  assumes "num_wf a" "num_wf b" "\<not> num_finite a" "\<not> num_finite b"
  shows "num_cmp a b = ocmp (num_level a) (num_level b)"
proof -
  have repr: "repr_byte a = repr_byte b"
    using assms(3,4) by (cases a; cases b) simp_all
  show ?thesis
    using num_class_infinite[OF assms(1,3)] num_class_infinite[OF assms(2,4)] repr
    by (elim disjE conjE) (simp_all add: num_cmp_def class_defs ocmp_def[of "_ :: nat"])
qed

lemma num_cmp_spec:
  assumes "num_wf a" "num_wf b"
  shows "num_cmp a b = ord_then (num_spec_cmp a b) (ocmp (repr_byte a) (repr_byte b))"
proof -
  have mixed: "num_cmp a b = ord_then (num_spec_cmp a b) r"
    if "num_wf a" "num_wf b" "num_finite a" "\<not> num_finite b" for a b r
    using num_cmp_finite_infinite[OF that] that(3)
    by (auto simp: num_spec_cmp_def num_level_finite ocmp_def)
  consider "num_finite a" "num_finite b" | "num_finite a" "\<not> num_finite b"
    | "\<not> num_finite a" "num_finite b" | "\<not> num_finite a" "\<not> num_finite b" by blast
  then show ?thesis
  proof cases
    case 1
    with assms show ?thesis by (rule num_cmp_both_finite)
  next
    case 2
    with assms show ?thesis by (rule mixed)
  next
    case 3
    with mixed[of b a "ocmp (repr_byte b) (repr_byte a)"] assms show ?thesis
      by (simp add: num_cmp_reverse[of b a] num_spec_cmp_def ord_reverse_then ord_reverse_ocmp)
  next
    case 4
    moreover have "repr_byte a = repr_byte b"
      using 4 by (cases a; cases b) simp_all
    ultimately show ?thesis
      using num_cmp_infinite[OF assms] by (simp add: num_spec_cmp_def num_real_infinite)
  qed
qed

section \<open>Decoding inverts encoding\<close>

lemma unat_narrow: "unat (w :: u128) < 2 ^ 64 \<Longrightarrow> unat (ucast w :: u64) = unat w"
  by (simp add: unsigned_ucast_eq take_bit_nat_eq_self)

lemma exact_shift:
  assumes "unat (f :: u128) = s * 2 ^ k" "0 < s" "s < 2 ^ 64"
  shows "k \<le> trailing_zeros f" "unat (ucast (drop_bit k f) :: u64) = s"
proof -
  have "f \<noteq> 0" using assms(1,2) by auto
  then show "k \<le> trailing_zeros f" by (simp add: trailing_zeros_iff assms(1))
  have "unat (drop_bit k f) = s" by (simp add: unat_drop_bit assms(1))
  with assms(3) show "unat (ucast (drop_bit k f) :: u64) = s" by (subst unat_narrow) simp_all
qed

lemma shift_exact:
  assumes "2 ^ 71 \<le> unat (f :: u128)" "unat f < 2 ^ 72" "k \<le> trailing_zeros f" "8 \<le> k" "k \<le> 71"
  obtains s where "unat f = s * 2 ^ k" "bit_length s = 72 - k" "unat (ucast (drop_bit k f) :: u64) = s"
    "0 < s"
proof -
  have nz: "f \<noteq> 0" using assms(1) by auto
  with assms(3) have "2 ^ k dvd unat f" by (simp add: trailing_zeros_iff)
  then obtain s where s: "unat f = s * 2 ^ k" by (metis dvd_def mult.commute)
  have "(2::nat) ^ 71 = 2 ^ (71 - k) * 2 ^ k" "(2::nat) ^ 72 = 2 ^ Suc (71 - k) * 2 ^ k"
    using assms(5) by (simp_all flip: power_add power_Suc)
  with assms(1,2) s have rng: "2 ^ (71 - k) \<le> s" "s < 2 ^ Suc (71 - k)"
    by (metis mult_le_cancel2 zero_less_power zero_less_numeral,
        metis mult_less_cancel2)
  have "bit_length s = Suc (71 - k)" by (rule bit_length_unique[OF rng])
  then have bl: "bit_length s = 72 - k" using assms(5) by simp
  have "0 < s" using rng(1) by (metis gr0I le_zero_eq power_not_zero zero_neq_numeral)
  moreover have "bit_length s \<le> 64" using bl assms(4) by simp
  then have "s < 2 ^ 64" by (simp only: bit_length_le_iff)
  ultimately show thesis
    using that[OF s bl] exact_shift(2)[OF s] by blast
qed

lemma unsigned_abs_bounds:
  "sint v < 0 \<Longrightarrow> \<not> push_bit 63 1 < unsigned_abs v" "\<not> sint v < 0 \<Longrightarrow> \<not> i64_max < unsigned_abs v"
  using sint_bounds[of v] by (simp_all add: word_less_def)

lemma num_sig_int: "num_sig (NInt v) = unat (unsigned_abs v)"
  by (simp add: unat_eq_nat_uint)

lemma rebuild_int_sound:
  assumes "v \<noteq> 0" "unat f = num_sig (NInt v) * 2 ^ (72 - bit_length (num_sig (NInt v)))"
  shows "rebuild_int (sint v < 0) (int (bit_length (num_sig (NInt v)))) f = Inr (NInt v)"
proof -
  let ?s = "num_sig (NInt v)" and ?bl = "bit_length (num_sig (NInt v))"
  have bl: "1 \<le> ?bl" "?bl \<le> 64"
    using num_sig_bit_length[of "NInt v"] assms(1) num_sig_zero_iff(1)[of v]
    by (simp_all add: bit_length_pos del: num_sig.simps)
  have sh: "nat (72 - int ?bl) = 72 - ?bl" using bl by linarith
  have "0 < ?s" using assms(1) num_sig_zero_iff(1)[of v] by blast
  note ex = exact_shift[OF assms(2) this num_sig_less]
  from ex(2) have m: "ucast (drop_bit (72 - ?bl) f) = unsigned_abs v"
    by (simp only: word_unat_eq_iff num_sig_int)
  have "\<not> trailing_zeros f < 72 - ?bl" using ex(1) by simp
  with bl unsigned_abs_bounds[of v] show ?thesis
    unfolding rebuild_int_def sh Let_def m
    by (simp add: num_int_def unsigned_abs_def del: num_sig.simps)
qed

lemma sint_small: "(m :: i64) \<le> i64_max \<Longrightarrow> \<not> sint m < 0"
  by (simp add: sint_i64_neg_iff word_le_def)

lemma sint_neg_small:
  assumes "(m :: i64) \<le> i64_min" "m \<noteq> 0"
  shows "sint (- m) < 0"
proof -
  have "uint m \<noteq> 0" using assms(2) by (simp add: unsigned_eq_0_iff)
  then have m: "0 < uint m" "uint m \<le> 2 ^ 63"
    using assms(1) uint_ge_0[of m] by (linarith, simp add: word_le_def)
  have "uint (- m) = (2 ^ 64 - uint m) mod 2 ^ 64"
    by (simp add: uint_word_ariths(4))
  also have "\<dots> = 2 ^ 64 - uint m"
    using m by (intro mod_pos_pos_trivial) simp_all
  finally show ?thesis
    using m by (simp add: sint_i64_neg_iff)
qed

lemma rebuild_int_complete:
  assumes "rebuild_int neg e f = Inr n" "2 ^ 71 \<le> unat f" "unat f < 2 ^ 72"
  shows "\<exists>v. n = NInt v \<and> v \<noteq> 0 \<and> sign_magnitude n = (neg, magnitude_finite e f)"
proof -
  define k where "k = nat (72 - e)"
  define m where "m = (ucast (drop_bit k f) :: u64)"
  from assms(1) have e: "1 \<le> e" "e \<le> 64" and tz: "k \<le> trailing_zeros f"
    and n: "n = NInt (if neg then - m else m)"
    and bound: "neg \<longrightarrow> m \<le> push_bit 63 1" "\<not> neg \<longrightarrow> m \<le> i64_max"
    by (auto simp: rebuild_int_def Let_def num_int_def k_def m_def split: if_splits)
  have k: "8 \<le> k" "k \<le> 71" "int (72 - k) = e" using e by (simp_all add: k_def)
  obtain s where s: "unat f = s * 2 ^ k" "bit_length s = 72 - k" "unat m = s" "0 < s"
    using shift_exact[OF assms(2,3) tz k(1,2)] unfolding m_def by metis
  let ?v = "if neg then - m else m"
  have "m \<noteq> 0" using s(3,4) by auto
  with bound have sgn: "sint ?v < 0 \<longleftrightarrow> neg"
    using sint_small[of m] sint_neg_small[of m] by simp
  then have abs: "unsigned_abs ?v = m" by (simp add: unsigned_abs_def)
  have nz: "?v \<noteq> 0" using \<open>m \<noteq> 0\<close> by simp
  have sig: "num_sig (NInt ?v) = s"
    unfolding num_sig_int abs by (rule s(3))
  obtain g where g: "sign_magnitude (NInt ?v) = (neg, magnitude_finite (int (bit_length s)) g)"
    "unat g = s * 2 ^ (72 - bit_length s)"
    using sign_magnitude_int[OF nz] unfolding sig sgn by blast
  have "g = f"
    using g(2) s(1,2) k(2) by (simp add: word_unat_eq_iff)
  with g(1) s(2) k(3) n nz show ?thesis by simp
qed

definition f64_signed :: "bool \<Rightarrow> f64 \<Rightarrow> f64" where
  "f64_signed neg w = (if neg then f64_neg w else w)"

lemma f64_signed_abs: "f64_signed (bit v 63) (f64_abs v) = v"
proof (rule bit_word_eqI)
  fix n assume "n < LENGTH(64)"
  then have "n < 64" "n \<noteq> 63 \<Longrightarrow> n < 63" by simp_all
  then show "bit (f64_signed (bit v 63) (f64_abs v)) n = bit v n"
    by (cases "n = 63") (auto simp: f64_signed_def f64_neg_def f64_abs_def bit_simps)
qed

lemma bit_63_small: "unat (w :: f64) < 2 ^ 63 \<Longrightarrow> take_bit 63 w = w"
  by (simp add: word_unat_eq_iff unat_take_bit)

lemma f64_signed_facts:
  assumes "unat w < 2 ^ 63"
  shows "f64_abs (f64_signed neg w) = w" "bit (f64_signed neg w) 63 \<longleftrightarrow> neg"
proof -
  have w: "bit w n \<longleftrightarrow> n < 63 \<and> bit w n" for n
    using bit_63_small[OF assms] by (metis bit_take_bit_iff)
  show "f64_abs (f64_signed neg w) = w"
    by (rule bit_eqI) (use w in \<open>auto simp: f64_signed_def f64_neg_def f64_abs_def bit_simps\<close>)
  show "bit (f64_signed neg w) 63 \<longleftrightarrow> neg"
    using w[of 63] by (simp add: f64_signed_def f64_neg_def bit_simps)
qed

lemma join_bound: "a < 2048 \<Longrightarrow> r < 2 ^ 52 \<Longrightarrow> a * 2 ^ 52 + r < (2::nat) ^ 64"
  by simp

lemma join_bound_finite: "a \<le> 2046 \<Longrightarrow> r < 2 ^ 52 \<Longrightarrow> a * 2 ^ 52 + r < (2047 * 2 ^ 52 :: nat)"
  by simp

lemma unat_join:
  assumes "unat (e :: u64) < 2048"
  shows "unat (push_bit 52 e OR (x AND mask 52)) = unat e * 2 ^ 52 + unat x mod 2 ^ 52"
proof -
  have "push_bit 52 e OR (x AND mask 52) = push_bit 52 e + (x AND mask 52)"
  proof (rule disjunctive_add_eq_or[symmetric], rule bit_eqI)
    fix n
    show "bit (push_bit 52 e AND (x AND mask 52)) n = bit (0 :: u64) n"
      by (simp only: bit_and_iff bit_push_bit_iff bit_mask_iff bit_0_eq bot_apply) auto
  qed
  moreover have push: "unat (push_bit 52 e) = unat e * 2 ^ 52"
    using assms by (simp add: unsigned_push_bit_eq push_bit_eq_mult[of 52 "unat e"] take_bit_nat_eq_self)
  moreover have "unat (x AND mask 52) = unat x mod 2 ^ 52"
    by (rule unat_and_mask)
  moreover have "unat x mod 2 ^ 52 < 2 ^ 52" by simp
  then have "unat e * 2 ^ 52 + unat x mod 2 ^ 52 < 2 ^ 64" by (rule join_bound[OF assms])
  ultimately show ?thesis
    by (simp add: unat_plus_if')
qed

lemma rebuild_float_sound:
  assumes "num_wf (NFloat v)" "f64_is_finite v" "num_sig (NFloat v) \<noteq> 0"
    and "unat f = num_sig (NFloat v) * 2 ^ (72 - bit_length (num_sig (NFloat v)))"
  shows "rebuild_float (bit v 63) (num_ulp (NFloat v) + int (bit_length (num_sig (NFloat v)))) f
       = Inr (NFloat v)"
proof -
  let ?s = "num_sig (NFloat v)" and ?bl = "bit_length (num_sig (NFloat v))"
  have "0 < ?s" using assms(3) by blast
  note ex = exact_shift[OF assms(4) this num_sig_less]
  have final: "bit v 63 \<Longrightarrow> num_float (f64_neg (f64_abs v)) = NFloat v"
    "\<not> bit v 63 \<Longrightarrow> num_float (f64_abs v) = NFloat v"
    using f64_signed_abs[of v] num_float_wf[OF assms(1)] by (simp_all add: f64_signed_def)
  show ?thesis
  proof (cases "f64_expo v = 0")
    case False
    have s: "?s = 2 ^ 52 + f64_fraction v" using False by simp
    have bl: "?bl = 53"
      unfolding s using bit_length_unique[of 52 "2 ^ 52 + f64_fraction v"] f64_fraction_less[of v] by simp
    let ?e = "int (f64_expo v) - 1022"
    have e: "num_ulp (NFloat v) + int ?bl = ?e" using False bl by (simp del: num_sig.simps)
    have "f64_expo v \<le> 2046" using assms(2) by (simp add: f64_finite_expo)
    have u: "unat (word_of_int (?e - 1 + 1023) :: u64) = f64_expo v"
      using \<open>f64_expo v \<le> 2046\<close> by (simp add: unat_of_nat)
    have "push_bit 52 (word_of_int (?e - 1 + 1023)) OR (ucast (drop_bit 19 f) AND mask 52) = f64_abs v"
      using \<open>f64_expo v \<le> 2046\<close> ex(2) f64_fraction_less[of v]
      unfolding word_unat_eq_iff bl by (subst unat_join) (simp_all only: u unat_f64_abs s, simp_all)
    moreover have "\<not> trailing_zeros f < 19" using ex(1) bl by simp
    ultimately show ?thesis
      unfolding e rebuild_float_def Let_def using False \<open>f64_expo v \<le> 2046\<close> final by simp
  next
    case True
    have s: "?s = f64_fraction v" using True by simp
    have bl: "1 \<le> ?bl" "?bl \<le> 52"
      using assms(3) f64_fraction_less[of v] unfolding s bit_length_le_iff
      by (simp_all add: bit_length_pos)
    have e: "num_ulp (NFloat v) + int ?bl = int ?bl - 1074" using True by simp
    have sh: "nat (72 - int ?bl) = 72 - ?bl" using bl by linarith
    have "ucast (drop_bit (72 - ?bl) f) = f64_abs v"
      using ex(2) True unfolding word_unat_eq_iff unat_f64_abs s by simp
    moreover have "\<not> trailing_zeros f < 72 - ?bl" using ex(1) by simp
    ultimately show ?thesis
      unfolding e rebuild_float_def Let_def using bl final by (simp add: sh del: num_sig.simps)
  qed
qed

lemma rebuild_float_core:
  assumes n: "n = num_float (f64_signed neg w)" and w: "unat w < 2047 * 2 ^ 52"
    and s: "unat f = s * 2 ^ (72 - bit_length s)" "0 < s"
    and sig: "s = (if unat w div 2 ^ 52 = 0 then unat w else 2 ^ 52 + unat w mod 2 ^ 52)"
    and e: "e = int (max 1 (unat w div 2 ^ 52)) - 1075 + int (bit_length s)"
  shows "\<exists>v. n = NFloat v \<and> num_wf n \<and> num_signed n \<and> f64_is_finite v
           \<and> sign_magnitude n = (neg, magnitude_finite e f)"
proof -
  let ?v = "f64_signed neg w"
  have small: "unat w < 2 ^ 63" using w by simp
  note facts = f64_signed_facts[OF small, of neg]
  have fin: "f64_is_finite ?v"
    using w by (simp add: f64_is_finite_def word_less_nat_alt facts)
  have nz: "\<not> f64_eq_zero ?v"
    using s(2) sig by (auto simp: f64_eq_zero_def facts)
  have wf: "num_wf (NFloat ?v)" "n = NFloat ?v"
    using n fin nz f64_finite_not[OF fin] by (simp_all add: num_float_def)
  have sg: "num_sig (NFloat ?v) = s" "num_ulp (NFloat ?v) = int (max 1 (unat w div 2 ^ 52)) - 1075"
    using w by (simp_all add: f64_expo_def f64_fraction_def facts sig)
  from sign_magnitude_float[OF fin] obtain g
    where g: "sign_magnitude (NFloat ?v) = (f64_lt_zero ?v, magnitude_finite e g)"
      "unat g = s * 2 ^ (72 - bit_length s)"
    unfolding sg e by blast
  have "g = f" using g(2) s(1) by (simp add: word_unat_eq_iff)
  moreover have "f64_lt_zero ?v = neg"
    using f64_lt_zero_bit[of ?v] nz f64_finite_not[OF fin] facts(2) by blast
  moreover have "?v \<noteq> 0" using nz by auto
  ultimately show ?thesis
    using wf fin g(1) f64_finite_not[OF fin] by auto
qed

lemma rebuild_float_complete:
  assumes "rebuild_float neg e f = Inr n" "2 ^ 71 \<le> unat f" "unat f < 2 ^ 72"
  shows "\<exists>v. n = NFloat v \<and> num_wf n \<and> num_signed n \<and> f64_is_finite v
           \<and> sign_magnitude n = (neg, magnitude_finite e f)"
proof (cases "- 1021 \<le> e")
  case True
  define x where "x = (ucast (drop_bit 19 f) :: u64)"
  define c where "c = (word_of_int (e - 1 + 1023) :: u64)"
  define w where "w = push_bit 52 c OR (x AND mask 52)"
  from True assms(1) have hi: "e \<le> 1024" and tz: "19 \<le> trailing_zeros f"
    and n: "n = num_float (f64_signed neg w)"
    by (auto simp: rebuild_float_def Let_def f64_signed_def w_def c_def x_def split: if_splits)
  obtain s where s: "unat f = s * 2 ^ 19" "bit_length s = 72 - 19" "unat x = s" "0 < s"
    using shift_exact[OF assms(2,3) tz] unfolding x_def by auto
  have c: "unat c = nat (e + 1022)"
    using True hi by (simp add: c_def unat_eq_nat_uint unsigned_of_int take_bit_eq_mod mod_pos_pos_trivial
        del: of_int_add of_int_diff)
  then have ce: "1 \<le> unat c" "unat c \<le> 2046" using True hi by linarith+
  have rng: "2 ^ 52 \<le> s" "s < 2 ^ 53"
    using bit_length_ge[of s] bit_length_less[of s] s(2,4) by simp_all
  have uw: "unat w = unat c * 2 ^ 52 + s mod 2 ^ 52"
    unfolding w_def using ce by (subst unat_join) (simp_all add: s(3))
  have parts: "unat w div 2 ^ 52 = unat c" "unat w mod 2 ^ 52 = s mod 2 ^ 52"
    unfolding uw by simp_all
  have top: "s mod 2 ^ 52 = s - 2 ^ 52"
    using rng by (subst le_mod_geq) simp_all
  show ?thesis
  proof (rule rebuild_float_core[OF n, where s = s])
    show "unat w < 2047 * 2 ^ 52"
      unfolding uw using ce(2) by (rule join_bound_finite) simp
    show "s = (if unat w div 2 ^ 52 = 0 then unat w else 2 ^ 52 + unat w mod 2 ^ 52)"
      unfolding parts top using ce rng by simp
    show "e = int (max 1 (unat w div 2 ^ 52)) - 1075 + int (bit_length s)"
      unfolding parts s(2) using ce c True by simp
  qed (simp_all add: s)
next
  case False
  define k where "k = nat (72 - (e + 1074))"
  define w where "w = (ucast (drop_bit k f) :: u64)"
  from False assms(1) have e: "1 \<le> e + 1074" "e + 1074 \<le> 52" and tz: "k \<le> trailing_zeros f"
    and n: "n = num_float (f64_signed neg w)"
    by (auto simp: rebuild_float_def Let_def f64_signed_def w_def k_def split: if_splits)
  have k: "8 \<le> k" "k \<le> 71" "int (72 - k) = e + 1074" using e by (simp_all add: k_def)
  obtain s where s: "unat f = s * 2 ^ k" "bit_length s = 72 - k" "unat w = s" "0 < s"
    using shift_exact[OF assms(2,3) tz k(1,2)] unfolding w_def by metis
  have "bit_length s \<le> 52" using s(2) k(3) e by linarith
  then have small: "s < 2 ^ 52" by (simp only: bit_length_le_iff)
  show ?thesis
    by (rule rebuild_float_core[OF n, where s = s]) (use small s k in \<open>simp_all\<close>)
qed

lemma from_be_frac72: "unat f < 2 ^ 72 \<Longrightarrow> (from_be_bytes (be_nat 9 (unat f)) :: u128) = f"
  by (simp add: from_be_bytes_def)

lemma normal_frac_iff: "drop_bit 71 (f :: u128) = 1 \<longleftrightarrow> 2 ^ 71 \<le> unat f \<and> unat f < 2 ^ 72"
  by (auto simp: word_unat_eq_iff unat_drop_bit)

lemma decode_body_finite:
  assumes "mag_ok (Finite e f)" "2 ^ 71 \<le> unat f"
  shows "decode_body neg (magnitude_bytes (Finite e f)) r
       = (if r = REPR_INT then map_sum id (\<lambda>n. (n, 13)) (rebuild_int neg (uint e - 1080) f)
          else if r = REPR_FLOAT then map_sum id (\<lambda>n. (n, 13)) (rebuild_float neg (uint e - 1080) f)
          else Inl BadRepr)"
proof -
  have "e \<noteq> EXP_INF" using assms(1) by auto
  moreover have "drop_bit 71 f = 1" using assms normal_frac_iff by simp
  moreover have "(from_be_bytes (be_nat 9 (unat f)) :: u128) = f"
    using assms(1) by (intro from_be_frac72) simp
  ultimately show ?thesis
    by (simp add: decode_body_def Let_def frac72_bytes EXP_OFFSET_def)
qed

lemma be_val_ff: "be_val (replicate n 0xFF) + 1 = 256 ^ n"
  by (induction n) simp_all

lemma inf_bytes: "be_nat 9 (unat (push_bit 72 1 - 1 :: u128)) = replicate 9 0xFF"
proof -
  have "be_val (replicate 9 0xFF) = 256 ^ 9 - 1" using be_val_ff[of 9] by linarith
  then have "be_nat 9 (256 ^ 9 - 1) = replicate 9 (0xFF :: u8)"
    using be_nat_be_val[of "replicate 9 (0xFF :: u8)"] by (simp only: length_replicate)
  then show ?thesis by simp
qed

lemma inf_frac: "(from_be_bytes (replicate 9 0xFF) :: u128) = push_bit 72 1 - 1"
proof -
  have "be_val (replicate 9 0xFF) = 256 ^ 9 - 1" using be_val_ff[of 9] by linarith
  then show ?thesis by (simp add: from_be_bytes_def)
qed

lemma decode_body_inf:
  "decode_body neg (magnitude_bytes Inf) REPR_FLOAT
     = Inr (num_float (f64_signed neg f64_infinity), 13)"
  using inf_frac by (simp add: decode_body_def Let_def f64_signed_def)

lemma decode_signed_key:
  "length body = 11 \<Longrightarrow>
    decode_signed neg (c # (if neg then complement body else body) @ r # rest) = decode_body neg body r"
  by (simp add: decode_signed_def nth_append)

lemma infinite_signed:
  assumes "f64_is_infinite v"
  shows "num_float v = NFloat v" "v = f64_signed (bit v 63) f64_infinity"
    "sign_magnitude (NFloat v) = (bit v 63, Inf)"
proof -
  have abs: "f64_abs v = f64_infinity"
    using assms by (simp add: f64_is_infinite_def f64_infinity_def)
  then have nz: "\<not> f64_is_nan v" "\<not> f64_eq_zero v"
    by (auto simp: f64_is_nan_def f64_eq_zero_def f64_infinity_def)
  then show "num_float v = NFloat v" by (simp add: num_float_def)
  show "v = f64_signed (bit v 63) f64_infinity"
    using f64_signed_abs[of v] by (simp add: abs)
  show "sign_magnitude (NFloat v) = (bit v 63, Inf)"
    using assms nz by (simp add: sign_magnitude.simps f64_lt_zero_bit)
qed

lemma decode_body_sound:
  assumes "num_wf n" "num_signed n"
  shows "decode_body (fst (sign_magnitude n)) (magnitude_bytes (snd (sign_magnitude n))) (repr_byte n)
       = Inr (n, 13)"
  using assms
proof (cases rule: num_signed_cases)
  case finite
  let ?e = "num_ulp n + int (bit_length (num_sig n))"
  obtain f where f: "sign_magnitude n = (num_neg n, magnitude_finite ?e f)"
    "unat f = num_sig n * 2 ^ (72 - bit_length (num_sig n))"
    using sign_magnitude_finite[OF finite] by blast
  define k where "k = exp_key (magnitude_finite ?e f)"
  have k: "magnitude_finite ?e f = Finite k f" by (simp add: k_def magnitude_finite_def)
  have uk: "uint k - 1080 = ?e"
    unfolding k_def using uint_exp_key[OF num_exp_range[OF finite]] by simp
  have lo: "2 ^ 71 \<le> unat f"
    unfolding f(2) using finite(2) num_sig_bit_length[of n] by (intro push_mod_lower) simp_all
  have "mag_ok (Finite k f)" using num_signed_magnitude(1)[OF assms] f(1) k by simp
  note body = decode_body_finite[OF this lo, of "num_neg n" "repr_byte n", unfolded uk]
  show ?thesis
  proof (cases n)
    case (NInt v)
    then have "rebuild_int (num_neg n) ?e f = Inr n"
      using rebuild_int_sound[of v f] finite(2) f(2) by (simp add: signed_eq_0_iff)
    with body f(1) k NInt show ?thesis by simp
  next
    case (NFloat v)
    then have "rebuild_float (num_neg n) ?e f = Inr n"
      using rebuild_float_sound[of v f] assms(1) finite f(2)
      by (simp del: num_sig.simps num_ulp.simps num_wf.simps)
    with body f(1) k NFloat show ?thesis by (simp add: repr_defs)
  qed
next
  case (infinite v)
  with infinite_signed[of v] decode_body_inf show ?thesis by simp
qed

lemma num_class_values:
  "CLASS_NEG \<noteq> CLASS_ZERO" "CLASS_NEG \<noteq> CLASS_NAN" "CLASS_POS \<noteq> CLASS_ZERO"
  "CLASS_POS \<noteq> CLASS_NAN" "CLASS_POS \<noteq> CLASS_NEG" "CLASS_NAN \<noteq> CLASS_ZERO" "REPR_FLOAT \<noteq> REPR_INT"
  "CANON_NAN_BITS \<noteq> 0"
  by (simp_all add: class_defs repr_defs CANON_NAN_BITS_def)

lemma decode_key_encode_key:
  assumes "num_wf n"
  shows "decode_key (encode_key n @ rest) = Inr (n, length (encode_key n))"
proof (cases "num_signed n")
  case True
  obtain neg mag where sm: "sign_magnitude n = (neg, mag)" by fastforce
  have cls: "num_class n = (if neg then CLASS_NEG else CLASS_POS)"
    using num_signed_magnitude(2)[OF assms True] by (simp add: sm)
  have enc: "encode_key n @ rest
      = num_class n # (if neg then complement (magnitude_bytes mag) else magnitude_bytes mag)
          @ repr_byte n # rest"
    using True by (simp add: encode_key_shape[OF assms] key_body_def sm)
  have "decode_key (encode_key n @ rest) = decode_signed neg (encode_key n @ rest)"
    unfolding enc decode_key_def cls using num_class_values by simp
  also have "\<dots> = decode_body neg (magnitude_bytes mag) (repr_byte n)"
    unfolding enc by (rule decode_signed_key) simp
  also have "\<dots> = Inr (n, 13)"
    using decode_body_sound[OF assms True] by (simp add: sm)
  finally show ?thesis
    using True by (simp add: encode_key_shape[OF assms] length_key_body)
next
  case False
  then show ?thesis
    using assms num_class_values
    by (cases n) (auto simp: decode_key_def num_int_def num_float_def)
qed

lemma magnitude_bytes_body:
  assumes "length body = 11"
  shows "to_be_bytes (from_be_bytes (take 2 body) :: u16) @ be_nat 9 (unat (from_be_bytes (drop 2 body) :: u128))
       = body" and "unat (from_be_bytes (drop 2 body) :: u128) < 2 ^ 72"
proof -
  have "be_val (drop 2 body) < 256 ^ 9" using be_val_less[of "drop 2 body"] assms by simp
  then have f: "unat (from_be_bytes (drop 2 body) :: u128) = be_val (drop 2 body)"
    by (simp add: from_be_bytes_def unat_of_nat)
  with \<open>be_val (drop 2 body) < 256 ^ 9\<close>
  show "unat (from_be_bytes (drop 2 body) :: u128) < 2 ^ 72" by simp
  have "to_be_bytes (from_be_bytes (take 2 body) :: u16) = take 2 body"
    using assms by (intro to_from_be_bytes) simp
  moreover have "be_nat 9 (be_val (drop 2 body)) = drop 2 body"
    using be_nat_be_val[of "drop 2 body"] assms by simp
  ultimately show "to_be_bytes (from_be_bytes (take 2 body) :: u16)
      @ be_nat 9 (unat (from_be_bytes (drop 2 body) :: u128)) = body"
    by (simp add: f)
qed

lemma decode_body_complete:
  assumes "decode_body neg body r = Inr (n, k)" "length body = 11"
  shows "num_wf n \<and> num_signed n \<and> k = 13 \<and> repr_byte n = r
       \<and> (\<exists>mag. sign_magnitude n = (neg, mag) \<and> magnitude_bytes mag = body)"
proof -
  define ex where "ex = (from_be_bytes (take 2 body) :: u16)"
  define f where "f = (from_be_bytes (drop 2 body) :: u128)"
  note mb = magnitude_bytes_body[OF assms(2), folded ex_def f_def]
  show ?thesis
  proof (cases "ex = EXP_INF")
    case True
    with assms(1) have f: "f = push_bit 72 1 - 1" and r: "r = REPR_FLOAT" and k: "k = 13"
      and n: "n = num_float (f64_signed neg f64_infinity)"
      by (auto simp: decode_body_def Let_def ex_def f_def f64_signed_def split: if_splits)
    have small: "unat f64_infinity < 2 ^ 63" by (simp add: f64_infinity_def)
    have inf: "f64_is_infinite (f64_signed neg f64_infinity)"
      using f64_signed_facts(1)[OF small] by (simp add: f64_is_infinite_def f64_infinity_def)
    then have "num_signed (NFloat (f64_signed neg f64_infinity))"
      by (auto simp: f64_is_infinite_def f64_is_nan_def f64_abs_def)
    moreover have "magnitude_bytes Inf = body"
      using mb(1) True inf_bytes by (simp add: f)
    ultimately show ?thesis
      using infinite_signed[OF inf] num_wf_constructors(2)[of "f64_signed neg f64_infinity"]
        f64_signed_facts(2)[OF small, of neg] n r k by simp
  next
    case False
    have ok: "magnitude_finite (uint ex - EXP_OFFSET) f = Finite ex f"
      by (simp add: magnitude_finite_def)
    from False assms(1) have norm: "drop_bit 71 f = 1" and k: "k = 13"
      and n: "r = REPR_INT \<and> rebuild_int neg (uint ex - EXP_OFFSET) f = Inr n
            \<or> r = REPR_FLOAT \<and> rebuild_float neg (uint ex - EXP_OFFSET) f = Inr n"
      by (auto simp: decode_body_def Let_def ex_def f_def map_sum_def split: if_splits sum.splits)
    note rng = norm[unfolded normal_frac_iff]
    from n have "num_wf n \<and> num_signed n \<and> repr_byte n = r \<and> sign_magnitude n = (neg, Finite ex f)"
      using rebuild_int_complete[of neg "uint ex - EXP_OFFSET" f n]
        rebuild_float_complete[of neg "uint ex - EXP_OFFSET" f n] rng
      unfolding ok by auto
    moreover have "magnitude_bytes (Finite ex f) = body"
      using mb(1) by (simp add: frac72_bytes)
    ultimately show ?thesis using k by blast
  qed
qed

lemma decode_signed_complete:
  assumes "decode_signed (c = CLASS_NEG) (c # bs) = Inr (n, k)" "c = CLASS_NEG \<or> c = CLASS_POS"
  shows "num_wf n \<and> k = length (encode_key n) \<and> (\<exists>rest. c # bs = encode_key n @ rest)"
proof -
  define body where "body = (if c = CLASS_NEG then complement (take 11 bs) else take 11 bs)"
  from assms(1) have len: "12 \<le> length bs" and dec: "decode_body (c = CLASS_NEG) body (bs ! 11) = Inr (n, k)"
    by (auto simp: decode_signed_def body_def split: if_splits)
  have "length body = 11" using len by (simp add: body_def)
  from decode_body_complete[OF dec this] obtain mag where n: "num_wf n" "num_signed n" "k = 13"
    "repr_byte n = bs ! 11" "sign_magnitude n = (c = CLASS_NEG, mag)" "magnitude_bytes mag = body"
    by blast
  have "num_class n = c"
    using num_signed_magnitude(2)[OF n(1,2)] assms(2) n(5) by auto
  moreover have "key_body n = take 11 bs"
    using n by (auto simp: key_body_def body_def)
  moreover have "bs = take 11 bs @ bs ! 11 # drop 12 bs"
    using len id_take_nth_drop[of 11 bs] by simp
  ultimately show ?thesis
    using n len by (auto simp: encode_key_shape length_key_body intro!: exI[of _ "drop 12 bs"])
qed

lemma decode_key_canonical:
  assumes "decode_key bs = Inr (n, k)"
  shows "num_wf n \<and> k = length (encode_key n) \<and> (\<exists>rest. bs = encode_key n @ rest)"
proof -
  from assms obtain c cs where bs: "bs = c # cs"
    by (auto simp: decode_key_def split: list.splits)
  consider "c = CLASS_ZERO" | "c = CLASS_NAN" | "c = CLASS_NEG \<or> c = CLASS_POS"
    using assms by (auto simp: decode_key_def bs split: if_splits)
  then show ?thesis
  proof cases
    case 3
    then have "decode_signed (c = CLASS_NEG) (c # cs) = Inr (n, k)"
      using assms num_class_values by (auto simp: decode_key_def bs)
    from decode_signed_complete[OF this 3] show ?thesis by (simp add: bs)
  qed (use assms num_class_values in
      \<open>auto simp: decode_key_def bs num_int_def num_float_def split: list.splits if_splits\<close>)
qed

interpretation num_code: codec num_wf encode_key num_cmp decode_key
  by unfold_locales (fact encode_key_law, fact decode_key_encode_key, fact decode_key_canonical)

end
