(* ===== verification/Byte_Strings.thy ===== *)
theory Byte_Strings
  imports Num_Key
begin

text \<open>
  The byte-string grammar of \<open>crates/kyzo-model/src/value/canonical.rs\<close>: content with \<open>0x00\<close>
  escaped as \<open>0x00 0xFF\<close>, closed by \<open>0x00 0x00\<close>, its decoder and its skipping walk. It satisfies
  the order-code contract, so it is prefix-free; the decoder inverts it on every suffix and accepts
  nothing else; the walk finds the same end. The decode errors of the codec and the UTF-8 check of
  \<open>String::from_utf8\<close> are declared here as well.
\<close>

section \<open>Errors and UTF-8\<close>

datatype decode_error =
  Truncated | BadTag u8 | BadBool | BadEscape | BadUtf8 | NumError num_decode_error
| SetNotCanonical | TrailingBytes | TooDeep | BadRegexFlags | BadPolarity
| VectorComponentNotFloat | VectorDimensionOverflow | BadJsonMarker u8 | JsonNotCanonical
| JsonHashMismatch | JsonNumberNotFinite | RelationIdOverCap | IntervalNotCanonical

definition utf8_cont :: "u8 \<Rightarrow> bool" where
  "utf8_cont b \<longleftrightarrow> 0x80 \<le> b \<and> b \<le> 0xBF"

text \<open>Well-formed byte sequences in the sense of the Unicode standard, table 3-7.\<close>

fun utf8_valid :: "bytes \<Rightarrow> bool" where
  "utf8_valid [] = True"
| "utf8_valid [a] \<longleftrightarrow> a \<le> 0x7F"
| "utf8_valid [a, b] \<longleftrightarrow>
     (if a \<le> 0x7F then utf8_valid [b] else 0xC2 \<le> a \<and> a \<le> 0xDF \<and> utf8_cont b)"
| "utf8_valid [a, b, c] \<longleftrightarrow>
     (if a \<le> 0x7F then utf8_valid [b, c]
      else if 0xC2 \<le> a \<and> a \<le> 0xDF then utf8_cont b \<and> utf8_valid [c]
      else 0xE0 \<le> a \<and> a \<le> 0xEF \<and> utf8_cont b \<and> utf8_cont c
        \<and> (a = 0xE0 \<longrightarrow> 0xA0 \<le> b) \<and> (a = 0xED \<longrightarrow> b \<le> 0x9F))"
| "utf8_valid (a # b # c # d # r) \<longleftrightarrow>
     (if a \<le> 0x7F then utf8_valid (b # c # d # r)
      else if 0xC2 \<le> a \<and> a \<le> 0xDF then utf8_cont b \<and> utf8_valid (c # d # r)
      else if 0xE0 \<le> a \<and> a \<le> 0xEF then
        utf8_cont b \<and> utf8_cont c \<and> (a = 0xE0 \<longrightarrow> 0xA0 \<le> b) \<and> (a = 0xED \<longrightarrow> b \<le> 0x9F)
        \<and> utf8_valid (d # r)
      else 0xF0 \<le> a \<and> a \<le> 0xF4 \<and> utf8_cont b \<and> utf8_cont c \<and> utf8_cont d
        \<and> (a = 0xF0 \<longrightarrow> 0x90 \<le> b) \<and> (a = 0xF4 \<longrightarrow> b \<le> 0x8F) \<and> utf8_valid r)"

section \<open>The grammar\<close>

definition STRUCT_STRING :: u8 where "STRUCT_STRING = 0x00"
definition STRUCT_SEQ_END :: u8 where "STRUCT_SEQ_END = 0x01"

fun encode_terminated :: "bytes \<Rightarrow> bytes" where
  "encode_terminated [] = [STRUCT_STRING, 0x00]"
| "encode_terminated (b # content) =
     (if b = STRUCT_STRING then STRUCT_STRING # 0xFF # encode_terminated content
      else b # encode_terminated content)"

fun decode_terminated :: "bytes \<Rightarrow> decode_error + bytes \<times> nat" where
  "decode_terminated [] = Inl Truncated"
| "decode_terminated (b # rest) =
     (if b = STRUCT_STRING then
        (case rest of
           [] \<Rightarrow> Inl Truncated
         | c # rest' \<Rightarrow>
             if c = 0x00 then Inr ([], 2)
             else if c = 0xFF then
               rbind (decode_terminated rest') (\<lambda>(content, used). Inr (0x00 # content, 2 + used))
             else Inl BadEscape)
      else rbind (decode_terminated rest) (\<lambda>(content, used). Inr (b # content, 1 + used)))"

fun skip_terminated :: "bytes \<Rightarrow> decode_error + nat" where
  "skip_terminated [] = Inl Truncated"
| "skip_terminated (b # rest) =
     (if b = 0x00 then
        (case rest of
           c # rest' \<Rightarrow>
             if c = 0x00 then Inr 2
             else if c = 0xFF then rbind (skip_terminated rest') (\<lambda>used. Inr (2 + used))
             else Inl BadEscape
         | [] \<Rightarrow> Inl BadEscape)
      else rbind (skip_terminated rest) (\<lambda>used. Inr (1 + used)))"

section \<open>Order and round trip\<close>

lemma encode_terminated_law:
  "ocmp (encode_terminated a @ x) (encode_terminated b @ y) = ord_then (ocmp a b) (ocmp x y)"
proof (induction "ocmp :: u8 \<Rightarrow> u8 \<Rightarrow> ordering" a b rule: list_cmp.induct)
  case (2 b bs)
  then show ?case by (auto simp: ocmp_def STRUCT_STRING_def word_greater_zero_iff)
next
  case (3 a as)
  then show ?case by (auto simp: ocmp_def STRUCT_STRING_def word_greater_zero_iff)
next
  case (4 a as b bs)
  have zero: "ocmp 0 (c :: u8) = Less" "ocmp c 0 = Greater" if "c \<noteq> 0" for c
    using that by (simp_all add: ocmp_def word_greater_zero_iff)
  from 4 show ?case
    by (simp add: STRUCT_STRING_def zero ord_then_assoc)
qed (simp add: STRUCT_STRING_def)

lemma decode_encode_terminated:
  "decode_terminated (encode_terminated c @ rest) = Inr (c, length (encode_terminated c))"
  by (induction c rule: encode_terminated.induct) (simp_all add: STRUCT_STRING_def)

lemma decode_terminated_canonical:
  "decode_terminated bs = Inr (c, n)
    \<Longrightarrow> n = length (encode_terminated c) \<and> (\<exists>rest. bs = encode_terminated c @ rest)"
proof (induction bs arbitrary: c n rule: decode_terminated.induct)
  case (2 b rest)
  consider (plain) "b \<noteq> STRUCT_STRING" | (close) rest' where "b = STRUCT_STRING" "rest = 0x00 # rest'"
    | (escape) rest' where "b = STRUCT_STRING" "rest = 0xFF # rest'"
    using "2.prems" by (cases rest) (auto split: if_splits)
  then show ?case
  proof cases
    case plain
    then obtain c' n' where "decode_terminated rest = Inr (c', n')" "c = b # c'" "n = 1 + n'"
      using "2.prems" by (auto simp: rbind_eq_Inr)
    with "2.IH"(2)[OF plain] plain show ?thesis by auto
  next
    case close
    with "2.prems" show ?thesis by (auto simp: STRUCT_STRING_def)
  next
    case escape
    then obtain c' n' where "decode_terminated rest' = Inr (c', n')" "c = 0x00 # c'" "n = 2 + n'"
      using "2.prems" by (auto simp: rbind_eq_Inr)
    with "2.IH"(1)[OF escape] escape show ?thesis by (auto simp: STRUCT_STRING_def)
  qed
qed simp

interpretation string_code: codec "\<lambda>_. True" encode_terminated ocmp decode_terminated
  by unfold_locales
    (simp_all add: encode_terminated_law decode_encode_terminated decode_terminated_canonical)

lemma skip_terminated_iff: "skip_terminated bs = Inr n \<longleftrightarrow> (\<exists>c. decode_terminated bs = Inr (c, n))"
proof (induction bs arbitrary: n rule: skip_terminated.induct)
  case (2 b rest)
  show ?case
  proof (cases "b = 0x00")
    case True
    show ?thesis
    proof (cases rest)
      case (Cons c rest')
      with True "2.IH"(1)[OF True Cons] show ?thesis
        by (auto simp: STRUCT_STRING_def rbind_eq_Inr)
    qed (simp add: True STRUCT_STRING_def)
  next
    case False
    with "2.IH"(2)[OF False] show ?thesis
      by (auto simp: STRUCT_STRING_def rbind_eq_Inr)
  qed
qed simp

lemma length_encode_terminated: "2 \<le> length (encode_terminated c)"
  by (induction c) auto

end
