(* ===== verification/Sequence_Walk.thy ===== *)
theory Sequence_Walk
  imports Byte_Strings
begin

text \<open>
  The sequence grammar of \<open>crates/kyzo-model/src/value/canonical.rs\<close>: elements one after another,
  closed by \<open>STRUCT_SEQ_END\<close>. The decoding loop of lists and JSON arrays, the loop of sets with
  its canonical-order check, and the skipping loop take the element decoder as an argument.

  A loop of the source advances by the length the element decoder reports. Every element decoder
  of the codec reports at least one byte; the loops below advance by \<open>max 1\<close> of that length so that
  they are total for every decoder, and \<open>decode_seq_loop_step\<close> and its companions give the source's
  own step for a decoder that makes progress.
\<close>

section \<open>The loops\<close>

function decode_seq_loop ::
  "(bytes \<Rightarrow> decode_error + 'a \<times> nat) \<Rightarrow> bytes \<Rightarrow> decode_error + 'a list \<times> nat" where
  "decode_seq_loop dec [] = Inl Truncated"
| "decode_seq_loop dec (b # rest) =
     (if b = STRUCT_SEQ_END then Inr ([], 1)
      else
        rbind (dec (b # rest)) (\<lambda>(item, ilen).
          rbind (decode_seq_loop dec (drop (max 1 ilen) (b # rest))) (\<lambda>(items, used).
            Inr (item # items, ilen + used))))"
  by pat_completeness auto

termination decode_seq_loop
  by (relation "measure (\<lambda>(_, bs). length bs)") auto

function decode_set_loop ::
  "(bytes \<Rightarrow> decode_error + 'a \<times> nat) \<Rightarrow> bytes option \<Rightarrow> bytes \<Rightarrow> decode_error + 'a list \<times> nat" where
  "decode_set_loop dec prev [] = Inl Truncated"
| "decode_set_loop dec prev (b # rest) =
     (if b = STRUCT_SEQ_END then Inr ([], 1)
      else
        rbind (dec (b # rest)) (\<lambda>(item, ilen).
          let this = take ilen (b # rest) in
          if (case prev of Some p \<Rightarrow> this \<le> p | None \<Rightarrow> False) then Inl SetNotCanonical
          else
            rbind (decode_set_loop dec (Some this) (drop (max 1 ilen) (b # rest))) (\<lambda>(items, used).
              Inr (item # items, ilen + used))))"
  by pat_completeness auto

termination decode_set_loop
  by (relation "measure (\<lambda>(_, _, bs). length bs)") auto

function skip_seq_loop :: "(bytes \<Rightarrow> decode_error + nat) \<Rightarrow> bytes \<Rightarrow> decode_error + nat" where
  "skip_seq_loop skp [] = Inl Truncated"
| "skip_seq_loop skp (b # rest) =
     (if b = STRUCT_SEQ_END then Inr 1
      else
        rbind (skp (b # rest)) (\<lambda>ilen.
          rbind (skip_seq_loop skp (drop (max 1 ilen) (b # rest))) (\<lambda>used. Inr (ilen + used))))"
  by pat_completeness auto

termination skip_seq_loop
  by (relation "measure (\<lambda>(_, bs). length bs)") auto

declare decode_seq_loop.simps(2) [simp del] decode_set_loop.simps(2) [simp del]
  skip_seq_loop.simps(2) [simp del]

section \<open>The loops on encoded sequences\<close>

definition decodes_front ::
  "(bytes \<Rightarrow> decode_error + 'a \<times> nat) \<Rightarrow> ('a \<Rightarrow> bytes) \<Rightarrow> ('a \<Rightarrow> bool) \<Rightarrow> 'a \<Rightarrow> bool" where
  "decodes_front dec enc ok v \<longleftrightarrow>
     (\<forall>rest. dec (enc v @ rest) = (if ok v then Inr (v, length (enc v)) else Inl TooDeep))"

definition seq_start :: "bytes \<Rightarrow> bool" where
  "seq_start bs \<longleftrightarrow> bs \<noteq> [] \<and> STRUCT_SEQ_END < hd bs"

lemma seq_start_Cons [simp]: "seq_start (b # bs) \<longleftrightarrow> STRUCT_SEQ_END < b"
  by (simp add: seq_start_def)

lemma seq_start_cases:
  assumes "seq_start bs"
  obtains b r where "bs = b # r" "b \<noteq> STRUCT_SEQ_END" "1 \<le> length bs"
  using assms that by (cases bs) (auto simp: seq_start_def)

lemma decode_seq_loop_encoded:
  assumes "\<And>v. v \<in> set vs \<Longrightarrow> decodes_front dec enc ok v" "\<And>v. v \<in> set vs \<Longrightarrow> seq_start (enc v)"
  shows "decode_seq_loop dec (concat (map enc vs) @ STRUCT_SEQ_END # rest)
       = (if \<forall>v \<in> set vs. ok v then Inr (vs, length (concat (map enc vs)) + 1) else Inl TooDeep)"
  using assms
proof (induction vs)
  case (Cons v vs)
  obtain b r where b: "enc v = b # r" "b \<noteq> STRUCT_SEQ_END" "1 \<le> length (enc v)"
    using seq_start_cases[OF Cons.prems(2)[of v]] by auto
  have "decode_seq_loop dec (enc v @ x)
      = rbind (dec (enc v @ x)) (\<lambda>(item, ilen).
          rbind (decode_seq_loop dec (drop (max 1 ilen) (enc v @ x))) (\<lambda>(items, used).
            Inr (item # items, ilen + used)))" for x
    using b by (simp add: decode_seq_loop.simps(2))
  moreover have "max 1 (length (enc v)) = length (enc v)" using b(3) by simp
  ultimately show ?case
    using Cons by (simp add: decodes_front_def)
qed (simp add: decode_seq_loop.simps(2))

lemma decode_set_loop_encoded:
  assumes "\<And>v. v \<in> set vs \<Longrightarrow> decodes_front dec enc ok v" "\<And>v. v \<in> set vs \<Longrightarrow> seq_start (enc v)"
    "sorted_wrt (<) (map enc vs)" "\<And>p v. prev = Some p \<Longrightarrow> v \<in> set vs \<Longrightarrow> p < enc v"
  shows "decode_set_loop dec prev (concat (map enc vs) @ STRUCT_SEQ_END # rest)
       = (if \<forall>v \<in> set vs. ok v then Inr (vs, length (concat (map enc vs)) + 1) else Inl TooDeep)"
  using assms
proof (induction vs arbitrary: prev)
  case (Cons v vs)
  obtain b r where b: "enc v = b # r" "b \<noteq> STRUCT_SEQ_END" "1 \<le> length (enc v)"
    using seq_start_cases[OF Cons.prems(2)[of v]] by auto
  have step: "decode_set_loop dec prev (enc v @ x)
      = (if ok v then rbind (decode_set_loop dec (Some (enc v)) x) (\<lambda>(items, used).
            Inr (v # items, length (enc v) + used)) else Inl TooDeep)" for x
  proof -
    have "\<not> (case prev of Some p \<Rightarrow> enc v \<le> p | None \<Rightarrow> False)"
      using Cons.prems(4)[of _ v] by (auto split: option.splits simp: not_le)
    moreover have "max 1 (length (enc v)) = length (enc v)" using b(3) by simp
    moreover have "dec (enc v @ x) = (if ok v then Inr (v, length (enc v)) else Inl TooDeep)"
      using Cons.prems(1)[of v] by (simp add: decodes_front_def)
    ultimately show ?thesis
      using b by (cases prev) (simp_all add: decode_set_loop.simps(2) Let_def)
  qed
  have "decode_set_loop dec (Some (enc v)) (concat (map enc vs) @ STRUCT_SEQ_END # rest)
      = (if \<forall>v \<in> set vs. ok v then Inr (vs, length (concat (map enc vs)) + 1) else Inl TooDeep)"
    using Cons.prems by (intro Cons.IH) auto
  then show ?case by (simp add: step)
qed (simp add: decode_set_loop.simps(2))

lemma sequence_law:
  assumes "\<And>a b x y. a \<in> set as \<Longrightarrow> b \<in> set bs
             \<Longrightarrow> ocmp (enc a @ x) (enc b @ y) = ord_then (cmp a b) (ocmp x y)"
    and "\<And>a. a \<in> set as \<union> set bs \<Longrightarrow> seq_start (enc a)"
  shows "ocmp (concat (map enc as) @ STRUCT_SEQ_END # x) (concat (map enc bs) @ STRUCT_SEQ_END # y)
       = ord_then (list_cmp cmp as bs) (ocmp x y)"
  by (rule seq_code_law) (use assms in \<open>simp_all add: seq_start_def\<close>)

section \<open>The loops accept only encoded sequences\<close>

definition canonical_decoder ::
  "(bytes \<Rightarrow> decode_error + 'a \<times> nat) \<Rightarrow> ('a \<Rightarrow> bytes) \<Rightarrow> ('a \<Rightarrow> bool) \<Rightarrow> bool" where
  "canonical_decoder dec enc P \<longleftrightarrow>
     (\<forall>bs v n. dec bs = Inr (v, n)
        \<longrightarrow> P v \<and> n = length (enc v) \<and> seq_start (enc v) \<and> (\<exists>rest. bs = enc v @ rest))"

lemma canonical_decoderD:
  assumes "canonical_decoder dec enc P" "dec bs = Inr (v, n)"
  obtains rest where "P v" "n = length (enc v)" "seq_start (enc v)" "bs = enc v @ rest" "max 1 n = n"
proof -
  from assms obtain rest where *: "P v" "n = length (enc v)" "seq_start (enc v)" "bs = enc v @ rest"
    unfolding canonical_decoder_def by blast
  moreover from * have "1 \<le> n" by (metis seq_start_cases)
  ultimately show thesis using that by simp
qed

lemma decode_seq_loop_canonical:
  assumes "canonical_decoder dec enc P" "decode_seq_loop dec bs = Inr (vs, n)"
  shows "(\<forall>v \<in> set vs. P v \<and> seq_start (enc v)) \<and> n = length (concat (map enc vs)) + 1
       \<and> (\<exists>rest. bs = concat (map enc vs) @ STRUCT_SEQ_END # rest)"
  using assms
proof (induction dec bs arbitrary: vs n rule: decode_seq_loop.induct)
  case (2 dec b rest)
  show ?case
  proof (cases "b = STRUCT_SEQ_END")
    case False
    with "2.prems"(2) obtain v k vs' n' where d: "dec (b # rest) = Inr (v, k)"
      and l: "decode_seq_loop dec (drop (max 1 k) (b # rest)) = Inr (vs', n')"
      and r: "vs = v # vs'" "n = k + n'"
      by (auto simp: decode_seq_loop.simps(2) rbind_eq_Inr)
    obtain x where x: "P v" "k = length (enc v)" "seq_start (enc v)" "b # rest = enc v @ x" "max 1 k = k"
      using canonical_decoderD[OF "2.prems"(1) d] .
    have "drop k (b # rest) = x" using x(2,4) by simp
    with "2.IH"[OF False d refl "2.prems"(1) l] x r show ?thesis by auto
  qed (use "2.prems" in \<open>auto simp: decode_seq_loop.simps(2)\<close>)
qed simp

lemma decode_set_loop_canonical:
  assumes "canonical_decoder dec enc P" "decode_set_loop dec prev bs = Inr (vs, n)"
  shows "(\<forall>v \<in> set vs. P v \<and> seq_start (enc v)) \<and> n = length (concat (map enc vs)) + 1
       \<and> (\<exists>rest. bs = concat (map enc vs) @ STRUCT_SEQ_END # rest)
       \<and> sorted_wrt (<) (map enc vs) \<and> (\<forall>p. prev = Some p \<longrightarrow> (\<forall>v \<in> set vs. p < enc v))"
  using assms
proof (induction dec prev bs arbitrary: vs n rule: decode_set_loop.induct)
  case (2 dec prev b rest)
  show ?case
  proof (cases "b = STRUCT_SEQ_END")
    case False
    with "2.prems"(2) obtain v k vs' n' where d: "dec (b # rest) = Inr (v, k)"
      and pr: "\<not> (case prev of Some p \<Rightarrow> take k (b # rest) \<le> p | None \<Rightarrow> False)"
      and l: "decode_set_loop dec (Some (take k (b # rest))) (drop (max 1 k) (b # rest)) = Inr (vs', n')"
      and r: "vs = v # vs'" "n = k + n'"
      by (auto simp: decode_set_loop.simps(2) rbind_eq_Inr Let_def split: if_splits)
    obtain x where x: "P v" "k = length (enc v)" "seq_start (enc v)" "b # rest = enc v @ x" "max 1 k = k"
      using canonical_decoderD[OF "2.prems"(1) d] .
    have "take k (b # rest) = enc v" "drop k (b # rest) = x" using x(2,4) by simp_all
    with "2.IH"[OF False d refl refl pr "2.prems"(1) l] x r pr show ?thesis
      by (auto split: option.splits simp: not_le)
  qed (use "2.prems" in \<open>auto simp: decode_set_loop.simps(2)\<close>)
qed simp

section \<open>Skipping agrees with decoding\<close>

definition skips :: "(bytes \<Rightarrow> decode_error + 'a \<times> nat) \<Rightarrow> (bytes \<Rightarrow> decode_error + nat) \<Rightarrow> bool" where
  "skips dec skp \<longleftrightarrow> (\<forall>bs v n. dec bs = Inr (v, n) \<longrightarrow> skp bs = Inr n)"

lemma skip_seq_loop_decode:
  assumes "skips dec skp" "decode_seq_loop dec bs = Inr (vs, n)"
  shows "skip_seq_loop skp bs = Inr n"
  using assms
proof (induction dec bs arbitrary: vs n rule: decode_seq_loop.induct)
  case (2 dec b rest)
  show ?case
  proof (cases "b = STRUCT_SEQ_END")
    case False
    with "2.prems"(2) obtain v k vs' n' where d: "dec (b # rest) = Inr (v, k)"
      and l: "decode_seq_loop dec (drop (max 1 k) (b # rest)) = Inr (vs', n')"
      and r: "vs = v # vs'" "n = k + n'"
      by (auto simp: decode_seq_loop.simps(2) rbind_eq_Inr)
    with "2.IH"[OF False d refl "2.prems"(1) l] "2.prems"(1) False show ?thesis
      by (simp add: skip_seq_loop.simps(2) skips_def)
  qed (use "2.prems" in \<open>auto simp: decode_seq_loop.simps(2) skip_seq_loop.simps(2)\<close>)
qed simp

lemma decode_set_loop_seq:
  "decode_set_loop dec prev bs = Inr (vs, n) \<Longrightarrow> decode_seq_loop dec bs = Inr (vs, n)"
proof (induction dec prev bs arbitrary: vs n rule: decode_set_loop.induct)
  case (2 dec prev b rest)
  show ?case
  proof (cases "b = STRUCT_SEQ_END")
    case False
    with "2.prems" obtain v k vs' n' where d: "dec (b # rest) = Inr (v, k)"
      and pr: "\<not> (case prev of Some p \<Rightarrow> take k (b # rest) \<le> p | None \<Rightarrow> False)"
      and l: "decode_set_loop dec (Some (take k (b # rest))) (drop (max 1 k) (b # rest)) = Inr (vs', n')"
      and r: "vs = v # vs'" "n = k + n'"
      by (auto simp: decode_set_loop.simps(2) rbind_eq_Inr Let_def split: if_splits)
    with "2.IH"[OF False d refl refl pr l] False show ?thesis
      by (simp add: decode_seq_loop.simps(2))
  qed (use "2.prems" in \<open>auto simp: decode_set_loop.simps(2) decode_seq_loop.simps(2)\<close>)
qed simp

section \<open>The source's step\<close>

lemma decode_seq_loop_step:
  assumes "canonical_decoder dec enc P" "b \<noteq> STRUCT_SEQ_END"
  shows "decode_seq_loop dec (b # rest)
       = rbind (dec (b # rest)) (\<lambda>(item, ilen).
           rbind (decode_seq_loop dec (drop ilen (b # rest))) (\<lambda>(items, used).
             Inr (item # items, ilen + used)))"
  using assms(2)
  by (auto simp: decode_seq_loop.simps(2) elim!: canonical_decoderD[OF assms(1)] intro!: rbind_cong)

end
