(* ===== verification/Json_Kind.thy ===== *)
theory Json_Kind
  imports Sequence_Walk
begin

text \<open>
  The JSON kind: the value tree with its finite numbers and its sorted, duplicate-free objects
  (\<open>crates/kyzo-model/src/value/kind/json.rs\<close>), its storage order \<open>json_storage_cmp\<close>
  (\<open>crates/kyzo-model/src/value/mod.rs\<close>), and its payload grammar with encoder, decoder and
  skipping walk (\<open>crates/kyzo-model/src/value/canonical.rs\<close>).

  The nesting depth the source carries down and compares with \<open>MAX_DEPTH\<close> is here the number of
  levels that remain, so that running out of it is the \<open>TooDeep\<close> refusal.
\<close>

unbundle bit_operations_syntax

section \<open>Values\<close>

datatype json =
  JNull
| JBool bool
| JNum knum
| JStr bytes
| JArr "json list"
| JObj "(bytes \<times> json) list"

definition json_num_new :: "knum \<Rightarrow> unit + knum" where
  "json_num_new n =
     (case as_float n of
        Some f \<Rightarrow> if \<not> f64_is_finite f then Inl () else Inr n
      | None \<Rightarrow> Inr n)"

fun adjacent_dup :: "(bytes \<times> 'a) list \<Rightarrow> bytes option" where
  "adjacent_dup (a # b # rest) = (if fst a = fst b then Some (fst a) else adjacent_dup (b # rest))"
| "adjacent_dup _ = None"

definition json_obj_new :: "(bytes \<times> 'a) list \<Rightarrow> bytes + (bytes \<times> 'a) list" where
  "json_obj_new entries =
     (let sorted_entries = sort_key fst entries in
      case adjacent_dup sorted_entries of
        Some k \<Rightarrow> Inl k
      | None \<Rightarrow> Inr sorted_entries)"

definition fnv1a64 :: "bytes \<Rightarrow> u64" where
  "fnv1a64 bs = foldl (\<lambda>h b. (h XOR ucast b) * 0x00000100000001B3) 0xcbf29ce484222325 bs"

section \<open>The storage order\<close>

fun json_rank :: "json \<Rightarrow> u8" where
  "json_rank JNull = 0x05"
| "json_rank (JBool False) = 0x06"
| "json_rank (JBool True) = 0x07"
| "json_rank (JNum _) = 0x10"
| "json_rank (JStr _) = 0x18"
| "json_rank (JArr _) = 0x48"
| "json_rank (JObj _) = 0x4C"

function json_storage_cmp :: "json \<Rightarrow> json \<Rightarrow> ordering" where
  "json_storage_cmp a b =
     (if json_rank a \<noteq> json_rank b then ocmp (json_rank a) (json_rank b)
      else
        (case a of
           JNum x \<Rightarrow> (case b of JNum y \<Rightarrow> num_cmp x y | _ \<Rightarrow> Equal)
         | JStr x \<Rightarrow> (case b of JStr y \<Rightarrow> ocmp x y | _ \<Rightarrow> Equal)
         | JArr x \<Rightarrow> (case b of JArr y \<Rightarrow> slice_cmp json_storage_cmp x y | _ \<Rightarrow> Equal)
         | JObj x \<Rightarrow>
             (case b of
                JObj y \<Rightarrow>
                  slice_cmp (\<lambda>p q. ord_then (ocmp (fst p) (fst q)) (json_storage_cmp (snd p) (snd q))) x y
              | _ \<Rightarrow> Equal)
         | _ \<Rightarrow> Equal))"
  by pat_completeness auto

termination json_storage_cmp
  by (relation "measure (\<lambda>(a, _). size a)")
    (auto simp: less_Suc_eq_le size_list_estimation' intro: trans_le_add1)

declare json_storage_cmp.simps [simp del]

section \<open>The payload grammar\<close>

definition MARK_NULL :: u8 where "MARK_NULL = 0x05"
definition MARK_FALSE :: u8 where "MARK_FALSE = 0x06"
definition MARK_TRUE :: u8 where "MARK_TRUE = 0x07"
definition MARK_NUM :: u8 where "MARK_NUM = 0x10"
definition MARK_STR :: u8 where "MARK_STR = 0x18"
definition MARK_ARR :: u8 where "MARK_ARR = 0x48"
definition MARK_OBJ :: u8 where "MARK_OBJ = 0x4C"

lemmas mark_defs = MARK_NULL_def MARK_FALSE_def MARK_TRUE_def MARK_NUM_def MARK_STR_def
  MARK_ARR_def MARK_OBJ_def

fun encode_json :: "json \<Rightarrow> bytes" where
  "encode_json JNull = [MARK_NULL]"
| "encode_json (JBool False) = [MARK_FALSE]"
| "encode_json (JBool True) = [MARK_TRUE]"
| "encode_json (JNum n) = MARK_NUM # encode_key n"
| "encode_json (JStr s) = MARK_STR # encode_terminated s"
| "encode_json (JArr items) = MARK_ARR # concat (map encode_json items) @ [STRUCT_SEQ_END]"
| "encode_json (JObj entries) =
     MARK_OBJ # concat (map (\<lambda>e. MARK_STR # encode_terminated (fst e) @ encode_json (snd e)) entries)
       @ [STRUCT_SEQ_END]"

abbreviation encode_entry :: "bytes \<times> json \<Rightarrow> bytes" where
  "encode_entry e \<equiv> MARK_STR # encode_terminated (fst e) @ encode_json (snd e)"

function decode_obj_loop ::
  "(bytes \<Rightarrow> decode_error + json \<times> nat) \<Rightarrow> bytes option \<Rightarrow> bytes
     \<Rightarrow> decode_error + (bytes \<times> json) list \<times> nat" where
  "decode_obj_loop dec prev [] = Inl Truncated"
| "decode_obj_loop dec prev (b # rest) =
     (if b = STRUCT_SEQ_END then Inr ([], 1)
      else if b = MARK_STR then
        rbind (decode_terminated rest) (\<lambda>(key, klen).
          if (case prev of Some p \<Rightarrow> key \<le> p | None \<Rightarrow> False) then Inl JsonNotCanonical
          else if \<not> utf8_valid key then Inl BadUtf8
          else
            rbind (dec (drop klen rest)) (\<lambda>(val, vlen).
              rbind (decode_obj_loop dec (Some key) (drop (klen + vlen) rest)) (\<lambda>(entries, used).
                Inr ((key, val) # entries, 1 + klen + vlen + used))))
      else Inl (BadJsonMarker b))"
  by pat_completeness auto

termination decode_obj_loop
  by (relation "measure (\<lambda>(_, _, bs). length bs)") auto

declare decode_obj_loop.simps(2) [simp del]

primrec decode_json :: "nat \<Rightarrow> bytes \<Rightarrow> decode_error + json \<times> nat" where
  "decode_json 0 body = Inl TooDeep"
| "decode_json (Suc levels) body =
     (case body of
        [] \<Rightarrow> Inl Truncated
      | marker # rest \<Rightarrow>
          if marker = MARK_NULL then Inr (JNull, 1)
          else if marker = MARK_FALSE then Inr (JBool False, 1)
          else if marker = MARK_TRUE then Inr (JBool True, 1)
          else if marker = MARK_NUM then
            rbind (map_err NumError (decode_key rest)) (\<lambda>(n, used).
              rbind (map_err (\<lambda>_. JsonNumberNotFinite) (json_num_new n)) (\<lambda>jn. Inr (JNum jn, 1 + used)))
          else if marker = MARK_STR then
            rbind (decode_terminated rest) (\<lambda>(content, used).
              if utf8_valid content then Inr (JStr content, 1 + used) else Inl BadUtf8)
          else if marker = MARK_ARR then
            rbind (decode_seq_loop (decode_json levels) rest) (\<lambda>(items, used).
              Inr (JArr items, 1 + used))
          else if marker = MARK_OBJ then
            rbind (decode_obj_loop (decode_json levels) None rest) (\<lambda>(entries, used).
              rbind (map_err (\<lambda>_. JsonNotCanonical) (json_obj_new entries)) (\<lambda>obj.
                Inr (JObj obj, 1 + used)))
          else Inl (BadJsonMarker marker))"

function skip_obj_loop :: "(bytes \<Rightarrow> decode_error + nat) \<Rightarrow> bytes \<Rightarrow> decode_error + nat" where
  "skip_obj_loop skp [] = Inl Truncated"
| "skip_obj_loop skp (b # rest) =
     (if b = STRUCT_SEQ_END then Inr 1
      else
        rbind (skip_terminated (b # rest)) (\<lambda>klen.
          rbind (skp (drop klen (b # rest))) (\<lambda>vlen.
            rbind (skip_obj_loop skp (drop (max 1 (klen + vlen)) (b # rest))) (\<lambda>used.
              Inr (klen + vlen + used)))))"
  by pat_completeness auto

termination skip_obj_loop
  by (relation "measure (\<lambda>(_, bs). length bs)") auto

declare skip_obj_loop.simps(2) [simp del]

primrec skip_json :: "nat \<Rightarrow> bytes \<Rightarrow> decode_error + nat" where
  "skip_json 0 body = Inl TooDeep"
| "skip_json (Suc levels) body =
     (case body of
        [] \<Rightarrow> Inl Truncated
      | marker # rest \<Rightarrow>
          if marker = MARK_NULL \<or> marker = MARK_FALSE \<or> marker = MARK_TRUE then Inr 1
          else if marker = MARK_NUM then
            rbind (map_err NumError (decode_key rest)) (\<lambda>(_, used). Inr (1 + used))
          else if marker = MARK_STR then rbind (skip_terminated rest) (\<lambda>used. Inr (1 + used))
          else if marker = MARK_ARR then
            rbind (skip_seq_loop (skip_json levels) rest) (\<lambda>used. Inr (1 + used))
          else if marker = MARK_OBJ then
            rbind (skip_obj_loop (skip_json levels) rest) (\<lambda>used. Inr (1 + used))
          else Inl (BadJsonMarker marker))"

section \<open>Lawful trees\<close>

fun json_wf :: "json \<Rightarrow> bool" where
  "json_wf JNull = True"
| "json_wf (JBool _) = True"
| "json_wf (JNum n) \<longleftrightarrow> num_wf n \<and> num_finite n"
| "json_wf (JStr s) \<longleftrightarrow> utf8_valid s"
| "json_wf (JArr items) \<longleftrightarrow> (\<forall>j \<in> set items. json_wf j)"
| "json_wf (JObj entries) \<longleftrightarrow>
     (\<forall>e \<in> set entries. utf8_valid (fst e) \<and> json_wf (snd e)) \<and> sorted_wrt (<) (map fst entries)"

text \<open>How many levels below the root a tree reaches.\<close>

fun json_depth :: "json \<Rightarrow> nat" where
  "json_depth (JArr items) = foldr max (map (\<lambda>j. Suc (json_depth j)) items) 0"
| "json_depth (JObj entries) = foldr max (map (\<lambda>e. Suc (json_depth (snd e))) entries) 0"
| "json_depth _ = 0"

lemma foldr_max_less: "foldr max (map (\<lambda>x. Suc (f x)) xs) 0 < Suc n \<longleftrightarrow> (\<forall>x \<in> set xs. f x < n)"
  by (induction xs) auto

section \<open>Objects\<close>

lemma adjacent_dup_None: "sorted (map fst es) \<Longrightarrow> adjacent_dup es = None \<longleftrightarrow> distinct (map fst es)"
  by (induction es rule: adjacent_dup.induct) force+

lemma adjacent_dup_Some: "adjacent_dup es = Some k \<Longrightarrow> 2 \<le> length (filter (\<lambda>e. fst e = k) es)"
  by (induction es rule: adjacent_dup.induct) (auto split: if_splits)

lemma strict_sorted_keys: "sorted_wrt (<) (map fst es) \<longleftrightarrow> sorted (map fst es) \<and> distinct (map fst es)"
  for es :: "('k::linorder \<times> 'v) list"
  by (simp add: strict_sorted_iff)

lemma json_obj_new_Inr:
  "json_obj_new es = Inr r \<longleftrightarrow> distinct (map fst es) \<and> r = sort_key fst es"
proof -
  have "distinct (map fst (sort_key fst es)) \<longleftrightarrow> distinct (map fst es)"
    by (simp add: distinct_map)
  then show ?thesis
    using adjacent_dup_None[of "sort_key fst es"]
    by (auto simp: json_obj_new_def Let_def split: option.splits)
qed

lemma json_obj_new_sorted: "sorted_wrt (<) (map fst es) \<Longrightarrow> json_obj_new es = Inr es"
  by (simp add: json_obj_new_Inr strict_sorted_keys sort_key_id_if_sorted)

section \<open>The order law\<close>

lemma encode_json_start: "seq_start (encode_json j)" "hd (encode_json j) = json_rank j"
  by (cases j rule: encode_json.cases; simp add: mark_defs STRUCT_SEQ_END_def)+

lemma encode_json_Cons: "encode_json j = json_rank j # tl (encode_json j)"
  using encode_json_start[of j] by (cases "encode_json j") (simp_all add: seq_start_def)

lemma json_same_rank:
  assumes "json_rank a = json_rank b"
  obtains (const) "a = b" "encode_json a = [json_rank a]" "json_storage_cmp a b = Equal"
  | (num) x y where "a = JNum x" "b = JNum y"
  | (str) x y where "a = JStr x" "b = JStr y"
  | (arr) x y where "a = JArr x" "b = JArr y"
  | (obj) x y where "a = JObj x" "b = JObj y"
  using assms
  by (cases a rule: json_rank.cases; cases b rule: json_rank.cases)
    (simp_all add: mark_defs json_storage_cmp.simps[of _ JNull] json_storage_cmp.simps[of _ "JBool _"])

lemma json_size_child:
  "j \<in> set items \<Longrightarrow> size j < size (JArr items)"
  "e \<in> set entries \<Longrightarrow> size (snd e) < size (JObj entries)"
proof -
  show "j \<in> set items \<Longrightarrow> size j < size (JArr items)"
    by (auto simp: less_Suc_eq_le size_list_estimation')
  assume e: "e \<in> set entries"
  have "size (snd e) \<le> size_prod (\<lambda>_. 0) size e" by (cases e) simp
  also have "\<dots> \<le> size_list (size_prod (\<lambda>_. 0) size) entries"
    using e by (rule size_list_estimation') simp
  finally show "size (snd e) < size (JObj entries)" by simp
qed

lemma json_cmp_unfold:
  "json_storage_cmp (JNum m) (JNum n) = num_cmp m n"
  "json_storage_cmp (JStr s) (JStr t) = ocmp s t"
  "json_storage_cmp (JArr us) (JArr vs) = list_cmp json_storage_cmp us vs"
  "json_storage_cmp (JObj ds) (JObj es)
     = list_cmp (\<lambda>p q. ord_then (ocmp (fst p) (fst q)) (json_storage_cmp (snd p) (snd q))) ds es"
  by (simp_all add: json_storage_cmp.simps[of "JNum _"] json_storage_cmp.simps[of "JStr _"]
      json_storage_cmp.simps[of "JArr _"] json_storage_cmp.simps[of "JObj _"] slice_cmp_list_cmp)

lemma encode_entry_law:
  assumes "ocmp (encode_json (snd p) @ x) (encode_json (snd q) @ y)
      = ord_then (json_storage_cmp (snd p) (snd q)) (ocmp x y)"
  shows "ocmp (encode_entry p @ x) (encode_entry q @ y)
      = ord_then (ord_then (ocmp (fst p) (fst q)) (json_storage_cmp (snd p) (snd q))) (ocmp x y)"
  using assms by (simp add: encode_terminated_law ord_then_assoc)

lemma encode_json_law:
  "json_wf a \<Longrightarrow> json_wf b
    \<Longrightarrow> ocmp (encode_json a @ x) (encode_json b @ y) = ord_then (json_storage_cmp a b) (ocmp x y)"
proof (induction a arbitrary: b x y rule: measure_induct_rule[of size])
  case (less a)
  show ?case
  proof (cases "json_rank a = json_rank b")
    case False
    then have "json_storage_cmp a b = ocmp (json_rank a) (json_rank b)"
      "ocmp (json_rank a) (json_rank b) \<noteq> Equal"
      by (simp_all add: json_storage_cmp.simps[of a b])
    then show ?thesis
      by (subst encode_json_Cons[of a], subst encode_json_Cons[of b]) (simp add: ord_then_nonequal)
  next
    case True
    then show ?thesis
    proof (cases rule: json_same_rank)
      case const
      then show ?thesis by simp
    next
      case (num m n)
      with less.prems show ?thesis by (simp add: json_cmp_unfold encode_key_law)
    next
      case (str s t)
      then show ?thesis by (simp add: json_cmp_unfold encode_terminated_law)
    next
      case (arr us vs)
      have "ocmp (concat (map encode_json us) @ STRUCT_SEQ_END # x)
              (concat (map encode_json vs) @ STRUCT_SEQ_END # y)
          = ord_then (list_cmp json_storage_cmp us vs) (ocmp x y)"
        by (rule sequence_law) (use less arr json_size_child(1) encode_json_start(1) in auto)
      with arr show ?thesis by (simp add: json_cmp_unfold)
    next
      case (obj ds es)
      have "ocmp (concat (map encode_entry ds) @ STRUCT_SEQ_END # x)
              (concat (map encode_entry es) @ STRUCT_SEQ_END # y)
          = ord_then (list_cmp (\<lambda>p q. ord_then (ocmp (fst p) (fst q))
              (json_storage_cmp (snd p) (snd q))) ds es) (ocmp x y)"
      proof (rule sequence_law)
        fix p q x y assume "p \<in> set ds" "q \<in> set es"
        with less obj json_size_child(2)
        show "ocmp (encode_entry p @ x) (encode_entry q @ y)
            = ord_then (ord_then (ocmp (fst p) (fst q)) (json_storage_cmp (snd p) (snd q))) (ocmp x y)"
          by (intro encode_entry_law less.IH) auto
      qed (simp_all add: mark_defs STRUCT_SEQ_END_def)
      with obj show ?thesis by (simp add: json_cmp_unfold)
    qed
  qed
qed

section \<open>Decoding inverts encoding\<close>

lemma json_num_new_Inr [simp]: "json_num_new n = Inr m \<longleftrightarrow> num_finite n \<and> m = n"
  by (cases n) (auto simp: json_num_new_def)

lemma decode_obj_loop_encoded:
  assumes "\<And>e. e \<in> set es \<Longrightarrow> decodes_front dec encode_json ok (snd e) \<and> utf8_valid (fst e)"
    "sorted_wrt (<) (map fst es)" "\<And>p e. prev = Some p \<Longrightarrow> e \<in> set es \<Longrightarrow> p < fst e"
  shows "decode_obj_loop dec prev (concat (map encode_entry es) @ STRUCT_SEQ_END # rest)
       = (if \<forall>e \<in> set es. ok (snd e) then Inr (es, length (concat (map encode_entry es)) + 1)
          else Inl TooDeep)"
  using assms
proof (induction es arbitrary: prev)
  case (Cons e es)
  have step: "decode_obj_loop dec prev (encode_entry e @ x)
      = (if ok (snd e) then rbind (decode_obj_loop dec (Some (fst e)) x) (\<lambda>(entries, used).
            Inr (e # entries, length (encode_entry e) + used)) else Inl TooDeep)" for x
  proof -
    have "\<not> (case prev of Some p \<Rightarrow> fst e \<le> p | None \<Rightarrow> False)"
      using Cons.prems(3)[of _ e] by (auto split: option.splits simp: not_le)
    moreover have "dec (encode_json (snd e) @ x)
        = (if ok (snd e) then Inr (snd e, length (encode_json (snd e))) else Inl TooDeep)"
      using Cons.prems(1)[of e] by (simp add: decodes_front_def)
    moreover have "MARK_STR \<noteq> STRUCT_SEQ_END" by (simp add: mark_defs STRUCT_SEQ_END_def)
    ultimately show ?thesis
      using Cons.prems(1)[of e] by (simp add: decode_obj_loop.simps(2) decode_encode_terminated)
  qed
  have "decode_obj_loop dec (Some (fst e)) (concat (map encode_entry es) @ STRUCT_SEQ_END # rest)
      = (if \<forall>e \<in> set es. ok (snd e) then Inr (es, length (concat (map encode_entry es)) + 1)
         else Inl TooDeep)"
    using Cons.prems by (intro Cons.IH) auto
  then show ?case using step by simp
qed (simp add: decode_obj_loop.simps(2))

lemma mark_distinct:
  "MARK_FALSE \<noteq> MARK_NULL" "MARK_TRUE \<noteq> MARK_NULL" "MARK_TRUE \<noteq> MARK_FALSE" "MARK_NUM \<noteq> MARK_NULL"
  "MARK_NUM \<noteq> MARK_FALSE" "MARK_NUM \<noteq> MARK_TRUE" "MARK_STR \<noteq> MARK_NULL" "MARK_STR \<noteq> MARK_FALSE"
  "MARK_STR \<noteq> MARK_TRUE" "MARK_STR \<noteq> MARK_NUM" "MARK_ARR \<noteq> MARK_NULL" "MARK_ARR \<noteq> MARK_FALSE"
  "MARK_ARR \<noteq> MARK_TRUE" "MARK_ARR \<noteq> MARK_NUM" "MARK_ARR \<noteq> MARK_STR" "MARK_OBJ \<noteq> MARK_NULL"
  "MARK_OBJ \<noteq> MARK_FALSE" "MARK_OBJ \<noteq> MARK_TRUE" "MARK_OBJ \<noteq> MARK_NUM" "MARK_OBJ \<noteq> MARK_STR"
  "MARK_OBJ \<noteq> MARK_ARR"
  by (simp_all add: mark_defs)

lemma decode_json_encode:
  "json_wf j \<Longrightarrow> decodes_front (decode_json levels) encode_json (\<lambda>j. json_depth j < levels) j"
proof (induction j arbitrary: levels rule: encode_json.induct)
  case (4 n)
  then show ?case
    by (cases levels) (simp_all add: decodes_front_def mark_distinct decode_key_encode_key json_num_new_Inr[THEN iffD2])
next
  case (5 s)
  then show ?case
    by (cases levels) (simp_all add: decodes_front_def mark_distinct decode_encode_terminated)
next
  case (6 items)
  show ?case
  proof (cases levels)
    case (Suc m)
    have "decode_seq_loop (decode_json m) (concat (map encode_json items) @ STRUCT_SEQ_END # rest)
        = (if \<forall>j \<in> set items. json_depth j < m then Inr (items, length (concat (map encode_json items)) + 1)
           else Inl TooDeep)" for rest
      using 6 encode_json_start(1) by (intro decode_seq_loop_encoded) auto
    then show ?thesis
      by (simp add: decodes_front_def mark_distinct Suc foldr_max_less)
  qed (simp add: decodes_front_def)
next
  case (7 entries)
  show ?case
  proof (cases levels)
    case (Suc m)
    have "decode_obj_loop (decode_json m) None (concat (map encode_entry entries) @ STRUCT_SEQ_END # rest)
        = (if \<forall>e \<in> set entries. json_depth (snd e) < m
           then Inr (entries, length (concat (map encode_entry entries)) + 1) else Inl TooDeep)" for rest
      using 7 by (intro decode_obj_loop_encoded) auto
    moreover have "json_obj_new entries = Inr entries"
      using 7 by (intro json_obj_new_sorted) simp
    ultimately show ?thesis
      by (simp add: decodes_front_def mark_distinct Suc foldr_max_less)
  qed (simp add: decodes_front_def)
qed (case_tac levels; simp add: decodes_front_def mark_distinct)+

lemma json_storage_cmp_eq:
  assumes "json_wf a" "json_wf b"
  shows "json_storage_cmp a b = Equal \<longleftrightarrow> a = b"
proof
  assume "json_storage_cmp a b = Equal"
  then have eq: "encode_json a = encode_json b"
    using encode_json_law[OF assms, of "[]" "[]"] by simp
  define m where "m = max (json_depth a) (json_depth b)"
  have "decode_json (Suc m) (encode_json a) = Inr (a, length (encode_json a))"
    using decode_json_encode[OF assms(1), of "Suc m", unfolded decodes_front_def, rule_format, of "[]"]
    by (simp add: m_def del: decode_json.simps)
  moreover have "decode_json (Suc m) (encode_json b) = Inr (b, length (encode_json b))"
    using decode_json_encode[OF assms(2), of "Suc m", unfolded decodes_front_def, rule_format, of "[]"]
    by (simp add: m_def del: decode_json.simps)
  ultimately show "a = b" unfolding eq by (simp del: decode_json.simps)
next
  assume "a = b"
  then show "json_storage_cmp a b = Equal"
    using encode_json_law[OF assms, of "[]" "[]"] by simp
qed

interpretation json_code: order_code json_wf encode_json json_storage_cmp
  by unfold_locales (fact encode_json_law, fact json_storage_cmp_eq)

section \<open>Decoding accepts only encodings\<close>

lemma decode_obj_loop_canonical:
  assumes "canonical_decoder dec encode_json P" "decode_obj_loop dec prev bs = Inr (es, n)"
  shows "(\<forall>e \<in> set es. P (snd e) \<and> utf8_valid (fst e)) \<and> n = length (concat (map encode_entry es)) + 1
       \<and> (\<exists>rest. bs = concat (map encode_entry es) @ STRUCT_SEQ_END # rest)
       \<and> sorted_wrt (<) (map fst es) \<and> (\<forall>p. prev = Some p \<longrightarrow> (\<forall>e \<in> set es. p < fst e))"
  using assms
proof (induction dec prev bs arbitrary: es n rule: decode_obj_loop.induct)
  case (2 dec prev b rest)
  show ?case
  proof (cases "b = STRUCT_SEQ_END")
    case False
    with "2.prems"(2) obtain key klen val vlen es' n' where b: "b = MARK_STR"
      and k: "decode_terminated rest = Inr (key, klen)"
      and pr: "\<not> (case prev of Some p \<Rightarrow> key \<le> p | None \<Rightarrow> False)" and u: "utf8_valid key"
      and v: "dec (drop klen rest) = Inr (val, vlen)"
      and l: "decode_obj_loop dec (Some key) (drop (klen + vlen) rest) = Inr (es', n')"
      and r: "es = (key, val) # es'" "n = 1 + klen + vlen + n'"
      by (auto simp: decode_obj_loop.simps(2) rbind_eq_Inr split: if_splits)
    obtain x where x: "klen = length (encode_terminated key)" "rest = encode_terminated key @ x"
      using decode_terminated_canonical[OF k] by blast
    then have "drop klen rest = x" by simp
    with v obtain y where y: "P val" "vlen = length (encode_json val)" "x = encode_json val @ y"
      using canonical_decoderD[OF "2.prems"(1), of x val vlen] by metis
    have "drop (klen + vlen) rest = y" using x y by simp
    with "2.IH"[OF False b k refl pr _ v refl "2.prems"(1) l] u x y b r pr show ?thesis
      by (auto split: option.splits simp: not_le)
  qed (use "2.prems" in \<open>auto simp: decode_obj_loop.simps(2)\<close>)
qed simp

lemma decode_json_Inr:
  assumes "decode_json (Suc m) bs = Inr (j, n)"
  obtains (null) rest where "bs = MARK_NULL # rest" "j = JNull" "n = 1"
  | (false) rest where "bs = MARK_FALSE # rest" "j = JBool False" "n = 1"
  | (true) rest where "bs = MARK_TRUE # rest" "j = JBool True" "n = 1"
  | (num) rest x used where "bs = MARK_NUM # rest" "decode_key rest = Inr (x, used)" "num_finite x"
      "j = JNum x" "n = 1 + used"
  | (str) rest s used where "bs = MARK_STR # rest" "decode_terminated rest = Inr (s, used)"
      "utf8_valid s" "j = JStr s" "n = 1 + used"
  | (arr) rest items used where "bs = MARK_ARR # rest"
      "decode_seq_loop (decode_json m) rest = Inr (items, used)" "j = JArr items" "n = 1 + used"
  | (obj) rest entries es used where "bs = MARK_OBJ # rest"
      "decode_obj_loop (decode_json m) None rest = Inr (entries, used)"
      "json_obj_new entries = Inr es" "j = JObj es" "n = 1 + used"
proof -
  from assms obtain marker rest where bs: "bs = marker # rest" by (cases bs) auto
  note d = assms[unfolded bs decode_json.simps list.case]
  consider "marker = MARK_NULL" | "marker = MARK_FALSE" | "marker = MARK_TRUE" | "marker = MARK_NUM"
    | "marker = MARK_STR" | "marker = MARK_ARR" | "marker = MARK_OBJ"
    using d by (auto split: if_splits)
  then show thesis
  proof cases
    case 1
    with d have "j = JNull" "n = 1" by simp_all
    with 1 show ?thesis by (intro null) (simp_all add: bs)
  next
    case 2
    with d have "j = JBool False" "n = 1" by (simp_all add: mark_distinct)
    with 2 show ?thesis by (intro false) (simp_all add: bs)
  next
    case 3
    with d have "j = JBool True" "n = 1" by (simp_all add: mark_distinct)
    with 3 show ?thesis by (intro true) (simp_all add: bs)
  next
    case 4
    with d obtain x used where "decode_key rest = Inr (x, used)" "num_finite x" "j = JNum x" "n = 1 + used"
      by (auto simp: mark_distinct rbind_eq_Inr)
    with 4 show ?thesis by (intro num) (simp_all add: bs)
  next
    case 5
    with d obtain s used where "decode_terminated rest = Inr (s, used)" "utf8_valid s" "j = JStr s" "n = 1 + used"
      by (auto simp: mark_distinct rbind_eq_Inr split: if_splits)
    with 5 show ?thesis by (intro str) (simp_all add: bs)
  next
    case 6
    with d obtain items used where "decode_seq_loop (decode_json m) rest = Inr (items, used)"
      "j = JArr items" "n = 1 + used"
      by (auto simp: mark_distinct rbind_eq_Inr)
    with 6 show ?thesis by (intro arr) (simp_all add: bs)
  next
    case 7
    with d obtain entries es used where "decode_obj_loop (decode_json m) None rest = Inr (entries, used)"
      "json_obj_new entries = Inr es" "j = JObj es" "n = 1 + used"
      by (auto simp: mark_distinct rbind_eq_Inr)
    with 7 show ?thesis by (intro obj) (simp_all add: bs)
  qed
qed

lemma decode_json_canonical:
  "canonical_decoder (decode_json levels) encode_json (\<lambda>j. json_wf j \<and> json_depth j < levels)"
proof (induction levels)
  case (Suc m)
  show ?case
    unfolding canonical_decoder_def
  proof (intro allI impI)
    fix bs j n assume "decode_json (Suc m) bs = Inr (j, n)"
    then have "(json_wf j \<and> json_depth j < Suc m) \<and> n = length (encode_json j)
        \<and> (\<exists>rest. bs = encode_json j @ rest)"
    proof (cases rule: decode_json_Inr)
      case (num rest x used)
      with decode_key_canonical[of rest x used] show ?thesis by auto
    next
      case (str rest x used)
      with decode_terminated_canonical[of rest x used] show ?thesis by auto
    next
      case (arr rest items used)
      with decode_seq_loop_canonical[OF Suc arr(2)] show ?thesis by (auto simp: foldr_max_less)
    next
      case (obj rest entries es used)
      note c = decode_obj_loop_canonical[OF Suc obj(2)]
      then have "es = entries" using obj(3) by (simp add: json_obj_new_sorted)
      with c obj show ?thesis by (auto simp: foldr_max_less)
    qed simp_all
    then show "(json_wf j \<and> json_depth j < Suc m) \<and> n = length (encode_json j)
        \<and> seq_start (encode_json j) \<and> (\<exists>rest. bs = encode_json j @ rest)"
      using encode_json_start(1) by blast
  qed
qed (simp add: canonical_decoder_def)

section \<open>Skipping agrees with decoding\<close>

lemma skip_obj_loop_decode:
  assumes "skips dec skp" "decode_obj_loop dec prev bs = Inr (es, n)"
  shows "skip_obj_loop skp bs = Inr n"
  using assms
proof (induction dec prev bs arbitrary: es n rule: decode_obj_loop.induct)
  case (2 dec prev b rest)
  show ?case
  proof (cases "b = STRUCT_SEQ_END")
    case False
    with "2.prems"(2) obtain key klen val vlen es' n' where b: "b = MARK_STR"
      and k: "decode_terminated rest = Inr (key, klen)"
      and pr: "\<not> (case prev of Some p \<Rightarrow> key \<le> p | None \<Rightarrow> False)" and u: "utf8_valid key"
      and v: "dec (drop klen rest) = Inr (val, vlen)"
      and l: "decode_obj_loop dec (Some key) (drop (klen + vlen) rest) = Inr (es', n')"
      and r: "es = (key, val) # es'" "n = 1 + klen + vlen + n'"
      by (auto simp: decode_obj_loop.simps(2) rbind_eq_Inr split: if_splits)
    have "skip_terminated (b # rest) = Inr (Suc klen)"
      using k skip_terminated_iff[of rest klen] by (auto simp: b mark_defs)
    moreover have "skp (drop klen rest) = Inr vlen"
      using "2.prems"(1) v by (auto simp: skips_def)
    moreover have "skip_obj_loop skp (drop (klen + vlen) rest) = Inr n'"
      using "2.IH"[OF False b k refl pr _ v refl "2.prems"(1) l] u by simp
    ultimately show ?thesis
      using False r by (simp add: skip_obj_loop.simps(2))
  qed (use "2.prems" in \<open>auto simp: decode_obj_loop.simps(2) skip_obj_loop.simps(2)\<close>)
qed simp

lemma skip_json_decode:
  "levels \<le> levels' \<Longrightarrow> skips (decode_json levels) (skip_json levels')"
proof (induction levels arbitrary: levels')
  case (Suc m)
  then obtain m' where m': "levels' = Suc m'" "m \<le> m'" by (cases levels') auto
  note IH = Suc.IH[OF m'(2)]
  show ?case
    unfolding skips_def
  proof (intro allI impI)
    fix bs j n assume "decode_json (Suc m) bs = Inr (j, n)"
    then show "skip_json levels' bs = Inr n"
    proof (cases rule: decode_json_Inr)
      case (num rest x used)
      then show ?thesis by (simp add: m'(1) mark_distinct)
    next
      case (str rest x used)
      then have "skip_terminated rest = Inr used" by (auto simp: skip_terminated_iff)
      with str show ?thesis by (simp add: m'(1) mark_distinct)
    next
      case (arr rest items used)
      with skip_seq_loop_decode[OF IH arr(2)] show ?thesis by (simp add: m'(1) mark_distinct)
    next
      case (obj rest entries es used)
      with skip_obj_loop_decode[OF IH obj(2)] show ?thesis by (simp add: m'(1) mark_distinct)
    qed (simp_all add: m'(1))
  qed
qed (simp add: skips_def)

end
