(* ===== verification/Interval_Kind.thy ===== *)
theory Interval_Kind
  imports Order_Code
begin

text \<open>
  The interval kind of \<open>crates/kyzo-model/src/value/kind/interval.rs\<close>: closed normal form over the
  grid of \<open>i64\<close> microseconds. \<open>interval_set\<close> is the set of instants an interval denotes. The
  constructor is shown to denote exactly the instants between its bounds and to build only lawful
  forms, the Allen relations to be jointly exhaustive and pairwise disjoint, and \<open>intersects\<close> to
  decide whether two intervals share an instant.
\<close>

section \<open>Bounds and the normalizing constructor\<close>

datatype bound = Unbounded | Closed i64 | Open i64
datatype lo = NegUnbounded | LoAt i64
datatype hi = HiAt i64 | PosUnbounded
datatype interval = IvEmpty | IvRange lo hi

definition checked_add1 :: "i64 \<Rightarrow> i64 option" where
  "checked_add1 t = (if sint t = 2 ^ 63 - 1 then None else Some (t + 1))"

definition checked_sub1 :: "i64 \<Rightarrow> i64 option" where
  "checked_sub1 t = (if sint t = - (2 ^ 63) then None else Some (t - 1))"

definition iv_range :: "lo \<Rightarrow> hi \<Rightarrow> interval" where
  "iv_range l h =
     (case (l, h) of
        (LoAt a, HiAt b) \<Rightarrow> if sint b < sint a then IvEmpty else IvRange l h
      | _ \<Rightarrow> IvRange l h)"

definition iv_new :: "bound \<Rightarrow> bound \<Rightarrow> interval" where
  "iv_new start fin =
     (case (case start of
              Unbounded \<Rightarrow> Some NegUnbounded
            | Closed t \<Rightarrow> Some (LoAt t)
            | Open t \<Rightarrow> map_option LoAt (checked_add1 t)) of
        None \<Rightarrow> IvEmpty
      | Some l \<Rightarrow>
          (case (case fin of
                   Unbounded \<Rightarrow> Some PosUnbounded
                 | Closed t \<Rightarrow> Some (HiAt t)
                 | Open t \<Rightarrow> map_option HiAt (checked_sub1 t)) of
             None \<Rightarrow> IvEmpty
           | Some h \<Rightarrow>
               (case (l, h) of
                  (LoAt a, HiAt b) \<Rightarrow> if sint b < sint a then IvEmpty else IvRange l h
                | _ \<Rightarrow> IvRange l h)))"

fun iv_is_empty :: "interval \<Rightarrow> bool" where
  "iv_is_empty IvEmpty = True"
| "iv_is_empty (IvRange _ _) = False"

fun iv_ends :: "interval \<Rightarrow> (lo \<times> hi) option" where
  "iv_ends IvEmpty = None"
| "iv_ends (IvRange l h) = Some (l, h)"

definition iv_start :: "interval \<Rightarrow> i64 option" where
  "iv_start iv = (case iv_ends iv of Some (LoAt t, _) \<Rightarrow> Some t | _ \<Rightarrow> None)"

definition iv_end :: "interval \<Rightarrow> i64 option" where
  "iv_end iv = (case iv_ends iv of Some (_, HiAt t) \<Rightarrow> Some t | _ \<Rightarrow> None)"

definition has_start :: "interval \<Rightarrow> bool" where
  "has_start iv = (case iv_ends iv of Some (LoAt _, _) \<Rightarrow> True | _ \<Rightarrow> False)"

definition has_end :: "interval \<Rightarrow> bool" where
  "has_end iv = (case iv_ends iv of Some (_, HiAt _) \<Rightarrow> True | _ \<Rightarrow> False)"

definition is_start_unbounded :: "interval \<Rightarrow> bool" where
  "is_start_unbounded iv = (case iv_ends iv of Some (NegUnbounded, _) \<Rightarrow> True | _ \<Rightarrow> False)"

definition is_end_unbounded :: "interval \<Rightarrow> bool" where
  "is_end_unbounded iv = (case iv_ends iv of Some (_, PosUnbounded) \<Rightarrow> True | _ \<Rightarrow> False)"

section \<open>Allen's relations\<close>

definition I128_MIN :: int where "I128_MIN = - (2 ^ 127)"
definition I128_MAX :: int where "I128_MAX = 2 ^ 127 - 1"

definition i128_succ :: "int \<Rightarrow> int option" where
  "i128_succ x = (if x = I128_MAX then None else Some (x + 1))"

definition wide_ends :: "interval \<Rightarrow> (int \<times> int) option" where
  "wide_ends iv =
     (case iv_ends iv of
        None \<Rightarrow> None
      | Some (l, h) \<Rightarrow>
          Some (case l of NegUnbounded \<Rightarrow> I128_MIN | LoAt t \<Rightarrow> sint t,
                case h of PosUnbounded \<Rightarrow> I128_MAX | HiAt t \<Rightarrow> sint t))"

definition on_ends :: "(int \<Rightarrow> int \<Rightarrow> int \<Rightarrow> int \<Rightarrow> bool) \<Rightarrow> interval \<Rightarrow> interval \<Rightarrow> bool" where
  "on_ends r a b =
     (case (wide_ends a, wide_ends b) of
        (Some (al, ah), Some (bl, bh)) \<Rightarrow> r al ah bl bh
      | _ \<Rightarrow> False)"

definition before :: "interval \<Rightarrow> interval \<Rightarrow> bool" where
  "before = on_ends (\<lambda>al ah bl bh. case i128_succ ah of Some s \<Rightarrow> s < bl | None \<Rightarrow> False)"

definition meets :: "interval \<Rightarrow> interval \<Rightarrow> bool" where
  "meets = on_ends (\<lambda>al ah bl bh. i128_succ ah = Some bl)"

definition overlaps :: "interval \<Rightarrow> interval \<Rightarrow> bool" where
  "overlaps = on_ends (\<lambda>al ah bl bh. al < bl \<and> bl \<le> ah \<and> ah < bh)"

definition starts :: "interval \<Rightarrow> interval \<Rightarrow> bool" where
  "starts = on_ends (\<lambda>al ah bl bh. al = bl \<and> ah < bh)"

definition during :: "interval \<Rightarrow> interval \<Rightarrow> bool" where
  "during = on_ends (\<lambda>al ah bl bh. bl < al \<and> ah < bh)"

definition finishes :: "interval \<Rightarrow> interval \<Rightarrow> bool" where
  "finishes = on_ends (\<lambda>al ah bl bh. ah = bh \<and> bl < al)"

definition intersects :: "interval \<Rightarrow> interval \<Rightarrow> bool" where
  "intersects = on_ends (\<lambda>al ah bl bh. max al bl \<le> min ah bh)"

section \<open>Denotation\<close>

fun lo_admits :: "lo \<Rightarrow> i64 \<Rightarrow> bool" where
  "lo_admits NegUnbounded t = True"
| "lo_admits (LoAt a) t \<longleftrightarrow> sint a \<le> sint t"

fun hi_admits :: "hi \<Rightarrow> i64 \<Rightarrow> bool" where
  "hi_admits PosUnbounded t = True"
| "hi_admits (HiAt b) t \<longleftrightarrow> sint t \<le> sint b"

fun interval_set :: "interval \<Rightarrow> i64 set" where
  "interval_set IvEmpty = {}"
| "interval_set (IvRange l h) = {t. lo_admits l t \<and> hi_admits h t}"

fun start_admits :: "bound \<Rightarrow> i64 \<Rightarrow> bool" where
  "start_admits Unbounded t = True"
| "start_admits (Closed a) t \<longleftrightarrow> sint a \<le> sint t"
| "start_admits (Open a) t \<longleftrightarrow> sint a < sint t"

fun end_admits :: "bound \<Rightarrow> i64 \<Rightarrow> bool" where
  "end_admits Unbounded t = True"
| "end_admits (Closed b) t \<longleftrightarrow> sint t \<le> sint b"
| "end_admits (Open b) t \<longleftrightarrow> sint t < sint b"

text \<open>The lawful forms: a range never denotes the empty set.\<close>

fun interval_wf :: "interval \<Rightarrow> bool" where
  "interval_wf (IvRange (LoAt a) (HiAt b)) \<longleftrightarrow> sint a \<le> sint b"
| "interval_wf _ = True"

lemma sint_add1: "sint (t :: i64) \<noteq> 2 ^ 63 - 1 \<Longrightarrow> sint (t + 1) = sint t + 1"
  using sint_bounds[of t] by (simp add: sint_word_ariths signed_take_bit_int_eq_self)

lemma sint_sub1: "sint (t :: i64) \<noteq> - (2 ^ 63) \<Longrightarrow> sint (t - 1) = sint t - 1"
  using sint_bounds[of t] by (simp add: sint_word_ariths signed_take_bit_int_eq_self)

lemma iv_new_range:
  "iv_new s e =
     (case (case s of Unbounded \<Rightarrow> Some NegUnbounded | Closed t \<Rightarrow> Some (LoAt t)
            | Open t \<Rightarrow> map_option LoAt (checked_add1 t)) of
        None \<Rightarrow> IvEmpty
      | Some l \<Rightarrow>
          (case (case e of Unbounded \<Rightarrow> Some PosUnbounded | Closed t \<Rightarrow> Some (HiAt t)
                 | Open t \<Rightarrow> map_option HiAt (checked_sub1 t)) of
             None \<Rightarrow> IvEmpty | Some h \<Rightarrow> iv_range l h))"
  unfolding iv_new_def iv_range_def by (rule refl)

lemma iv_range_wf: "interval_wf (iv_range l h)"
  by (cases l; cases h) (simp_all add: iv_range_def)

lemma iv_range_set: "interval_set (iv_range l h) = {t. lo_admits l t \<and> hi_admits h t}"
  by (cases l; cases h) (auto simp: iv_range_def)

lemma iv_range_id: "interval_wf (IvRange l h) \<Longrightarrow> iv_range l h = IvRange l h"
  by (cases l; cases h) (auto simp: iv_range_def)

lemma checked_add1_admits:
  "checked_add1 a = None \<Longrightarrow> \<not> sint a < sint (t :: i64)"
  "checked_add1 a = Some a' \<Longrightarrow> sint a' \<le> sint (t :: i64) \<longleftrightarrow> sint a < sint t"
  using sint_bounds[of t] sint_add1[of a] by (auto simp: checked_add1_def split: if_splits)

lemma checked_sub1_admits:
  "checked_sub1 b = None \<Longrightarrow> \<not> sint (t :: i64) < sint b"
  "checked_sub1 b = Some b' \<Longrightarrow> sint (t :: i64) \<le> sint b' \<longleftrightarrow> sint t < sint b"
  using sint_bounds[of t] sint_sub1[of b] by (auto simp: checked_sub1_def split: if_splits)

lemma iv_new_wf: "interval_wf (iv_new s e)"
  by (auto simp: iv_new_range iv_range_wf split: option.splits)

lemma iv_new_set: "interval_set (iv_new s e) = {t. start_admits s t \<and> end_admits e t}"
proof -
  have lo: "case (case s of Unbounded \<Rightarrow> Some NegUnbounded | Closed t \<Rightarrow> Some (LoAt t)
            | Open t \<Rightarrow> map_option LoAt (checked_add1 t)) of
        None \<Rightarrow> \<forall>t. \<not> start_admits s t | Some l \<Rightarrow> \<forall>t. lo_admits l t \<longleftrightarrow> start_admits s t"
    using checked_add1_admits by (cases s) (auto split: option.splits)
  have hi: "case (case e of Unbounded \<Rightarrow> Some PosUnbounded | Closed t \<Rightarrow> Some (HiAt t)
            | Open t \<Rightarrow> map_option HiAt (checked_sub1 t)) of
        None \<Rightarrow> \<forall>t. \<not> end_admits e t | Some h \<Rightarrow> \<forall>t. hi_admits h t \<longleftrightarrow> end_admits e t"
    using checked_sub1_admits by (cases e) (auto split: option.splits)
  show ?thesis
    using lo hi unfolding iv_new_range by (auto simp: iv_range_set split: option.splits)
qed

lemma interval_set_nonempty:
  assumes "interval_wf iv" "iv \<noteq> IvEmpty"
  shows "interval_set iv \<noteq> {}"
proof (cases iv)
  case (IvRange l h)
  have "\<exists>t. lo_admits l t \<and> hi_admits h t"
  proof (cases l)
    case (LoAt a)
    with assms(1) IvRange have "lo_admits l a \<and> hi_admits h a" by (cases h) auto
    then show ?thesis ..
  next
    case NegUnbounded
    then show ?thesis by (cases h) auto
  qed
  with IvRange show ?thesis by auto
qed (use assms in simp)

lemma iv_new_empty_iff:
  "iv_is_empty (iv_new s e) \<longleftrightarrow> (\<nexists>t. start_admits s t \<and> end_admits e t)"
proof -
  have "iv_is_empty (iv_new s e) \<longleftrightarrow> interval_set (iv_new s e) = {}"
    using interval_set_nonempty[OF iv_new_wf, of s e] by (cases "iv_new s e") auto
  then show ?thesis by (auto simp: iv_new_set)
qed

section \<open>The relations are exhaustive and disjoint\<close>

lemma wide_ends_range:
  assumes "interval_wf iv" "wide_ends iv = Some (l, h)"
  shows "l \<le> h" "l < I128_MAX" "I128_MIN < h" "I128_MIN \<le> l" "h \<le> I128_MAX"
proof -
  have b: "I128_MIN < sint t" "sint t < I128_MAX" for t :: i64
    using sint_bounds[of t] by (simp_all add: I128_MIN_def I128_MAX_def)
  obtain x y where iv: "iv = IvRange x y" and l: "l = (case x of NegUnbounded \<Rightarrow> I128_MIN | LoAt t \<Rightarrow> sint t)"
    and h: "h = (case y of PosUnbounded \<Rightarrow> I128_MAX | HiAt t \<Rightarrow> sint t)"
    using assms(2) by (cases iv) (auto simp: wide_ends_def)
  have "I128_MIN < I128_MAX" by (simp add: I128_MIN_def I128_MAX_def)
  then show "l \<le> h" "l < I128_MAX" "I128_MIN < h" "I128_MIN \<le> l" "h \<le> I128_MAX"
    using assms(1) b unfolding iv l h by (cases x; cases y; simp add: less_imp_le)+
qed

lemma wide_ends_empty [simp]: "wide_ends IvEmpty = None"
  by (simp add: wide_ends_def)

lemma wide_ends_some: "iv \<noteq> IvEmpty \<Longrightarrow> \<exists>l h. wide_ends iv = Some (l, h)"
  by (cases iv) (auto simp: wide_ends_def)

lemma wide_ends_inject:
  assumes "interval_wf a" "interval_wf b" "wide_ends a = wide_ends b"
  shows "a = b"
proof -
  have b: "I128_MIN \<noteq> sint t" "sint t \<noteq> I128_MAX" for t :: i64
    using sint_bounds[of t] by (auto simp: I128_MIN_def I128_MAX_def)
  show ?thesis
    using assms(3) b b[symmetric]
    by (cases a; cases b) (auto simp: wide_ends_def sint_inject split: lo.splits hi.splits)
qed

definition allen_relations :: "interval \<Rightarrow> interval \<Rightarrow> bool list" where
  "allen_relations a b =
     [before a b, meets a b, overlaps a b, starts a b, during a b, finishes a b, a = b,
      before b a, meets b a, overlaps b a, starts b a, during b a, finishes b a]"

lemmas allen_defs = before_def meets_def overlaps_def starts_def during_def finishes_def on_ends_def

lemma allen_exactly_one:
  assumes "interval_wf a" "interval_wf b" "a \<noteq> IvEmpty" "b \<noteq> IvEmpty"
  shows "length (filter id (allen_relations a b)) = 1"
proof -
  obtain al ah bl bh where e: "wide_ends a = Some (al, ah)" "wide_ends b = Some (bl, bh)"
    using wide_ends_some assms by metis
  note ra = wide_ends_range[OF assms(1) e(1)] and rb = wide_ends_range[OF assms(2) e(2)]
  have eq: "a = b \<longleftrightarrow> al = bl \<and> ah = bh"
    using wide_ends_inject[OF assms(1,2)] e by auto
  show ?thesis
    using ra rb unfolding allen_relations_def allen_defs e eq
    by (cases al bl rule: linorder_cases; cases ah bh rule: linorder_cases;
        cases "ah + 1" bl rule: linorder_cases; cases "bh + 1" al rule: linorder_cases)
      (simp_all add: i128_succ_def)
qed

lemma interval_set_wide:
  assumes "wide_ends iv = Some (l, h)"
  shows "interval_set iv = {t. l \<le> sint t \<and> sint t \<le> h}"
proof -
  have b: "I128_MIN \<le> sint t" "sint t \<le> I128_MAX" for t :: i64
    using sint_bounds[of t] by (simp_all add: I128_MIN_def I128_MAX_def)
  from assms obtain x y where "iv = IvRange x y" by (cases iv) (auto simp: wide_ends_def)
  then show ?thesis
    using assms b by (cases x; cases y) (auto simp: wide_ends_def)
qed

lemma wide_ends_finite:
  assumes "wide_ends iv = Some (l, h)"
  shows "l = I128_MIN \<or> (\<exists>t :: i64. l = sint t)" "h = I128_MAX \<or> (\<exists>t :: i64. h = sint t)"
  using assms by (cases iv; force simp: wide_ends_def split: lo.splits hi.splits)+

lemma intersects_iff:
  assumes "interval_wf a" "interval_wf b"
  shows "intersects a b \<longleftrightarrow> interval_set a \<inter> interval_set b \<noteq> {}"
proof (cases "a = IvEmpty \<or> b = IvEmpty")
  case True
  then show ?thesis by (auto simp: intersects_def on_ends_def split: option.splits)
next
  case False
  obtain al ah bl bh where e: "wide_ends a = Some (al, ah)" "wide_ends b = Some (bl, bh)"
    using wide_ends_some False by metis
  have some: "\<exists>t :: i64. max al bl \<le> sint t \<and> sint t \<le> min ah bh" if le: "max al bl \<le> min ah bh"
  proof -
    have "max al bl = I128_MIN \<or> (\<exists>t :: i64. max al bl = sint t)"
      using wide_ends_finite(1)[OF e(1)] wide_ends_finite(1)[OF e(2)] by (metis max_def)
    moreover have "min ah bh = I128_MAX \<or> (\<exists>t :: i64. min ah bh = sint t)"
      using wide_ends_finite(2)[OF e(1)] wide_ends_finite(2)[OF e(2)] by (metis min_def)
    moreover have "I128_MIN \<le> sint (0 :: i64)" "sint (0 :: i64) \<le> I128_MAX"
      by (simp_all add: I128_MIN_def I128_MAX_def)
    ultimately show ?thesis using le by (metis order_refl)
  qed
  have "intersects a b \<longleftrightarrow> max al bl \<le> min ah bh"
    by (simp add: intersects_def on_ends_def e)
  also have "\<dots> \<longleftrightarrow> interval_set a \<inter> interval_set b \<noteq> {}"
    using some unfolding interval_set_wide[OF e(1)] interval_set_wide[OF e(2)] by fastforce
  finally show ?thesis .
qed

end
