(* ===== verification/Validity_Kind.thy ===== *)
theory Validity_Kind
  imports Order_Code
begin

text \<open>
  The validity kind of \<open>crates/kyzo-model/src/value/kind/validity.rs\<close>: instants in as-of seek order
  (the latest sorts first), the value and seek-bound forms of a slot, and the as-of pair. A
  \<open>ValidityTs\<close> is the microsecond instant itself; its reversed order is \<open>ts_cmp\<close>. The doors are
  shown to keep the reserved terminal tick out of \<open>Validity\<close>, and the slot order to be the order
  of the pair (instant, polarity) and never of the constructor.
\<close>

section \<open>Coordinates, values and slots\<close>

type_synonym validity_ts = i64

definition ts_cmp :: "validity_ts \<Rightarrow> validity_ts \<Rightarrow> ordering" where
  "ts_cmp a b = ocmp (sint b) (sint a)"

definition for_assertion :: "i64 \<Rightarrow> validity_ts option" where
  "for_assertion t = (if t = i64_max then None else Some t)"

definition MAX_VALIDITY_TS :: validity_ts where
  "MAX_VALIDITY_TS = i64_max"

record validity =
  v_timestamp :: validity_ts
  v_is_assert :: bool

record validity_seek_bound =
  s_timestamp :: validity_ts
  s_is_assert :: bool

definition validity_new :: "validity_ts \<Rightarrow> bool \<Rightarrow> validity option" where
  "validity_new t a =
     (if a \<and> t = i64_max then None else Some \<lparr>v_timestamp = t, v_is_assert = a\<rparr>)"

definition TERMINAL_VALIDITY :: validity where
  "TERMINAL_VALIDITY = \<lparr>v_timestamp = i64_min, v_is_assert = False\<rparr>"

definition bool_cmp :: "bool \<Rightarrow> bool \<Rightarrow> ordering" where
  "bool_cmp a b = (if a = b then Equal else if b then Less else Greater)"

definition validity_cmp :: "validity \<Rightarrow> validity \<Rightarrow> ordering" where
  "validity_cmp a b =
     ord_then (ts_cmp (v_timestamp a) (v_timestamp b)) (bool_cmp (v_is_assert b) (v_is_assert a))"

definition seek_bound_new :: "validity_ts \<Rightarrow> bool \<Rightarrow> validity_seek_bound" where
  "seek_bound_new t a = \<lparr>s_timestamp = t, s_is_assert = a\<rparr>"

definition try_into_validity :: "validity_seek_bound \<Rightarrow> validity option" where
  "try_into_validity s = validity_new (s_timestamp s) (s_is_assert s)"

datatype validity_slot = VValue validity | VSeek validity_seek_bound

definition from_stored :: "validity_ts \<Rightarrow> bool \<Rightarrow> validity_slot" where
  "from_stored t a =
     (case validity_new t a of Some v \<Rightarrow> VValue v | None \<Rightarrow> VSeek (seek_bound_new t a))"

fun slot_timestamp :: "validity_slot \<Rightarrow> validity_ts" where
  "slot_timestamp (VValue v) = v_timestamp v"
| "slot_timestamp (VSeek s) = s_timestamp s"

fun slot_is_assert :: "validity_slot \<Rightarrow> bool" where
  "slot_is_assert (VValue v) = v_is_assert v"
| "slot_is_assert (VSeek s) = s_is_assert s"

fun as_validity :: "validity_slot \<Rightarrow> validity option" where
  "as_validity (VValue v) = Some v"
| "as_validity (VSeek _) = None"

definition slot_cmp :: "validity_slot \<Rightarrow> validity_slot \<Rightarrow> ordering" where
  "slot_cmp a b =
     ord_then (ts_cmp (slot_timestamp a) (slot_timestamp b))
       (bool_cmp (slot_is_assert b) (slot_is_assert a))"

definition stored_slot :: "validity_ts \<Rightarrow> validity_slot" where
  "stored_slot t = from_stored t True"

record as_of =
  ao_valid :: validity_ts
  ao_sys :: validity_ts

definition as_of_current :: "validity_ts \<Rightarrow> as_of" where
  "as_of_current v = \<lparr>ao_valid = v, ao_sys = MAX_VALIDITY_TS\<rparr>"

definition as_of_at :: "validity_ts \<Rightarrow> validity_ts \<Rightarrow> as_of" where
  "as_of_at s v = \<lparr>ao_valid = v, ao_sys = s\<rparr>"

section \<open>The lawful slots\<close>

definition slot_wf :: "validity_slot \<Rightarrow> bool" where
  "slot_wf s \<longleftrightarrow> s = from_stored (slot_timestamp s) (slot_is_assert s)"

lemma from_stored_fields [simp]:
  "slot_timestamp (from_stored t a) = t" "slot_is_assert (from_stored t a) = a"
  by (auto simp: from_stored_def validity_new_def seek_bound_new_def split: if_splits)

lemma from_stored_wf [simp]: "slot_wf (from_stored t a)"
  by (simp add: slot_wf_def)

lemma validity_new_slot_wf: "validity_new t a = Some v \<Longrightarrow> slot_wf (VValue v)"
  by (auto simp: slot_wf_def from_stored_def validity_new_def split: if_splits)

lemma as_validity_from_stored:
  "as_validity (from_stored t a) = None \<longleftrightarrow> a \<and> t = i64_max"
  by (auto simp: from_stored_def validity_new_def)

lemma as_validity_never_terminal:
  assumes "slot_wf s" "as_validity s = Some v"
  shows "\<not> (v_is_assert v \<and> v_timestamp v = i64_max)"
proof -
  have s: "s = VValue v" using assms(2) by (cases s) auto
  have "VValue v = from_stored (v_timestamp v) (v_is_assert v)"
    using assms(1) unfolding s slot_wf_def slot_timestamp.simps slot_is_assert.simps .
  from arg_cong[OF this[symmetric], of as_validity]
  have "as_validity (from_stored (v_timestamp v) (v_is_assert v)) \<noteq> None" by simp
  then show ?thesis by (simp add: as_validity_from_stored)
qed

lemma ts_cmp_eq [simp]: "ts_cmp a b = Equal \<longleftrightarrow> a = b"
  by (auto simp: ts_cmp_def sint_inject)

lemma bool_cmp_eq [simp]: "bool_cmp a b = Equal \<longleftrightarrow> a = b"
  by (simp add: bool_cmp_def)

lemma slot_cmp_eq: "slot_wf a \<Longrightarrow> slot_wf b \<Longrightarrow> slot_cmp a b = Equal \<longleftrightarrow> a = b"
proof -
  assume wf: "slot_wf a" "slot_wf b"
  have "slot_timestamp a = slot_timestamp b \<Longrightarrow> slot_is_assert a = slot_is_assert b \<Longrightarrow> a = b"
    by (subst wf(1)[unfolded slot_wf_def], subst wf(2)[unfolded slot_wf_def]) (simp only:)
  then show ?thesis unfolding slot_cmp_def ord_then_eq_Equal ts_cmp_eq bool_cmp_eq by blast
qed

lemma terminal_is_greatest:
  assumes "validity_cmp v TERMINAL_VALIDITY \<noteq> Less"
  shows "v = TERMINAL_VALIDITY"
proof -
  have "v_timestamp v = i64_min"
  proof (rule ccontr)
    assume "v_timestamp v \<noteq> i64_min"
    then have "sint (v_timestamp v) \<noteq> sint (i64_min :: i64)" using sint_inject by blast
    then have "sint (i64_min :: i64) < sint (v_timestamp v)" using sint_bounds[of "v_timestamp v"] by simp
    then have "ts_cmp (v_timestamp v) i64_min = Less" by (simp only: ts_cmp_def ocmp_simps)
    with assms show False by (simp add: validity_cmp_def TERMINAL_VALIDITY_def)
  qed
  moreover from this assms have "\<not> v_is_assert v"
    by (auto simp: validity_cmp_def TERMINAL_VALIDITY_def bool_cmp_def ts_cmp_def)
  ultimately show ?thesis by (cases v) (simp add: TERMINAL_VALIDITY_def)
qed

end
