(* ===== verification/Geometry_Kind.thy ===== *)
theory Geometry_Kind
  imports Order_Code
begin

text \<open>
  The geometry kind of \<open>crates/kyzo-model/src/value/kind/geometry.rs\<close>: a point is a pair of 32-bit
  grid cells, ordered by its 64-bit Hilbert index. The two loops \<open>hilbert_encode\<close> and
  \<open>hilbert_decode\<close> are given as recursions on the bit position, so that the loop variable \<open>s\<close> of
  the source is \<open>push_bit i 1\<close>. Both are related to a recursive description of the curve over
  natural numbers (\<open>hil\<close> and \<open>hil_inv\<close>); from it follow that they are inverse bijections, that no
  addition overflows, and that an aligned block of \<open>2^k \<times> 2^k\<close> cells is one contiguous index
  range.
\<close>

unbundle bit_operations_syntax

section \<open>The curve as the code computes it\<close>

record geometry =
  lat :: u32
  lon :: u32

definition from_cells :: "u32 \<Rightarrow> u32 \<Rightarrow> geometry" where
  "from_cells x y = \<lparr>lat = x, lon = y\<rparr>"

definition hilbert_rot :: "u32 option \<Rightarrow> u32 \<Rightarrow> u32 \<Rightarrow> u32 \<Rightarrow> u32 \<Rightarrow> u32 \<times> u32" where
  "hilbert_rot n x y rx ry =
     (if ry = 0 then
        let (x', y') =
          (if rx = 1 then
             (case n of
                None \<Rightarrow> (NOT x, NOT y)
              | Some side \<Rightarrow> (side - 1 - x, side - 1 - y))
           else (x, y))
        in (y', x')
      else (x, y))"

primrec hilbert_encode_loop :: "nat \<Rightarrow> u32 \<Rightarrow> u32 \<Rightarrow> u64 \<Rightarrow> u64" where
  "hilbert_encode_loop 0 x y d = d"
| "hilbert_encode_loop (Suc i) x y d =
     (let s = push_bit i 1 :: u32;
          rx = (if x AND s \<noteq> 0 then 1 else 0 :: u32);
          ry = (if y AND s \<noteq> 0 then 1 else 0 :: u32);
          d' = d + ucast s * ucast s * ucast ((3 * rx) XOR ry);
          (x', y') = hilbert_rot None x y rx ry
      in hilbert_encode_loop i x' y' d')"

definition hilbert_encode :: "u32 \<Rightarrow> u32 \<Rightarrow> u64" where
  "hilbert_encode x y = hilbert_encode_loop 32 x y 0"

function hilbert_decode_loop :: "nat \<Rightarrow> u64 \<Rightarrow> u32 \<Rightarrow> u32 \<Rightarrow> u32 \<times> u32" where
  "hilbert_decode_loop i d x y =
     (if 32 \<le> i then (x, y)
      else
        let s = push_bit i 1 :: u32;
            rx = ucast (drop_bit 1 d AND 1) :: u32;
            ry = ucast ((d XOR ucast rx) AND 1) :: u32;
            (x', y') = hilbert_rot (Some s) x y rx ry
        in hilbert_decode_loop (Suc i) (drop_bit 2 d) (x' + s * rx) (y' + s * ry))"
  by pat_completeness auto

termination hilbert_decode_loop
  by (relation "measure (\<lambda>(i, _). 32 - i)") auto

declare hilbert_decode_loop.simps [simp del]

definition hilbert_decode :: "u64 \<Rightarrow> u32 \<times> u32" where
  "hilbert_decode d = hilbert_decode_loop 0 d 0 0"

definition curve_index :: "geometry \<Rightarrow> u64" where
  "curve_index g = hilbert_encode (lat g) (lon g)"

definition curve_key_bytes :: "geometry \<Rightarrow> bytes" where
  "curve_key_bytes g = to_be_bytes (curve_index g)"

definition from_curve_key :: "u64 \<Rightarrow> geometry" where
  "from_curve_key code = (let (x, y) = hilbert_decode code in from_cells x y)"

definition geometry_cmp :: "geometry \<Rightarrow> geometry \<Rightarrow> ordering" where
  "geometry_cmp a b = ocmp (curve_index a) (curve_index b)"

section \<open>The curve on natural numbers\<close>

definition rot_nat :: "nat \<Rightarrow> bool \<Rightarrow> bool \<Rightarrow> nat \<times> nat \<Rightarrow> nat \<times> nat" where
  "rot_nat n rx ry p =
     (if ry then p
      else if rx then (2 ^ n - 1 - snd p, 2 ^ n - 1 - fst p)
      else (snd p, fst p))"

definition hdigit :: "bool \<Rightarrow> bool \<Rightarrow> nat" where
  "hdigit rx ry = (if rx then (if ry then 2 else 3) else (if ry then 1 else 0))"

primrec hil :: "nat \<Rightarrow> nat \<times> nat \<Rightarrow> nat" where
  "hil 0 p = 0"
| "hil (Suc n) p =
     (let rx = odd (fst p div 2 ^ n); ry = odd (snd p div 2 ^ n)
      in hdigit rx ry * 4 ^ n + hil n (rot_nat n rx ry (fst p mod 2 ^ n, snd p mod 2 ^ n)))"

primrec hil_inv :: "nat \<Rightarrow> nat \<Rightarrow> nat \<times> nat" where
  "hil_inv 0 d = (0, 0)"
| "hil_inv (Suc n) d =
     (let q = d div 4 ^ n mod 4; rx = (2 \<le> q); ry = (q = 1 \<or> q = 2);
          p = rot_nat n rx ry (hil_inv n (d mod 4 ^ n))
      in (fst p + (if rx then 2 ^ n else 0), snd p + (if ry then 2 ^ n else 0)))"

definition cell_range :: "nat \<Rightarrow> nat \<times> nat \<Rightarrow> bool" where
  "cell_range n p \<longleftrightarrow> fst p < 2 ^ n \<and> snd p < 2 ^ n"

lemma rot_nat_range: "cell_range n p \<Longrightarrow> cell_range n (rot_nat n rx ry p)"
  by (auto simp: cell_range_def rot_nat_def less_imp_diff_less)

lemma rot_nat_involution: "cell_range n p \<Longrightarrow> rot_nat n rx ry (rot_nat n rx ry p) = p"
  by (cases p) (auto simp: cell_range_def rot_nat_def)

lemma hdigit_less: "hdigit rx ry < 4"
  by (simp add: hdigit_def)

lemma hil_less: "hil n p < 4 ^ n"
proof (induction n arbitrary: p)
  case (Suc n)
  let ?rx = "odd (fst p div 2 ^ n)" and ?ry = "odd (snd p div 2 ^ n)"
  let ?q = "rot_nat n ?rx ?ry (fst p mod 2 ^ n, snd p mod 2 ^ n)"
  have "hdigit ?rx ?ry * 4 ^ n + hil n ?q < 4 * 4 ^ n"
    using mult_add_lex(1)[of "hil n ?q" "4 ^ n" 0 "hdigit ?rx ?ry" 4] Suc[of ?q] hdigit_less
    by simp
  then show ?case by (simp add: Let_def)
qed simp

definition place :: "nat \<Rightarrow> bool \<Rightarrow> bool \<Rightarrow> nat \<times> nat \<Rightarrow> nat \<times> nat" where
  "place n rx ry p = (fst p + (if rx then 2 ^ n else 0), snd p + (if ry then 2 ^ n else 0))"

lemma place_range: "cell_range n p \<Longrightarrow> cell_range (Suc n) (place n rx ry p)"
  by (auto simp: cell_range_def place_def)

lemma hil_Suc_place:
  assumes "cell_range n p"
  shows "hil (Suc n) (place n rx ry p) = hdigit rx ry * 4 ^ n + hil n (rot_nat n rx ry p)"
proof -
  have top: "odd ((x + (if b then 2 ^ n else 0)) div 2 ^ n) = b"
    "(x + (if b then 2 ^ n else 0)) mod 2 ^ n = x" if "x < 2 ^ n" for x :: nat and b
    using that by auto
  have p: "fst p < 2 ^ n" "snd p < 2 ^ n" using assms by (auto simp: cell_range_def)
  show ?thesis
    unfolding hil.simps Let_def place_def fst_conv snd_conv top[OF p(1)] top[OF p(2)] by simp
qed

lemma hil_inv_Suc_digit:
  assumes "h < 4 ^ n"
  shows "hil_inv (Suc n) (hdigit rx ry * 4 ^ n + h) = place n rx ry (rot_nat n rx ry (hil_inv n h))"
proof -
  have "(hdigit rx ry * 4 ^ n + h) div 4 ^ n mod 4 = hdigit rx ry"
    "(hdigit rx ry * 4 ^ n + h) mod 4 ^ n = h"
    using assms hdigit_less by simp_all
  then have "hil_inv (Suc n) (hdigit rx ry * 4 ^ n + h)
      = (let q = hdigit rx ry; rx = (2 \<le> q); ry = (q = 1 \<or> q = 2);
             p = rot_nat n rx ry (hil_inv n h)
         in (fst p + (if rx then 2 ^ n else 0), snd p + (if ry then 2 ^ n else 0)))"
    by (simp only: hil_inv.simps)
  also have "\<dots> = place n rx ry (rot_nat n rx ry (hil_inv n h))"
    by (cases rx; cases ry) (simp_all add: place_def hdigit_def Let_def)
  finally show ?thesis .
qed

lemma hdigit_cases:
  assumes "(d :: nat) < 4 ^ Suc n"
  obtains rx ry h where "d = hdigit rx ry * 4 ^ n + h" "h < 4 ^ n"
proof -
  have "d div 4 ^ n < 4" using assms by (simp add: div_less_iff_less_mult)
  then have "d div 4 ^ n = hdigit (2 \<le> d div 4 ^ n) (d div 4 ^ n = 1 \<or> d div 4 ^ n = 2)"
    by (auto simp: hdigit_def)
  then have "d = hdigit (2 \<le> d div 4 ^ n) (d div 4 ^ n = 1 \<or> d div 4 ^ n = 2) * 4 ^ n + d mod 4 ^ n"
    by (metis div_mult_mod_eq)
  then show thesis by (rule that) simp
qed

lemma place_cases:
  assumes "cell_range (Suc n) p"
  obtains rx ry r where "p = place n rx ry r" "cell_range n r"
proof -
  have split: "x = x mod 2 ^ n + (if 2 ^ n \<le> x then 2 ^ n else 0)" if "x < 2 ^ Suc n" for x :: nat
    using that by (auto simp: le_mod_geq)
  have "p = place n (2 ^ n \<le> fst p) (2 ^ n \<le> snd p) (fst p mod 2 ^ n, snd p mod 2 ^ n)"
    using assms split[of "fst p"] split[of "snd p"] by (cases p) (simp add: cell_range_def place_def)
  then show thesis by (rule that) (simp add: cell_range_def)
qed

lemma hil_inv_range: "d < 4 ^ n \<Longrightarrow> cell_range n (hil_inv n d)"
proof (induction n arbitrary: d)
  case (Suc n)
  then show ?case
    by (metis hdigit_cases hil_inv_Suc_digit place_range rot_nat_range)
qed (simp add: cell_range_def)

lemma hil_inv_hil: "cell_range n p \<Longrightarrow> hil_inv n (hil n p) = p"
proof (induction n arbitrary: p)
  case (Suc n)
  obtain rx ry r where p: "p = place n rx ry r" and r: "cell_range n r"
    using place_cases[OF Suc.prems] .
  show ?case
    by (simp only: p hil_Suc_place[OF r] hil_inv_Suc_digit[OF hil_less]
        Suc.IH[OF rot_nat_range[OF r]] rot_nat_involution[OF r])
qed (auto simp: cell_range_def)

lemma hil_hil_inv: "d < 4 ^ n \<Longrightarrow> hil n (hil_inv n d) = d"
proof (induction n arbitrary: d)
  case (Suc n)
  obtain rx ry h where d: "d = hdigit rx ry * 4 ^ n + h" and h: "h < 4 ^ n"
    using hdigit_cases[OF Suc.prems] .
  note rng = hil_inv_range[OF h]
  show ?case
    by (simp only: d hil_inv_Suc_digit[OF h] hil_Suc_place[OF rot_nat_range[OF rng]]
        rot_nat_involution[OF rng] Suc.IH[OF h])
qed simp

section \<open>The loops compute the curve\<close>

definition bit_word :: "bool \<Rightarrow> u32" where
  "bit_word b = (if b then 1 else 0)"

lemma hilbert_rot_None:
  assumes "n \<le> 32"
  shows "(let (x', y') = hilbert_rot None x y (bit_word rx) (bit_word ry)
          in (unat x' mod 2 ^ n, unat y' mod 2 ^ n)) = rot_nat n rx ry (unat x mod 2 ^ n, unat y mod 2 ^ n)"
  using assms unat_not_mod[of n x] unat_not_mod[of n y]
  by (cases rx; cases ry) (simp_all add: hilbert_rot_def rot_nat_def bit_word_def)

lemma digit_word: "ucast ((3 * bit_word rx) XOR bit_word ry) = (of_nat (hdigit rx ry) :: u64)"
  by (cases rx; cases ry) (simp_all add: bit_word_def hdigit_def)

lemma unat_pow2: "i < LENGTH('a) \<Longrightarrow> unat (2 ^ i :: 'a::len word) = 2 ^ i"
proof -
  assume "i < LENGTH('a)"
  then have "take_bit LENGTH('a) (push_bit i 1) = (2 ^ i :: nat)"
    by (simp add: take_bit_nat_eq_self)
  then have "unat (push_bit i 1 :: 'a word) = 2 ^ i"
    by (simp only: unsigned_push_bit_eq unsigned_1)
  then show ?thesis by simp
qed

lemma square_word: "i < 32 \<Longrightarrow> ucast (push_bit i 1 :: u32) * ucast (push_bit i 1 :: u32) = (4 ^ i :: u64)"
proof -
  assume "i < 32"
  then have "ucast (push_bit i 1 :: u32) = (2 ^ i :: u64)"
    by (simp add: word_unat_eq_iff unsigned_ucast_eq unat_pow2 take_bit_nat_eq_self)
  then show ?thesis by (simp flip: power_mult_distrib)
qed

lemma mod_mod_Suc: "(u :: nat) mod 2 ^ Suc i mod 2 ^ i = u mod 2 ^ i" "odd (u mod 2 ^ Suc i div 2 ^ i) = odd (u div 2 ^ i)"
proof -
  show "u mod 2 ^ Suc i mod 2 ^ i = u mod 2 ^ i"
    by (simp add: mod_mod_cancel)
  have "u mod (2 ^ i * 2) = 2 ^ i * (u div 2 ^ i mod 2) + u mod 2 ^ i"
    by (rule mod_mult2_eq)
  then have "u mod 2 ^ Suc i div 2 ^ i = u div 2 ^ i mod 2"
    by (simp add: mult.commute)
  then show "odd (u mod 2 ^ Suc i div 2 ^ i) = odd (u div 2 ^ i)"
    by (simp add: even_mod_2_iff)
qed

lemma hilbert_encode_loop_hil:
  "n \<le> 32 \<Longrightarrow> hilbert_encode_loop n x y d
     = d + of_nat (hil n (unat x mod 2 ^ n, unat y mod 2 ^ n))"
proof (induction n arbitrary: x y d)
  case (Suc i)
  define rx ry where "rx = bit x i" and "ry = bit y i"
  obtain x' y' where r: "hilbert_rot None x y (bit_word rx) (bit_word ry) = (x', y')" by fastforce
  have rot: "(unat x' mod 2 ^ i, unat y' mod 2 ^ i) = rot_nat i rx ry (unat x mod 2 ^ i, unat y mod 2 ^ i)"
    using hilbert_rot_None[of i x y rx ry] Suc.prems by (simp add: r)
  have "hilbert_encode_loop (Suc i) x y d
      = hilbert_encode_loop i x' y' (d + 4 ^ i * of_nat (hdigit rx ry))"
    using Suc.prems
    by (simp only: hilbert_encode_loop.simps Let_def bit_iff_and_push_bit_not_eq_0[symmetric]
        rx_def[symmetric] ry_def[symmetric] bit_word_def[symmetric] r prod.case digit_word square_word
        Suc_le_eq)
  also have "\<dots> = d + of_nat (hdigit rx ry * 4 ^ i
      + hil i (rot_nat i rx ry (unat x mod 2 ^ i, unat y mod 2 ^ i)))"
    using Suc.prems by (simp add: Suc.IH rot)
  also have "hdigit rx ry * 4 ^ i + hil i (rot_nat i rx ry (unat x mod 2 ^ i, unat y mod 2 ^ i))
      = hil (Suc i) (unat x mod 2 ^ Suc i, unat y mod 2 ^ Suc i)"
    by (simp only: hil.simps Let_def fst_conv snd_conv mod_mod_Suc rx_def ry_def bit_unat)
  finally show ?case .
qed simp

lemma unat_hilbert_encode: "unat (hilbert_encode x y) = hil 32 (unat x, unat y)"
proof -
  have "hil 32 (unat x, unat y) < 2 ^ 64" using hil_less[of 32] by simp
  moreover have "unat x < 2 ^ 32" "unat y < 2 ^ 32" using unat_lt2p[of x] unat_lt2p[of y] by simp_all
  ultimately show ?thesis
    by (simp add: hilbert_encode_def hilbert_encode_loop_hil unat_of_nat)
qed

lemma low_digit:
  fixes d :: u64
  obtains rx ry where "ucast (drop_bit 1 d AND 1) = bit_word rx"
    "ucast ((d XOR ucast (bit_word rx)) AND 1) = bit_word ry" "unat d mod 4 = hdigit rx ry"
proof -
  have one: "ucast (w AND 1 :: u64) = bit_word (bit w 0)" for w
    by (simp add: and_one_eq bit_word_def bit_0 mod_2_eq_odd)
  let ?rx = "bit d 1" and ?ry = "bit d 0 \<noteq> bit d 1"
  have "ucast (drop_bit 1 d AND 1) = bit_word ?rx"
    unfolding one by (simp add: bit_drop_bit_eq)
  moreover have "ucast ((d XOR ucast (bit_word ?rx)) AND 1) = bit_word ?ry"
    unfolding one bit_xor_iff by (cases "bit d 1") (simp_all add: bit_word_def)
  moreover have "unat d mod 4 = hdigit ?rx ?ry"
  proof -
    have "unat d mod (2 * 2) = 2 * (unat d div 2 mod 2) + unat d mod 2" by (rule mod_mult2_eq)
    then have "unat d mod 4 = (if bit d 1 then 2 else 0) + (if bit d 0 then 1 else 0)"
      by (simp add: bit_unat mod_2_eq_odd)
    then show ?thesis by (simp add: hdigit_def)
  qed
  ultimately show thesis by (rule that)
qed

lemma hilbert_rot_Some:
  assumes "i < 32" "unat x < 2 ^ i" "unat y < 2 ^ i"
  obtains x' y' where "hilbert_rot (Some (push_bit i 1)) x y (bit_word rx) (bit_word ry) = (x', y')"
    "(unat x', unat y') = rot_nat i rx ry (unat x, unat y)"
proof -
  have refl: "unat (2 ^ i - 1 - z :: u32) = 2 ^ i - 1 - unat z" if "unat z < 2 ^ i" for z
  proof -
    have one: "unat (2 ^ i - 1 :: u32) = 2 ^ i - 1"
      using assms(1) by (subst unat_sub) (simp_all add: unat_pow2 word_le_nat_alt)
    have "z \<le> 2 ^ i - 1" using that by (simp add: word_le_nat_alt one)
    then show ?thesis by (simp add: unat_sub one)
  qed
  show thesis
    by (rule that[of "fst (hilbert_rot (Some (push_bit i 1)) x y (bit_word rx) (bit_word ry))"
            "snd (hilbert_rot (Some (push_bit i 1)) x y (bit_word rx) (bit_word ry))"])
      (use assms in \<open>auto simp: hilbert_rot_def rot_nat_def bit_word_def refl\<close>)
qed

lemma place_word:
  assumes "i < 32" "unat x < 2 ^ i"
  shows "unat (x + push_bit i 1 * bit_word b) = unat x + (if b then 2 ^ i else 0)"
proof (cases b)
  case True
  have "unat x + 2 ^ i < 2 * 2 ^ i" using assms(2) by simp
  also have "\<dots> \<le> 2 ^ 32" using assms(1) power_increasing[of "Suc i" 32 "2 :: nat"] by simp
  finally have "unat x + unat (2 ^ i :: u32) < 2 ^ LENGTH(32)"
    using assms(1) by (simp add: unat_pow2)
  then have "unat (x + 2 ^ i) = unat x + unat (2 ^ i :: u32)"
    by (simp add: unat_plus_if')
  with True assms(1) show ?thesis by (simp add: bit_word_def unat_pow2)
qed (simp add: bit_word_def)

lemma hilbert_decode_loop_hil:
  assumes "i \<le> 32" "unat d < 4 ^ (32 - i)" "l < 4 ^ i" "(unat x, unat y) = hil_inv i l"
  shows "(let (x', y') = hilbert_decode_loop i d x y in (unat x', unat y'))
       = hil_inv 32 (unat d * 4 ^ i + l)"
  using assms
proof (induction i d x y arbitrary: l rule: hilbert_decode_loop.induct)
  case (1 i d x y)
  show ?case
  proof (cases "32 \<le> i")
    case True
    with "1.prems" have "i = 32" "unat d = 0" by simp_all
    then show ?thesis using "1.prems"(4) by (simp add: hilbert_decode_loop.simps)
  next
    case False
    obtain rx ry where dig: "ucast (drop_bit 1 d AND 1) = bit_word rx"
      "ucast ((d XOR ucast (bit_word rx)) AND 1) = bit_word ry" "unat d mod 4 = hdigit rx ry"
      using low_digit[of d] by blast
    have xy: "unat x < 2 ^ i" "unat y < 2 ^ i"
      using hil_inv_range[OF "1.prems"(3)] "1.prems"(4)[symmetric] by (simp_all add: cell_range_def)
    obtain x' y' where rot: "hilbert_rot (Some (push_bit i 1)) x y (bit_word rx) (bit_word ry) = (x', y')"
      "(unat x', unat y') = rot_nat i rx ry (unat x, unat y)"
      using hilbert_rot_Some[OF _ xy, of rx ry] False by auto
    have small: "unat x' < 2 ^ i" "unat y' < 2 ^ i"
      using rot_nat_range[of i "(unat x, unat y)" rx ry] xy rot(2)[symmetric]
      by (simp_all add: cell_range_def)
    let ?x = "x' + push_bit i 1 * bit_word rx" and ?y = "y' + push_bit i 1 * bit_word ry"
    let ?l = "hdigit rx ry * 4 ^ i + l"
    have loop: "hilbert_decode_loop i d x y = hilbert_decode_loop (Suc i) (drop_bit 2 d) ?x ?y"
      using False by (subst hilbert_decode_loop.simps) (simp only: Let_def dig rot(1) prod.case if_False)
    have "(unat ?x, unat ?y) = place i rx ry (rot_nat i rx ry (hil_inv i l))"
      using False small rot(2) "1.prems"(4) by (simp only: place_word not_le place_def) (metis fst_conv snd_conv)
    then have inv: "(unat ?x, unat ?y) = hil_inv (Suc i) ?l"
      by (simp only: hil_inv_Suc_digit[OF "1.prems"(3)])
    have "unat (drop_bit 2 d) = unat d div 4" by (simp add: unat_drop_bit)
    moreover have "unat d div 4 < 4 ^ (32 - Suc i)"
      using "1.prems"(2) False Suc_diff_Suc[of i 32] by (simp add: div_less_iff_less_mult mult.commute flip: power_Suc)
    moreover have "?l < 4 ^ Suc i"
      using mult_add_lex(1)[of l "4 ^ i" 0 "hdigit rx ry" 4] "1.prems"(3) hdigit_less by simp
    moreover have "unat d * 4 ^ i + l = (unat d div 4) * 4 ^ Suc i + ?l"
      using div_mult_mod_eq[of "unat d" 4] dig(3) by (metis add.assoc add_mult_distrib mult.assoc power_Suc)
    ultimately show ?thesis
      unfolding loop using "1.IH"[OF False refl refl refl, of "(x', y')" x' y' ?l] inv False dig rot(1)
      by (simp add: add.assoc)
  qed
qed

lemma unat_hilbert_decode:
  "hilbert_decode d = (x, y) \<Longrightarrow> (unat x, unat y) = hil_inv 32 (unat d)"
  using hilbert_decode_loop_hil[of 0 d 0 0 0] unat_lt2p[of d] by (simp add: hilbert_decode_def)

lemma unat_pair_eq: "(unat a, unat b) = (unat c, unat d) \<Longrightarrow> a = c \<and> b = (d :: u32)" for a c :: u32
  by (simp add: word_unat_eq_iff)

lemma hilbert_decode_encode: "hilbert_decode (hilbert_encode x y) = (x, y)"
proof -
  obtain x' y' where d: "hilbert_decode (hilbert_encode x y) = (x', y')" by fastforce
  have "cell_range 32 (unat x, unat y)"
    using unat_lt2p[of x] unat_lt2p[of y] by (simp add: cell_range_def)
  then have "(unat x', unat y') = (unat x, unat y)"
    using unat_hilbert_decode[OF d] by (simp only: unat_hilbert_encode hil_inv_hil)
  then show ?thesis using d by (simp add: word_unat_eq_iff)
qed

lemma hilbert_encode_decode: "(let (x, y) = hilbert_decode d in hilbert_encode x y) = d"
proof -
  obtain x y where d: "hilbert_decode d = (x, y)" by fastforce
  have "unat d < 4 ^ 32" using unat_lt2p[of d] by simp
  then have "unat (hilbert_encode x y) = unat d"
    using unat_hilbert_decode[OF d] by (simp only: unat_hilbert_encode hil_hil_inv)
  then show ?thesis by (simp add: d word_unat_eq_iff)
qed

lemma from_curve_key_index: "from_curve_key (curve_index g) = g"
  by (cases g) (simp add: from_curve_key_def curve_index_def hilbert_decode_encode from_cells_def)

lemma curve_index_from_key: "curve_index (from_curve_key d) = d"
  using hilbert_encode_decode[of d]
  by (simp add: from_curve_key_def curve_index_def from_cells_def split: prod.splits)

lemma curve_index_inject: "curve_index a = curve_index b \<longleftrightarrow> a = b"
  by (metis from_curve_key_index)

interpretation geometry_code: order_code "\<lambda>_. True" curve_key_bytes geometry_cmp
  by unfold_locales
    (simp_all add: curve_key_bytes_def geometry_cmp_def ocmp_append_eq_length curve_index_inject)

section \<open>Locality\<close>

text \<open>
  The leading digits of the index are the index of the cells with their low bits dropped: the
  curve on the coarser grid.
\<close>

definition coarse :: "nat \<Rightarrow> nat \<times> nat \<Rightarrow> nat \<times> nat" where
  "coarse k p = (fst p div 2 ^ k, snd p div 2 ^ k)"

lemma reflect_div:
  assumes "(x :: nat) < 2 ^ (n + k)"
  shows "(2 ^ (n + k) - Suc x) div 2 ^ k = 2 ^ n - Suc (x div 2 ^ k)"
proof -
  define q P r :: nat where "q = x div 2 ^ k" and "P = 2 ^ k" and "r = x mod 2 ^ k"
  have x: "x = q * P + r" unfolding q_def P_def r_def by (rule div_mult_mod_eq[symmetric])
  have "q < 2 ^ n" using assms by (simp add: q_def power_add div_less_iff_less_mult)
  then obtain m where m: "2 ^ n = Suc q + m" by (metis less_iff_Suc_add add_Suc)
  have "r < P" by (simp add: r_def P_def)
  then obtain s where s: "P = Suc r + s" by (metis less_iff_Suc_add add_Suc)
  have "2 ^ (n + k) = (Suc q + m) * P" by (simp only: power_add m P_def)
  then have "2 ^ (n + k) = q * P + P + m * P" by (simp add: algebra_simps)
  then have "2 ^ (n + k) = q * P + (Suc r + s) + m * P" using s by simp
  then have "2 ^ (n + k) - Suc x = m * P + s" by (simp add: x)
  moreover have "s < P" using s by simp
  ultimately have "(2 ^ (n + k) - Suc x) div P = m" by simp
  then show ?thesis using m by (simp add: P_def q_def)
qed

lemma coarse_rot:
  "cell_range (n + k) p \<Longrightarrow> coarse k (rot_nat (n + k) rx ry p) = rot_nat n rx ry (coarse k p)"
  by (simp add: coarse_def rot_nat_def cell_range_def reflect_div)

lemma coarse_place: "coarse k (place (n + k) rx ry p) = place n rx ry (coarse k p)"
  by (simp add: coarse_def place_def power_add)

lemma coarse_range: "cell_range (n + k) p \<Longrightarrow> cell_range n (coarse k p)"
  by (simp add: cell_range_def coarse_def power_add div_less_iff_less_mult)

lemma hil_coarse: "cell_range (n + k) p \<Longrightarrow> hil (n + k) p div 4 ^ k = hil n (coarse k p)"
proof (induction n arbitrary: p)
  case 0
  then show ?case using hil_less[of k p] by simp
next
  case (Suc n)
  obtain rx ry r where p: "p = place (n + k) rx ry r" and r: "cell_range (n + k) r"
    using place_cases[of "n + k" p thesis] Suc.prems unfolding add_Suc by blast
  have "(c * 4 ^ (n + k) + h) div 4 ^ k = c * 4 ^ n + h div 4 ^ k" for c h :: nat
    by (simp add: power_add flip: mult.assoc)
  then have "hil (Suc n + k) p div 4 ^ k = hdigit rx ry * 4 ^ n + hil n (rot_nat n rx ry (coarse k r))"
    by (simp only: p add_Suc hil_Suc_place[OF r] Suc.IH[OF rot_nat_range[OF r]] coarse_rot[OF r])
  also have "\<dots> = hil (Suc n) (place n rx ry (coarse k r))"
    by (simp only: hil_Suc_place[OF coarse_range[OF r]])
  finally show ?case by (simp only: p coarse_place)
qed

lemma hilbert_block:
  assumes "k \<le> 32"
  shows "drop_bit (2 * k) (hilbert_encode x y) = drop_bit (2 * k) (hilbert_encode x' y')
     \<longleftrightarrow> drop_bit k x = drop_bit k x' \<and> drop_bit k y = drop_bit k y'"
proof -
  define n where "n = 32 - k"
  have nk: "n + k = 32" using assms by (simp add: n_def)
  have rng: "cell_range (n + k) (unat u, unat v)" for u v :: u32
    using unat_lt2p[of u] unat_lt2p[of v] by (simp add: cell_range_def nk)
  have idx: "unat (drop_bit (2 * k) (hilbert_encode u v)) = hil n (coarse k (unat u, unat v))" for u v
    using hil_coarse[OF rng[of u v]]
    by (simp add: unat_drop_bit unat_hilbert_encode nk power_mult)
  have "hil n (coarse k (unat x, unat y)) = hil n (coarse k (unat x', unat y'))
      \<longleftrightarrow> coarse k (unat x, unat y) = coarse k (unat x', unat y')"
    by (metis hil_inv_hil coarse_range rng)
  then show ?thesis
    by (simp only: word_unat_eq_iff idx) (simp add: coarse_def unat_drop_bit)
qed

end
