(* ===== verification/Data_Value.thy ===== *)
theory Data_Value
  imports Json_Kind Interval_Kind Validity_Kind Geometry_Kind
begin

text \<open>
  The logical value \<open>DataValue\<close> of \<open>crates/kyzo-model/src/value/mod.rs\<close> with its fourteen kinds, the
  tag table of \<open>tag.rs\<close>, the vector and regex payloads of \<open>kind/vector.rs\<close> and \<open>kind/regex.rs\<close>,
  and the storage order \<open>Ord for DataValue\<close>. A \<open>String\<close> is its UTF-8 bytes, a UUID its sixteen bytes,
  a \<open>BTreeSet\<close> the list of its elements in order. \<open>dv_wf\<close> collects what the Rust types and their
  private constructors guarantee of a value.
\<close>

unbundle bit_operations_syntax

section \<open>Tags\<close>

datatype tag =
  TNull | TBool | TNum | TStr | TBytes | TUuid | TRegex | TJson | TVector | TList | TSet
| TValidity | TInterval | TGeometry

fun tag_byte :: "tag \<Rightarrow> u8" where
  "tag_byte TNull = 0x05"
| "tag_byte TBool = 0x08"
| "tag_byte TNum = 0x10"
| "tag_byte TStr = 0x18"
| "tag_byte TBytes = 0x20"
| "tag_byte TUuid = 0x28"
| "tag_byte TRegex = 0x30"
| "tag_byte TJson = 0x38"
| "tag_byte TVector = 0x40"
| "tag_byte TList = 0x48"
| "tag_byte TSet = 0x50"
| "tag_byte TValidity = 0x58"
| "tag_byte TInterval = 0x60"
| "tag_byte TGeometry = 0x68"

definition tag_from_byte :: "u8 \<Rightarrow> tag option" where
  "tag_from_byte b =
     (if b = 0x05 then Some TNull
      else if b = 0x08 then Some TBool
      else if b = 0x10 then Some TNum
      else if b = 0x18 then Some TStr
      else if b = 0x20 then Some TBytes
      else if b = 0x28 then Some TUuid
      else if b = 0x30 then Some TRegex
      else if b = 0x38 then Some TJson
      else if b = 0x40 then Some TVector
      else if b = 0x48 then Some TList
      else if b = 0x50 then Some TSet
      else if b = 0x58 then Some TValidity
      else if b = 0x60 then Some TInterval
      else if b = 0x68 then Some TGeometry
      else None)"

lemma tag_from_byte_byte [simp]: "tag_from_byte (tag_byte t) = Some t"
  by (cases t) (simp_all add: tag_from_byte_def)

lemma tag_from_byte_Some: "tag_from_byte b = Some t \<longleftrightarrow> b = tag_byte t"
proof
  show "tag_from_byte b = Some t \<Longrightarrow> b = tag_byte t"
    by (auto simp: tag_from_byte_def split: if_splits)
qed simp

lemma tag_byte_start [simp]: "STRUCT_SEQ_END < tag_byte t" "tag_byte t < 0xFF" "0x05 \<le> tag_byte t"
  by (cases t; simp add: STRUCT_SEQ_END_def)+

lemma tag_byte_inject [simp]: "tag_byte s = tag_byte t \<longleftrightarrow> s = t"
  by (metis option.inject tag_from_byte_byte)

section \<open>Vectors and regexes\<close>

definition component_admit :: "f64 \<Rightarrow> f64" where
  "component_admit raw = (case num_float raw of NFloat f \<Rightarrow> f | NInt _ \<Rightarrow> raw)"

record vec =
  vec_dim :: u32
  vec_components :: "f64 list"
  vec_content_id :: u64

definition content_id_from_parts :: "u32 \<Rightarrow> f64 list \<Rightarrow> u64" where
  "content_id_from_parts n components =
     fnv1a64 (to_be_bytes n @ concat (map (\<lambda>c. to_be_bytes c) components))"

definition dimension_from_len :: "nat \<Rightarrow> u32 option" where
  "dimension_from_len len = (if len < 2 ^ 32 then Some (of_nat len) else None)"

definition vector_try_new :: "f64 list \<Rightarrow> vec option" where
  "vector_try_new raw =
     (let components = map component_admit raw in
      case dimension_from_len (length components) of
        None \<Rightarrow> None
      | Some n \<Rightarrow>
          Some \<lparr>vec_dim = n, vec_components = components,
                vec_content_id = content_id_from_parts n components\<rparr>)"

definition vec_wf :: "vec \<Rightarrow> bool" where
  "vec_wf v \<longleftrightarrow> vector_try_new (vec_components v) = Some v"

definition REGEX_MASK :: u8 where "REGEX_MASK = 0x3F"

definition regex_flags_from_bits :: "u8 \<Rightarrow> u8 option" where
  "regex_flags_from_bits bits = (if bits AND NOT REGEX_MASK = 0 then Some bits else None)"

definition regex_flags_union :: "u8 \<Rightarrow> u8 \<Rightarrow> u8" where
  "regex_flags_union a b = a OR b"

definition regex_flags_contains :: "u8 \<Rightarrow> u8 \<Rightarrow> bool" where
  "regex_flags_contains a b \<longleftrightarrow> a AND b = b"

record regex_source =
  rx_flags :: u8
  rx_pattern :: bytes

definition regex_wf :: "regex_source \<Rightarrow> bool" where
  "regex_wf r \<longleftrightarrow> regex_flags_from_bits (rx_flags r) = Some (rx_flags r) \<and> utf8_valid (rx_pattern r)"

section \<open>Values and the storage order\<close>

datatype data_value =
  DNull
| DBool bool
| DNum knum
| DStr bytes
| DBytes bytes
| DUuid bytes
| DRegex regex_source
| DJson json
| DVector vec
| DList "data_value list"
| DSet "data_value list"
| DValidity validity_slot
| DInterval interval
| DGeometry geometry

fun dv_tag :: "data_value \<Rightarrow> tag" where
  "dv_tag DNull = TNull"
| "dv_tag (DBool _) = TBool"
| "dv_tag (DNum _) = TNum"
| "dv_tag (DStr _) = TStr"
| "dv_tag (DBytes _) = TBytes"
| "dv_tag (DUuid _) = TUuid"
| "dv_tag (DRegex _) = TRegex"
| "dv_tag (DJson _) = TJson"
| "dv_tag (DVector _) = TVector"
| "dv_tag (DList _) = TList"
| "dv_tag (DSet _) = TSet"
| "dv_tag (DValidity _) = TValidity"
| "dv_tag (DInterval _) = TInterval"
| "dv_tag (DGeometry _) = TGeometry"

definition vector_cmp :: "vec \<Rightarrow> vec \<Rightarrow> ordering" where
  "vector_cmp a b =
     ord_then (ocmp (vec_dim a) (vec_dim b))
       (zip_cmp (\<lambda>x y. num_cmp (num_float x) (num_float y)) (vec_components a) (vec_components b))"

definition interval_key :: "interval \<Rightarrow> u8 \<times> u8 \<times> i64 \<times> u8 \<times> i64" where
  "interval_key iv =
     (case iv_ends iv of
        None \<Rightarrow> (0x01, 0, 0, 0, 0)
      | Some (l, h) \<Rightarrow>
          let (lm, lt) = (case l of NegUnbounded \<Rightarrow> (0x01, 0) | LoAt t \<Rightarrow> (0x02, t));
              (hm, ht) = (case h of PosUnbounded \<Rightarrow> (0x01, 0) | HiAt t \<Rightarrow> (0x02, t))
          in (0x02, lm, lt, hm, ht))"

definition interval_storage_cmp :: "interval \<Rightarrow> interval \<Rightarrow> ordering" where
  "interval_storage_cmp a b =
     (let (af, alm, alt, ahm, aht) = interval_key a;
          (bf, blm, blt, bhm, bht) = interval_key b
      in ord_then (ocmp af bf) (ord_then (ocmp alm blm) (ord_then (ocmp (sint alt) (sint blt))
           (ord_then (ocmp ahm bhm) (ocmp (sint aht) (sint bht))))))"

definition regex_cmp :: "regex_source \<Rightarrow> regex_source \<Rightarrow> ordering" where
  "regex_cmp a b = ord_then (ocmp (rx_flags a) (rx_flags b)) (ocmp (rx_pattern a) (rx_pattern b))"

function dv_cmp :: "data_value \<Rightarrow> data_value \<Rightarrow> ordering" where
  "dv_cmp a b =
     (if dv_tag a \<noteq> dv_tag b then ocmp (tag_byte (dv_tag a)) (tag_byte (dv_tag b))
      else
        (case a of
           DNull \<Rightarrow> Equal
         | DBool x \<Rightarrow> (case b of DBool y \<Rightarrow> bool_cmp x y | _ \<Rightarrow> Equal)
         | DNum x \<Rightarrow> (case b of DNum y \<Rightarrow> num_cmp x y | _ \<Rightarrow> Equal)
         | DStr x \<Rightarrow> (case b of DStr y \<Rightarrow> ocmp x y | _ \<Rightarrow> Equal)
         | DBytes x \<Rightarrow> (case b of DBytes y \<Rightarrow> ocmp x y | _ \<Rightarrow> Equal)
         | DUuid x \<Rightarrow> (case b of DUuid y \<Rightarrow> ocmp x y | _ \<Rightarrow> Equal)
         | DRegex x \<Rightarrow> (case b of DRegex y \<Rightarrow> regex_cmp x y | _ \<Rightarrow> Equal)
         | DJson x \<Rightarrow> (case b of DJson y \<Rightarrow> json_storage_cmp x y | _ \<Rightarrow> Equal)
         | DVector x \<Rightarrow> (case b of DVector y \<Rightarrow> vector_cmp x y | _ \<Rightarrow> Equal)
         | DList x \<Rightarrow> (case b of DList y \<Rightarrow> slice_cmp dv_cmp x y | _ \<Rightarrow> Equal)
         | DSet x \<Rightarrow> (case b of DSet y \<Rightarrow> slice_cmp dv_cmp x y | _ \<Rightarrow> Equal)
         | DValidity x \<Rightarrow> (case b of DValidity y \<Rightarrow> slot_cmp x y | _ \<Rightarrow> Equal)
         | DInterval x \<Rightarrow> (case b of DInterval y \<Rightarrow> interval_storage_cmp x y | _ \<Rightarrow> Equal)
         | DGeometry x \<Rightarrow> (case b of DGeometry y \<Rightarrow> geometry_cmp x y | _ \<Rightarrow> Equal)))"
  by pat_completeness auto

termination dv_cmp
  by (relation "measure (\<lambda>(a, _). size a)")
    (auto simp: less_Suc_eq_le size_list_estimation')

declare dv_cmp.simps [simp del]

text \<open>What the types guarantee of a value.\<close>

fun dv_wf :: "data_value \<Rightarrow> bool" where
  "dv_wf (DNum n) = num_wf n"
| "dv_wf (DStr s) = utf8_valid s"
| "dv_wf (DUuid u) \<longleftrightarrow> length u = 16"
| "dv_wf (DRegex r) = regex_wf r"
| "dv_wf (DJson j) = json_wf j"
| "dv_wf (DVector v) = vec_wf v"
| "dv_wf (DList items) \<longleftrightarrow> (\<forall>v \<in> set items. dv_wf v)"
| "dv_wf (DSet items) \<longleftrightarrow>
     (\<forall>v \<in> set items. dv_wf v) \<and> sorted_wrt (\<lambda>a b. dv_cmp a b = Less) items"
| "dv_wf (DValidity s) = slot_wf s"
| "dv_wf (DInterval iv) = interval_wf iv"
| "dv_wf _ = True"

fun dv_depth :: "data_value \<Rightarrow> nat" where
  "dv_depth (DJson j) = json_depth j"
| "dv_depth (DList items) = foldr max (map (\<lambda>v. Suc (dv_depth v)) items) 0"
| "dv_depth (DSet items) = foldr max (map (\<lambda>v. Suc (dv_depth v)) items) 0"
| "dv_depth _ = 0"

end
