(* ===== verification/Canonical.thy ===== *)
theory Canonical
  imports Data_Value
begin

text \<open>
  The canonical codec of \<open>crates/kyzo-model/src/value/canonical.rs\<close>: \<open>encode_owned\<close>, \<open>decode\<close> /
  \<open>decode_one\<close> and the skipping walk \<open>skip_one\<close>. The depth the source counts up to \<open>MAX_DEPTH\<close> is
  the number of levels that remain, \<open>MAX_DEPTH + 1 - depth\<close>; note that \<open>decode_json\<close> continues with
  the depth of its value while \<open>skip_json\<close> starts afresh at depth zero.
\<close>

unbundle bit_operations_syntax

section \<open>Encoding\<close>

definition MAX_DEPTH :: nat where "MAX_DEPTH = 128"

definition asc_ts_key :: "i64 \<Rightarrow> bytes" where
  "asc_ts_key t = to_be_bytes (t XOR i64_min)"

definition desc_ts_key :: "i64 \<Rightarrow> bytes" where
  "desc_ts_key t = map (\<lambda>b. NOT b) (asc_ts_key t)"

definition ts_from_asc :: "bytes \<Rightarrow> i64" where
  "ts_from_asc k = from_be_bytes k XOR i64_min"

fun encode_lo :: "lo \<Rightarrow> bytes" where
  "encode_lo NegUnbounded = [0x01]"
| "encode_lo (LoAt t) = 0x02 # asc_ts_key t"

fun encode_hi :: "hi \<Rightarrow> bytes" where
  "encode_hi PosUnbounded = [0x01]"
| "encode_hi (HiAt t) = 0x02 # asc_ts_key t"

definition encode_interval_body :: "interval \<Rightarrow> bytes" where
  "encode_interval_body iv =
     (case iv_ends iv of
        None \<Rightarrow> [0x01]
      | Some (l, h) \<Rightarrow> 0x02 # encode_lo l @ encode_hi h)"

definition encode_vector_body :: "vec \<Rightarrow> bytes" where
  "encode_vector_body v =
     to_be_bytes (vec_dim v) @ concat (map (\<lambda>c. encode_key (num_float c)) (vec_components v))"

definition encode_validity_body :: "validity_slot \<Rightarrow> bytes" where
  "encode_validity_body s = desc_ts_key (slot_timestamp s) @ [if slot_is_assert s then 0x00 else 0x01]"

definition encode_json_body :: "json \<Rightarrow> bytes" where
  "encode_json_body j = (let e = encode_json j in e @ to_be_bytes (fnv1a64 e))"

fun encode_owned :: "data_value \<Rightarrow> bytes" where
  "encode_owned DNull = [tag_byte TNull]"
| "encode_owned (DBool b) = [tag_byte TBool, if b then 0x01 else 0x00]"
| "encode_owned (DNum n) = tag_byte TNum # encode_key n"
| "encode_owned (DStr s) = tag_byte TStr # encode_terminated s"
| "encode_owned (DBytes b) = tag_byte TBytes # encode_terminated b"
| "encode_owned (DUuid u) = tag_byte TUuid # u"
| "encode_owned (DRegex r) = tag_byte TRegex # rx_flags r # encode_terminated (rx_pattern r)"
| "encode_owned (DJson j) = tag_byte TJson # encode_json_body j"
| "encode_owned (DVector v) = tag_byte TVector # encode_vector_body v"
| "encode_owned (DList items) = tag_byte TList # concat (map encode_owned items) @ [STRUCT_SEQ_END]"
| "encode_owned (DSet items) =
     tag_byte TSet # concat (remdups_adj (sort (map encode_owned items))) @ [STRUCT_SEQ_END]"
| "encode_owned (DValidity s) = tag_byte TValidity # encode_validity_body s"
| "encode_owned (DInterval iv) = tag_byte TInterval # encode_interval_body iv"
| "encode_owned (DGeometry g) = tag_byte TGeometry # curve_key_bytes g"

text \<open>The borrowed logical value \<open>Datum\<close>; the order and repetitions of a set's items carry no meaning.\<close>

datatype datum =
  MNull
| MBool bool
| MNum knum
| MStr bytes
| MBytes bytes
| MUuid bytes
| MList "datum list"
| MSet "datum list"
| MRegex regex_source
| MJson json
| MVector vec
| MValidity validity
| MInterval interval
| MGeometry geometry

fun encode_datum :: "datum \<Rightarrow> bytes" where
  "encode_datum MNull = [tag_byte TNull]"
| "encode_datum (MBool b) = [tag_byte TBool, if b then 0x01 else 0x00]"
| "encode_datum (MNum n) = tag_byte TNum # encode_key n"
| "encode_datum (MStr s) = tag_byte TStr # encode_terminated s"
| "encode_datum (MBytes b) = tag_byte TBytes # encode_terminated b"
| "encode_datum (MUuid u) = tag_byte TUuid # u"
| "encode_datum (MList items) = tag_byte TList # concat (map encode_datum items) @ [STRUCT_SEQ_END]"
| "encode_datum (MSet items) =
     tag_byte TSet # concat (remdups_adj (sort (map encode_datum items))) @ [STRUCT_SEQ_END]"
| "encode_datum (MRegex r) = tag_byte TRegex # rx_flags r # encode_terminated (rx_pattern r)"
| "encode_datum (MJson j) = tag_byte TJson # encode_json_body j"
| "encode_datum (MVector v) = tag_byte TVector # encode_vector_body v"
| "encode_datum (MValidity v) = tag_byte TValidity # encode_validity_body (VValue v)"
| "encode_datum (MInterval iv) = tag_byte TInterval # encode_interval_body iv"
| "encode_datum (MGeometry g) = tag_byte TGeometry # curve_key_bytes g"

section \<open>Decoding\<close>

fun btree_insert :: "data_value \<Rightarrow> data_value list \<Rightarrow> data_value list" where
  "btree_insert v [] = [v]"
| "btree_insert v (x # xs) =
     (case dv_cmp v x of
        Less \<Rightarrow> v # x # xs
      | Equal \<Rightarrow> x # xs
      | Greater \<Rightarrow> x # btree_insert v xs)"

definition btree_collect :: "data_value list \<Rightarrow> data_value list" where
  "btree_collect items = foldl (\<lambda>s v. btree_insert v s) [] items"

datatype iv_end_form = EndUnbounded | EndAt i64

fun decode_interval_end :: "bytes \<Rightarrow> decode_error + iv_end_form \<times> nat" where
  "decode_interval_end [] = Inl Truncated"
| "decode_interval_end (b # rest) =
     (if b = 0x01 then Inr (EndUnbounded, 1)
      else if b = 0x02 then
        if length rest < 8 then Inl Truncated else Inr (EndAt (ts_from_asc (take 8 rest)), 9)
      else Inl IntervalNotCanonical)"

definition lo_of_end :: "iv_end_form \<Rightarrow> lo" where
  "lo_of_end e = (case e of EndUnbounded \<Rightarrow> NegUnbounded | EndAt t \<Rightarrow> LoAt t)"

definition hi_of_end :: "iv_end_form \<Rightarrow> hi" where
  "hi_of_end e = (case e of EndUnbounded \<Rightarrow> PosUnbounded | EndAt t \<Rightarrow> HiAt t)"

definition decode_interval :: "bytes \<Rightarrow> decode_error + interval \<times> nat" where
  "decode_interval body =
     (case body of
        [] \<Rightarrow> Inl Truncated
      | b # rest \<Rightarrow>
          if b = 0x01 then Inr (IvEmpty, 1)
          else if b = 0x02 then
            rbind (decode_interval_end rest) (\<lambda>(l, lo_used).
              rbind (decode_interval_end (drop lo_used rest)) (\<lambda>(h, hi_used).
                let iv = iv_range (lo_of_end l) (hi_of_end h) in
                if iv_is_empty iv then Inl IntervalNotCanonical
                else Inr (iv, 1 + lo_used + hi_used)))
          else Inl IntervalNotCanonical)"

primrec decode_components :: "nat \<Rightarrow> bytes \<Rightarrow> decode_error + f64 list \<times> nat" where
  "decode_components 0 bs = Inr ([], 0)"
| "decode_components (Suc count) bs =
     rbind (map_err NumError (decode_key bs)) (\<lambda>(n, nused).
       case as_float n of
         None \<Rightarrow> Inl VectorComponentNotFloat
       | Some f \<Rightarrow>
           rbind (decode_components count (drop nused bs)) (\<lambda>(floats, used).
             Inr (f # floats, nused + used)))"

definition decode_vector :: "bytes \<Rightarrow> decode_error + vec \<times> nat" where
  "decode_vector body =
     (if length body < 4 then Inl Truncated
      else
        let count = unat (from_be_bytes (take 4 body) :: u32) in
        rbind (decode_components count (drop 4 body)) (\<lambda>(floats, used).
          case vector_try_new floats of
            None \<Rightarrow> Inl VectorDimensionOverflow
          | Some v \<Rightarrow> Inr (v, 4 + used)))"

definition decode_validity :: "bytes \<Rightarrow> decode_error + validity_slot \<times> nat" where
  "decode_validity body =
     (if length body < 8 then Inl Truncated
      else
        let ts = ts_from_asc (map (\<lambda>b. NOT b) (take 8 body)) in
        case drop 8 body of
          [] \<Rightarrow> Inl Truncated
        | p # _ \<Rightarrow>
            if p = 0x00 then Inr (from_stored ts True, 9)
            else if p = 0x01 then Inr (from_stored ts False, 9)
            else Inl BadPolarity)"

definition decode_json_body :: "nat \<Rightarrow> bytes \<Rightarrow> decode_error + json \<times> nat" where
  "decode_json_body levels body =
     rbind (decode_json levels body) (\<lambda>(j, jused).
       if length (drop jused body) < 8 then Inl Truncated
       else if take 8 (drop jused body) \<noteq> to_be_bytes (fnv1a64 (take jused body)) then
         Inl JsonHashMismatch
       else Inr (j, jused + 8))"

definition decode_regex :: "bytes \<Rightarrow> decode_error + regex_source \<times> nat" where
  "decode_regex body =
     (case body of
        [] \<Rightarrow> Inl Truncated
      | flag_byte # rest \<Rightarrow>
          (case regex_flags_from_bits flag_byte of
             None \<Rightarrow> Inl BadRegexFlags
           | Some flags \<Rightarrow>
               rbind (decode_terminated rest) (\<lambda>(content, used).
                 if utf8_valid content
                 then Inr (\<lparr>rx_flags = flags, rx_pattern = content\<rparr>, 1 + used)
                 else Inl BadUtf8)))"

primrec decode_levels :: "nat \<Rightarrow> bytes \<Rightarrow> decode_error + data_value \<times> nat" where
  "decode_levels 0 bs = Inl TooDeep"
| "decode_levels (Suc levels) bs =
     (case bs of
        [] \<Rightarrow> Inl Truncated
      | b # body \<Rightarrow>
          (case tag_from_byte b of
             None \<Rightarrow> Inl (BadTag b)
           | Some TNull \<Rightarrow> Inr (DNull, 1)
           | Some TBool \<Rightarrow>
               (case body of
                  [] \<Rightarrow> Inl Truncated
                | x # _ \<Rightarrow> if x = 0 then Inr (DBool False, 2)
                           else if x = 1 then Inr (DBool True, 2) else Inl BadBool)
           | Some TNum \<Rightarrow>
               rbind (map_err NumError (decode_key body)) (\<lambda>(n, used). Inr (DNum n, 1 + used))
           | Some TStr \<Rightarrow>
               rbind (decode_terminated body) (\<lambda>(content, used).
                 if utf8_valid content then Inr (DStr content, 1 + used) else Inl BadUtf8)
           | Some TBytes \<Rightarrow>
               rbind (decode_terminated body) (\<lambda>(content, used). Inr (DBytes content, 1 + used))
           | Some TUuid \<Rightarrow>
               if length body < 16 then Inl Truncated else Inr (DUuid (take 16 body), 17)
           | Some TList \<Rightarrow>
               rbind (decode_seq_loop (decode_levels levels) body) (\<lambda>(items, used).
                 Inr (DList items, 1 + used))
           | Some TSet \<Rightarrow>
               rbind (decode_set_loop (decode_levels levels) None body) (\<lambda>(items, used).
                 Inr (DSet (btree_collect items), 1 + used))
           | Some TRegex \<Rightarrow>
               rbind (decode_regex body) (\<lambda>(r, used). Inr (DRegex r, 1 + used))
           | Some TJson \<Rightarrow>
               rbind (decode_json_body (Suc levels) body) (\<lambda>(j, used). Inr (DJson j, 1 + used))
           | Some TVector \<Rightarrow>
               rbind (decode_vector body) (\<lambda>(v, used). Inr (DVector v, 1 + used))
           | Some TValidity \<Rightarrow>
               rbind (decode_validity body) (\<lambda>(s, used). Inr (DValidity s, 1 + used))
           | Some TInterval \<Rightarrow>
               rbind (decode_interval body) (\<lambda>(iv, used). Inr (DInterval iv, 1 + used))
           | Some TGeometry \<Rightarrow>
               if length body < 8 then Inl Truncated
               else Inr (DGeometry (from_curve_key (from_be_bytes (take 8 body))), 9)))"

definition decode_at :: "bytes \<Rightarrow> nat \<Rightarrow> decode_error + data_value \<times> nat" where
  "decode_at bs depth = decode_levels (Suc MAX_DEPTH - depth) bs"

definition decode_one :: "bytes \<Rightarrow> decode_error + data_value \<times> nat" where
  "decode_one bs = decode_at bs 0"

definition decode :: "bytes \<Rightarrow> decode_error + data_value" where
  "decode bs =
     rbind (decode_at bs 0) (\<lambda>(value, used).
       if used \<noteq> length bs then Inl TrailingBytes else Inr value)"

end
