(* ===== verification/Payloads.thy ===== *)
theory Payloads
  imports Canonical
begin

text \<open>
  The payloads of the fixed-shape kinds are codecs: timestamps, validity slots, intervals, vectors,
  regexes, JSON with its trailing hash, and geometries each satisfy the contract of \<open>Order_Code\<close>.
  The value codec is assembled from these in \<open>Canonical_Laws\<close>.
\<close>

unbundle bit_operations_syntax

section \<open>Timestamps\<close>

lemma xor_sign_add: "t XOR push_bit 63 1 = t + push_bit 63 1" for t :: i64
proof -
  have p: "bit (push_bit 63 1 :: i64) n \<longleftrightarrow> n = 63" for n
    by (simp only: bit_push_bit_iff bit_1_iff possible_bit_word) auto
  have set: "w OR push_bit 63 1 = w + push_bit 63 1" if "\<not> bit w 63" for w :: i64
  proof (rule disjunctive_add_eq_or[symmetric], rule bit_eqI)
    fix n
    show "bit (w AND push_bit 63 1) n = bit 0 n"
      using that by (simp only: bit_and_iff p bit_0_eq bot_apply) auto
  qed
  have bits: "bit (w XOR push_bit 63 1) n = (bit w n \<noteq> (n = 63))"
    "bit (w OR push_bit 63 1) n = (bit w n \<or> n = 63)" for w :: i64 and n
    by (simp_all only: bit_xor_iff bit_or_iff p)
  show ?thesis
  proof (cases "bit t 63")
    case False
    then have "t XOR push_bit 63 1 = t OR push_bit 63 1"
      by (intro bit_eqI) (use False in \<open>auto simp only: bits\<close>)
    with set[OF False] show ?thesis by simp
  next
    case True
    define w where "w = t XOR push_bit 63 1"
    have "\<not> bit w 63" using True by (simp only: w_def bits) simp
    moreover have "w OR push_bit 63 1 = t"
      unfolding w_def using True by (intro bit_eqI) (auto simp only: bits)
    ultimately have t: "t = w + push_bit 63 1" using set by metis
    have "t + push_bit 63 1 = w + (push_bit 63 1 + push_bit 63 1)" by (subst t) (rule add.assoc)
    also have "push_bit 63 1 + push_bit 63 1 = (0 :: i64)" by simp
    finally show ?thesis unfolding w_def by (simp only: add_0_right)
  qed
qed

lemma uint_flip_sign: "uint (t XOR i64_min) = sint t + 2 ^ 63" for t :: i64
proof -
  have "(i64_min :: i64) = push_bit 63 1" by simp
  then have "uint (t XOR i64_min) = uint (t + push_bit 63 1)" by (simp only: xor_sign_add)
  also have "\<dots> = (uint t + 2 ^ 63) mod 2 ^ 64" by (simp add: uint_word_ariths(1))
  also have "uint t = sint t mod 2 ^ 64" by (simp add: uint_sint take_bit_eq_mod)
  also have "(sint t mod 2 ^ 64 + 2 ^ 63) mod 2 ^ 64 = (sint t + 2 ^ 63) mod 2 ^ 64"
    by (rule mod_add_left_eq)
  also have "\<dots> = sint t + 2 ^ 63"
    using sint_bounds[of t] by (intro mod_pos_pos_trivial) simp_all
  finally show ?thesis .
qed

lemma length_asc_ts_key [simp]: "length (asc_ts_key t) = 8" "length (desc_ts_key t) = 8"
  by (simp_all add: asc_ts_key_def desc_ts_key_def)

lemma ocmp_asc_ts_key [simp]: "ocmp (asc_ts_key a) (asc_ts_key b) = ocmp (sint a) (sint b)"
proof -
  have "ocmp (a XOR i64_min) (b XOR i64_min) = ocmp (sint a) (sint b)"
    by (rule ocmp_eqI) (simp_all add: word_less_def word_uint_eq_iff uint_flip_sign)
  then show ?thesis by (simp add: asc_ts_key_def)
qed

lemma desc_complement: "desc_ts_key t = complement (asc_ts_key t)"
  by (simp add: desc_ts_key_def complement_def)

lemma ocmp_desc_ts_key [simp]: "ocmp (desc_ts_key a) (desc_ts_key b) = ts_cmp a b"
  by (simp add: desc_complement ocmp_complement ts_cmp_def ord_reverse_ocmp)

lemma ts_from_asc_key [simp]: "ts_from_asc (asc_ts_key t) = t"
  by (simp add: ts_from_asc_def asc_ts_key_def xor.assoc)

lemma asc_key_ts_from: "length k = 8 \<Longrightarrow> asc_ts_key (ts_from_asc k) = k"
  by (simp add: ts_from_asc_def asc_ts_key_def xor.assoc to_from_be_bytes)

section \<open>Validity slots\<close>

lemma encode_validity_law:
  "ocmp (encode_validity_body a @ x) (encode_validity_body b @ y) = ord_then (slot_cmp a b) (ocmp x y)"
proof -
  have "ocmp (if slot_is_assert a then 0 else 1 :: u8) (if slot_is_assert b then 0 else 1)
      = bool_cmp (slot_is_assert b) (slot_is_assert a)"
    by (simp add: ocmp_def bool_cmp_def)
  then show ?thesis
    by (simp add: encode_validity_body_def ocmp_append_eq_length slot_cmp_def ord_then_assoc)
qed

lemma complement_map: "map (\<lambda>b. NOT b) bs = complement bs"
  by (simp add: complement_def)

lemma decode_encode_validity:
  "slot_wf s \<Longrightarrow> decode_validity (encode_validity_body s @ rest) = Inr (s, length (encode_validity_body s))"
  unfolding slot_wf_def
  by (simp add: decode_validity_def encode_validity_body_def Let_def complement_map desc_complement) metis

lemma decode_validity_canonical:
  assumes "decode_validity bs = Inr (s, n)"
  shows "slot_wf s \<and> n = length (encode_validity_body s) \<and> (\<exists>rest. bs = encode_validity_body s @ rest)"
proof -
  define t where "t = ts_from_asc (complement (take 8 bs))"
  from assms obtain p rest a where len: "8 \<le> length bs" and d: "drop 8 bs = p # rest"
    and p: "p = (if a then 0 else 1)" and s: "s = from_stored t a" and n: "n = 9"
    by (auto simp: decode_validity_def Let_def complement_map t_def split: if_splits list.splits)
  have "desc_ts_key t = take 8 bs"
    using len by (simp add: desc_complement t_def asc_key_ts_from)
  then have "bs = encode_validity_body s @ rest"
    using append_take_drop_id[of 8 bs] by (simp add: encode_validity_body_def s d p)
  then show ?thesis by (auto simp: s n encode_validity_body_def)
qed

interpretation validity_code: codec slot_wf encode_validity_body slot_cmp decode_validity
  by unfold_locales
    (rule encode_validity_law, erule decode_encode_validity, erule decode_validity_canonical)

section \<open>Intervals\<close>

fun lo_mark :: "lo \<Rightarrow> u8" where
  "lo_mark NegUnbounded = 1"
| "lo_mark (LoAt _) = 2"

fun lo_time :: "lo \<Rightarrow> i64" where
  "lo_time NegUnbounded = 0"
| "lo_time (LoAt t) = t"

fun hi_mark :: "hi \<Rightarrow> u8" where
  "hi_mark PosUnbounded = 1"
| "hi_mark (HiAt _) = 2"

fun hi_time :: "hi \<Rightarrow> i64" where
  "hi_time PosUnbounded = 0"
| "hi_time (HiAt t) = t"

lemma interval_key_simps:
  "interval_key IvEmpty = (1, 0, 0, 0, 0)"
  "interval_key (IvRange l h) = (2, lo_mark l, lo_time l, hi_mark h, hi_time h)"
  by (simp_all add: interval_key_def split: lo.splits hi.splits)

lemma encode_lo_law:
  "ocmp (encode_lo a @ x) (encode_lo b @ y)
     = ord_then (ocmp (lo_mark a) (lo_mark b)) (ord_then (ocmp (sint (lo_time a)) (sint (lo_time b))) (ocmp x y))"
  by (cases a; cases b) (simp_all add: ocmp_append_eq_length)

lemma encode_hi_law:
  "ocmp (encode_hi a @ x) (encode_hi b @ y)
     = ord_then (ocmp (hi_mark a) (hi_mark b)) (ord_then (ocmp (sint (hi_time a)) (sint (hi_time b))) (ocmp x y))"
  by (cases a; cases b) (simp_all add: ocmp_append_eq_length)

lemma encode_interval_law:
  "ocmp (encode_interval_body a @ x) (encode_interval_body b @ y)
     = ord_then (interval_storage_cmp a b) (ocmp x y)"
  by (cases a; cases b)
    (simp_all add: encode_interval_body_def interval_storage_cmp_def interval_key_simps
      encode_lo_law encode_hi_law ord_then_assoc)

lemma decode_interval_end_lo: "decode_interval_end (encode_lo l @ rest)
    = Inr (case l of NegUnbounded \<Rightarrow> EndUnbounded | LoAt t \<Rightarrow> EndAt t, length (encode_lo l))"
  by (cases l) simp_all

lemma decode_interval_end_hi: "decode_interval_end (encode_hi h @ rest)
    = Inr (case h of PosUnbounded \<Rightarrow> EndUnbounded | HiAt t \<Rightarrow> EndAt t, length (encode_hi h))"
  by (cases h) simp_all

lemma decode_interval_end_canonical:
  assumes "decode_interval_end bs = Inr (e, n)"
  shows "(\<exists>rest. bs = encode_lo (lo_of_end e) @ rest) \<and> n = length (encode_lo (lo_of_end e))"
    and "(\<exists>rest. bs = encode_hi (hi_of_end e) @ rest) \<and> n = length (encode_hi (hi_of_end e))"
proof -
  from assms obtain b r where bs: "bs = b # r" by (cases bs) auto
  have "e = EndUnbounded \<and> b = 0x01 \<and> n = 1
      \<or> (\<exists>t. e = EndAt t \<and> b = 0x02 \<and> n = 9 \<and> r = asc_ts_key t @ drop 8 r)"
    using assms by (auto simp: bs asc_key_ts_from split: if_splits)
  then show "(\<exists>rest. bs = encode_lo (lo_of_end e) @ rest) \<and> n = length (encode_lo (lo_of_end e))"
    "(\<exists>rest. bs = encode_hi (hi_of_end e) @ rest) \<and> n = length (encode_hi (hi_of_end e))"
    by (auto simp: bs lo_of_end_def hi_of_end_def)
qed

lemma decode_encode_interval:
  assumes "interval_wf iv"
  shows "decode_interval (encode_interval_body iv @ rest) = Inr (iv, length (encode_interval_body iv))"
proof (cases iv)
  case (IvRange l h)
  have "lo_of_end (case l of NegUnbounded \<Rightarrow> EndUnbounded | LoAt t \<Rightarrow> EndAt t) = l"
    "hi_of_end (case h of PosUnbounded \<Rightarrow> EndUnbounded | HiAt t \<Rightarrow> EndAt t) = h"
    by (cases l; simp add: lo_of_end_def) (cases h; simp add: hi_of_end_def)
  moreover have "iv_range l h = iv" using assms IvRange by (simp add: iv_range_id)
  ultimately show ?thesis
    by (simp add: decode_interval_def encode_interval_body_def IvRange decode_interval_end_lo
        decode_interval_end_hi)
qed (simp add: decode_interval_def encode_interval_body_def)

lemma decode_interval_canonical:
  assumes "decode_interval bs = Inr (iv, n)"
  shows "interval_wf iv \<and> n = length (encode_interval_body iv) \<and> (\<exists>rest. bs = encode_interval_body iv @ rest)"
proof -
  from assms obtain b rest where bs: "bs = b # rest" by (auto simp: decode_interval_def split: list.splits)
  show ?thesis
  proof (cases "b = 0x01")
    case True
    with assms show ?thesis by (auto simp: decode_interval_def bs encode_interval_body_def)
  next
    case False
    with assms obtain l lu h hu where b: "b = 0x02" and l: "decode_interval_end rest = Inr (l, lu)"
      and h: "decode_interval_end (drop lu rest) = Inr (h, hu)"
      and iv: "iv = iv_range (lo_of_end l) (hi_of_end h)" "\<not> iv_is_empty iv" and n: "n = 1 + lu + hu"
      by (auto simp: decode_interval_def bs rbind_eq_Inr Let_def split: if_splits)
    obtain x where x: "rest = encode_lo (lo_of_end l) @ x" "lu = length (encode_lo (lo_of_end l))"
      using decode_interval_end_canonical(1)[OF l] by blast
    then have "drop lu rest = x" by simp
    with h obtain y where y: "x = encode_hi (hi_of_end h) @ y" "hu = length (encode_hi (hi_of_end h))"
      using decode_interval_end_canonical(2)[of x h hu] by auto
    have "interval_wf iv" unfolding iv(1) by (rule iv_range_wf)
    moreover have "iv = IvRange (lo_of_end l) (hi_of_end h)"
      using iv by (auto simp: iv_range_def split: lo.splits hi.splits if_splits)
    then have "encode_interval_body iv = 0x02 # encode_lo (lo_of_end l) @ encode_hi (hi_of_end h)"
      by (simp add: encode_interval_body_def)
    ultimately show ?thesis
      using x y b n by (simp add: bs)
  qed
qed

interpretation interval_code: codec interval_wf encode_interval_body interval_storage_cmp decode_interval
  by unfold_locales
    (rule encode_interval_law, erule decode_encode_interval, erule decode_interval_canonical)

section \<open>Vectors\<close>

lemma component_admit_iff: "component_admit c = c \<longleftrightarrow> num_float c = NFloat c"
  by (auto simp: component_admit_def num_float_def)

lemma vec_wf_iff:
  "vec_wf v \<longleftrightarrow> length (vec_components v) < 2 ^ 32 \<and> vec_dim v = of_nat (length (vec_components v))
     \<and> (\<forall>c \<in> set (vec_components v). num_float c = NFloat c)
     \<and> vec_content_id v = content_id_from_parts (vec_dim v) (vec_components v)"
proof -
  have fixp: "(\<forall>c \<in> set cs. num_float c = NFloat c) \<longleftrightarrow> map component_admit cs = cs" for cs
    by (induction cs) (simp_all add: component_admit_iff)
  show ?thesis
    unfolding fixp vec_wf_def vector_try_new_def dimension_from_len_def Let_def
    by (cases v; cases "map component_admit (vec_components v) = vec_components v") auto
qed

lemma vector_try_new_wf: "vector_try_new cs = Some v \<Longrightarrow> vec_wf v"
proof -
  assume "vector_try_new cs = Some v"
  then have v: "vec_components v = map component_admit cs" "length cs < 2 ^ 32"
    "vec_dim v = of_nat (length cs)"
    "vec_content_id v = content_id_from_parts (vec_dim v) (vec_components v)"
    by (auto simp: vector_try_new_def dimension_from_len_def Let_def split: if_splits)
  moreover have "num_float (component_admit c) = NFloat (component_admit c)" for c
    by (auto simp: component_admit_def num_float_def CANON_NAN_BITS_def[symmetric])
  ultimately show ?thesis by (simp add: vec_wf_iff)
qed

lemma num_wf_float: "num_float c = NFloat c \<Longrightarrow> num_wf (NFloat c)"
  using num_wf_constructors(2)[of c] by simp

lemma zip_code_law:
  assumes "length as = length bs"
    "\<And>a b x y. a \<in> set as \<Longrightarrow> b \<in> set bs \<Longrightarrow> ocmp (enc a @ x) (enc b @ y) = ord_then (cmp a b) (ocmp x y)"
  shows "ocmp (concat (map enc as) @ x) (concat (map enc bs) @ y) = ord_then (zip_cmp cmp as bs) (ocmp x y)"
  using assms
proof (induction as bs rule: list_induct2)
  case (Cons a as b bs)
  then show ?case by (cases "cmp a b") simp_all
qed simp

lemma encode_vector_law:
  assumes "vec_wf a" "vec_wf b"
  shows "ocmp (encode_vector_body a @ x) (encode_vector_body b @ y) = ord_then (vector_cmp a b) (ocmp x y)"
proof (cases "vec_dim a = vec_dim b")
  case True
  then have "(of_nat (length (vec_components a)) :: u32) = of_nat (length (vec_components b))"
    using assms by (simp add: vec_wf_iff)
  then have len: "length (vec_components a) = length (vec_components b)"
    using assms by (auto simp: vec_wf_iff unat_of_nat dest: arg_cong[where f = unat])
  have wf: "num_wf (num_float c)" for c by (rule num_wf_constructors)
  from zip_code_law[OF len, of "\<lambda>c. encode_key (num_float c)" "\<lambda>x y. num_cmp (num_float x) (num_float y)" x y]
  show ?thesis
    by (simp add: encode_vector_body_def True vector_cmp_def encode_key_law[OF wf wf])
next
  case False
  then show ?thesis
    by (simp add: encode_vector_body_def vector_cmp_def ocmp_append_eq_length ord_then_assoc ord_then_nonequal)
qed

lemma decode_components_encode:
  "(\<forall>c \<in> set cs. num_float c = NFloat c) \<Longrightarrow>
    decode_components (length cs) (concat (map (\<lambda>c. encode_key (num_float c)) cs) @ rest)
      = Inr (cs, length (concat (map (\<lambda>c. encode_key (num_float c)) cs)))"
proof (induction cs)
  case (Cons c cs)
  then have "decode_key (encode_key (num_float c) @ r) = Inr (NFloat c, length (encode_key (num_float c)))" for r
    using decode_key_encode_key[OF num_wf_float[of c]] by simp
  with Cons show ?case by simp
qed simp

lemma decode_components_canonical:
  "decode_components k bs = Inr (cs, n)
    \<Longrightarrow> length cs = k \<and> (\<forall>c \<in> set cs. num_float c = NFloat c)
      \<and> n = length (concat (map (\<lambda>c. encode_key (num_float c)) cs))
      \<and> (\<exists>rest. bs = concat (map (\<lambda>c. encode_key (num_float c)) cs) @ rest)"
proof (induction k arbitrary: bs cs n)
  case (Suc k)
  then obtain x u f cs' n' where d: "decode_key bs = Inr (x, u)" "as_float x = Some f"
    and r: "decode_components k (drop u bs) = Inr (cs', n')" "cs = f # cs'" "n = u + n'"
    by (auto simp: rbind_eq_Inr split: option.splits)
  have x: "x = NFloat f" using d(2) by (cases x) auto
  obtain rest where c: "num_wf (NFloat f)" "u = length (encode_key (NFloat f))" "bs = encode_key (NFloat f) @ rest"
    using decode_key_canonical[OF d(1)] x by blast
  then have "drop u bs = rest" "num_float f = NFloat f" by (simp_all add: num_float_wf)
  with Suc.IH[OF r(1)] r c show ?case by auto
qed simp

lemma decode_encode_vector:
  assumes "vec_wf v"
  shows "decode_vector (encode_vector_body v @ rest) = Inr (v, length (encode_vector_body v))"
proof -
  note v = assms[unfolded vec_wf_iff]
  have "unat (vec_dim v) = length (vec_components v)" using v by (simp add: unat_of_nat)
  then show ?thesis
    using v decode_components_encode[of "vec_components v" rest] assms
    by (simp add: decode_vector_def encode_vector_body_def Let_def vec_wf_def)
qed

lemma decode_vector_canonical:
  assumes "decode_vector bs = Inr (v, n)"
  shows "vec_wf v \<and> n = length (encode_vector_body v) \<and> (\<exists>rest. bs = encode_vector_body v @ rest)"
proof -
  define d where "d = (from_be_bytes (take 4 bs) :: u32)"
  from assms obtain cs used where len: "4 \<le> length bs"
    and c: "decode_components (unat d) (drop 4 bs) = Inr (cs, used)"
    and v: "vector_try_new cs = Some v" and n: "n = 4 + used"
    by (auto simp: decode_vector_def Let_def rbind_eq_Inr d_def not_less split: if_splits option.splits)
  note cc = decode_components_canonical[OF c]
  have "map component_admit cs = cs" using cc component_admit_iff by (simp add: map_idI)
  with v have vv: "vec_components v = cs" "vec_dim v = of_nat (length cs)"
    by (auto simp: vector_try_new_def dimension_from_len_def Let_def split: if_splits)
  then have "vec_dim v = d" using cc by simp
  moreover have "to_be_bytes d = take 4 bs" using len by (simp add: d_def to_from_be_bytes)
  moreover obtain rest where "drop 4 bs = concat (map (\<lambda>c. encode_key (num_float c)) cs) @ rest"
    using cc by blast
  ultimately have "bs = encode_vector_body v @ rest"
    using append_take_drop_id[of 4 bs] vv(1) by (simp add: encode_vector_body_def)
  moreover have "n = length (encode_vector_body v)"
    using n cc vv(1) by (simp add: encode_vector_body_def)
  ultimately show ?thesis using vector_try_new_wf[OF v] by blast
qed

interpretation vector_code: codec vec_wf encode_vector_body vector_cmp decode_vector
  by unfold_locales
    (erule (1) encode_vector_law, erule decode_encode_vector, erule decode_vector_canonical)

section \<open>Regular expressions\<close>

definition encode_regex_body :: "regex_source \<Rightarrow> bytes" where
  "encode_regex_body r = rx_flags r # encode_terminated (rx_pattern r)"

lemma encode_regex_law:
  "ocmp (encode_regex_body a @ x) (encode_regex_body b @ y) = ord_then (regex_cmp a b) (ocmp x y)"
  by (simp add: encode_regex_body_def regex_cmp_def encode_terminated_law ord_then_assoc)

lemma decode_encode_regex:
  "regex_wf r \<Longrightarrow> decode_regex (encode_regex_body r @ rest) = Inr (r, length (encode_regex_body r))"
  by (simp add: regex_wf_def decode_regex_def encode_regex_body_def decode_encode_terminated)

lemma regex_flags_from_bits_Some: "regex_flags_from_bits b = Some f \<Longrightarrow> f = b \<and> regex_flags_from_bits f = Some f"
  by (auto simp: regex_flags_from_bits_def split: if_splits)

lemma decode_regex_canonical:
  assumes "decode_regex bs = Inr (r, n)"
  shows "regex_wf r \<and> n = length (encode_regex_body r) \<and> (\<exists>rest. bs = encode_regex_body r @ rest)"
proof -
  from assms obtain b rest f c u where bs: "bs = b # rest" and f: "regex_flags_from_bits b = Some f"
    and d: "decode_terminated rest = Inr (c, u)" "utf8_valid c"
    and r: "r = \<lparr>rx_flags = f, rx_pattern = c\<rparr>" "n = 1 + u"
    by (auto simp: decode_regex_def rbind_eq_Inr split: list.splits option.splits if_splits)
  show ?thesis
    using regex_flags_from_bits_Some[OF f] decode_terminated_canonical[OF d(1)] d(2)
    by (auto simp: bs r regex_wf_def encode_regex_body_def)
qed

interpretation regex_code: codec regex_wf encode_regex_body regex_cmp decode_regex
  by unfold_locales
    (rule encode_regex_law, erule decode_encode_regex, erule decode_regex_canonical)

section \<open>JSON bodies\<close>

lemma encode_json_body_law:
  assumes "json_wf a" "json_wf b"
  shows "ocmp (encode_json_body a @ x) (encode_json_body b @ y) = ord_then (json_storage_cmp a b) (ocmp x y)"
proof (cases "json_storage_cmp a b = Equal")
  case True
  with assms have "a = b" by (simp add: json_storage_cmp_eq)
  with True show ?thesis by simp
next
  case False
  then show ?thesis
    by (simp add: encode_json_body_def Let_def encode_json_law[OF assms] ord_then_nonequal)
qed

lemma decode_encode_json_body:
  assumes "json_wf j"
  shows "decodes_front (decode_json_body levels) encode_json_body (\<lambda>j. json_depth j < levels) j"
proof -
  have "decode_json levels (encode_json j @ x)
      = (if json_depth j < levels then Inr (j, length (encode_json j)) else Inl TooDeep)" for x
    using decode_json_encode[OF assms, of levels] by (simp add: decodes_front_def)
  then show ?thesis
    by (simp add: decodes_front_def decode_json_body_def encode_json_body_def Let_def)
qed

lemma decode_json_body_canonical:
  "canonical_decoder (decode_json_body levels) encode_json_body (\<lambda>j. json_wf j \<and> json_depth j < levels)"
  unfolding canonical_decoder_def
proof (intro allI impI)
  fix bs j n assume "decode_json_body levels bs = Inr (j, n)"
  then obtain u where d: "decode_json levels bs = Inr (j, u)" and n: "n = u + 8"
    and len: "8 \<le> length (drop u bs)" and h: "take 8 (drop u bs) = to_be_bytes (fnv1a64 (take u bs))"
    by (auto simp: decode_json_body_def rbind_eq_Inr split: if_splits)
  obtain rest where c: "json_wf j \<and> json_depth j < levels" "u = length (encode_json j)"
    "seq_start (encode_json j)" "bs = encode_json j @ rest"
    using canonical_decoderD[OF decode_json_canonical d] by metis
  have "rest = to_be_bytes (fnv1a64 (encode_json j)) @ drop 8 rest"
    using h c(2,4) append_take_drop_id[of 8 rest] by simp
  then have "bs = encode_json_body j @ drop 8 rest"
    using c(4) by (simp add: encode_json_body_def Let_def)
  moreover have "n = length (encode_json_body j)" using n c(2) by (simp add: encode_json_body_def Let_def)
  moreover have "seq_start (encode_json_body j)"
    using c(3) by (cases "encode_json j") (simp_all add: encode_json_body_def Let_def seq_start_def)
  ultimately show "(json_wf j \<and> json_depth j < levels) \<and> n = length (encode_json_body j)
      \<and> seq_start (encode_json_body j) \<and> (\<exists>rest. bs = encode_json_body j @ rest)"
    using c(1) by blast
qed

end
