(* ===== verification/Canonical_Laws.thy ===== *)
theory Canonical_Laws
  imports Payloads
begin

text \<open>
  The laws of whole values under the canonical codec. \<open>encode_ref\<close> writes a set as its elements in
  the order they are listed; on well-formed values it is \<open>encode_owned\<close>, which sorts and
  deduplicates the element encodings. The order law, the round trip, canonicity and the depth
  refusal are proved of \<open>encode_ref\<close> and carried over.
\<close>

section \<open>The reference encoding\<close>

fun encode_ref :: "data_value \<Rightarrow> bytes" where
  "encode_ref (DList items) = tag_byte TList # concat (map encode_ref items) @ [STRUCT_SEQ_END]"
| "encode_ref (DSet items) = tag_byte TSet # concat (map encode_ref items) @ [STRUCT_SEQ_END]"
| "encode_ref (DRegex r) = tag_byte TRegex # encode_regex_body r"
| "encode_ref (DJson j) = tag_byte TJson # encode_json_body j"
| "encode_ref v = encode_owned v"

lemma encode_ref_tag: "encode_ref v = tag_byte (dv_tag v) # tl (encode_ref v)"
  by (cases v) simp_all

lemma encode_ref_start [simp]: "seq_start (encode_ref v)"
  by (subst encode_ref_tag) simp

lemma dv_size_child:
  "v \<in> set items \<Longrightarrow> size v < size (DList items)"
  "v \<in> set items \<Longrightarrow> size v < size (DSet items)"
  by (auto simp: less_Suc_eq_le size_list_estimation')

lemma dv_cmp_unfold:
  "dv_cmp DNull DNull = Equal"
  "dv_cmp (DBool p) (DBool q) = bool_cmp p q"
  "dv_cmp (DNum m) (DNum n) = num_cmp m n"
  "dv_cmp (DStr s) (DStr t) = ocmp s t"
  "dv_cmp (DBytes s) (DBytes t) = ocmp s t"
  "dv_cmp (DUuid s) (DUuid t) = ocmp s t"
  "dv_cmp (DRegex r) (DRegex r') = regex_cmp r r'"
  "dv_cmp (DJson j) (DJson j') = json_storage_cmp j j'"
  "dv_cmp (DVector v) (DVector w) = vector_cmp v w"
  "dv_cmp (DList us) (DList vs) = list_cmp dv_cmp us vs"
  "dv_cmp (DSet us) (DSet vs) = list_cmp dv_cmp us vs"
  "dv_cmp (DValidity a) (DValidity b) = slot_cmp a b"
  "dv_cmp (DInterval i) (DInterval i') = interval_storage_cmp i i'"
  "dv_cmp (DGeometry g) (DGeometry h) = geometry_cmp g h"
  by (simp_all add: dv_cmp.simps slice_cmp_list_cmp)

lemma dv_cmp_tag: "dv_tag a \<noteq> dv_tag b \<Longrightarrow> dv_cmp a b = ocmp (tag_byte (dv_tag a)) (tag_byte (dv_tag b))"
  by (simp add: dv_cmp.simps)

lemmas payload_laws = encode_key_law encode_terminated_law encode_regex_law encode_json_body_law
  encode_vector_law encode_validity_law encode_interval_law geometry_code.law

section \<open>The order law\<close>

lemma bool_byte_law: "ocmp (if p then 1 else 0 :: u8) (if q then 1 else 0) = bool_cmp p q"
  by (simp add: bool_cmp_def ocmp_def)

lemma encode_ref_leaf_law:
  assumes "dv_wf a" "dv_wf b" "dv_tag a = dv_tag b" "dv_tag a \<noteq> TList" "dv_tag a \<noteq> TSet"
  shows "ocmp (encode_ref a @ x) (encode_ref b @ y) = ord_then (dv_cmp a b) (ocmp x y)"
  using assms
  by (cases a; cases b)
    (simp_all add: dv_cmp_unfold payload_laws bool_byte_law ocmp_append_eq_length)

lemma encode_ref_law:
  "dv_wf a \<Longrightarrow> dv_wf b
    \<Longrightarrow> ocmp (encode_ref a @ x) (encode_ref b @ y) = ord_then (dv_cmp a b) (ocmp x y)"
proof (induction a arbitrary: b x y rule: measure_induct_rule[of size])
  case (less a)
  have seq: "ocmp (concat (map encode_ref us) @ STRUCT_SEQ_END # x) (concat (map encode_ref vs) @ STRUCT_SEQ_END # y)
      = ord_then (list_cmp dv_cmp us vs) (ocmp x y)"
    if "a = DList us \<and> b = DList vs \<or> a = DSet us \<and> b = DSet vs" for us vs
    by (rule sequence_law) (use less that dv_size_child in auto)
  consider "dv_tag a \<noteq> dv_tag b" | us vs where "a = DList us" "b = DList vs"
    | us vs where "a = DSet us" "b = DSet vs"
    | "dv_tag a = dv_tag b" "dv_tag a \<noteq> TList" "dv_tag a \<noteq> TSet"
    by (cases a; cases b) auto
  then show ?case
  proof cases
    case 1
    then show ?thesis
      by (subst encode_ref_tag[of a], subst encode_ref_tag[of b])
        (simp add: dv_cmp_tag ord_then_nonequal)
  qed (use seq less.prems encode_ref_leaf_law in \<open>simp_all add: dv_cmp_unfold\<close>)
qed

lemma dv_sorted_enc:
  assumes "\<forall>v \<in> set items. dv_wf v"
  shows "sorted_wrt (<) (map encode_ref items) \<longleftrightarrow> sorted_wrt (\<lambda>a b. dv_cmp a b = Less) items"
proof -
  have "encode_ref a < encode_ref b \<longleftrightarrow> dv_cmp a b = Less" if "a \<in> set items" "b \<in> set items" for a b
    using encode_ref_law[of a b "[]" "[]"] that assms by (auto simp: ocmp_def split: if_splits)
  then show ?thesis
    unfolding sorted_wrt_map by (auto intro: sorted_wrt_mono_rel[rotated])
qed

lemma encode_owned_ref: "dv_wf v \<Longrightarrow> encode_owned v = encode_ref v"
proof (induction v rule: encode_ref.induct)
  case (2 items)
  then have m: "map encode_owned items = map encode_ref items" by simp
  have "sorted_wrt (<) (map encode_ref items)" using 2(2) by (simp add: dv_sorted_enc)
  then have "remdups_adj (sort (map encode_ref items)) = map encode_ref items"
    by (simp add: strict_sorted_iff sort_key_id_if_sorted remdups_adj_distinct)
  then show ?case by (simp only: encode_owned.simps encode_ref.simps m)
qed (simp_all add: encode_regex_body_def cong: map_cong)

section \<open>Decoding inverts encoding\<close>

lemma from_curve_key_bytes: "from_curve_key (from_be_bytes (curve_key_bytes g)) = g"
  by (simp add: curve_key_bytes_def from_curve_key_index)

lemma length_curve_key_bytes [simp]: "length (curve_key_bytes g) = 8"
  by (simp add: curve_key_bytes_def)

lemma btree_insert_last: "(\<forall>x \<in> set s. dv_cmp v x = Greater) \<Longrightarrow> btree_insert v s = s @ [v]"
  by (induction s) auto

lemma dv_cmp_bytes: "dv_wf a \<Longrightarrow> dv_wf b \<Longrightarrow> dv_cmp a b = ocmp (encode_ref a) (encode_ref b)"
  using encode_ref_law[of a b "[]" "[]"] by simp

lemma dv_cmp_reverse: "dv_wf a \<Longrightarrow> dv_wf b \<Longrightarrow> dv_cmp b a = ord_reverse (dv_cmp a b)"
  by (simp add: dv_cmp_bytes ord_reverse_ocmp)

lemma btree_collect_sorted:
  assumes "\<forall>v \<in> set items. dv_wf v" "sorted_wrt (\<lambda>a b. dv_cmp a b = Less) items"
  shows "btree_collect items = items"
proof -
  have "foldl (\<lambda>s v. btree_insert v s) s items = s @ items"
    if "\<forall>v \<in> set (s @ items). dv_wf v" "sorted_wrt (\<lambda>a b. dv_cmp a b = Less) (s @ items)" for s
    using that
  proof (induction items arbitrary: s)
    case (Cons v items)
    have "btree_insert v s = s @ [v]"
      using Cons.prems by (intro btree_insert_last) (auto simp: sorted_wrt_append dv_cmp_reverse[of _ v])
    with Cons show ?case by simp
  qed simp
  from this[of "[]"] assms show ?thesis by (simp add: btree_collect_def)
qed

lemma tag_from_byte_codes [simp]:
  "tag_from_byte 0x05 = Some TNull" "tag_from_byte 0x08 = Some TBool" "tag_from_byte 0x10 = Some TNum"
  "tag_from_byte 0x18 = Some TStr" "tag_from_byte 0x20 = Some TBytes" "tag_from_byte 0x28 = Some TUuid"
  "tag_from_byte 0x30 = Some TRegex" "tag_from_byte 0x38 = Some TJson" "tag_from_byte 0x40 = Some TVector"
  "tag_from_byte 0x48 = Some TList" "tag_from_byte 0x50 = Some TSet" "tag_from_byte 0x58 = Some TValidity"
  "tag_from_byte 0x60 = Some TInterval" "tag_from_byte 0x68 = Some TGeometry"
  by (simp_all add: tag_from_byte_def)

lemma decode_levels_leaf:
  assumes "dv_wf v" "dv_tag v \<noteq> TList" "dv_tag v \<noteq> TSet" "dv_tag v \<noteq> TJson"
  shows "decode_levels (Suc m) (encode_ref v @ rest) = Inr (v, length (encode_ref v))"
  using assms
proof (cases v)
  case (DBool b)
  then show ?thesis by (cases b) simp_all
next
  case (DGeometry g)
  then show ?thesis by (simp add: from_curve_key_bytes)
next
  case (DNum n)
  with assms show ?thesis by (simp add: decode_key_encode_key)
next
  case (DStr s)
  with assms show ?thesis by (simp add: decode_encode_terminated)
next
  case (DBytes s)
  then show ?thesis by (simp add: decode_encode_terminated)
next
  case (DRegex r)
  with assms show ?thesis by (simp add: decode_encode_regex)
next
  case (DVector r)
  with assms show ?thesis by (simp add: decode_encode_vector)
next
  case (DValidity r)
  with assms show ?thesis by (simp add: decode_encode_validity)
next
  case (DInterval r)
  with assms show ?thesis by (simp add: decode_encode_interval)
qed simp_all

lemma decodes_front_leaf:
  assumes "dv_wf v" "dv_tag v \<noteq> TList" "dv_tag v \<noteq> TSet" "dv_tag v \<noteq> TJson"
  shows "decodes_front (decode_levels n) encode_ref (\<lambda>v. dv_depth v < n) v"
proof (cases n)
  case (Suc m)
  have "dv_depth v = 0" using assms by (cases v) simp_all
  with Suc decode_levels_leaf[OF assms] show ?thesis by (simp add: decodes_front_def del: decode_levels.simps)
qed (simp add: decodes_front_def)

lemma decode_levels_ref:
  "dv_wf v \<Longrightarrow> decodes_front (decode_levels n) encode_ref (\<lambda>v. dv_depth v < n) v"
proof (induction v arbitrary: n rule: encode_ref.induct)
  case (1 items)
  show ?case
  proof (cases n)
    case (Suc m)
    have "decode_seq_loop (decode_levels m) (concat (map encode_ref items) @ STRUCT_SEQ_END # rest)
        = (if \<forall>v \<in> set items. dv_depth v < m then Inr (items, length (concat (map encode_ref items)) + 1)
           else Inl TooDeep)" for rest
      using 1 by (intro decode_seq_loop_encoded) simp_all
    with Suc show ?thesis by (simp add: decodes_front_def foldr_max_less)
  qed (simp add: decodes_front_def)
next
  case (2 items)
  show ?case
  proof (cases n)
    case (Suc m)
    have "decode_set_loop (decode_levels m) None (concat (map encode_ref items) @ STRUCT_SEQ_END # rest)
        = (if \<forall>v \<in> set items. dv_depth v < m then Inr (items, length (concat (map encode_ref items)) + 1)
           else Inl TooDeep)" for rest
      using 2 by (intro decode_set_loop_encoded) (simp_all add: dv_sorted_enc)
    with Suc 2(2) show ?thesis by (simp add: decodes_front_def foldr_max_less btree_collect_sorted)
  qed (simp add: decodes_front_def)
next
  case (4 j)
  then show ?case
    using decode_encode_json_body[of j n] by (cases n) (simp_all add: decodes_front_def)
qed (rule decodes_front_leaf; simp)+

section \<open>Decoding accepts only encodings\<close>

lemma decode_levels_Inr:
  assumes "decode_levels (Suc m) bs = Inr (v, n)"
  obtains (null) rest where "bs = tag_byte TNull # rest" "v = DNull" "n = 1"
  | (bool) b rest where "bs = tag_byte TBool # (if b then 1 else 0) # rest" "v = DBool b" "n = 2"
  | (num) rest x u where "bs = tag_byte TNum # rest" "decode_key rest = Inr (x, u)" "v = DNum x" "n = 1 + u"
  | (str) rest s u where "bs = tag_byte TStr # rest" "decode_terminated rest = Inr (s, u)" "utf8_valid s"
      "v = DStr s" "n = 1 + u"
  | (byt) rest s u where "bs = tag_byte TBytes # rest" "decode_terminated rest = Inr (s, u)"
      "v = DBytes s" "n = 1 + u"
  | (uuid) rest where "bs = tag_byte TUuid # rest" "16 \<le> length rest" "v = DUuid (take 16 rest)" "n = 17"
  | (regex) rest r u where "bs = tag_byte TRegex # rest" "decode_regex rest = Inr (r, u)"
      "v = DRegex r" "n = 1 + u"
  | (json) rest j u where "bs = tag_byte TJson # rest" "decode_json_body (Suc m) rest = Inr (j, u)"
      "v = DJson j" "n = 1 + u"
  | (vector) rest w u where "bs = tag_byte TVector # rest" "decode_vector rest = Inr (w, u)"
      "v = DVector w" "n = 1 + u"
  | (list) rest items u where "bs = tag_byte TList # rest"
      "decode_seq_loop (decode_levels m) rest = Inr (items, u)" "v = DList items" "n = 1 + u"
  | (set) rest items u where "bs = tag_byte TSet # rest"
      "decode_set_loop (decode_levels m) None rest = Inr (items, u)" "v = DSet (btree_collect items)" "n = 1 + u"
  | (validity) rest s u where "bs = tag_byte TValidity # rest" "decode_validity rest = Inr (s, u)"
      "v = DValidity s" "n = 1 + u"
  | (interval) rest i u where "bs = tag_byte TInterval # rest" "decode_interval rest = Inr (i, u)"
      "v = DInterval i" "n = 1 + u"
  | (geometry) rest where "bs = tag_byte TGeometry # rest" "8 \<le> length rest"
      "v = DGeometry (from_curve_key (from_be_bytes (take 8 rest)))" "n = 9"
proof -
  from assms obtain b rest where bs: "bs = b # rest" by (cases bs) auto
  from assms bs obtain t where "tag_from_byte b = Some t" by (cases "tag_from_byte b") auto
  then have b: "bs = tag_byte t # rest" using bs by (simp add: tag_from_byte_Some)
  show thesis
  proof (cases t)
    case TNull
    with assms b show thesis using null by simp
  next
    case TBool
    with assms b obtain x r where "rest = x # r" by (cases rest) auto
    moreover from this TBool assms b have "x = 0 \<and> v = DBool False \<and> n = 2 \<or> x = 1 \<and> v = DBool True \<and> n = 2"
      by (auto split: if_splits)
    ultimately show thesis using bool[of False r] bool[of True r] TBool b by auto
  next
    case TNum
    with assms b show thesis using num by (auto simp: rbind_eq_Inr)
  next
    case TStr
    with assms b show thesis using str by (auto simp: rbind_eq_Inr split: if_splits)
  next
    case TBytes
    with assms b show thesis using byt by (auto simp: rbind_eq_Inr)
  next
    case TUuid
    with assms b show thesis using uuid by (auto split: if_splits)
  next
    case TRegex
    with assms b show thesis using regex by (auto simp: rbind_eq_Inr)
  next
    case TJson
    with assms b show thesis using json by (auto simp: rbind_eq_Inr)
  next
    case TVector
    with assms b show thesis using vector by (auto simp: rbind_eq_Inr)
  next
    case TList
    with assms b show thesis using list by (auto simp: rbind_eq_Inr)
  next
    case TSet
    with assms b show thesis using set by (auto simp: rbind_eq_Inr)
  next
    case TValidity
    with assms b show thesis using validity by (auto simp: rbind_eq_Inr)
  next
    case TInterval
    with assms b show thesis using interval by (auto simp: rbind_eq_Inr)
  next
    case TGeometry
    with assms b show thesis using geometry by (auto split: if_splits)
  qed
qed

lemma decode_levels_canonical:
  "canonical_decoder (decode_levels n) encode_ref (\<lambda>v. dv_wf v \<and> dv_depth v < n)"
proof (induction n)
  case (Suc m)
  have "(dv_wf v \<and> dv_depth v < Suc m) \<and> k = length (encode_ref v) \<and> (\<exists>rest. bs = encode_ref v @ rest)"
    if "decode_levels (Suc m) bs = Inr (v, k)" for bs v k
    using that
  proof (cases rule: decode_levels_Inr)
    case (num rest x u)
    then show ?thesis using num_code.dec_canonical[of rest x u] by auto
  next
    case (str rest s u)
    then show ?thesis using decode_terminated_canonical[of rest s u] by auto
  next
    case (byt rest s u)
    then show ?thesis using decode_terminated_canonical[of rest s u] by auto
  next
    case (uuid rest)
    then show ?thesis by (auto intro: exI[of _ "drop 16 rest"])
  next
    case (regex rest r u)
    then show ?thesis using decode_regex_canonical[of rest r u] by auto
  next
    case (json rest j u)
    show ?thesis
      using json by (auto elim!: canonical_decoderD[OF decode_json_body_canonical])
  next
    case (vector rest w u)
    then show ?thesis using decode_vector_canonical[of rest w u] by auto
  next
    case (list rest items u)
    then show ?thesis
      using decode_seq_loop_canonical[OF Suc list(2)] by (auto simp: foldr_max_less)
  next
    case (set rest items u)
    note c = decode_set_loop_canonical[OF Suc set(2)]
    then have wf: "\<forall>v \<in> set items. dv_wf v" by blast
    with c have s: "sorted_wrt (\<lambda>a b. dv_cmp a b = Less) items" using dv_sorted_enc by blast
    with wf have "btree_collect items = items" by (rule btree_collect_sorted)
    with c s set show ?thesis by (auto simp: foldr_max_less)
  next
    case (validity rest s u)
    then show ?thesis using decode_validity_canonical[of rest s u] by auto
  next
    case (interval rest i u)
    then show ?thesis using decode_interval_canonical[of rest i u] by auto
  next
    case (geometry rest)
    have "curve_key_bytes (from_curve_key (from_be_bytes (take 8 rest))) = take 8 rest"
      using geometry(2) by (simp add: curve_key_bytes_def curve_index_from_key to_from_be_bytes)
    with geometry show ?thesis by (auto intro: exI[of _ "drop 8 rest"])
  qed auto
  then show ?case unfolding canonical_decoder_def by (auto simp del: decode_levels.simps)
qed (simp add: canonical_decoder_def)

section \<open>The laws of the source's functions\<close>

lemma encode_owned_law:
  "dv_wf a \<Longrightarrow> dv_wf b
    \<Longrightarrow> ocmp (encode_owned a @ x) (encode_owned b @ y) = ord_then (dv_cmp a b) (ocmp x y)"
  by (simp add: encode_owned_ref encode_ref_law)

lemma decode_at_encode:
  assumes "dv_wf v"
  shows "decode_at (encode_owned v @ rest) depth
       = (if depth + dv_depth v \<le> MAX_DEPTH then Inr (v, length (encode_owned v)) else Inl TooDeep)"
proof -
  have "dv_depth v < Suc MAX_DEPTH - depth \<longleftrightarrow> depth + dv_depth v \<le> MAX_DEPTH" by arith
  with decode_levels_ref[OF assms, of "Suc MAX_DEPTH - depth"] show ?thesis
    by (simp add: decode_at_def decodes_front_def encode_owned_ref[OF assms])
qed

lemma decode_at_canonical:
  assumes "decode_at bs depth = Inr (v, n)"
  shows "dv_wf v \<and> depth + dv_depth v \<le> MAX_DEPTH \<and> n = length (encode_owned v)
    \<and> (\<exists>rest. bs = encode_owned v @ rest)"
proof -
  obtain rest where c: "dv_wf v \<and> dv_depth v < Suc MAX_DEPTH - depth" "n = length (encode_ref v)"
    "bs = encode_ref v @ rest"
    using canonical_decoderD[OF decode_levels_canonical assms[unfolded decode_at_def]] by metis
  then have "depth + dv_depth v \<le> MAX_DEPTH" by arith
  with c show ?thesis by (auto simp: encode_owned_ref)
qed

text \<open>The values the decoder can return: well-formed and at most \<open>MAX_DEPTH\<close> deep.\<close>

definition dv_storable :: "data_value \<Rightarrow> bool" where
  "dv_storable v \<longleftrightarrow> dv_wf v \<and> dv_depth v \<le> MAX_DEPTH"

interpretation value_code: codec dv_storable encode_owned dv_cmp decode_one
  by unfold_locales
    (auto simp: dv_storable_def decode_one_def encode_owned_law decode_at_encode dest: decode_at_canonical)

lemma dv_cmp_eq:
  assumes "dv_wf a" "dv_wf b"
  shows "dv_cmp a b = Equal \<longleftrightarrow> a = b"
proof
  define m where "m = Suc (max (dv_depth a) (dv_depth b))"
  assume "dv_cmp a b = Equal"
  then have "encode_ref a = encode_ref b" using dv_cmp_bytes[OF assms] by simp
  moreover have "decode_levels m (encode_ref v @ []) = Inr (v, length (encode_ref v))"
    if "dv_wf v" "dv_depth v < m" for v
    using decode_levels_ref[OF that(1), of m] that(2) unfolding decodes_front_def by presburger
  moreover have "dv_depth a < m" "dv_depth b < m" by (simp_all add: m_def)
  ultimately show "a = b" using assms by (metis Inr_inject prod.inject)
qed (simp add: dv_cmp_bytes assms)

interpretation value_order: order_code dv_wf encode_owned dv_cmp
  by unfold_locales (simp_all add: encode_owned_law dv_cmp_eq)

lemma decode_Inr:
  "decode bs = Inr v \<longleftrightarrow> dv_storable v \<and> bs = encode_owned v"
proof
  assume "decode bs = Inr v"
  then obtain n where "decode_one bs = Inr (v, n)" "n = length bs"
    by (auto simp: decode_def decode_one_def rbind_eq_Inr split: if_splits)
  then show "dv_storable v \<and> bs = encode_owned v" using value_code.dec_canonical by fastforce
next
  assume "dv_storable v \<and> bs = encode_owned v"
  then show "decode bs = Inr v"
    using value_code.dec_enc[of v "[]"] by (simp add: decode_def decode_one_def)
qed

section \<open>Borrowed values\<close>

text \<open>The owned value a \<open>Datum\<close> denotes.\<close>

fun datum_value :: "datum \<Rightarrow> data_value" where
  "datum_value MNull = DNull"
| "datum_value (MBool b) = DBool b"
| "datum_value (MNum n) = DNum n"
| "datum_value (MStr s) = DStr s"
| "datum_value (MBytes b) = DBytes b"
| "datum_value (MUuid u) = DUuid u"
| "datum_value (MList items) = DList (map datum_value items)"
| "datum_value (MSet items) = DSet (btree_collect (map datum_value items))"
| "datum_value (MRegex r) = DRegex r"
| "datum_value (MJson j) = DJson j"
| "datum_value (MVector v) = DVector v"
| "datum_value (MValidity v) = DValidity (VValue v)"
| "datum_value (MInterval iv) = DInterval iv"
| "datum_value (MGeometry g) = DGeometry g"

fun datum_wf :: "datum \<Rightarrow> bool" where
  "datum_wf (MNum n) = num_wf n"
| "datum_wf (MStr s) = utf8_valid s"
| "datum_wf (MUuid u) \<longleftrightarrow> length u = 16"
| "datum_wf (MList items) \<longleftrightarrow> (\<forall>d \<in> set items. datum_wf d)"
| "datum_wf (MSet items) \<longleftrightarrow> (\<forall>d \<in> set items. datum_wf d)"
| "datum_wf (MRegex r) = regex_wf r"
| "datum_wf (MJson j) = json_wf j"
| "datum_wf (MVector v) = vec_wf v"
| "datum_wf (MValidity v) = slot_wf (VValue v)"
| "datum_wf (MInterval iv) = interval_wf iv"
| "datum_wf _ = True"

lemma set_btree_insert: "dv_wf v \<Longrightarrow> \<forall>x \<in> set s. dv_wf x \<Longrightarrow> set (btree_insert v s) = insert v (set s)"
  by (induction s) (auto simp: dv_cmp_eq split: ordering.splits)

lemma btree_insert_sorted:
  assumes "dv_wf v" "\<forall>x \<in> set s. dv_wf x" "sorted_wrt (\<lambda>a b. dv_cmp a b = Less) s"
  shows "sorted_wrt (\<lambda>a b. dv_cmp a b = Less) (btree_insert v s)"
  using assms
proof (induction s)
  case (Cons x s)
  show ?case
  proof (cases "dv_cmp v x")
    case Less
    with Cons.prems value_order.cmp_trans[of v x] show ?thesis by auto
  next
    case Greater
    then have "dv_cmp x v = Less" using dv_cmp_reverse[of v x] Cons.prems by simp
    with Greater Cons show ?thesis by (auto simp: set_btree_insert)
  qed (use Cons in simp)
qed simp

lemma btree_collect_facts:
  assumes "\<forall>v \<in> set vs. dv_wf v"
  shows "set (btree_collect vs) = set vs \<and> sorted_wrt (\<lambda>a b. dv_cmp a b = Less) (btree_collect vs)"
proof -
  have "set (foldl (\<lambda>s v. btree_insert v s) s vs) = set s \<union> set vs
      \<and> sorted_wrt (\<lambda>a b. dv_cmp a b = Less) (foldl (\<lambda>s v. btree_insert v s) s vs)"
    if "\<forall>v \<in> set s. dv_wf v" "sorted_wrt (\<lambda>a b. dv_cmp a b = Less) s" for s
    using assms that
    by (induction vs arbitrary: s) (auto simp: set_btree_insert btree_insert_sorted)
  from this[of "[]"] show ?thesis by (simp add: btree_collect_def)
qed

lemma distinct_remdups_adj: "sorted xs \<Longrightarrow> distinct (remdups_adj xs)" for xs :: "'a::linorder list"
  by (induction xs rule: remdups_adj.induct) auto

lemma remdups_adj_sort: "remdups_adj (sort xs) = sorted_list_of_set (set xs)" for xs :: "bytes list"
  by (rule sorted_distinct_set_unique) (simp_all add: sorted_remdups_adj distinct_remdups_adj)

lemma datum_value_wf: "datum_wf d \<Longrightarrow> dv_wf (datum_value d)"
proof (induction d rule: datum_value.induct)
  case (8 items)
  then have "\<forall>v \<in> set (map datum_value items). dv_wf v" by simp
  from btree_collect_facts[OF this] 8 show ?case by auto
qed simp_all

lemma encode_datum_owned: "datum_wf d \<Longrightarrow> encode_datum d = encode_owned (datum_value d)"
proof (induction d rule: datum_value.induct)
  case (8 items)
  then have m: "map encode_datum items = map encode_owned (map datum_value items)" by simp
  have "\<forall>v \<in> set (map datum_value items). dv_wf v" using 8(2) datum_value_wf by simp
  from btree_collect_facts[OF this]
  have "set (map encode_owned (map datum_value items)) = set (map encode_owned (btree_collect (map datum_value items)))"
    by auto
  then show ?case
    by (simp only: encode_datum.simps datum_value.simps encode_owned.simps remdups_adj_sort m)
qed (simp_all cong: map_cong)

end
