(* ===== verification/Canonical_Skip.thy ===== *)
theory Canonical_Skip
  imports Canonical_Laws
begin

text \<open>
  The skipping walk \<open>skip_one\<close> / \<open>skip_at\<close> of \<open>crates/kyzo-model/src/value/canonical.rs\<close>: the length
  of the first encoding without building the value. It checks less than the decoder (no UTF-8, no
  set or interval order, no hash), and wherever the decoder accepts it reports the same length.
\<close>

section \<open>The walk\<close>

definition skip_need :: "bytes \<Rightarrow> nat \<Rightarrow> decode_error + nat" where
  "skip_need body n = (if length body < n then Inl Truncated else Inr (1 + n))"

definition skip_interval_end :: "bytes \<Rightarrow> decode_error + nat" where
  "skip_interval_end bs =
     (case bs of
        [] \<Rightarrow> Inl IntervalNotCanonical
      | b # rest \<Rightarrow>
          if b = 0x01 then Inr 1
          else if b = 0x02 then if length rest < 8 then Inl Truncated else Inr 9
          else Inl IntervalNotCanonical)"

definition skip_interval :: "bytes \<Rightarrow> decode_error + nat" where
  "skip_interval body =
     (case body of
        [] \<Rightarrow> Inl Truncated
      | b # rest \<Rightarrow>
          if b = 0x01 then Inr 2
          else if b = 0x02 then
            rbind (skip_interval_end rest) (\<lambda>l.
              rbind (skip_interval_end (drop l rest)) (\<lambda>h. Inr (1 + (1 + l + h))))
          else Inl IntervalNotCanonical)"

primrec skip_components :: "nat \<Rightarrow> bytes \<Rightarrow> decode_error + nat" where
  "skip_components 0 bs = Inr 0"
| "skip_components (Suc count) bs =
     rbind (map_err NumError (decode_key bs)) (\<lambda>(_, used).
       rbind (skip_components count (drop used bs)) (\<lambda>more. Inr (used + more)))"

primrec skip_levels :: "nat \<Rightarrow> bytes \<Rightarrow> decode_error + nat" where
  "skip_levels 0 bs = Inl TooDeep"
| "skip_levels (Suc levels) bs =
     (case bs of
        [] \<Rightarrow> Inl Truncated
      | b # body \<Rightarrow>
          (case tag_from_byte b of
             None \<Rightarrow> Inl (BadTag b)
           | Some TNull \<Rightarrow> Inr 1
           | Some TBool \<Rightarrow> skip_need body 1
           | Some TNum \<Rightarrow>
               rbind (map_err NumError (decode_key body)) (\<lambda>(_, used). Inr (1 + used))
           | Some TStr \<Rightarrow> rbind (skip_terminated body) (\<lambda>used. Inr (1 + used))
           | Some TBytes \<Rightarrow> rbind (skip_terminated body) (\<lambda>used. Inr (1 + used))
           | Some TUuid \<Rightarrow> skip_need body 16
           | Some TRegex \<Rightarrow>
               (case body of
                  [] \<Rightarrow> Inl Truncated
                | flag_byte # rest \<Rightarrow>
                    if regex_flags_from_bits flag_byte = None then Inl BadRegexFlags
                    else rbind (skip_terminated rest) (\<lambda>used. Inr (2 + used)))
           | Some TJson \<Rightarrow>
               rbind (skip_json (Suc MAX_DEPTH) body) (\<lambda>jused.
                 if length body < jused + 8 then Inl Truncated else Inr (1 + jused + 8))
           | Some TVector \<Rightarrow>
               if length body < 4 then Inl Truncated
               else rbind (skip_components (unat (from_be_bytes (take 4 body) :: u32)) (drop 4 body))
                 (\<lambda>used. Inr (1 + (4 + used)))
           | Some TList \<Rightarrow> rbind (skip_seq_loop (skip_levels levels) body) (\<lambda>used. Inr (1 + used))
           | Some TSet \<Rightarrow> rbind (skip_seq_loop (skip_levels levels) body) (\<lambda>used. Inr (1 + used))
           | Some TValidity \<Rightarrow> skip_need body 9
           | Some TInterval \<Rightarrow> skip_interval body
           | Some TGeometry \<Rightarrow> skip_need body 8))"

definition skip_at :: "bytes \<Rightarrow> nat \<Rightarrow> decode_error + nat" where
  "skip_at bs depth = skip_levels (Suc MAX_DEPTH - depth) bs"

definition skip_one :: "bytes \<Rightarrow> decode_error + nat" where
  "skip_one bs = skip_at bs 0"

section \<open>Agreement with the decoder\<close>

lemma skip_interval_end_decode:
  "decode_interval_end bs = Inr (e, n) \<Longrightarrow> skip_interval_end bs = Inr n"
  by (cases bs) (auto simp: skip_interval_end_def split: if_splits)

lemma skip_interval_decode:
  assumes "decode_interval bs = Inr (iv, n)"
  shows "skip_interval bs = Inr (1 + n)"
  using assms
  by (cases bs)
    (auto simp: decode_interval_def skip_interval_def rbind_eq_Inr Let_def split: if_splits
      dest!: skip_interval_end_decode)

lemma skip_components_decode: "decode_components k bs = Inr (cs, n) \<Longrightarrow> skip_components k bs = Inr n"
  by (induction k arbitrary: bs cs n) (auto simp: rbind_eq_Inr split: option.splits)

lemma decode_json_consumed:
  "decode_json levels bs = Inr (j, u) \<Longrightarrow> u \<le> length bs"
  by (erule canonical_decoderD[OF decode_json_canonical]) simp

lemma skip_levels_decode: "n \<le> Suc MAX_DEPTH \<Longrightarrow> skips (decode_levels n) (skip_levels n)"
proof (induction n)
  case (Suc m)
  then have IH: "skips (decode_levels m) (skip_levels m)" by simp
  show ?case
    unfolding skips_def
  proof (intro allI impI)
    fix bs v k assume "decode_levels (Suc m) bs = Inr (v, k)"
    then show "skip_levels (Suc m) bs = Inr k"
    proof (cases rule: decode_levels_Inr)
      case (str rest s u)
      then have "skip_terminated rest = Inr u" by (auto simp: skip_terminated_iff)
      with str show ?thesis by simp
    next
      case (byt rest s u)
      then have "skip_terminated rest = Inr u" by (auto simp: skip_terminated_iff)
      with byt show ?thesis by simp
    next
      case (regex rest r u)
      then obtain b rest' c u' where "rest = b # rest'" "regex_flags_from_bits b \<noteq> None"
        "decode_terminated rest' = Inr (c, u')" "u = 1 + u'"
        by (auto simp: decode_regex_def rbind_eq_Inr split: list.splits option.splits if_splits)
      moreover from this have "skip_terminated rest' = Inr u'" by (auto simp: skip_terminated_iff)
      ultimately show ?thesis using regex by simp
    next
      case (json rest j u)
      then obtain w where d: "decode_json (Suc m) rest = Inr (j, w)" and "8 \<le> length (drop w rest)" "u = w + 8"
        by (auto simp: decode_json_body_def rbind_eq_Inr not_less simp del: decode_json.simps split: if_splits)
      moreover have "skip_json (Suc MAX_DEPTH) rest = Inr w"
        using skip_json_decode[OF Suc.prems] d unfolding skips_def by blast
      ultimately show ?thesis
        using json decode_json_consumed[OF d] by (auto simp del: skip_json.simps)
    next
      case (vector rest w u)
      then obtain cs used where "4 \<le> length rest" "u = 4 + used"
        "decode_components (unat (from_be_bytes (take 4 rest) :: u32)) (drop 4 rest) = Inr (cs, used)"
        by (auto simp: decode_vector_def Let_def rbind_eq_Inr not_less split: if_splits option.splits)
      with vector show ?thesis by (simp add: skip_components_decode)
    next
      case (list rest items u)
      with IH show ?thesis by (simp add: skip_seq_loop_decode)
    next
      case (set rest items u)
      with IH show ?thesis using skip_seq_loop_decode[OF IH decode_set_loop_seq[OF set(2)]] by simp
    next
      case (validity rest s u)
      then have "9 \<le> length rest \<and> u = 9"
        by (auto simp: decode_validity_def Let_def split: if_splits list.splits dest!: arg_cong[of _ _ length])
      with validity show ?thesis by (simp add: skip_need_def)
    next
      case (interval rest i u)
      then show ?thesis by (simp add: skip_interval_decode)
    qed (simp_all add: skip_need_def)
  qed
qed (simp add: skips_def)

lemma skip_one_decode: "decode_one bs = Inr (v, n) \<Longrightarrow> skip_one bs = Inr n"
  using skip_levels_decode[of "Suc MAX_DEPTH"]
  by (simp add: skips_def decode_one_def decode_at_def skip_one_def skip_at_def del: decode_levels.simps skip_levels.simps)

end
