(* ===== verification/Row_Key.thy ===== *)
theory Row_Key
  imports Canonical_Skip
begin

text \<open>
  Written tuples: the tuple helpers of \<open>crates/kyzo-model/src/value/mod.rs\<close> (bare rows, stored keys, the
  scan-bound vocabulary) and the storage keys of \<open>crates/kyzo-model/src/value/row.rs\<close> (\<open>RelationId\<close>,
  \<open>TupleKey\<close>, \<open>StorageKey\<close>, the scan keys). A row is written as its values' encodings one after
  another, so every law here is the value code's law carried along a list; the scan keys are shown
  to bracket exactly the rows their bounds describe.
\<close>

section \<open>Bare rows\<close>

type_synonym tuple = "data_value list"

definition encode_tuple_bare :: "tuple \<Rightarrow> bytes" where
  "encode_tuple_bare vals = concat (map encode_owned vals)"

lemma decode_one_progress: "decode_one bs = Inr (v, n) \<Longrightarrow> 1 \<le> n \<and> n \<le> length bs"
  using value_code.dec_take[of bs v n] value_code.dec_canonical[of bs v n]
  by (cases v) (auto simp: Suc_le_eq)

function decode_values_all :: "bytes \<Rightarrow> decode_error + tuple" where
  "decode_values_all bs =
     (if bs = [] then Inr []
      else
        rbind (decode_one bs) (\<lambda>(v, used).
          rbind (decode_values_all (drop used bs)) (\<lambda>vs. Inr (v # vs))))"
  by pat_completeness auto

termination decode_values_all
  by (relation "measure length") (auto dest: decode_one_progress)

declare decode_values_all.simps [simp del]

definition decode_tuple_bare :: "bytes \<Rightarrow> decode_error + tuple" where
  "decode_tuple_bare bs = decode_values_all bs"

primrec bare_prefix_loop :: "nat \<Rightarrow> nat \<Rightarrow> bytes \<Rightarrow> nat option" where
  "bare_prefix_loop 0 pos bs = Some pos"
| "bare_prefix_loop (Suc n_cols) pos bs =
     (if length bs \<le> pos then None
      else
        (case skip_one (drop pos bs) of
           Inl _ \<Rightarrow> None
         | Inr used \<Rightarrow> bare_prefix_loop n_cols (pos + used) bs))"

definition bare_prefix_len :: "bytes \<Rightarrow> nat \<Rightarrow> nat option" where
  "bare_prefix_len bs n_cols = bare_prefix_loop n_cols 0 bs"

datatype scan_bound = Least | BoundValue data_value | Greatest

fun scan_bound_cmp :: "scan_bound \<Rightarrow> scan_bound \<Rightarrow> ordering" where
  "scan_bound_cmp Least Least = Equal"
| "scan_bound_cmp Least _ = Less"
| "scan_bound_cmp _ Least = Greater"
| "scan_bound_cmp Greatest Greatest = Equal"
| "scan_bound_cmp Greatest _ = Greater"
| "scan_bound_cmp _ Greatest = Less"
| "scan_bound_cmp (BoundValue a) (BoundValue b) = dv_cmp a b"

fun bare_bounds_lower :: "scan_bound list \<Rightarrow> bytes" where
  "bare_bounds_lower [] = []"
| "bare_bounds_lower (BoundValue v # bounds) = encode_owned v @ bare_bounds_lower bounds"
| "bare_bounds_lower (Least # _) = []"
| "bare_bounds_lower (Greatest # _) = [0xFF]"

definition bare_bounds_upper :: "scan_bound list \<Rightarrow> bytes" where
  "bare_bounds_upper bounds = bare_bounds_lower bounds"

definition extend_tuple_from_v :: "tuple \<Rightarrow> bytes \<Rightarrow> decode_error + tuple" where
  "extend_tuple_from_v tup val = rbind (decode_values_all val) (\<lambda>vs. Inr (tup @ vs))"

section \<open>Relations and storage keys\<close>

definition RELATION_PREFIX_LEN :: nat where "RELATION_PREFIX_LEN = 8"
definition VALIDITY_TAIL_LEN :: nat where "VALIDITY_TAIL_LEN = 10"
definition BITEMPORAL_TAIL_LEN :: nat where "BITEMPORAL_TAIL_LEN = 2 * VALIDITY_TAIL_LEN"

type_synonym relation_id = u64

definition RELATION_CAP :: u64 where "RELATION_CAP = push_bit 48 1"

definition relation_new :: "u64 \<Rightarrow> relation_id option" where
  "relation_new raw = (if raw \<ge> RELATION_CAP then None else Some raw)"

definition raw_encode :: "relation_id \<Rightarrow> bytes" where
  "raw_encode rel = to_be_bytes rel"

definition raw_decode :: "bytes \<Rightarrow> decode_error + relation_id" where
  "raw_decode bs =
     (if length bs < 8 then Inl Truncated
      else
        let rel = from_be_bytes (take 8 bs) in
        if rel \<ge> RELATION_CAP then Inl RelationIdOverCap else Inr rel)"

definition relation_next :: "relation_id \<Rightarrow> relation_id option" where
  "relation_next rel = (if rel = - 1 then None else relation_new (rel + 1))"

definition encode_key_with_suffix :: "relation_id \<Rightarrow> tuple \<Rightarrow> tuple \<Rightarrow> bytes" where
  "encode_key_with_suffix rel cols suffix =
     raw_encode rel @ concat (map encode_owned cols) @ concat (map encode_owned suffix)"

definition encode_as_key :: "relation_id \<Rightarrow> tuple \<Rightarrow> bytes" where
  "encode_as_key rel row = encode_key_with_suffix rel row []"

definition decode_tuple_from_key :: "bytes \<Rightarrow> decode_error + tuple" where
  "decode_tuple_from_key key =
     (if length key < RELATION_PREFIX_LEN then Inl Truncated
      else decode_values_all (drop RELATION_PREFIX_LEN key))"

definition decode_key_into :: "bytes \<Rightarrow> tuple \<Rightarrow> decode_error + tuple" where
  "decode_key_into key out =
     (if length key < RELATION_PREFIX_LEN then Inl Truncated
      else rbind (decode_values_all (drop RELATION_PREFIX_LEN key)) (\<lambda>vs. Inr (out @ vs)))"

definition decode_tuple_from_kv :: "bytes \<Rightarrow> bytes \<Rightarrow> decode_error + tuple" where
  "decode_tuple_from_kv key val =
     rbind (decode_tuple_from_key key) (\<lambda>out. extend_tuple_from_v out val)"

primrec split_key_loop :: "nat \<Rightarrow> nat \<Rightarrow> bytes \<Rightarrow> decode_error + (nat \<times> nat) list" where
  "split_key_loop 0 pos bs = (if pos \<noteq> length bs then Inl TrailingBytes else Inr [])"
| "split_key_loop (Suc arity) pos bs =
     rbind (decode_one (drop pos bs)) (\<lambda>(_, used).
       rbind (split_key_loop arity (pos + used) bs) (\<lambda>splits. Inr ((pos, pos + used) # splits)))"

definition split_key :: "bytes \<Rightarrow> nat \<Rightarrow> decode_error + (nat \<times> nat) list" where
  "split_key bs arity = split_key_loop arity 0 bs"

definition tuple_key_from_values :: "tuple \<Rightarrow> bytes" where
  "tuple_key_from_values vals = concat (map encode_owned vals)"

definition tuple_key_from_stored :: "bytes \<Rightarrow> nat \<Rightarrow> decode_error + bytes" where
  "tuple_key_from_stored bs arity = rbind (split_key bs arity) (\<lambda>_. Inr bs)"

fun append_bounds :: "scan_bound list \<Rightarrow> bool \<Rightarrow> bytes" where
  "append_bounds [] upper = (if upper then [0xFF] else [])"
| "append_bounds (BoundValue v # bounds) upper = encode_owned v @ append_bounds bounds upper"
| "append_bounds (Least # _) upper = []"
| "append_bounds (Greatest # _) upper = [0xFF]"

definition scan_key_lower :: "relation_id \<Rightarrow> tuple \<Rightarrow> scan_bound list \<Rightarrow> bytes" where
  "scan_key_lower rel pre bounds =
     raw_encode rel @ concat (map encode_owned pre) @ append_bounds bounds False"

definition scan_key_upper :: "relation_id \<Rightarrow> tuple \<Rightarrow> scan_bound list \<Rightarrow> bytes" where
  "scan_key_upper rel pre bounds =
     raw_encode rel @ concat (map encode_owned pre) @ append_bounds bounds True"

text \<open>The projected scan keys index the row by column; an index past its end panics, here \<open>None\<close>.\<close>

definition project_row :: "tuple \<Rightarrow> nat list \<Rightarrow> tuple option" where
  "project_row row cols =
     (if \<forall>c \<in> set cols. c < length row then Some (map (\<lambda>c. row ! c) cols) else None)"

definition scan_key_lower_projected ::
  "relation_id \<Rightarrow> tuple \<Rightarrow> nat list \<Rightarrow> scan_bound list \<Rightarrow> bytes option" where
  "scan_key_lower_projected rel row cols bounds =
     map_option (\<lambda>pre. raw_encode rel @ concat (map encode_owned pre) @ append_bounds bounds False)
       (project_row row cols)"

definition scan_key_upper_projected ::
  "relation_id \<Rightarrow> tuple \<Rightarrow> nat list \<Rightarrow> scan_bound list \<Rightarrow> bytes option" where
  "scan_key_upper_projected rel row cols bounds =
     map_option (\<lambda>pre. raw_encode rel @ concat (map encode_owned pre) @ append_bounds bounds True)
       (project_row row cols)"

section \<open>Rows and their encodings\<close>

definition row_wf :: "tuple \<Rightarrow> bool" where
  "row_wf row \<longleftrightarrow> (\<forall>v \<in> set row. dv_wf v)"

definition row_storable :: "tuple \<Rightarrow> bool" where
  "row_storable row \<longleftrightarrow> (\<forall>v \<in> set row. dv_storable v)"

lemma row_wf_Cons [simp]: "row_wf [] \<longleftrightarrow> True" "row_wf (v # vs) \<longleftrightarrow> dv_wf v \<and> row_wf vs"
  by (simp_all add: row_wf_def)

lemma row_wf_append [simp]: "row_wf (us @ vs) \<longleftrightarrow> row_wf us \<and> row_wf vs"
  by (auto simp: row_wf_def)

lemma row_storable_Cons [simp]:
  "row_storable [] \<longleftrightarrow> True" "row_storable (v # vs) \<longleftrightarrow> dv_storable v \<and> row_storable vs"
  by (simp_all add: row_storable_def)

lemma row_storable_append [simp]: "row_storable (us @ vs) \<longleftrightarrow> row_storable us \<and> row_storable vs"
  by (auto simp: row_storable_def)

lemma encode_tuple_bare_simps [simp]:
  "encode_tuple_bare [] = []"
  "encode_tuple_bare (v # vs) = encode_owned v @ encode_tuple_bare vs"
  "encode_tuple_bare (us @ vs) = encode_tuple_bare us @ encode_tuple_bare vs"
  by (simp_all add: encode_tuple_bare_def)

lemma encode_owned_Cons: "\<exists>bs. encode_owned v = tag_byte (dv_tag v) # bs"
  by (cases v) simp_all

lemma encode_owned_nonempty [simp]: "encode_owned v \<noteq> []"
  using encode_owned_Cons[of v] by auto

text \<open>Rows of one width satisfy the code law; rows of any width compare lexicographically.\<close>

lemma encode_tuple_law:
  "row_wf as \<Longrightarrow> row_wf bs \<Longrightarrow> length as = length bs
    \<Longrightarrow> ocmp (encode_tuple_bare as @ x) (encode_tuple_bare bs @ y) = ord_then (list_cmp dv_cmp as bs) (ocmp x y)"
proof (induction dv_cmp as bs rule: list_cmp.induct)
  case (4 a as b bs)
  then show ?case by (simp add: encode_owned_law ord_then_assoc)
qed simp_all

lemma encode_tuple_order:
  "row_wf as \<Longrightarrow> row_wf bs \<Longrightarrow> ocmp (encode_tuple_bare as) (encode_tuple_bare bs) = list_cmp dv_cmp as bs"
proof (induction dv_cmp as bs rule: list_cmp.induct)
  case (2 b bs)
  then show ?case using encode_owned_Cons[of b] by auto
next
  case (3 a as)
  then show ?case using encode_owned_Cons[of a] by auto
next
  case (4 a as b bs)
  then show ?case by (simp add: encode_owned_law)
qed simp

lemma decode_values_all_Nil [simp]: "decode_values_all [] = Inr []"
  by (simp add: decode_values_all.simps)

lemma decode_values_all_encode: "row_storable row \<Longrightarrow> decode_values_all (encode_tuple_bare row) = Inr row"
proof (induction row)
  case (Cons v row)
  then show ?case
    using value_code.dec_enc[of v "encode_tuple_bare row"] 
    by (subst decode_values_all.simps) simp
qed simp

lemma decode_values_all_canonical:
  "decode_values_all bs = Inr row \<Longrightarrow> row_storable row \<and> bs = encode_tuple_bare row"
proof (induction bs arbitrary: row rule: decode_values_all.induct)
  case (1 bs)
  show ?case
  proof (cases "bs = []")
    case False
    with "1.prems" obtain v n vs where d: "decode_one bs = Inr (v, n)"
      and r: "decode_values_all (drop n bs) = Inr vs" "row = v # vs"
      by (auto simp: decode_values_all.simps[of bs] rbind_eq_Inr)
    from "1.IH"[OF False d refl r(1)] value_code.dec_canonical[OF d] r(2) show ?thesis by auto
  qed (use "1.prems" in auto)
qed

lemma decode_values_all_iff:
  "decode_values_all bs = Inr row \<longleftrightarrow> row_storable row \<and> bs = encode_tuple_bare row"
  using decode_values_all_canonical decode_values_all_encode by blast

section \<open>Validated splits and prefixes\<close>

lemma split_key_loop_encode:
  "row_storable row \<Longrightarrow> split_key_loop (length row) (length pre) (pre @ encode_tuple_bare row)
    = Inr (map (\<lambda>i. (length pre + length (encode_tuple_bare (take i row)),
                      length pre + length (encode_tuple_bare (take (Suc i) row)))) [0..<length row])"
proof (induction row arbitrary: pre)
  case (Cons v row)
  have d: "decode_one (encode_owned v @ encode_tuple_bare row) = Inr (v, length (encode_owned v))"
    using Cons.prems by (simp add: value_code.dec_enc)
  have "[0..<Suc (length row)] = 0 # map Suc [0..<length row]" by (simp only: map_Suc_upt upt_conv_Cons)
  with Cons.IH[of "pre @ encode_owned v"] Cons.prems d show ?case by (simp add: add.assoc del: upt_Suc)
qed simp

lemma split_key_loop_canonical:
  "split_key_loop arity pos bs = Inr splits \<Longrightarrow> pos \<le> length bs
    \<Longrightarrow> \<exists>row. row_storable row \<and> length row = arity \<and> drop pos bs = encode_tuple_bare row"
proof (induction arity arbitrary: pos splits)
  case (Suc arity)
  then obtain v n splits' where d: "decode_one (drop pos bs) = Inr (v, n)"
    and r: "split_key_loop arity (pos + n) bs = Inr splits'"
    by (auto simp: rbind_eq_Inr)
  have "pos + n \<le> length bs" using decode_one_progress[OF d] Suc.prems(2) by auto
  from Suc.IH[OF r this] obtain row where row: "row_storable row" "length row = arity"
    "drop (pos + n) bs = encode_tuple_bare row" by blast
  from value_code.dec_canonical[OF d] obtain rest where "dv_storable v" "n = length (encode_owned v)"
    "drop pos bs = encode_owned v @ rest" by blast
  moreover from this row(3) have "rest = encode_tuple_bare row"
    by (metis append_eq_conv_conj drop_drop add.commute)
  ultimately show ?case using row by (intro exI[of _ "v # row"]) simp
qed (auto split: if_splits intro: exI[of _ "[]"])

lemma tuple_key_from_stored_iff:
  "tuple_key_from_stored bs arity = Inr key
    \<longleftrightarrow> key = bs \<and> (\<exists>row. row_storable row \<and> length row = arity \<and> bs = encode_tuple_bare row)"
proof -
  have "(\<exists>s. split_key bs arity = Inr s) \<longleftrightarrow> (\<exists>row. row_storable row \<and> length row = arity \<and> bs = encode_tuple_bare row)"
    using split_key_loop_canonical[of arity 0 bs] split_key_loop_encode[of _ "[]"]
    by (auto simp: split_key_def)
  then show ?thesis by (auto simp: tuple_key_from_stored_def rbind_eq_Inr)
qed

lemma bare_prefix_loop_encode:
  "row_storable row \<Longrightarrow> bare_prefix_loop n (length pre) (pre @ encode_tuple_bare row)
    = (if n \<le> length row then Some (length pre + length (encode_tuple_bare (take n row))) else None)"
proof (induction row arbitrary: n pre)
  case Nil
  show ?case by (cases n) simp_all
next
  case (Cons v row)
  show ?case
  proof (cases n)
    case (Suc m)
    have "skip_one (encode_owned v @ encode_tuple_bare row) = Inr (length (encode_owned v))"
      using Cons.prems by (intro skip_one_decode[of _ v] value_code.dec_enc) simp
    with Cons.IH[of m "pre @ encode_owned v"] Cons.prems Suc show ?thesis by simp
  qed simp
qed

lemma bare_prefix_len_encode:
  "row_storable row \<Longrightarrow> bare_prefix_len (encode_tuple_bare row) n
    = (if n \<le> length row then Some (length (encode_tuple_bare (take n row))) else None)"
  using bare_prefix_loop_encode[of row n "[]"] by (simp add: bare_prefix_len_def)

section \<open>Scan bounds\<close>

fun bound_wf :: "scan_bound \<Rightarrow> bool" where
  "bound_wf (BoundValue v) = dv_wf v"
| "bound_wf _ = True"

text \<open>How a row stands to column-wise bounds: the comparison of its leading columns with them.\<close>

definition bounds_cmp :: "tuple \<Rightarrow> scan_bound list \<Rightarrow> ordering" where
  "bounds_cmp row bounds = list_cmp scan_bound_cmp (map BoundValue (take (length bounds) row)) bounds"

lemma bounds_cmp_simps [simp]:
  "bounds_cmp row [] = Equal"
  "bounds_cmp (v # row) (b # bounds) = ord_then (scan_bound_cmp (BoundValue v) b) (bounds_cmp row bounds)"
  by (simp_all add: bounds_cmp_def)

lemma tag_below_top:
  assumes "row \<noteq> []"
  shows "ocmp (encode_tuple_bare row @ x) (0xFF # y) = Less"
proof -
  obtain v row' where "row = v # row'" using assms by (cases row) auto
  moreover obtain bs where "encode_owned v = tag_byte (dv_tag v) # bs" using encode_owned_Cons by blast
  ultimately show ?thesis by (simp add: ord_then_eq_Less)
qed

lemma ocmp_Nil_right: "ocmp xs [] = (if xs = [] then Equal else Greater)" for xs :: bytes
  by (cases xs) simp_all

lemma append_bounds_lower:
  "row_wf row \<Longrightarrow> list_all bound_wf bounds \<Longrightarrow> length bounds \<le> length row
    \<Longrightarrow> ocmp (encode_tuple_bare row) (append_bounds bounds False)
      = (if bounds_cmp row bounds = Equal \<and> length bounds < length row then Greater else bounds_cmp row bounds)"
proof (induction bounds False arbitrary: row rule: append_bounds.induct)
  case (1 row)
  then show ?case by (cases row) (simp_all add: ocmp_Nil_right)
next
  case (2 v bounds row)
  then obtain u row' where "row = u # row'" by (cases row) auto
  with 2 show ?case by (simp add: encode_owned_law ord_then_eq_Equal ord_then_nonequal)
next
  case (3 bounds row)
  then obtain u row' where "row = u # row'" by (cases row) auto
  then show ?case by (simp add: ocmp_Nil_right)
next
  case (4 bounds row)
  then obtain u row' where "row = u # row'" by (cases row) auto
  then show ?case using tag_below_top[of row "[]" "[]"] by simp
qed

lemma append_bounds_upper:
  "row_wf row \<Longrightarrow> list_all bound_wf bounds \<Longrightarrow> length bounds \<le> length row
    \<Longrightarrow> ocmp (encode_tuple_bare row) (append_bounds bounds True)
      = (if bounds_cmp row bounds = Equal then Less else bounds_cmp row bounds)"
proof (induction bounds True arbitrary: row rule: append_bounds.induct)
  case (1 row)
  then show ?case using tag_below_top[of row "[]" "[]"] by (cases row) simp_all
next
  case (2 v bounds row)
  then obtain u row' where "row = u # row'" by (cases row) auto
  with 2 show ?case by (simp add: encode_owned_law ord_then_eq_Equal ord_then_nonequal)
next
  case (3 bounds row)
  then obtain u row' where "row = u # row'" by (cases row) auto
  then show ?case by (simp add: ocmp_Nil_right)
next
  case (4 bounds row)
  then obtain u row' where "row = u # row'" by (cases row) auto
  then show ?case using tag_below_top[of row "[]" "[]"] by simp
qed

lemma append_bounds_prefix:
  "append_bounds (map BoundValue pre @ bounds) upper = encode_tuple_bare pre @ append_bounds bounds upper"
  by (induction pre) simp_all

lemma bare_bounds_append: "bare_bounds_lower bounds = append_bounds bounds False"
  by (induction bounds rule: bare_bounds_lower.induct) simp_all

lemma list_all_bound_values [simp]: "list_all bound_wf (map BoundValue pre) \<longleftrightarrow> row_wf pre"
  by (simp add: list_all_iff row_wf_def)

lemma length_raw_encode [simp]: "length (raw_encode rel) = 8"
  by (simp add: raw_encode_def)

lemma ocmp_relation: "ocmp (raw_encode r @ x) (raw_encode s @ y) = ord_then (ocmp r s) (ocmp x y)"
  by (simp add: ocmp_append_eq_length) (simp add: raw_encode_def)

lemma scan_keys_eq:
  "scan_key_lower rel pre bounds = raw_encode rel @ append_bounds (map BoundValue pre @ bounds) False"
  "scan_key_upper rel pre bounds = raw_encode rel @ append_bounds (map BoundValue pre @ bounds) True"
  "encode_as_key rel row = raw_encode rel @ encode_tuple_bare row"
  "encode_key_with_suffix rel cols suffix = raw_encode rel @ encode_tuple_bare (cols @ suffix)"
  by (simp_all add: scan_key_lower_def scan_key_upper_def append_bounds_prefix encode_tuple_bare_def
      encode_as_key_def encode_key_with_suffix_def)

lemma le_ocmp: "a \<le> b \<longleftrightarrow> ocmp a b \<noteq> Greater" "b \<le> a \<longleftrightarrow> ocmp a b \<noteq> Less"
  for a b :: "'a::linorder"
  by (simp_all add: not_less)

lemma scan_lower_iff:
  assumes "row_wf row" "row_wf pre" "list_all bound_wf bounds" "length pre + length bounds \<le> length row"
  shows "scan_key_lower rel pre bounds \<le> encode_as_key rel row
    \<longleftrightarrow> bounds_cmp row (map BoundValue pre @ bounds) \<noteq> Less"
  using append_bounds_lower[of row "map BoundValue pre @ bounds"] assms
  by (subst le_ocmp(2)) (simp add: scan_keys_eq ocmp_relation)

lemma scan_upper_iff:
  assumes "row_wf row" "row_wf pre" "list_all bound_wf bounds" "length pre + length bounds \<le> length row"
  shows "encode_as_key rel row \<le> scan_key_upper rel pre bounds
    \<longleftrightarrow> bounds_cmp row (map BoundValue pre @ bounds) \<noteq> Greater"
  using append_bounds_upper[of row "map BoundValue pre @ bounds"] assms
  by (subst le_ocmp(1)) (simp add: scan_keys_eq ocmp_relation)

lemma scan_other_relation:
  assumes "rel \<noteq> rel'"
  shows "\<not> (scan_key_lower rel pre bounds \<le> encode_as_key rel' row
           \<and> encode_as_key rel' row \<le> scan_key_upper rel pre' bounds')"
proof -
  have "ocmp rel' rel \<noteq> Equal" using assms by simp
  then show ?thesis
    unfolding le_ocmp(2)[of "scan_key_lower rel pre bounds"] le_ocmp(1)[of "encode_as_key rel' row"]
    by (cases "ocmp rel' rel") (simp_all add: scan_keys_eq ocmp_relation ord_then_nonequal)
qed

lemma raw_decode_encode: "raw_decode (raw_encode rel @ rest) = (if rel < RELATION_CAP then Inr rel else Inl RelationIdOverCap)"
  by (simp add: raw_decode_def Let_def) (auto simp: raw_encode_def)

lemma decode_tuple_from_key_iff:
  "decode_tuple_from_key key = Inr row
    \<longleftrightarrow> row_storable row \<and> 8 \<le> length key \<and> drop 8 key = encode_tuple_bare row"
  by (auto simp: decode_tuple_from_key_def RELATION_PREFIX_LEN_def decode_values_all_iff)

lemma storable_wf: "row_storable row \<Longrightarrow> row_wf row"
  by (auto simp: row_storable_def row_wf_def dv_storable_def)

lemma encode_tuple_inject: "row_wf c \<Longrightarrow> row_wf c' \<Longrightarrow> encode_tuple_bare c = encode_tuple_bare c' \<longleftrightarrow> c = c'"
proof -
  assume wf: "row_wf c" "row_wf c'"
  have "encode_tuple_bare c = encode_tuple_bare c' \<longleftrightarrow> list_cmp dv_cmp c c' = Equal"
    using encode_tuple_order[OF wf] by (metis ocmp_simps(2))
  also have "\<dots> \<longleftrightarrow> c = c'" using wf by (intro list_cmp_eq dv_cmp_eq) (auto simp: row_wf_def)
  finally show ?thesis .
qed

end
