(* ===== verification/Num_Numeric.thy ===== *)
theory Num_Numeric
  imports Num_Key
begin

text \<open>
  The query-semantic numeric order \<open>NumericOrd\<close> of \<open>crates/kyzo-model/src/value/number.rs\<close>, in
  which \<open>1\<close> and \<open>1.0\<close> are equal, and the integer coercion \<open>to_int_coerced\<close>. Both rest on float
  operations of the standard library (\<open>fract\<close>, \<open>round\<close>, the comparisons, the saturating \<open>as i64\<close>
  cast), which are given here on the bit pattern. They are shown exact: no cast on either path
  ever rounds, and the order is that of the extended real line.
\<close>

unbundle bit_operations_syntax

section \<open>Float operations of the standard library\<close>

definition f64_ord :: "f64 \<Rightarrow> int" where
  "f64_ord v = (if bit v 63 then - int (unat (f64_abs v)) else int (unat (f64_abs v)))"

definition f64_lt :: "f64 \<Rightarrow> f64 \<Rightarrow> bool" where
  "f64_lt a b \<longleftrightarrow> \<not> f64_is_nan a \<and> \<not> f64_is_nan b \<and> f64_ord a < f64_ord b"

definition f64_le :: "f64 \<Rightarrow> f64 \<Rightarrow> bool" where
  "f64_le a b \<longleftrightarrow> \<not> f64_is_nan a \<and> \<not> f64_is_nan b \<and> f64_ord a \<le> f64_ord b"

text \<open>The integer part of a finite float, and whether nothing is left over.\<close>

definition f64_trunc :: "f64 \<Rightarrow> int" where
  "f64_trunc v =
     (let s = int (num_sig (NFloat v)); q = num_ulp (NFloat v);
          m = (if 0 \<le> q then s * 2 ^ nat q else s div 2 ^ nat (- q))
      in if bit v 63 then - m else m)"

definition f64_fract_zero :: "f64 \<Rightarrow> bool" where
  "f64_fract_zero v \<longleftrightarrow>
     0 \<le> num_ulp (NFloat v) \<or> 2 ^ nat (- num_ulp (NFloat v)) dvd num_sig (NFloat v)"

definition f64_round_is_self :: "f64 \<Rightarrow> bool" where
  "f64_round_is_self v \<longleftrightarrow> \<not> f64_is_nan v \<and> (f64_is_infinite v \<or> f64_fract_zero v)"

definition f64_as_i64 :: "f64 \<Rightarrow> i64" where
  "f64_as_i64 v =
     (if f64_is_nan v then 0
      else if f64_is_infinite v then (if bit v 63 then i64_min else i64_max)
      else word_of_int (max (- (2 ^ 63)) (min (2 ^ 63 - 1) (f64_trunc v))))"

definition F64_NEG_2_63 :: f64 where "F64_NEG_2_63 = 0xC3E0000000000000"
definition F64_2_63 :: f64 where "F64_2_63 = 0x43E0000000000000"

section \<open>Coercion and the numeric order\<close>

fun to_int_coerced :: "knum \<Rightarrow> i64 option" where
  "to_int_coerced (NInt v) = Some v"
| "to_int_coerced (NFloat f) =
     (if f64_round_is_self f \<and> f64_le F64_NEG_2_63 f \<and> f64_lt f F64_2_63
      then Some (f64_as_i64 f) else None)"

definition int_float_eq :: "i64 \<Rightarrow> f64 \<Rightarrow> bool" where
  "int_float_eq i f =
     (if \<not> f64_is_finite f \<or> \<not> f64_fract_zero f then False
      else if \<not> (f64_le F64_NEG_2_63 f \<and> f64_lt f F64_2_63) then False
      else f64_as_i64 f = i)"

definition numeric_same :: "knum \<Rightarrow> knum \<Rightarrow> bool" where
  "numeric_same a b \<longleftrightarrow>
     (case (as_int a, as_float b) of (Some i, Some f) \<Rightarrow> int_float_eq i f | _ \<Rightarrow> False) \<or>
     (case (as_float a, as_int b) of (Some f, Some i) \<Rightarrow> int_float_eq i f | _ \<Rightarrow> False)"

definition numeric_cmp :: "knum \<Rightarrow> knum \<Rightarrow> ordering" where
  "numeric_cmp a b =
     (case num_cmp a b of
        Equal \<Rightarrow> Equal
      | c \<Rightarrow> if repr_byte a \<noteq> repr_byte b then (if numeric_same a b then Equal else c) else c)"

section \<open>The float order is the real order\<close>

lemma num_real_float:
  "f64_is_finite v \<Longrightarrow> num_real (NFloat v)
     = (if bit v 63 then - 1 else 1) * (real (num_sig (NFloat v)) * 2 powi num_ulp (NFloat v))"
  by (simp add: num_real_def del: num_sig.simps num_ulp.simps)

lemma num_real_int: "num_real (NInt v) = real_of_int (sint v)"
  by (simp add: num_real_def abs_if del: of_int_sint)

lemma abs_num_real_float:
  "f64_is_finite v \<Longrightarrow> \<bar>num_real (NFloat v)\<bar> = real (num_sig (NFloat v)) * 2 powi num_ulp (NFloat v)"
  by (simp add: num_real_float abs_mult del: num_sig.simps num_ulp.simps)

lemma f64_mag_mono:
  assumes "unat (f64_abs a) < unat (f64_abs b)"
  shows "real (num_sig (NFloat a)) * 2 powi num_ulp (NFloat a)
       < real (num_sig (NFloat b)) * 2 powi num_ulp (NFloat b)"
proof -
  let ?sa = "num_sig (NFloat a)" and ?sb = "num_sig (NFloat b)"
  let ?qa = "num_ulp (NFloat a)" and ?qb = "num_ulp (NFloat b)"
  have lex: "f64_expo a < f64_expo b \<or> f64_expo a = f64_expo b \<and> f64_fraction a < f64_fraction b"
    using assms mult_add_lex(1)[OF f64_fraction_less[of a] f64_fraction_less[of b]]
    by (simp add: unat_f64_abs)
  show ?thesis
  proof (cases "?qa = ?qb")
    case True
    have "?sa < ?sb"
      using lex True f64_fraction_less[of a] by (auto simp: max_def split: if_splits)
    then show ?thesis
      unfolding True by (intro mult_strict_right_mono) simp_all
  next
    case False
    then have q: "?qa + 1 \<le> ?qb" using lex by auto
    have "?sa < 2 ^ 53" "2 ^ 52 \<le> ?sb"
      using f64_fraction_less[of a] lex False by (auto simp: max_def split: if_splits)
    then have "real ?sa < 2 ^ 53" "2 ^ 52 \<le> real ?sb"
      by (metis of_nat_less_iff of_nat_numeral of_nat_power,
          metis of_nat_le_iff of_nat_numeral of_nat_power)
    then have "real ?sa * 2 powi ?qa < 2 ^ 53 * 2 powi ?qa"
      by (intro mult_strict_right_mono) simp_all
    also have "\<dots> = 2 ^ 52 * 2 powi (?qa + 1)"
      by (simp add: power_int_add del: num_ulp.simps)
    also have "\<dots> \<le> real ?sb * 2 powi ?qb"
      using q \<open>2 ^ 52 \<le> real ?sb\<close> by (intro mult_mono power_int_increasing) simp_all
    finally show ?thesis .
  qed
qed

lemma f64_mag_eq:
  "unat (f64_abs a) = unat (f64_abs b)
    \<Longrightarrow> num_sig (NFloat a) = num_sig (NFloat b) \<and> num_ulp (NFloat a) = num_ulp (NFloat b)"
  by (simp add: f64_expo_def f64_fraction_def)

lemma signed_less_iff:
  fixes R S :: real
  assumes "0 \<le> R" "0 \<le> S" "R = 0 \<longleftrightarrow> U = 0" "S = 0 \<longleftrightarrow> V = 0"
    "R < S \<longleftrightarrow> U < V" "S < R \<longleftrightarrow> V < U"
  shows "(if p then - int U else int U) < (if q then - int V else int V)
     \<longleftrightarrow> (if p then - 1 else 1) * R < (if q then - 1 else 1) * S"
  using assms by (cases p; cases q) auto

lemma f64_ord_real:
  assumes "f64_is_finite a" "f64_is_finite b"
  shows "f64_ord a < f64_ord b \<longleftrightarrow> num_real (NFloat a) < num_real (NFloat b)"
proof -
  let ?R = "\<lambda>v. real (num_sig (NFloat v)) * 2 powi num_ulp (NFloat v)"
  let ?U = "\<lambda>v. unat (f64_abs v)"
  have pos: "0 \<le> ?R v" for v by simp
  have zero: "?R v = 0 \<longleftrightarrow> ?U v = 0" for v
    using num_sig_zero_iff(2)[of v] by (simp add: f64_eq_zero_def unat_eq_0 del: num_sig.simps num_ulp.simps)
  have lt: "?R v < ?R w \<longleftrightarrow> ?U v < ?U w" for v w
    using f64_mag_mono[of v w] f64_mag_mono[of w v] f64_mag_eq[of v w]
    by (metis less_asym less_irrefl linorder_neqE_nat)
  show ?thesis
    unfolding f64_ord_def num_real_float[OF assms(1)] num_real_float[OF assms(2)]
    by (rule signed_less_iff[OF pos pos zero zero lt lt])
qed

lemma f64_lt_real:
  "f64_is_finite a \<Longrightarrow> f64_is_finite b
    \<Longrightarrow> f64_lt a b \<longleftrightarrow> num_real (NFloat a) < num_real (NFloat b)"
  by (simp add: f64_lt_def f64_ord_real f64_finite_not)

lemma f64_le_real:
  "f64_is_finite a \<Longrightarrow> f64_is_finite b
    \<Longrightarrow> f64_le a b \<longleftrightarrow> num_real (NFloat a) \<le> num_real (NFloat b)"
  using f64_ord_real[of b a] by (auto simp: f64_le_def f64_finite_not)

lemma bit63_unat: "bit (v :: f64) 63 \<longleftrightarrow> 2 ^ 63 \<le> unat v"
proof -
  have "bit v 63 \<longleftrightarrow> odd (unat v div 2 ^ 63)"
    using bit_unsigned_iff[where 'a = nat, of v 63] by (simp add: bit_iff_odd[of "unat v"])
  moreover have "unat v < 2 * 2 ^ 63" using unat_lt2p[of v] by simp
  then have "unat v div 2 ^ 63 < 2" by (simp add: div_less_iff_less_mult)
  moreover have "unat v div 2 ^ 63 = 0 \<longleftrightarrow> unat v < 2 ^ 63" by (simp add: div_eq_0_iff)
  ultimately show ?thesis by (auto simp: less_2_cases_iff)
qed

lemma f64_bound_values:
  "f64_is_finite F64_2_63" "num_real (NFloat F64_2_63) = 2 ^ 63"
  "f64_is_finite F64_NEG_2_63" "num_real (NFloat F64_NEG_2_63) = - (2 ^ 63)"
proof -
  have abs: "unat (f64_abs F64_2_63) = 1086 * 2 ^ 52" "unat (f64_abs F64_NEG_2_63) = 1086 * 2 ^ 52"
    by (simp_all add: F64_2_63_def F64_NEG_2_63_def f64_abs_def unat_take_bit)
  then show fin: "f64_is_finite F64_2_63" "f64_is_finite F64_NEG_2_63"
    by (simp_all add: f64_is_finite_def word_less_nat_alt)
  have parts: "num_sig (NFloat F64_2_63) = 2 ^ 52" "num_ulp (NFloat F64_2_63) = 11"
    "num_sig (NFloat F64_NEG_2_63) = 2 ^ 52" "num_ulp (NFloat F64_NEG_2_63) = 11"
    by (simp_all add: f64_expo_def f64_fraction_def abs)
  have "bit F64_2_63 63 = False" "bit F64_NEG_2_63 63 = True"
    unfolding bit63_unat F64_2_63_def F64_NEG_2_63_def by simp_all
  note val = num_real_float[OF fin(1), unfolded parts this] num_real_float[OF fin(2), unfolded parts this]
  show "num_real (NFloat F64_2_63) = 2 ^ 63" "num_real (NFloat F64_NEG_2_63) = - (2 ^ 63)"
    unfolding val by (simp_all add: power_int_def)
qed

section \<open>Casts on the exact path do not round\<close>

lemma power_int_neg_div: "q < 0 \<Longrightarrow> (2::real) powi q = 1 / 2 ^ nat (- q)"
  by (simp add: power_int_def power_one_over)

lemma f64_trunc_exact:
  assumes "f64_is_finite v" "f64_fract_zero v"
  shows "num_real (NFloat v) = real_of_int (f64_trunc v)"
proof (cases "0 \<le> num_ulp (NFloat v)")
  case True
  then show ?thesis
    by (simp add: num_real_float[OF assms(1)] f64_trunc_def Let_def power_int_def
        del: num_sig.simps num_ulp.simps)
next
  case False
  with assms(2) obtain k where k: "num_sig (NFloat v) = 2 ^ nat (- num_ulp (NFloat v)) * k"
    unfolding f64_fract_zero_def dvd_def by blast
  from False show ?thesis
    unfolding num_real_float[OF assms(1)] f64_trunc_def Let_def k
    by (simp add: power_int_neg_div del: num_sig.simps num_ulp.simps)
qed

lemma f64_integral:
  assumes "f64_is_finite v" "num_real (NFloat v) = real_of_int i"
  shows "f64_fract_zero v"
proof (cases "0 \<le> num_ulp (NFloat v)")
  case False
  let ?s = "num_sig (NFloat v)" and ?p = "2 ^ nat (- num_ulp (NFloat v)) :: nat"
  have "real ?s * 2 powi num_ulp (NFloat v) = real_of_int \<bar>i\<bar>"
    using assms abs_num_real_float[OF assms(1)] by simp
  then have "real ?s = real_of_int \<bar>i\<bar> * 2 ^ nat (- num_ulp (NFloat v))"
    using False by (simp add: power_int_neg_div field_simps del: num_sig.simps num_ulp.simps)
  also have "\<dots> = real (nat \<bar>i\<bar> * ?p)" by simp
  finally have "?s = nat \<bar>i\<bar> * ?p" by (simp only: of_nat_eq_iff)
  then show ?thesis by (simp add: f64_fract_zero_def)
qed (simp add: f64_fract_zero_def)

lemma int_real_range:
  "- (2 ^ 63) \<le> real_of_int t \<longleftrightarrow> - (2 ^ 63) \<le> t" "real_of_int t < 2 ^ 63 \<longleftrightarrow> t < 2 ^ 63"
  using of_int_le_iff[where 'a = real, of "- (2 ^ 63)" t] by simp_all

lemma f64_as_i64_exact:
  assumes "f64_is_finite v" "f64_fract_zero v"
    and "- (2 ^ 63) \<le> num_real (NFloat v)" "num_real (NFloat v) < 2 ^ 63"
  shows "real_of_int (sint (f64_as_i64 v)) = num_real (NFloat v)"
proof -
  note t = f64_trunc_exact[OF assms(1,2)]
  have "- (2 ^ 63) \<le> f64_trunc v" "f64_trunc v < 2 ^ 63"
    using assms(3,4) unfolding t int_real_range by simp_all
  then have "f64_as_i64 v = word_of_int (f64_trunc v)" "sint (word_of_int (f64_trunc v) :: i64) = f64_trunc v"
    using f64_finite_not[OF assms(1)]
    by (simp_all add: f64_as_i64_def signed_of_int signed_take_bit_int_eq_self)
  then show ?thesis by (simp add: t)
qed

lemma f64_exact_range:
  assumes "f64_is_finite v"
  shows "f64_le F64_NEG_2_63 v \<longleftrightarrow> - (2 ^ 63) \<le> num_real (NFloat v)"
    "f64_lt v F64_2_63 \<longleftrightarrow> num_real (NFloat v) < 2 ^ 63"
  using assms by (simp_all add: f64_le_real f64_lt_real f64_bound_values)

lemma sint_real_range: "- (2 ^ 63) \<le> real_of_int (sint (i :: i64))" "real_of_int (sint (i :: i64)) < 2 ^ 63"
  unfolding int_real_range by (fact sint_bounds)+

lemma sint_eq_iff_real: "real_of_int (sint a) = real_of_int (sint b) \<longleftrightarrow> a = (b :: i64)"
  by (simp only: of_int_eq_iff sint_inject)

lemma int_float_eq_real:
  "int_float_eq i f \<longleftrightarrow> f64_is_finite f \<and> num_real (NFloat f) = real_of_int (sint i)"
proof (cases "f64_is_finite f \<and> f64_fract_zero f")
  case True
  then have fin: "f64_is_finite f" "f64_fract_zero f" by auto
  show ?thesis
    using f64_as_i64_exact[OF fin] sint_eq_iff_real[of "f64_as_i64 f" i] sint_real_range[of i]
    unfolding int_float_eq_def f64_exact_range[OF fin(1)] using fin by auto
next
  case False
  then show ?thesis
    using f64_integral[of f "sint i"] by (auto simp: int_float_eq_def simp del: of_int_sint)
qed

lemma f64_round_is_self_finite: "f64_is_finite f \<Longrightarrow> f64_round_is_self f \<longleftrightarrow> f64_fract_zero f"
  by (simp add: f64_round_is_self_def f64_finite_not)

lemma f64_infinite_range:
  assumes "f64_is_infinite f"
  shows "\<not> (f64_le F64_NEG_2_63 f \<and> f64_lt f F64_2_63)"
proof -
  have "unat (f64_abs f) = 2047 * 2 ^ 52" using assms by (simp add: f64_is_infinite_def)
  then have "f64_ord f = (if bit f 63 then - (2047 * 2 ^ 52) else 2047 * 2 ^ 52)"
    by (simp only: f64_ord_def) simp
  moreover have "f64_ord F64_2_63 = 1086 * 2 ^ 52" "f64_ord F64_NEG_2_63 = - (1086 * 2 ^ 52)"
    unfolding f64_ord_def bit63_unat f64_abs_def unat_take_bit F64_2_63_def F64_NEG_2_63_def
    by simp_all
  ultimately show ?thesis
    unfolding f64_le_def f64_lt_def by (cases "bit f 63") simp_all
qed

lemma to_int_coerced_iff:
  "to_int_coerced n = Some i \<longleftrightarrow> num_finite n \<and> num_real n = real_of_int (sint i)"
proof (cases n)
  case (NInt v)
  then show ?thesis using sint_eq_iff_real[of v i] by (simp add: num_real_int del: of_int_sint)
next
  case (NFloat f)
  show ?thesis
  proof (cases "f64_is_finite f")
    case True
    then have "to_int_coerced n = Some i \<longleftrightarrow> int_float_eq i f"
      by (auto simp: NFloat int_float_eq_def f64_round_is_self_finite)
    with True NFloat show ?thesis by (simp add: int_float_eq_real)
  next
    case False
    then have "to_int_coerced n = None"
      using f64_trichotomy[of f] f64_infinite_range[of f]
      by (auto simp: NFloat f64_round_is_self_def)
    with False NFloat show ?thesis by simp
  qed
qed

lemma num_level_float_iff: "num_level (NFloat f) = 1 \<longleftrightarrow> f64_is_finite f"
  by (auto dest: f64_finite_not)

lemma num_spec_cmp_mixed:
  "num_spec_cmp (NInt i) (NFloat f) = Equal \<longleftrightarrow> int_float_eq i f"
  "num_spec_cmp (NFloat f) (NInt i) = Equal \<longleftrightarrow> int_float_eq i f"
  unfolding num_spec_cmp_def int_float_eq_real num_real_int ord_then_eq_Equal ocmp_simps
    num_level.simps(1) num_level_float_iff[symmetric] by metis+

lemma numeric_same_spec:
  "repr_byte a \<noteq> repr_byte b \<Longrightarrow> numeric_same a b \<longleftrightarrow> num_spec_cmp a b = Equal"
  by (cases a; cases b) (simp_all add: numeric_same_def num_spec_cmp_mixed)

lemma numeric_cmp_spec:
  assumes "num_wf a" "num_wf b"
  shows "numeric_cmp a b = num_spec_cmp a b"
proof (cases "repr_byte a = repr_byte b")
  case True
  then show ?thesis
    by (simp add: numeric_cmp_def num_cmp_spec[OF assms] split: ordering.split)
next
  case False
  then have "num_cmp a b \<noteq> Equal" by (simp add: num_cmp_spec[OF assms])
  then have "numeric_cmp a b = (if num_spec_cmp a b = Equal then Equal else num_cmp a b)"
    using False by (simp add: numeric_cmp_def numeric_same_spec split: ordering.split)
  then show ?thesis
    by (simp add: num_cmp_spec[OF assms] ord_then_nonequal)
qed

end
