(* ===== verification/Prefix_Compare.thy ===== *)
theory Prefix_Compare
  imports Order_Code
begin

text \<open>
  The inline four-byte prefix of \<open>crates/kyzo-model/src/value/prefix.rs\<close>: two payloads are compared by
  prefix and length alone, and the payload bytes are asked for only on a tie. What the prefix
  decides is shown to be the comparison of the payloads, and a tie to be asked for only when both
  payloads reach past equal prefixes.
\<close>

section \<open>Prefixes\<close>

definition PREFIX_LEN :: nat where "PREFIX_LEN = 4"

definition prefix4 :: "bytes \<Rightarrow> bytes" where
  "prefix4 bs =
     (let n = min (length bs) PREFIX_LEN in take n bs @ replicate (PREFIX_LEN - n) 0)"

datatype prefix_cmp = Decided ordering | NeedPayload

definition cmp_prefixed :: "bytes \<Rightarrow> u32 \<Rightarrow> bytes \<Rightarrow> u32 \<Rightarrow> prefix_cmp" where
  "cmp_prefixed pa la pb lb =
     (case ocmp pa pb of
        Equal \<Rightarrow>
          if unat la \<le> PREFIX_LEN \<or> unat lb \<le> PREFIX_LEN then Decided (ocmp la lb) else NeedPayload
      | decided \<Rightarrow> Decided decided)"

text \<open>The comparison a client completes: the prefix first, the payload bytes only on a tie.\<close>

definition cmp_via_prefix :: "bytes \<Rightarrow> bytes \<Rightarrow> ordering" where
  "cmp_via_prefix a b =
     (case cmp_prefixed (prefix4 a) (of_nat (length a)) (prefix4 b) (of_nat (length b)) of
        Decided c \<Rightarrow> c
      | NeedPayload \<Rightarrow> ocmp a b)"

section \<open>Soundness\<close>

lemma prefix4_short: "length a \<le> 4 \<Longrightarrow> prefix4 a = a @ replicate (4 - length a) 0"
  by (simp add: prefix4_def PREFIX_LEN_def)

lemma prefix4_long: "4 \<le> length a \<Longrightarrow> prefix4 a = take 4 a"
  by (simp add: prefix4_def PREFIX_LEN_def)

lemma ocmp_padding: "ocmp (replicate n 0) (ys :: bytes) \<noteq> Greater" if "length ys = n"
  using that
proof (induction n arbitrary: ys)
  case (Suc n)
  then obtain z zs where "ys = z # zs" "length zs = n" by (cases ys) auto
  with Suc.IH[of zs] show ?case by (auto simp: ocmp_def word_gt_0 split: if_splits)
qed simp

text \<open>Zero padding to a common width, then the lengths, is the comparison of the byte strings.\<close>

lemma ocmp_pad:
  fixes a b :: bytes
  assumes "length a \<le> n" "length b \<le> n"
  shows "ocmp a b = ord_then (ocmp (a @ replicate (n - length a) 0) (b @ replicate (n - length b) 0))
    (ocmp (length a) (length b))"
  using assms
proof (induction "ocmp :: u8 \<Rightarrow> u8 \<Rightarrow> ordering" a b arbitrary: n rule: list_cmp.induct)
  case (2 b bs)
  have "ocmp (replicate n 0) (b # bs @ replicate (n - Suc (length bs)) 0) \<noteq> Greater"
    using 2 by (intro ocmp_padding) simp
  then show ?case by (cases "ocmp (replicate n 0) (b # bs @ replicate (n - Suc (length bs)) 0)") (simp_all add: ocmp_def)
next
  case (3 a as)
  have "ocmp (replicate n 0) (a # as @ replicate (n - Suc (length as)) 0) \<noteq> Greater"
    using 3 by (intro ocmp_padding) simp
  then have "ocmp (a # as @ replicate (n - Suc (length as)) 0) (replicate n 0) \<noteq> Less"
    by (subst (asm) ord_reverse_ocmp[symmetric]) (cases "ocmp (a # as @ replicate (n - Suc (length as)) 0) (replicate n 0)"; simp)
  then show ?case by (cases "ocmp (a # as @ replicate (n - Suc (length as)) 0) (replicate n 0)") (simp_all add: ocmp_def)
next
  case (4 a as b bs)
  then obtain m where n: "n = Suc m" by (cases n) auto
  with 4 show ?case by (simp add: ord_then_assoc)
qed simp

lemma length_prefix4 [simp]: "length (prefix4 a) = 4"
  by (simp add: prefix4_def PREFIX_LEN_def Let_def)

lemma ord_then_LessI: "x \<noteq> Greater \<Longrightarrow> y = Less \<Longrightarrow> ord_then x y = Less"
  by (cases x) simp_all

lemma ocmp_strict: "a < b \<Longrightarrow> ocmp a b = Less" "b < a \<Longrightarrow> ocmp a b = Greater"
  by simp_all

lemma ocmp_short_left:
  assumes "length a \<le> 4"
  shows "ocmp a b = ord_then (ocmp (prefix4 a) (prefix4 b)) (ocmp (length a) (length b))"
proof (cases "length b \<le> 4")
  case True
  then show ?thesis using ocmp_pad[OF assms True] assms by (simp add: prefix4_short)
next
  case False
  then have b: "b = prefix4 b @ drop 4 b" "4 < length b" by (simp_all add: prefix4_long)
  have pad: "a @ replicate (length b - length a) 0 = prefix4 a @ replicate (length b - 4) 0"
    using assms b(2) by (simp add: prefix4_short flip: replicate_add)
  have "ocmp (replicate (length b - 4) 0) (drop 4 b) \<noteq> Greater" by (rule ocmp_padding) simp
  moreover have lt: "ocmp (length a) (length b) = Less" using assms b(2) by (simp add: ocmp_def)
  ultimately have "ord_then (ocmp (replicate (length b - 4) 0) (drop 4 b)) (ocmp (length a) (length b)) = Less"
    by (rule ord_then_LessI)
  moreover have "ocmp (prefix4 a @ replicate (length b - 4) 0) b
      = ord_then (ocmp (prefix4 a) (prefix4 b)) (ocmp (replicate (length b - 4) 0) (drop 4 b))"
    by (subst b(1)) (simp add: ocmp_append_eq_length)
  ultimately show ?thesis
    using ocmp_pad[of a "length b" b] assms b(2)
    by (simp add: pad ord_then_assoc lt)
qed

lemma ocmp_short:
  assumes "length a \<le> 4 \<or> length b \<le> 4"
  shows "ocmp a b = ord_then (ocmp (prefix4 a) (prefix4 b)) (ocmp (length a) (length b))"
proof (cases "length a \<le> 4")
  case False
  with assms have "ocmp b a = ord_then (ocmp (prefix4 b) (prefix4 a)) (ocmp (length b) (length a))"
    by (intro ocmp_short_left) simp
  then have "ord_reverse (ocmp b a)
      = ord_then (ord_reverse (ocmp (prefix4 b) (prefix4 a))) (ord_reverse (ocmp (length b) (length a)))"
    by (simp only: ord_reverse_then)
  then show ?thesis by (simp add: ord_reverse_ocmp)
qed (rule ocmp_short_left)

lemma ocmp_long:
  assumes "4 < length a" "4 < length b"
  shows "ocmp a b = ord_then (ocmp (prefix4 a) (prefix4 b)) (ocmp (drop 4 a) (drop 4 b))"
proof -
  have "ocmp (take 4 a @ drop 4 a) (take 4 b @ drop 4 b) = ord_then (ocmp (take 4 a) (take 4 b)) (ocmp (drop 4 a) (drop 4 b))"
    using assms by (intro ocmp_append_eq_length) simp
  with assms show ?thesis by (simp add: prefix4_long)
qed

lemma unat_length_u32: "length a < 2 ^ 32 \<Longrightarrow> unat (of_nat (length a) :: u32) = length a"
  by (simp add: unat_of_nat)

lemma ocmp_length_u32:
  "length a < 2 ^ 32 \<Longrightarrow> length b < 2 ^ 32
    \<Longrightarrow> ocmp (of_nat (length a) :: u32) (of_nat (length b)) = ocmp (length a) (length b)"
  by (rule ocmp_eqI) (simp_all add: word_less_nat_alt unat_length_u32 word_unat_eq_iff)

lemma cmp_prefixed_cases:
  assumes "length a < 2 ^ 32" "length b < 2 ^ 32"
  shows "cmp_prefixed (prefix4 a) (of_nat (length a)) (prefix4 b) (of_nat (length b))
       = (if prefix4 a = prefix4 b \<and> 4 < length a \<and> 4 < length b then NeedPayload
          else Decided (ocmp a b))"
proof (cases "length a \<le> 4 \<or> length b \<le> 4")
  case True
  then show ?thesis
    using assms
    by (auto simp: cmp_prefixed_def PREFIX_LEN_def ocmp_short[OF True] unat_length_u32 ocmp_length_u32
        ocmp_strict split: ordering.split)
next
  case False
  then have "ocmp a b = ord_then (ocmp (prefix4 a) (prefix4 b)) (ocmp (drop 4 a) (drop 4 b))"
    by (intro ocmp_long) simp_all
  with False show ?thesis
    using assms 
    by (auto simp: cmp_prefixed_def PREFIX_LEN_def unat_length_u32 ocmp_strict split: ordering.split)
qed

lemma cmp_via_prefix_ocmp:
  "length a < 2 ^ 32 \<Longrightarrow> length b < 2 ^ 32 \<Longrightarrow> cmp_via_prefix a b = ocmp a b"
  by (simp add: cmp_via_prefix_def cmp_prefixed_cases)

end
