(* ===== verification/Value_Properties.thy ===== *)
theory Value_Properties
  imports Row_Key Num_Numeric Prefix_Compare "HOL-Library.Multiset"
begin

text \<open>
  The promises of the value plane: the order, round-trip and canonicity laws of the codec, the
  exactness of numeric comparison, the interval, geometry, JSON and validity kinds, and the scan
  keys of stored relations. Each is a corollary of the component theories.
\<close>

section \<open>Deeply nested values\<close>

primrec nested_lists :: "nat \<Rightarrow> data_value" where
  "nested_lists 0 = DNull"
| "nested_lists (Suc n) = DList [nested_lists n]"

lemma nested_lists_facts: "dv_wf (nested_lists n)" "dv_depth (nested_lists n) = n"
  by (induction n) simp_all

section \<open>Objects as multisets of entries\<close>

lemma json_obj_new_Inr_iff:
  "json_obj_new es = Inr r \<longleftrightarrow> distinct (map fst es) \<and> mset r = mset es \<and> sorted_wrt (<) (map fst r)"
proof
  assume "json_obj_new es = Inr r"
  then show "distinct (map fst es) \<and> mset r = mset es \<and> sorted_wrt (<) (map fst r)"
    by (auto simp: json_obj_new_Inr strict_sorted_keys distinct_map)
next
  assume r: "distinct (map fst es) \<and> mset r = mset es \<and> sorted_wrt (<) (map fst r)"
  then have "sort_key fst es = r"
    by (intro sort_key_inj_key_eq) (auto simp: distinct_map strict_sorted_keys)
  with r show "json_obj_new es = Inr r" by (simp add: json_obj_new_Inr)
qed

lemma json_obj_new_Inl: "json_obj_new es = Inl k \<Longrightarrow> 2 \<le> length (filter (\<lambda>e. fst e = k) es)"
proof -
  assume "json_obj_new es = Inl k"
  then have "adjacent_dup (sort_key fst es) = Some k"
    by (auto simp: json_obj_new_def Let_def split: option.splits)
  then have "2 \<le> length (filter (\<lambda>e. fst e = k) (sort_key fst es))" by (rule adjacent_dup_Some)
  also have "length (filter (\<lambda>e. fst e = k) (sort_key fst es)) = length (filter (\<lambda>e. fst e = k) es)"
    by (rule mset_eq_length) simp
  finally show ?thesis .
qed

section \<open>The codec\<close>

text \<open>
  C1: for well-formed values, comparing the encodings byte by byte, whatever bytes follow them, is
  comparing the values by \<open>Ord for DataValue\<close>, and only on equal values comparing what follows.
\<close>

theorem byte_order_is_value_order:
  assumes "dv_wf a" "dv_wf b"
  shows "ocmp (encode_owned a @ x) (encode_owned b @ y) = ord_then (dv_cmp a b) (ocmp x y)"
  using assms by (rule encode_owned_law)

theorem byte_order_is_value_order_witness:
  "ocmp (encode_owned (DList [DStr [0x61], DBool True]) @ []) (encode_owned (DList [DStr [0x61]]) @ [0x07]) = Greater"
  by (subst byte_order_is_value_order) (simp_all add: dv_cmp_unfold)

text \<open>
  C2: \<open>decode\<close> accepts exactly the encodings of the well-formed values that nest at most \<open>MAX_DEPTH\<close>
  levels deep, and returns the value that was encoded: a round trip in both directions, and no
  value has two encodings.
\<close>

theorem decode_accepts_exactly_encodings:
  "decode bs = Inr v \<longleftrightarrow> dv_wf v \<and> dv_depth v \<le> MAX_DEPTH \<and> bs = encode_owned v"
  by (simp add: decode_Inr dv_storable_def)

text \<open>
  C3: a well-formed value nested deeper than \<open>MAX_DEPTH\<close> is encoded without complaint and its own
  encoding is then refused as \<open>TooDeep\<close>.
\<close>

theorem deep_values_are_refused:
  assumes "dv_wf v" "MAX_DEPTH < dv_depth v"
  shows "decode (encode_owned v) = Inl TooDeep"
  using decode_at_encode[OF assms(1), of "[]" 0] assms(2) by (simp add: decode_def)

theorem deep_values_are_refused_witness:
  "decode (encode_owned (nested_lists 129)) = Inl TooDeep"
  by (rule deep_values_are_refused) (simp_all add: nested_lists_facts MAX_DEPTH_def)

text \<open>
  C13: the storage order on well-formed values is a total order: \<open>Equal\<close> only on equal values,
  reversed by swapping the arguments, transitive.
\<close>

theorem value_order_total:
  assumes "dv_wf a" "dv_wf b" "dv_wf c"
  shows "(dv_cmp a b = Equal \<longleftrightarrow> a = b) \<and> dv_cmp b a = ord_reverse (dv_cmp a b)
    \<and> (dv_cmp a b = Less \<and> dv_cmp b c = Less \<longrightarrow> dv_cmp a c = Less)"
  using assms value_order.cmp_eq value_order.cmp_reverse value_order.cmp_trans by blast

theorem value_order_total_witness:
  "dv_cmp DNull (DStr []) = Less \<and> dv_cmp (DBool True) DNull = ord_reverse (dv_cmp DNull (DBool True))"
  using value_order_total[of DNull "DBool True" "DStr []"] by (simp add: dv_cmp_tag)

text \<open>
  C14: wherever the decoder reads a value, the skipping walk reports the same number of bytes, which
  lies between one and the length of the input.
\<close>

theorem skip_matches_decode:
  assumes "decode_one bs = Inr (v, n)"
  shows "skip_one bs = Inr n \<and> 1 \<le> n \<and> n \<le> length bs"
  using skip_one_decode[OF assms] decode_one_progress[OF assms] by simp

theorem skip_matches_decode_witness:
  "skip_one [0x48, 0x05, 0x08, 0x01, 0x01, 0x77] = Inr 5 \<and> 1 \<le> (5::nat)
    \<and> 5 \<le> length [0x48 :: u8, 0x05, 0x08, 0x01, 0x01, 0x77]"
proof (rule skip_matches_decode)
  show "decode_one [0x48, 0x05, 0x08, 0x01, 0x01, 0x77] = Inr (DList [DNull, DBool True], 5)"
    using value_code.dec_enc[of "DList [DNull, DBool True]" "[0x77]"]
    by (simp add: dv_storable_def MAX_DEPTH_def STRUCT_SEQ_END_def)
qed

section \<open>Numbers\<close>

text \<open>
  C15: \<open>Ord for Num\<close> compares the exact real values of integers and floats, with the infinities at the
  ends and NaN last, and breaks ties between equal values by representation, the integer first.
\<close>

theorem num_order_is_exact:
  assumes "num_wf a" "num_wf b"
  shows "num_cmp a b = ord_then (ord_then (ocmp (num_level a) (num_level b)) (ocmp (num_real a) (num_real b)))
    (ocmp (repr_byte a) (repr_byte b))"
  using num_cmp_spec[OF assms] by (simp add: num_spec_cmp_def)

theorem num_order_is_exact_witness:
  "num_cmp (NInt 3) (NInt (- 2)) = ord_then (ord_then (ocmp (num_level (NInt 3)) (num_level (NInt (- 2))))
      (ocmp (num_real (NInt 3)) (num_real (NInt (- 2))))) (ocmp (repr_byte (NInt 3)) (repr_byte (NInt (- 2))))"
  by (rule num_order_is_exact) simp_all

text \<open>
  C16: \<open>Num::decode_key\<close> reads a key exactly when the bytes start with the key of a lawful number, and
  returns that number and the length of its key.
\<close>

theorem num_key_decodes_exactly:
  "decode_key bs = Inr (n, k)
    \<longleftrightarrow> num_wf n \<and> k = length (encode_key n) \<and> (\<exists>rest. bs = encode_key n @ rest)"
  by (rule num_code.dec_iff)

text \<open>
  \<open>to_int_coerced\<close> returns an integer exactly when the number is finite and equal to it as a real,
  so no float is rounded or saturated into an integer.
\<close>

theorem int_coercion_is_exact:
  "to_int_coerced n = Some i \<longleftrightarrow> num_finite n \<and> num_real n = real_of_int (sint i)"
  by (rule to_int_coerced_iff)

text \<open>
  \<open>NumericOrd\<close> is the value order alone: it ignores the representation, so an integer and a float
  are equal under it exactly when they are equal reals.
\<close>

theorem numeric_order_ignores_representation:
  assumes "num_wf a" "num_wf b"
  shows "numeric_cmp a b = ord_then (ocmp (num_level a) (num_level b)) (ocmp (num_real a) (num_real b))"
  using numeric_cmp_spec[OF assms] by (simp add: num_spec_cmp_def)

theorem numeric_order_ignores_representation_witness:
  "numeric_cmp (NInt 0) (NFloat 0)
    = ord_then (ocmp (num_level (NInt 0)) (num_level (NFloat 0))) (ocmp (num_real (NInt 0)) (num_real (NFloat 0)))"
  by (rule numeric_order_ignores_representation) simp_all

section \<open>Kinds\<close>

text \<open>
  C24: the Hilbert codec of geometry cells is a bijection: decoding inverts encoding on every pair of
  32-bit cells and encoding inverts decoding on every 64-bit curve index, with no overflow.
\<close>

theorem hilbert_codec_bijective:
  "hilbert_decode (hilbert_encode x y) = (x, y) \<and> (case hilbert_decode d of (x', y') \<Rightarrow> hilbert_encode x' y') = d"
  using hilbert_encode_decode[of d] by (simp add: hilbert_decode_encode split: prod.splits)

text \<open>
  the curve keeps aligned blocks together: two cells share the high bits of their curve index
  exactly when they lie in the same aligned square of the corresponding side.
\<close>

theorem hilbert_keeps_blocks:
  assumes "k \<le> 32"
  shows "drop_bit (2 * k) (hilbert_encode x y) = drop_bit (2 * k) (hilbert_encode x' y')
    \<longleftrightarrow> drop_bit k x = drop_bit k x' \<and> drop_bit k y = drop_bit k y'"
  using assms by (rule hilbert_block)

theorem hilbert_keeps_blocks_witness:
  "drop_bit (2 * 4) (hilbert_encode 3 5) = drop_bit (2 * 4) (hilbert_encode 14 9)"
  by (subst hilbert_keeps_blocks) simp_all

text \<open>
  \<open>Interval::new\<close> denotes exactly the instants its two bounds admit, whatever mixture of open,
  closed and unbounded ends it is given, and is the empty interval exactly when no instant is.
\<close>

theorem interval_new_denotes_bounds:
  "interval_set (iv_new s e) = {t. start_admits s t \<and> end_admits e t}
    \<and> (iv_is_empty (iv_new s e) \<longleftrightarrow> (\<nexists>t. start_admits s t \<and> end_admits e t))"
  by (simp only: iv_new_set iv_new_empty_iff simp_thms)

text \<open>
  of any two non-empty intervals exactly one of Allen's thirteen relations holds, unbounded ends
  included.
\<close>

theorem allen_relations_partition:
  assumes "interval_wf a" "interval_wf b" "a \<noteq> IvEmpty" "b \<noteq> IvEmpty"
  shows "length (filter id (allen_relations a b)) = 1"
  using assms by (rule allen_exactly_one)

theorem allen_relations_partition_witness:
  "length (filter id (allen_relations (iv_new (Closed 3) (Open 9)) (iv_new Unbounded (Closed 4)))) = 1"
  by (rule allen_relations_partition)
    (simp_all add: iv_new_wf, simp_all add: iv_new_def iv_range_def checked_sub1_def)

text \<open>
  \<open>intersects\<close> holds exactly when some instant belongs to both intervals.
\<close>

theorem intersects_is_overlap_of_sets:
  assumes "interval_wf a" "interval_wf b"
  shows "intersects a b \<longleftrightarrow> interval_set a \<inter> interval_set b \<noteq> {}"
  using assms by (rule intersects_iff)

theorem intersects_is_overlap_of_sets_witness:
  "intersects (iv_new (Closed 3) (Open 9)) (iv_new Unbounded (Closed 4))
    \<longleftrightarrow> interval_set (iv_new (Closed 3) (Open 9)) \<inter> interval_set (iv_new Unbounded (Closed 4)) \<noteq> {}"
  by (rule intersects_is_overlap_of_sets) (rule iv_new_wf)+

text \<open>
  \<open>JsonObj::new\<close> accepts exactly the entry lists without a repeated key, and stores a permutation
  of the entries strictly ascending by key; a refused list names a key that occurs at least twice.
\<close>

theorem json_object_canonical:
  "(\<forall>r. json_obj_new es = Inr r
      \<longleftrightarrow> distinct (map fst es) \<and> mset r = mset es \<and> sorted_wrt (<) (map fst r))
    \<and> (\<forall>k. json_obj_new es = Inl k \<longrightarrow> 2 \<le> length (filter (\<lambda>e. fst e = k) es))"
  using json_obj_new_Inr_iff json_obj_new_Inl by blast

theorem json_object_canonical_witness:
  "json_obj_new [([0x62], JNull), ([0x61], JBool True)] = Inr [([0x61], JBool True), ([0x62], JNull)]"
  using json_object_canonical[of "[([0x62], JNull), ([0x61], JBool True)]"] by simp

section \<open>Rows and scans\<close>

text \<open>
  C17: scanning relation \<open>rel\<close> between the lower key of one bound list and the upper key of another
  visits exactly the stored rows whose leading columns are not below the first and not above the
  second, in the column order of \<open>ScanBound\<close>.
\<close>

theorem scan_range_is_exact:
  assumes "row_wf row" "row_wf pre" "list_all bound_wf lower" "list_all bound_wf upper"
    "length pre + length lower \<le> length row" "length pre + length upper \<le> length row"
  shows "scan_key_lower rel pre lower \<le> encode_as_key rel row \<and> encode_as_key rel row \<le> scan_key_upper rel pre upper
    \<longleftrightarrow> bounds_cmp row (map BoundValue pre @ lower) \<noteq> Less \<and> bounds_cmp row (map BoundValue pre @ upper) \<noteq> Greater"
  using scan_lower_iff[OF assms(1,2,3,5)] scan_upper_iff[OF assms(1,2,4,6)] by blast

theorem scan_range_is_exact_witness:
  "scan_key_lower 7 [DBool True] [BoundValue DNull] \<le> encode_as_key 7 [DBool True, DStr [0x61], DNull]
    \<and> encode_as_key 7 [DBool True, DStr [0x61], DNull] \<le> scan_key_upper 7 [DBool True] [Greatest]"
  by (subst scan_range_is_exact) (simp_all add: dv_cmp_unfold dv_cmp_tag bool_cmp_def)

text \<open>
  C21: no scan of one relation ever meets a key of another.
\<close>

theorem relations_do_not_mix:
  assumes "rel \<noteq> rel'"
  shows "\<not> (scan_key_lower rel pre lower \<le> encode_as_key rel' row
           \<and> encode_as_key rel' row \<le> scan_key_upper rel pre' upper)"
  using assms by (rule scan_other_relation)

theorem relations_do_not_mix_witness:
  "\<not> (scan_key_lower 7 [] [Least] \<le> encode_as_key 8 [DNull] \<and> encode_as_key 8 [DNull] \<le> scan_key_upper 7 [] [Greatest])"
  by (rule relations_do_not_mix) simp

text \<open>
  C22: a stored key/value pair decodes to the key columns, the key's suffix slots and the value
  columns, in that order, whenever every column is one the codec can decode.
\<close>

theorem stored_row_round_trip:
  assumes "row_storable cols" "row_storable suffix" "row_storable vals"
  shows "decode_tuple_from_kv (encode_key_with_suffix rel cols suffix) (encode_tuple_bare vals)
    = Inr (cols @ suffix @ vals)"
  using assms
  by (simp add: decode_tuple_from_kv_def decode_tuple_from_key_def extend_tuple_from_v_def scan_keys_eq(4)
      RELATION_PREFIX_LEN_def decode_values_all_encode flip: encode_tuple_bare_simps(3))

theorem stored_row_round_trip_witness:
  "decode_tuple_from_kv (encode_key_with_suffix 7 [DBool True] [DNull]) (encode_tuple_bare [DStr [0x61]])
    = Inr ([DBool True] @ [DNull] @ [DStr [0x61]])"
  by (rule stored_row_round_trip) (simp_all add: dv_storable_def)

text \<open>
  \<open>TupleKey::from_stored\<close> admits bytes exactly when they are the encodings of \<open>arity\<close> decodable
  values with nothing after them.
\<close>

theorem tuple_key_admission:
  "tuple_key_from_stored bs arity = Inr key
    \<longleftrightarrow> key = bs \<and> (\<exists>row. row_storable row \<and> length row = arity \<and> bs = encode_tuple_bare row)"
  by (rule tuple_key_from_stored_iff)

text \<open>
  comparing by four-byte prefix and length, and by payload only on a tie, is comparing the
  payloads; the payload is asked for only when both reach past equal prefixes.
\<close>

theorem prefix_comparison_is_sound:
  assumes "length a < 2 ^ 32" "length b < 2 ^ 32"
  shows "cmp_prefixed (prefix4 a) (of_nat (length a)) (prefix4 b) (of_nat (length b))
       = (if prefix4 a = prefix4 b \<and> 4 < length a \<and> 4 < length b then NeedPayload else Decided (ocmp a b))"
  using assms by (rule cmp_prefixed_cases)

theorem prefix_comparison_is_sound_witness:
  "cmp_prefixed (prefix4 [1, 2]) (of_nat (length [1 :: u8, 2])) (prefix4 [1, 2, 0]) (of_nat (length [1 :: u8, 2, 0]))
    = Decided Less"
  by (subst prefix_comparison_is_sound) (simp_all add: prefix4_def PREFIX_LEN_def)

text \<open>
  C23: encoding a borrowed \<open>Datum\<close> gives the bytes of the owned value it denotes: the order in which
  the items of a set are given, and their repetitions, do not show in the encoding.
\<close>

theorem datum_encoding_is_canonical:
  assumes "datum_wf d"
  shows "encode_datum d = encode_owned (datum_value d) \<and> dv_wf (datum_value d)"
  using assms by (simp add: encode_datum_owned datum_value_wf)

theorem datum_encoding_is_canonical_witness:
  "encode_datum (MSet [MBool True, MNull, MBool True]) = encode_owned (DSet [DNull, DBool True])"
  using datum_encoding_is_canonical[of "MSet [MBool True, MNull, MBool True]"]
  by (simp add: btree_collect_def dv_cmp_unfold dv_cmp_tag bool_cmp_def)

end
