(* ===== verification/Bitemporal.thy ===== *)
theory Bitemporal
  imports Row_Key
begin

text \<open>
  The bitemporal kernel of \<open>crates/kyzo-core/src/store/time.rs\<close>: the polarity byte of a stored value,
  and \<open>check_key_for_bitemporal\<close>, which judges one stored key against a two-axis as-of coordinate and
  hands back the key to seek next. A stored key ends with two pinned validity slots, the valid
  instant and the system version; both sort latest first.
\<close>

section \<open>Polarity and refusals\<close>

datatype bitemporal_decode_error =
  ValueTruncated | UnknownPolarity u8 | KeyTooShort | MissingValidSlot | ValidSlotTrailing
| MissingSysSlot | SysSlotTrailing | SlotRetractFlag | StampKeyTooShort | StampMissingSys
| StampSysTrailing | StampSysRetract

text \<open>The kernel refuses by name or passes on the codec's refusal.\<close>

datatype kernel_error = Bitemporal bitemporal_decode_error | Codec decode_error

datatype claim_polarity = Assert | Retract | Erase

definition VALUE_HEADER_LEN :: nat where "VALUE_HEADER_LEN = 0"
definition BITEMPORAL_VALUE_HEADER_LEN :: nat where
  "BITEMPORAL_VALUE_HEADER_LEN = VALUE_HEADER_LEN + 1"
definition POLARITY_ASSERT :: u8 where "POLARITY_ASSERT = 0"
definition POLARITY_RETRACT :: u8 where "POLARITY_RETRACT = 1"
definition POLARITY_ERASE :: u8 where "POLARITY_ERASE = 2"

lemmas polarity_bytes = POLARITY_ASSERT_def POLARITY_RETRACT_def POLARITY_ERASE_def

fun polarity_encode :: "claim_polarity \<Rightarrow> u8" where
  "polarity_encode Assert = POLARITY_ASSERT"
| "polarity_encode Retract = POLARITY_RETRACT"
| "polarity_encode Erase = POLARITY_ERASE"

definition claim_polarity_of_value :: "bytes \<Rightarrow> kernel_error + claim_polarity" where
  "claim_polarity_of_value val =
     (case drop VALUE_HEADER_LEN val of
        [] \<Rightarrow> Inl (Bitemporal ValueTruncated)
      | b # _ \<Rightarrow>
          if b = POLARITY_ASSERT then Inr Assert
          else if b = POLARITY_RETRACT then Inr Retract
          else if b = POLARITY_ERASE then Inr Erase
          else Inl (Bitemporal (UnknownPolarity b)))"

definition decode_from_key :: "bytes \<Rightarrow> decode_error + data_value \<times> bytes" where
  "decode_from_key bs = rbind (decode_one bs) (\<lambda>(v, used). Inr (v, drop used bs))"

text \<open>A validity slot out of a decoded value, or the named refusal.\<close>

definition as_slot :: "bitemporal_decode_error \<Rightarrow> data_value \<Rightarrow> kernel_error + validity_slot" where
  "as_slot missing v = (case v of DValidity s \<Rightarrow> Inr s | _ \<Rightarrow> Inl (Bitemporal missing))"

definition check_key_for_bitemporal ::
  "bytes \<Rightarrow> claim_polarity \<Rightarrow> as_of \<Rightarrow> kernel_error + tuple option \<times> bytes" where
  "check_key_for_bitemporal key polarity ao =
     (if length key < RELATION_PREFIX_LEN + BITEMPORAL_TAIL_LEN then Inl (Bitemporal KeyTooShort)
      else
        let valid_off = length key - BITEMPORAL_TAIL_LEN;
            sys_off = length key - VALIDITY_TAIL_LEN
        in
        rbind (map_err Codec (decode_from_key (take (sys_off - valid_off) (drop valid_off key))))
          (\<lambda>(valid_val, valid_rest).
        rbind (as_slot MissingValidSlot valid_val) (\<lambda>valid.
        if valid_rest \<noteq> [] then Inl (Bitemporal ValidSlotTrailing)
        else
        rbind (map_err Codec (decode_from_key (drop sys_off key))) (\<lambda>(sys_val, sys_rest).
        rbind (as_slot MissingSysSlot sys_val) (\<lambda>sys.
        if sys_rest \<noteq> [] then Inl (Bitemporal SysSlotTrailing)
        else if \<not> slot_is_assert valid \<or> \<not> slot_is_assert sys then Inl (Bitemporal SlotRetractFlag)
        else
          let splice_both = (\<lambda>v s. take valid_off key @ encode_owned (DValidity v) @ encode_owned (DValidity s));
              splice_sys = (\<lambda>s. take sys_off key @ encode_owned (DValidity s))
          in
          if ts_cmp (slot_timestamp valid) (ao_valid ao) = Less then
            Inr (None, splice_both (from_stored (ao_valid ao) True) (from_stored (ao_sys ao) True))
          else if ts_cmp (slot_timestamp sys) (ao_sys ao) = Less then
            Inr (None, splice_sys (from_stored (ao_sys ao) True))
          else
            (case polarity of
               Erase \<Rightarrow> Inr (None, splice_sys (VValue TERMINAL_VALIDITY))
             | Retract \<Rightarrow> Inr (None, splice_both (VValue TERMINAL_VALIDITY) (VValue TERMINAL_VALIDITY))
             | Assert \<Rightarrow>
                 rbind (map_err Codec (decode_tuple_from_key key)) (\<lambda>decoded.
                   Inr (Some decoded,
                     splice_both (VValue TERMINAL_VALIDITY) (VValue TERMINAL_VALIDITY)))))))))"

definition system_stamp_of_key :: "bytes \<Rightarrow> kernel_error + validity_ts" where
  "system_stamp_of_key key =
     (if length key < RELATION_PREFIX_LEN + BITEMPORAL_TAIL_LEN then Inl (Bitemporal StampKeyTooShort)
      else
        let sys_off = length key - VALIDITY_TAIL_LEN in
        rbind (map_err Codec (decode_from_key (drop sys_off key))) (\<lambda>(sys_val, sys_rest).
        rbind (as_slot StampMissingSys sys_val) (\<lambda>sys.
        if sys_rest \<noteq> [] then Inl (Bitemporal StampSysTrailing)
        else if \<not> slot_is_assert sys then Inl (Bitemporal StampSysRetract)
        else Inr (slot_timestamp sys))))"

definition extend_tuple_from_bitemporal_v :: "tuple \<Rightarrow> bytes \<Rightarrow> kernel_error + tuple" where
  "extend_tuple_from_bitemporal_v key val =
     (if length val < BITEMPORAL_VALUE_HEADER_LEN then Inl (Bitemporal ValueTruncated)
      else
        let payload = drop BITEMPORAL_VALUE_HEADER_LEN val in
        if payload = [] then Inr key
        else rbind (map_err Codec (decode_values_all payload)) (\<lambda>vs. Inr (key @ vs)))"

section \<open>Stored versions\<close>

text \<open>One stored row version: its key columns, its two instants, its claim and its value columns.\<close>

record version =
  vn_cols :: tuple
  vn_valid :: i64
  vn_sys :: i64
  vn_polarity :: claim_polarity
  vn_vals :: tuple

definition slot_key :: "relation_id \<Rightarrow> tuple \<Rightarrow> validity_slot \<Rightarrow> validity_slot \<Rightarrow> bytes" where
  "slot_key rel cols v s = encode_key_with_suffix rel cols [DValidity v, DValidity s]"

definition version_key :: "relation_id \<Rightarrow> version \<Rightarrow> bytes" where
  "version_key rel r = slot_key rel (vn_cols r) (stored_slot (vn_valid r)) (stored_slot (vn_sys r))"

definition version_value :: "version \<Rightarrow> bytes" where
  "version_value r = polarity_encode (vn_polarity r) # encode_tuple_bare (vn_vals r)"

definition version_row :: "version \<Rightarrow> tuple" where
  "version_row r =
     vn_cols r @ [DValidity (stored_slot (vn_valid r)), DValidity (stored_slot (vn_sys r))] @ vn_vals r"

definition version_wf :: "version \<Rightarrow> bool" where
  "version_wf r \<longleftrightarrow> row_storable (vn_cols r) \<and> row_storable (vn_vals r)"

lemma stored_slot_wf [simp]: "slot_wf (stored_slot t)"
  by (simp add: stored_slot_def)

lemma terminal_slot_wf [simp]: "slot_wf (VValue TERMINAL_VALIDITY)"
  by (simp add: slot_wf_def TERMINAL_VALIDITY_def from_stored_def validity_new_def)

lemma slot_storable [simp]: "dv_storable (DValidity s) \<longleftrightarrow> slot_wf s"
  by (simp add: dv_storable_def)

lemma stored_slot_fields [simp]: "slot_timestamp (stored_slot t) = t" "slot_is_assert (stored_slot t)"
  by (simp_all add: stored_slot_def)

lemma length_slot [simp]: "length (encode_owned (DValidity s)) = 10"
  by (simp add: encode_validity_body_def)

lemma polarity_round_trip: "claim_polarity_of_value (polarity_encode p # rest) = Inr p"
  by (cases p) (simp_all add: claim_polarity_of_value_def VALUE_HEADER_LEN_def polarity_bytes)

lemma decode_from_key_slot:
  "slot_wf s \<Longrightarrow> decode_from_key (encode_owned (DValidity s)) = Inr (DValidity s, [])"
  using value_code.dec_enc[of "DValidity s" "[]"] by (simp add: decode_from_key_def)

section \<open>The kernel on a well-formed tail\<close>

lemma check_key_tail:
  assumes "slot_wf v" "slot_wf s" "8 \<le> length pre"
  shows "check_key_for_bitemporal (pre @ encode_owned (DValidity v) @ encode_owned (DValidity s)) p ao =
     (if \<not> slot_is_assert v \<or> \<not> slot_is_assert s then Inl (Bitemporal SlotRetractFlag)
      else if ts_cmp (slot_timestamp v) (ao_valid ao) = Less then
        Inr (None, pre @ encode_owned (DValidity (stored_slot (ao_valid ao))) @ encode_owned (DValidity (stored_slot (ao_sys ao))))
      else if ts_cmp (slot_timestamp s) (ao_sys ao) = Less then
        Inr (None, pre @ encode_owned (DValidity v) @ encode_owned (DValidity (stored_slot (ao_sys ao))))
      else
        (case p of
           Erase \<Rightarrow> Inr (None, pre @ encode_owned (DValidity v) @ encode_owned (DValidity (VValue TERMINAL_VALIDITY)))
         | Retract \<Rightarrow> Inr (None, pre @ encode_owned (DValidity (VValue TERMINAL_VALIDITY)) @ encode_owned (DValidity (VValue TERMINAL_VALIDITY)))
         | Assert \<Rightarrow>
             rbind (map_err Codec (decode_tuple_from_key (pre @ encode_owned (DValidity v) @ encode_owned (DValidity s))))
               (\<lambda>decoded. Inr (Some decoded, pre @ encode_owned (DValidity (VValue TERMINAL_VALIDITY)) @ encode_owned (DValidity (VValue TERMINAL_VALIDITY))))))"
  using assms
  unfolding check_key_for_bitemporal_def
  by (simp add: Let_def RELATION_PREFIX_LEN_def BITEMPORAL_TAIL_LEN_def VALIDITY_TAIL_LEN_def
      decode_from_key_slot as_slot_def stored_slot_def del: encode_owned.simps)

text \<open>The kernel judges a key only when its last twenty bytes are two lawful slots.\<close>

lemma check_key_Inr:
  assumes "check_key_for_bitemporal key p ao = Inr r"
  obtains pre v s where "key = pre @ encode_owned (DValidity v) @ encode_owned (DValidity s)"
    "slot_wf v" "slot_wf s" "8 \<le> length pre" "slot_is_assert v" "slot_is_assert s"
proof -
  define vo so where "vo = length key - 20" and "so = length key - 10"
  from assms obtain vv vrest sv srest v s where len: "28 \<le> length key"
    and dv: "decode_from_key (take (so - vo) (drop vo key)) = Inr (vv, vrest)" "as_slot MissingValidSlot vv = Inr v" "vrest = []"
    and ds: "decode_from_key (drop so key) = Inr (sv, srest)" "as_slot MissingSysSlot sv = Inr s" "srest = []"
    and fl: "slot_is_assert v" "slot_is_assert s"
    unfolding check_key_for_bitemporal_def
    by (auto simp: Let_def RELATION_PREFIX_LEN_def BITEMPORAL_TAIL_LEN_def VALIDITY_TAIL_LEN_def
        vo_def so_def rbind_eq_Inr split: if_splits)
  have slot: "slot_wf s \<and> bs = encode_owned (DValidity s)"
    if "decode_from_key bs = Inr (w, r)" "as_slot e w = Inr s" "r = []" for bs w r e s
  proof -
    from that obtain n where d: "decode_one bs = Inr (w, n)" "drop n bs = []"
      by (auto simp: decode_from_key_def rbind_eq_Inr)
    moreover have "w = DValidity s" using that(2) by (auto simp: as_slot_def split: data_value.splits)
    ultimately show ?thesis using value_code.dec_canonical[OF d(1)] by auto
  qed
  have v: "slot_wf v \<and> take (so - vo) (drop vo key) = encode_owned (DValidity v)"
    and s: "slot_wf s \<and> drop so key = encode_owned (DValidity s)"
    using slot[OF dv] slot[OF ds] by blast+
  have "key = take vo key @ take (so - vo) (drop vo key) @ drop so key"
  proof -
    have "so - vo + vo = so" using len by (simp add: so_def vo_def)
    then have "drop (so - vo) (drop vo key) = drop so key" by simp
    then have "drop vo key = take (so - vo) (drop vo key) @ drop so key"
      using append_take_drop_id[of "so - vo" "drop vo key"] by simp
    then show ?thesis using append_take_drop_id[of vo key] by simp
  qed
  then have "key = take vo key @ encode_owned (DValidity v) @ encode_owned (DValidity s)" using v s by simp
  moreover have "8 \<le> length (take vo key)" using len by (simp add: vo_def)
  ultimately show thesis using that v s fl by blast
qed

section \<open>The order of slot tails\<close>

lemma ocmp_slots:
  assumes "slot_wf v" "slot_wf s" "slot_wf v'" "slot_wf s'"
  shows "ocmp (encode_owned (DValidity v) @ encode_owned (DValidity s)) (encode_owned (DValidity v') @ encode_owned (DValidity s'))
       = ord_then (slot_cmp v v') (slot_cmp s s')"
  using encode_owned_law[of "DValidity v" "DValidity v'"] encode_owned_law[of "DValidity s" "DValidity s'" "[]" "[]"] assms
  by (simp add: dv_cmp_unfold del: encode_owned.simps)

lemma slot_before_terminal: "slot_is_assert s \<Longrightarrow> slot_cmp s (VValue TERMINAL_VALIDITY) = Less"
  using sint_bounds[of "slot_timestamp s"]
  by (auto simp: slot_cmp_def TERMINAL_VALIDITY_def ts_cmp_def bool_cmp_def ocmp_def)

lemma slot_before_stored:
  "ts_cmp (slot_timestamp s) t = Less \<Longrightarrow> slot_cmp s (stored_slot t) = Less"
  by (simp add: slot_cmp_def)

lemma check_key_advances:
  assumes "check_key_for_bitemporal key p ao = Inr (ret, nxt)"
  shows "key < nxt"
proof -
  obtain pre v s where k: "key = pre @ encode_owned (DValidity v) @ encode_owned (DValidity s)"
    and wf: "slot_wf v" "slot_wf s" "8 \<le> length pre" and fl: "slot_is_assert v" "slot_is_assert s"
    using check_key_Inr[OF assms] .
  have less: "key < pre @ encode_owned (DValidity v') @ encode_owned (DValidity s')"
    if "slot_wf v'" "slot_wf s'" "slot_cmp v v' = Less \<or> v' = v \<and> slot_cmp s s' = Less" for v' s'
  proof -
    have "ocmp key (pre @ encode_owned (DValidity v') @ encode_owned (DValidity s')) = ord_then (slot_cmp v v') (slot_cmp s s')"
      unfolding k ocmp_append_same using ocmp_slots[OF wf(1,2) that(1,2)] by simp
    also have "\<dots> = Less" using that(3) slot_cmp_eq[OF wf(1), of v] wf(1) by auto
    finally show ?thesis by simp
  qed
  show ?thesis
    using assms less wf(1) slot_before_stored slot_before_terminal fl
    unfolding k check_key_tail[OF wf]
    by (auto simp: rbind_eq_Inr simp del: encode_owned.simps split: if_splits claim_polarity.splits)
qed

end
