(* ===== verification/Ordered_Store.thy ===== *)
theory Ordered_Store
  imports Kyzo_Prelude
begin

text \<open>
  The in-memory ordered store of \<open>crates/kyzo-core/src/store/scratch.rs\<close>. Its \<open>BTreeMap\<close> is the list of
  its entries, strictly ascending by key; \<open>TempTx\<close> holds the map in an \<open>Option\<close> that commit, abort and
  discard empty, and every later use panics, here \<open>None\<close>. What a reader or writer of a store may rely
  on is the locale \<open>ordered_store\<close>, interpreted on these operations.
\<close>

section \<open>Ordered maps\<close>

type_synonym ('k, 'v) entries = "('k \<times> 'v) list"

fun bt_insert :: "'k::linorder \<Rightarrow> 'v \<Rightarrow> ('k, 'v) entries \<Rightarrow> ('k, 'v) entries" where
  "bt_insert k v [] = [(k, v)]"
| "bt_insert k v ((k', v') # es) =
     (if k < k' then (k, v) # (k', v') # es
      else if k = k' then (k, v) # es
      else (k', v') # bt_insert k v es)"

definition bt_get :: "('k, 'v) entries \<Rightarrow> 'k \<Rightarrow> 'v option" where
  "bt_get es k = map_of es k"

definition bt_remove :: "'k \<Rightarrow> ('k, 'v) entries \<Rightarrow> ('k, 'v) entries" where
  "bt_remove k es = filter (\<lambda>e. fst e \<noteq> k) es"

definition bt_between :: "('k::linorder, 'v) entries \<Rightarrow> 'k \<Rightarrow> 'k \<Rightarrow> ('k, 'v) entries" where
  "bt_between es lower upper = filter (\<lambda>e. lower \<le> fst e \<and> fst e < upper) es"

text \<open>\<open>BTreeMap::range\<close> with an included lower and an excluded upper bound panics when the lower one is greater.\<close>

definition bt_range :: "('k::linorder, 'v) entries \<Rightarrow> 'k \<Rightarrow> 'k \<Rightarrow> ('k, 'v) entries option" where
  "bt_range es lower upper = (if lower > upper then None else Some (bt_between es lower upper))"

definition bt_wf :: "('k::linorder, 'v) entries \<Rightarrow> bool" where
  "bt_wf es \<longleftrightarrow> sorted_wrt (<) (map fst es)"

section \<open>The session store\<close>

record temp_tx =
  tt_map :: "(bytes, bytes) entries option"
  tt_stamp :: i64

definition temp_get :: "temp_tx \<Rightarrow> bytes \<Rightarrow> bytes option option" where
  "temp_get t key = map_option (\<lambda>es. bt_get es key) (tt_map t)"

definition temp_exists :: "temp_tx \<Rightarrow> bytes \<Rightarrow> bool option" where
  "temp_exists t key = map_option (\<lambda>es. bt_get es key \<noteq> None) (tt_map t)"

definition temp_is_empty :: "temp_tx \<Rightarrow> bool option" where
  "temp_is_empty t = map_option (\<lambda>es. es = []) (tt_map t)"

definition temp_range_scan :: "temp_tx \<Rightarrow> bytes \<Rightarrow> bytes \<Rightarrow> (bytes, bytes) entries option" where
  "temp_range_scan t lower upper =
     (if lower \<ge> upper then Some []
      else Option.bind (tt_map t) (\<lambda>es. bt_range es lower upper))"

definition temp_total_scan :: "temp_tx \<Rightarrow> (bytes, bytes) entries option" where
  "temp_total_scan t = tt_map t"

definition temp_put :: "temp_tx \<Rightarrow> bytes \<Rightarrow> bytes \<Rightarrow> temp_tx option" where
  "temp_put t key val = map_option (\<lambda>es. t\<lparr>tt_map := Some (bt_insert key val es)\<rparr>) (tt_map t)"

definition temp_del :: "temp_tx \<Rightarrow> bytes \<Rightarrow> temp_tx option" where
  "temp_del t key = map_option (\<lambda>es. t\<lparr>tt_map := Some (bt_remove key es)\<rparr>) (tt_map t)"

definition temp_del_range :: "temp_tx \<Rightarrow> bytes \<Rightarrow> bytes \<Rightarrow> temp_tx option" where
  "temp_del_range t lower upper =
     (if lower \<ge> upper then Some t
      else
        Option.bind (tt_map t) (\<lambda>es.
        Option.bind (bt_range es lower upper) (\<lambda>range.
          let doomed = map fst range
          in Some (t\<lparr>tt_map := Some (foldl (\<lambda>m k. bt_remove k m) es doomed)\<rparr>))))"

definition temp_discard :: "temp_tx \<Rightarrow> temp_tx" where
  "temp_discard t = t\<lparr>tt_map := None\<rparr>"

definition temp_commit :: "temp_tx \<Rightarrow> temp_tx option" where
  "temp_commit t = map_option (\<lambda>_. t\<lparr>tt_map := None\<rparr>) (tt_map t)"

definition temp_abort :: "temp_tx \<Rightarrow> temp_tx option" where
  "temp_abort t = map_option (\<lambda>_. t\<lparr>tt_map := None\<rparr>) (tt_map t)"

text \<open>
  \<open>TempSkipCursor::seek\<close>: the first entry at or after the target and below the upper bound, with no check of its own
  against a target beyond that bound.
\<close>

definition temp_seek :: "(bytes, bytes) entries \<Rightarrow> bytes \<Rightarrow> bytes \<Rightarrow> (bytes \<times> bytes) option option" where
  "temp_seek es upper target =
     map_option (\<lambda>range. case range of [] \<Rightarrow> None | e # _ \<Rightarrow> Some e) (bt_range es target upper)"

section \<open>Laws of ordered maps\<close>

lemma bt_wf_Cons [simp]: "bt_wf [] \<longleftrightarrow> True" "bt_wf (e # es) \<longleftrightarrow> (\<forall>e' \<in> set es. fst e < fst e') \<and> bt_wf es"
  by (auto simp: bt_wf_def)

lemma bt_wf_distinct: "bt_wf es \<Longrightarrow> distinct (map fst es)"
  by (simp add: bt_wf_def strict_sorted_iff)

lemma fst_set_bt_insert: "fst ` set (bt_insert k v es) = insert k (fst ` set es)"
  by (induction k v es rule: bt_insert.induct) auto

lemma ball_bt_insert: "(\<forall>e \<in> set (bt_insert k v es). P (fst e)) \<longleftrightarrow> P k \<and> (\<forall>e \<in> set es. P (fst e))"
proof -
  have "(\<forall>x \<in> fst ` set (bt_insert k v es). P x) \<longleftrightarrow> (\<forall>x \<in> insert k (fst ` set es). P x)"
    by (simp only: fst_set_bt_insert)
  then show ?thesis by simp
qed

lemma bt_insert_wf: "bt_wf es \<Longrightarrow> bt_wf (bt_insert k v es)"
proof (induction k v es rule: bt_insert.induct)
  case (2 k v k' v' es)
  then show ?case by (auto simp: ball_bt_insert)
qed simp

lemma map_of_bt_insert: "bt_wf es \<Longrightarrow> map_of (bt_insert k v es) = (map_of es)(k \<mapsto> v)"
proof (induction k v es rule: bt_insert.induct)
  case (2 k v k' v' es)
  then show ?case by (auto simp: fun_eq_iff)
qed simp

lemma map_of_filter_fst: "map_of (filter (\<lambda>e. P (fst e)) es) k = (if P k then map_of es k else None)"
  by (induction es) auto

lemma bt_get_insert: "bt_wf es \<Longrightarrow> bt_get (bt_insert k v es) k' = (if k' = k then Some v else bt_get es k')"
  by (simp add: bt_get_def map_of_bt_insert)

lemma bt_get_remove: "bt_get (bt_remove k es) k' = (if k' = k then None else bt_get es k')"
  using map_of_filter_fst[of "\<lambda>x. x \<noteq> k" es k'] by (simp add: bt_get_def bt_remove_def)

lemma bt_get_between: "bt_get (bt_between es lo hi) k = (if lo \<le> k \<and> k < hi then bt_get es k else None)"
  using map_of_filter_fst[of "\<lambda>x. lo \<le> x \<and> x < hi" es k] by (simp add: bt_get_def bt_between_def)

lemma bt_get_filter: "bt_get (filter (\<lambda>e. W (fst e)) es) k = (if W k then bt_get es k else None)"
  using map_of_filter_fst[of W es k] by (simp add: bt_get_def)

lemma bt_filter_wf: "bt_wf es \<Longrightarrow> bt_wf (filter P es)"
  by (induction es) auto

lemma foldl_bt_remove: "foldl (\<lambda>m k. bt_remove k m) es ks = filter (\<lambda>e. fst e \<notin> set ks) es"
  by (induction ks arbitrary: es) (auto simp: bt_remove_def intro!: filter_cong)

section \<open>The contract of a store\<close>

locale ordered_store =
  fixes invar :: "'s \<Rightarrow> bool"
    and look :: "'s \<Rightarrow> bytes \<Rightarrow> bytes option"
    and put :: "'s \<Rightarrow> bytes \<Rightarrow> bytes \<Rightarrow> 's"
    and del :: "'s \<Rightarrow> bytes \<Rightarrow> 's"
    and del_range :: "'s \<Rightarrow> bytes \<Rightarrow> bytes \<Rightarrow> 's"
    and scan :: "'s \<Rightarrow> bytes \<Rightarrow> bytes \<Rightarrow> (bytes \<times> bytes) list"
  assumes put_invar: "invar s \<Longrightarrow> invar (put s k v)"
    and del_invar: "invar s \<Longrightarrow> invar (del s k)"
    and del_range_invar: "invar s \<Longrightarrow> invar (del_range s lo hi)"
    and look_put: "invar s \<Longrightarrow> look (put s k v) k' = (if k' = k then Some v else look s k')"
    and look_del: "invar s \<Longrightarrow> look (del s k) k' = (if k' = k then None else look s k')"
    and look_del_range: "invar s \<Longrightarrow> look (del_range s lo hi) k = (if lo \<le> k \<and> k < hi then None else look s k)"
    and scan_sorted: "invar s \<Longrightarrow> sorted_wrt (<) (map fst (scan s lo hi))"
    and scan_look: "invar s \<Longrightarrow> (k, v) \<in> set (scan s lo hi) \<longleftrightarrow> lo \<le> k \<and> k < hi \<and> look s k = Some v"
begin

lemma scan_after_put:
  "invar s \<Longrightarrow> lo \<le> k \<Longrightarrow> k < hi \<Longrightarrow> (k, v) \<in> set (scan (put s k v) lo hi)"
  by (simp add: scan_look put_invar look_put)

lemma scan_empty_interval: "invar s \<Longrightarrow> hi \<le> lo \<Longrightarrow> scan s lo hi = []"
proof -
  assume "invar s" "hi \<le> lo"
  then have "e \<notin> set (scan s lo hi)" for e
    using scan_look[of s "fst e" "snd e" lo hi] by auto
  then show ?thesis by (metis last_in_set)
qed

lemma scan_after_del_range: "invar s \<Longrightarrow> scan (del_range s lo hi) lo hi = []"
proof -
  assume s: "invar s"
  have "e \<notin> set (scan (del_range s lo hi) lo hi)" for e
    using scan_look[OF del_range_invar[OF s], of "fst e" "snd e" lo hi lo hi] look_del_range[OF s]
    by auto
  then show ?thesis by (metis last_in_set)
qed

text \<open>A scan is the only strictly ascending list of the entries in its interval.\<close>

lemma scan_unique:
  assumes "invar s" "sorted_wrt (<) (map fst es)"
    "\<And>k v. (k, v) \<in> set es \<longleftrightarrow> lo \<le> k \<and> k < hi \<and> look s k = Some v"
  shows "es = scan s lo hi"
proof -
  have keys: "map fst es = map fst (scan s lo hi)"
  proof (rule strict_sorted_equal)
    show "set (map fst es) = set (map fst (scan s lo hi))"
      using scan_look[OF assms(1)] assms(3) by (auto 4 4 simp: image_iff)
  qed (use assms scan_sorted in auto)
  have rebuild: "xs = map (\<lambda>k. (k, the (look s k))) (map fst xs)"
    if "\<forall>e \<in> set xs. look s (fst e) = Some (snd e)" for xs
    using that by (auto simp: comp_def intro!: map_idI[symmetric])
  have "es = map (\<lambda>k. (k, the (look s k))) (map fst es)"
    using assms(3) by (intro rebuild) auto
  also have "\<dots> = map (\<lambda>k. (k, the (look s k))) (map fst (scan s lo hi))" by (simp only: keys)
  also have "\<dots> = scan s lo hi"
    using scan_look[OF assms(1)] by (intro rebuild[symmetric]) auto
  finally show ?thesis .
qed

end

definition entries_del_range :: "(bytes, bytes) entries \<Rightarrow> bytes \<Rightarrow> bytes \<Rightarrow> (bytes, bytes) entries" where
  "entries_del_range es lower upper =
     (if lower \<ge> upper then es
      else foldl (\<lambda>m k. bt_remove k m) es (map fst (bt_between es lower upper)))"

definition entries_scan :: "(bytes, bytes) entries \<Rightarrow> bytes \<Rightarrow> bytes \<Rightarrow> (bytes, bytes) entries" where
  "entries_scan es lower upper = (if lower \<ge> upper then [] else bt_between es lower upper)"

lemma entries_scan_range: "entries_scan es lo hi = bt_between es lo hi"
  by (auto simp: entries_scan_def bt_between_def intro!: filter_False[symmetric])

lemma entries_del_range_filter:
  "entries_del_range es lo hi = filter (\<lambda>e. \<not> (lo \<le> fst e \<and> fst e < hi)) es"
proof (cases "lo \<ge> hi")
  case True
  then show ?thesis by (auto simp: entries_del_range_def intro!: filter_True[symmetric])
next
  case False
  then show ?thesis
    by (auto simp: entries_del_range_def foldl_bt_remove bt_between_def intro!: filter_cong)
qed

interpretation entries_store: ordered_store bt_wf bt_get "\<lambda>es k v. bt_insert k v es" "\<lambda>es k. bt_remove k es"
  entries_del_range entries_scan
proof
  fix es :: "(bytes, bytes) entries" and k v k' lo hi
  assume wf: "bt_wf es"
  show "bt_wf (bt_insert k v es)" using wf by (rule bt_insert_wf)
  show "bt_wf (bt_remove k es)" using wf by (simp add: bt_remove_def bt_filter_wf)
  show "bt_wf (entries_del_range es lo hi)" using wf by (simp add: entries_del_range_filter bt_filter_wf)
  show "bt_get (bt_insert k v es) k' = (if k' = k then Some v else bt_get es k')"
    using wf by (simp add: bt_get_def map_of_bt_insert)
  show "bt_get (bt_remove k es) k' = (if k' = k then None else bt_get es k')" by (rule bt_get_remove)
  show "bt_get (entries_del_range es lo hi) k = (if lo \<le> k \<and> k < hi then None else bt_get es k)"
    using map_of_filter_fst[of "\<lambda>x. \<not> (lo \<le> x \<and> x < hi)" es k] by (simp add: bt_get_def entries_del_range_filter)
  show "sorted_wrt (<) (map fst (entries_scan es lo hi))"
    using bt_filter_wf[OF wf] by (simp add: entries_scan_range bt_between_def bt_wf_def)
  show "(k, v) \<in> set (entries_scan es lo hi) \<longleftrightarrow> lo \<le> k \<and> k < hi \<and> bt_get es k = Some v"
    using bt_wf_distinct[OF wf] by (auto simp: entries_scan_range bt_between_def bt_get_def)
qed

text \<open>The session store's operations on an open transaction are these operations on its entries.\<close>

lemma temp_ops_open:
  assumes "tt_map t = Some es"
  shows "temp_get t k = Some (bt_get es k)"
    and "temp_put t k v = Some (t\<lparr>tt_map := Some (bt_insert k v es)\<rparr>)"
    and "temp_del t k = Some (t\<lparr>tt_map := Some (bt_remove k es)\<rparr>)"
    and "temp_del_range t lo hi = Some (t\<lparr>tt_map := Some (entries_del_range es lo hi)\<rparr>)"
    and "temp_range_scan t lo hi = Some (entries_scan es lo hi)"
  using assms
  by (simp_all add: temp_get_def temp_put_def temp_del_def temp_del_range_def temp_range_scan_def
      entries_del_range_def entries_scan_def bt_range_def less_imp_le Let_def)

lemma temp_seek_Some:
  assumes "bt_wf es"
  shows "temp_seek es upper target = Some (Some (k, v))
    \<longleftrightarrow> target \<le> k \<and> k < upper \<and> bt_get es k = Some v
      \<and> (\<forall>k'. target \<le> k' \<and> k' < k \<longrightarrow> bt_get es k' = None)"
proof -
  define r where "r = bt_between es target upper"
  have wf: "bt_wf r" by (simp add: r_def bt_between_def bt_filter_wf assms)
  have get: "bt_get r k = (if target \<le> k \<and> k < upper then bt_get es k else None)" for k
    by (simp add: r_def bt_get_between)
  show ?thesis
  proof (cases r)
    case Nil
    then show ?thesis using get[of k] by (auto simp: temp_seek_def bt_range_def r_def[symmetric] bt_get_def split: if_splits)
  next
    case (Cons e r')
    obtain k0 v0 where e: "e = (k0, v0)" by (cases e)
    have least: "k0 \<le> k'" if "bt_get r k' = Some v'" for k' v'
      using that wf Cons e by (fastforce simp: bt_get_def dest!: map_of_SomeD split: if_splits)
    have hit: "bt_get r k0 = Some v0" by (simp add: bt_get_def Cons e)
    then have range: "target \<le> k0" "k0 < upper" "bt_get es k0 = Some v0" using get[of k0] by (auto split: if_splits)
    have none: "bt_get es k' = None" if "target \<le> k'" "k' < k0" for k'
      using get[of k'] least[of k'] that range(2) by (cases "bt_get es k'") fastforce+
    show ?thesis
      using range none by (auto simp: temp_seek_def bt_range_def r_def[symmetric] Cons e) (metis linorder_neqE option.distinct(1) option.inject)+
  qed
qed

end
