(* ===== verification/Skip_Walk.thy ===== *)
theory Skip_Walk
  imports Bitemporal Ordered_Store
begin

text \<open>
  The bitemporal skip scan of \<open>crates/kyzo-core/src/store/skip_walk.rs\<close>: one cursor, re-seeked past every
  key the kernel has judged. \<open>skip_next\<close> is \<open>Iterator::next\<close>; a loop that never
  returned and a cursor that panics, as one over a \<open>BTreeMap\<close> does past its upper bound, would be \<open>None\<close>.
  A backend provides \<open>seek\<close>; what it promises is the locale \<open>seek_store\<close>, interpreted on the session
  store. Over a store of well-formed versions the walk ends, never fails, and yields exactly the
  versions a declarative reading of the two time axes makes visible.
\<close>

section \<open>The walk\<close>

datatype 'e walk_error = Kernel kernel_error | CursorFailed 'e

definition advance_past :: "bytes \<Rightarrow> bytes \<Rightarrow> bytes" where
  "advance_past examined candidate = (if candidate > examined then candidate else examined @ [0])"

partial_function (option) skip_next ::
  "(bytes \<Rightarrow> ('e + bytes \<times> bytes) option option) \<Rightarrow> bytes \<Rightarrow> as_of \<Rightarrow> bytes
     \<Rightarrow> (('e walk_error + tuple) option \<times> bytes) option" where
  "skip_next seek upper ao bound =
     (if bound \<ge> upper then Some (None, bound)
      else
        (case seek bound of None \<Rightarrow> None | Some hit \<Rightarrow>
        (case hit of
           None \<Rightarrow> Some (None, bound)
         | Some found \<Rightarrow>
             (case found of
                Inl e \<Rightarrow> Some (Some (Inl (CursorFailed e)), bound)
              | Inr kv \<Rightarrow>
                  (case claim_polarity_of_value (snd kv) of
                     Inl e \<Rightarrow> Some (Some (Inl (Kernel e)), bound)
                   | Inr polarity \<Rightarrow>
                       (case check_key_for_bitemporal (fst kv) polarity ao of
                          Inl e \<Rightarrow> Some (Some (Inl (Kernel e)), bound)
                        | Inr verdict \<Rightarrow>
                            (case fst verdict of
                               None \<Rightarrow> skip_next seek upper ao (advance_past (fst kv) (snd verdict))
                             | Some tup \<Rightarrow>
                                 Some (Some (map_err Kernel (extend_tuple_from_bitemporal_v tup (snd kv))),
                                   advance_past (fst kv) (snd verdict)))))))))"

text \<open>Draining the iterator, as a caller does, until it ends or fails.\<close>

partial_function (option) skip_collect ::
  "(bytes \<Rightarrow> ('e + bytes \<times> bytes) option option) \<Rightarrow> bytes \<Rightarrow> as_of \<Rightarrow> bytes
     \<Rightarrow> ('e walk_error + tuple list) option" where
  "skip_collect seek upper ao bound =
     Option.bind (skip_next seek upper ao bound) (\<lambda>step.
       (case fst step of
          None \<Rightarrow> Some (Inr [])
        | Some item \<Rightarrow>
            (case item of
               Inl e \<Rightarrow> Some (Inl e)
             | Inr tup \<Rightarrow>
                 Option.bind (skip_collect seek upper ao (snd step)) (\<lambda>rest.
                   Some (rbind rest (\<lambda>tups. Inr (tup # tups)))))))"

section \<open>What the two time axes mean\<close>

text \<open>
  A version is in view when neither instant is after the coordinate. Among the versions of one fact
  at one valid instant the latest recorded one in view governs. A version is visible when it governs,
  asserts, and every governing version of its fact at a later instant is an erasure.
\<close>

definition in_view :: "as_of \<Rightarrow> version \<Rightarrow> bool" where
  "in_view ao r \<longleftrightarrow> sint (vn_valid r) \<le> sint (ao_valid ao) \<and> sint (vn_sys r) \<le> sint (ao_sys ao)"

definition governs :: "version set \<Rightarrow> as_of \<Rightarrow> version \<Rightarrow> bool" where
  "governs R ao r \<longleftrightarrow> in_view ao r
     \<and> (\<forall>r' \<in> R. vn_cols r' = vn_cols r \<and> vn_valid r' = vn_valid r \<and> in_view ao r'
          \<longrightarrow> sint (vn_sys r') \<le> sint (vn_sys r))"

definition visible :: "version set \<Rightarrow> as_of \<Rightarrow> version \<Rightarrow> bool" where
  "visible R ao r \<longleftrightarrow> governs R ao r \<and> vn_polarity r = Assert
     \<and> (\<forall>r' \<in> R. governs R ao r' \<and> vn_cols r' = vn_cols r \<and> sint (vn_valid r) < sint (vn_valid r')
          \<longrightarrow> vn_polarity r' = Erase)"

text \<open>The stored form of a list of versions.\<close>

definition history_entries :: "relation_id \<Rightarrow> version list \<Rightarrow> (bytes, bytes) entries" where
  "history_entries rel rs = map (\<lambda>r. (version_key rel r, version_value r)) rs"

section \<open>The order of versions\<close>

lemma slot_key_eq:
  "slot_key rel c v s = raw_encode rel @ encode_tuple_bare c @ encode_owned (DValidity v) @ encode_owned (DValidity s)"
  by (simp add: slot_key_def scan_keys_eq del: encode_owned.simps)

lemma slot_key_less:
  assumes "row_wf c" "row_wf c'" "length c = length c'" "slot_wf v" "slot_wf s" "slot_wf v'" "slot_wf s'"
  shows "slot_key rel c v s < slot_key rel c' v' s'
    \<longleftrightarrow> encode_tuple_bare c < encode_tuple_bare c'
      \<or> c = c' \<and> (slot_cmp v v' = Less \<or> v = v' \<and> slot_cmp s s' = Less)"
proof -
  have "slot_key rel c v s < slot_key rel c' v' s' \<longleftrightarrow> ocmp (slot_key rel c v s) (slot_key rel c' v' s') = Less"
    by simp
  also have "ocmp (slot_key rel c v s) (slot_key rel c' v' s')
      = ord_then (ocmp (encode_tuple_bare c) (encode_tuple_bare c')) (ord_then (slot_cmp v v') (slot_cmp s s'))"
    unfolding slot_key_eq ocmp_append_same
    by (simp add: encode_tuple_law assms ocmp_slots encode_tuple_order del: encode_owned.simps)
  finally show ?thesis
    using slot_cmp_eq[OF assms(4,6)] encode_tuple_inject[OF assms(1,2)]
    by (simp add: ord_then_eq_Less)
qed

lemma stored_slot_cmp [simp]: "slot_cmp (stored_slot a) (stored_slot b) = Less \<longleftrightarrow> sint b < sint a"
  by (auto simp: slot_cmp_def ord_then_eq_Less ts_cmp_def bool_cmp_def)

lemma stored_slot_inject [simp]: "stored_slot a = stored_slot b \<longleftrightarrow> a = b"
  by (metis stored_slot_fields(1))

lemma terminal_slot_cmp [simp]:
  "slot_cmp (stored_slot a) (VValue TERMINAL_VALIDITY) = Less"
  "slot_cmp (VValue TERMINAL_VALIDITY) (stored_slot a) \<noteq> Less"
  "stored_slot a \<noteq> VValue TERMINAL_VALIDITY" "VValue TERMINAL_VALIDITY \<noteq> stored_slot a"
proof -
  show less: "slot_cmp (stored_slot a) (VValue TERMINAL_VALIDITY) = Less" by (simp add: slot_before_terminal)
  show "slot_cmp (VValue TERMINAL_VALIDITY) (stored_slot a) \<noteq> Less"
    using sint_bounds[of a] by (auto simp: slot_cmp_def TERMINAL_VALIDITY_def ts_cmp_def bool_cmp_def ord_then_eq_Less)
  show "stored_slot a \<noteq> VValue TERMINAL_VALIDITY" "VValue TERMINAL_VALIDITY \<noteq> stored_slot a"
    using less slot_cmp_eq[of "stored_slot a" "stored_slot a"] by auto
qed

section \<open>The kernel on versions\<close>

definition emits :: "as_of \<Rightarrow> version \<Rightarrow> bool" where
  "emits ao r \<longleftrightarrow> in_view ao r \<and> vn_polarity r = Assert"

definition next_key :: "relation_id \<Rightarrow> as_of \<Rightarrow> version \<Rightarrow> bytes" where
  "next_key rel ao r =
     (let terminal = VValue TERMINAL_VALIDITY in
      if sint (ao_valid ao) < sint (vn_valid r) then
        slot_key rel (vn_cols r) (stored_slot (ao_valid ao)) (stored_slot (ao_sys ao))
      else if sint (ao_sys ao) < sint (vn_sys r) then
        slot_key rel (vn_cols r) (stored_slot (vn_valid r)) (stored_slot (ao_sys ao))
      else if vn_polarity r = Erase then slot_key rel (vn_cols r) (stored_slot (vn_valid r)) terminal
      else slot_key rel (vn_cols r) terminal terminal)"

lemma decode_version_key:
  "version_wf r \<Longrightarrow> decode_tuple_from_key (version_key rel r)
    = Inr (vn_cols r @ [DValidity (stored_slot (vn_valid r)), DValidity (stored_slot (vn_sys r))])"
  by (simp add: decode_tuple_from_key_iff version_wf_def version_key_def slot_key_def scan_keys_eq
      del: encode_owned.simps)

lemma check_version:
  assumes "version_wf r"
  shows "check_key_for_bitemporal (version_key rel r) (vn_polarity r) ao
    = Inr (if emits ao r
           then Some (vn_cols r @ [DValidity (stored_slot (vn_valid r)), DValidity (stored_slot (vn_sys r))])
           else None, next_key rel ao r)"
proof -
  have key: "version_key rel r = (raw_encode rel @ encode_tuple_bare (vn_cols r))
      @ encode_owned (DValidity (stored_slot (vn_valid r))) @ encode_owned (DValidity (stored_slot (vn_sys r)))"
    by (simp add: version_key_def slot_key_eq del: encode_owned.simps)
  show ?thesis
    using decode_version_key[OF assms, of rel]
    unfolding key
    by (subst check_key_tail)
      (auto simp: next_key_def slot_key_eq emits_def in_view_def ts_cmp_def Let_def
        simp del: encode_owned.simps split: claim_polarity.split)
qed

lemma encode_tuple_bare_Nil_iff [simp]: "encode_tuple_bare row = [] \<longleftrightarrow> row = []"
  by (cases row) simp_all

lemma extend_version:
  assumes "version_wf r"
  shows "extend_tuple_from_bitemporal_v tup (version_value r) = Inr (tup @ vn_vals r)"
  using assms
  by (auto simp: extend_tuple_from_bitemporal_v_def version_value_def BITEMPORAL_VALUE_HEADER_LEN_def
      VALUE_HEADER_LEN_def Let_def version_wf_def decode_values_all_encode encode_tuple_bare_Nil_iff)

lemma advance_version: "version_wf r \<Longrightarrow> advance_past (version_key rel r) (next_key rel ao r) = next_key rel ao r"
  using check_key_advances[OF check_version] by (simp add: advance_past_def)

lemma next_key_greater: "version_wf r \<Longrightarrow> version_key rel r < next_key rel ao r"
  using check_key_advances[OF check_version] .

section \<open>The walk over a list of versions\<close>

function walk_rows :: "relation_id \<Rightarrow> as_of \<Rightarrow> version list \<Rightarrow> tuple list" where
  "walk_rows rel ao [] = []"
| "walk_rows rel ao (r # rs) =
     (if emits ao r then [version_row r] else [])
       @ walk_rows rel ao (filter (\<lambda>r'. next_key rel ao r \<le> version_key rel r') rs)"
  by pat_completeness auto

termination walk_rows
  by (relation "measure (\<lambda>(_, _, rs). length rs)") (auto simp: less_Suc_eq_le)

lemma version_key_less:
  assumes "version_wf r" "version_wf r'" "length (vn_cols r) = length (vn_cols r')"
  shows "version_key rel r < version_key rel r'
    \<longleftrightarrow> encode_tuple_bare (vn_cols r) < encode_tuple_bare (vn_cols r')
      \<or> vn_cols r = vn_cols r' \<and> (sint (vn_valid r') < sint (vn_valid r)
          \<or> vn_valid r = vn_valid r' \<and> sint (vn_sys r') < sint (vn_sys r))"
  using assms unfolding version_key_def
  by (subst slot_key_less) (simp_all add: version_wf_def storable_wf)

text \<open>The versions after \<open>r\<close> that the kernel's next key passes over, and those it keeps.\<close>

lemma next_key_le:
  assumes "version_wf r" "version_wf r'" "length (vn_cols r) = length (vn_cols r')"
    "version_key rel r < version_key rel r'"
  shows "next_key rel ao r \<le> version_key rel r'
    \<longleftrightarrow> vn_cols r' \<noteq> vn_cols r
      \<or> (if sint (ao_valid ao) < sint (vn_valid r)
         then sint (vn_valid r') < sint (ao_valid ao)
           \<or> vn_valid r' = ao_valid ao \<and> sint (vn_sys r') \<le> sint (ao_sys ao)
         else if sint (ao_sys ao) < sint (vn_sys r)
         then vn_valid r' \<noteq> vn_valid r \<or> sint (vn_sys r') \<le> sint (ao_sys ao)
         else vn_polarity r = Erase \<and> vn_valid r' \<noteq> vn_valid r)"
proof -
  have wf: "row_wf (vn_cols r)" "row_wf (vn_cols r')" using assms by (simp_all add: version_wf_def storable_wf)
  have le: "slot_key rel (vn_cols r) v s \<le> version_key rel r'
      \<longleftrightarrow> vn_cols r' \<noteq> vn_cols r \<or> \<not> (slot_cmp (stored_slot (vn_valid r')) v = Less
          \<or> stored_slot (vn_valid r') = v \<and> slot_cmp (stored_slot (vn_sys r')) s = Less)"
    if "slot_wf v" "slot_wf s" for v s
  proof -
    have "\<not> encode_tuple_bare (vn_cols r') < encode_tuple_bare (vn_cols r)"
      using assms(4) version_key_less[OF assms(1,2,3)] by auto
    then show ?thesis
      unfolding not_less[symmetric] version_key_def
      by (subst slot_key_less) (use wf assms(3) that in auto)
  qed
  show ?thesis
    using assms(4) unfolding version_key_less[OF assms(1,2,3)] next_key_def Let_def
    by (auto simp: le not_less sint_inject)
qed

text \<open>
  What the walk has left behind says nothing about what remains: a passed version in view shares no
  instant with a remaining version of its fact, and governs only by erasing.
\<close>

definition settled :: "version set \<Rightarrow> as_of \<Rightarrow> version list \<Rightarrow> bool" where
  "settled R ao rs \<longleftrightarrow> (\<forall>c \<in> R - set rs. \<forall>r \<in> set rs. vn_cols c = vn_cols r \<and> in_view ao c
     \<longrightarrow> vn_valid c \<noteq> vn_valid r \<and> (governs R ao c \<longrightarrow> vn_polarity c = Erase))"

definition versions_ok :: "nat \<Rightarrow> version set \<Rightarrow> bool" where
  "versions_ok arity R \<longleftrightarrow> (\<forall>r \<in> R. version_wf r \<and> length (vn_cols r) = arity)"

lemma versions_ok_less:
  assumes "versions_ok arity R" "r \<in> R" "r' \<in> R"
  shows "version_key rel r < version_key rel r'
    \<longleftrightarrow> encode_tuple_bare (vn_cols r) < encode_tuple_bare (vn_cols r')
      \<or> vn_cols r = vn_cols r' \<and> (sint (vn_valid r') < sint (vn_valid r)
          \<or> vn_valid r = vn_valid r' \<and> sint (vn_sys r') < sint (vn_sys r))"
  by (rule version_key_less) (use assms in \<open>auto simp: versions_ok_def\<close>)

lemma versions_ok_next:
  assumes "versions_ok arity R" "r \<in> R" "r' \<in> R" "version_key rel r < version_key rel r'"
  shows "next_key rel ao r \<le> version_key rel r'
    \<longleftrightarrow> vn_cols r' \<noteq> vn_cols r
      \<or> (if sint (ao_valid ao) < sint (vn_valid r)
         then sint (vn_valid r') < sint (ao_valid ao)
           \<or> vn_valid r' = ao_valid ao \<and> sint (vn_sys r') \<le> sint (ao_sys ao)
         else if sint (ao_sys ao) < sint (vn_sys r)
         then vn_valid r' \<noteq> vn_valid r \<or> sint (vn_sys r') \<le> sint (ao_sys ao)
         else vn_polarity r = Erase \<and> vn_valid r' \<noteq> vn_valid r)"
  by (rule next_key_le) (use assms in \<open>auto simp: versions_ok_def\<close>)

text \<open>A stage of the walk: a strictly ascending list of versions of \<open>R\<close> with the rest settled.\<close>

definition stage :: "nat \<Rightarrow> version set \<Rightarrow> relation_id \<Rightarrow> as_of \<Rightarrow> version list \<Rightarrow> bool" where
  "stage arity R rel ao rs \<longleftrightarrow> versions_ok arity R \<and> set rs \<subseteq> R
     \<and> sorted_wrt (<) (map (version_key rel) rs) \<and> settled R ao rs"

lemma stage_head:
  assumes "stage arity R rel ao (r # rs)"
  shows "versions_ok arity R" "r \<in> R" "\<And>d. d \<in> set rs \<Longrightarrow> d \<in> R \<and> version_key rel r < version_key rel d"
  using assms by (auto simp: stage_def)

lemma stage_settled:
  assumes "stage arity R rel ao rs" "c \<in> R" "c \<notin> set rs" "r \<in> set rs" "vn_cols c = vn_cols r" "in_view ao c"
  shows "vn_valid c \<noteq> vn_valid r" "governs R ao c \<Longrightarrow> vn_polarity c = Erase"
  using assms unfolding stage_def settled_def by blast+

lemma head_governs:
  assumes st: "stage arity R rel ao (r # rs)" and view: "in_view ao r"
  shows "governs R ao r"
  unfolding governs_def
proof (intro conjI ballI impI)
  fix r' assume r': "r' \<in> R" "vn_cols r' = vn_cols r \<and> vn_valid r' = vn_valid r \<and> in_view ao r'"
  show "sint (vn_sys r') \<le> sint (vn_sys r)"
  proof (cases "r' \<in> set rs")
    case True
    then show ?thesis
      using stage_head[OF st] versions_ok_less[OF stage_head(1)[OF st], of r r' rel] r' by auto
  next
    case False
    then show ?thesis using stage_settled(1)[OF st, of r' r] r' by (cases "r' = r") auto
  qed
qed (rule view)

lemma head_visible:
  assumes st: "stage arity R rel ao (r # rs)"
  shows "visible R ao r \<longleftrightarrow> emits ao r"
proof
  assume e: "emits ao r"
  then have g: "governs R ao r" using head_governs[OF st] by (simp add: emits_def)
  have "vn_polarity r' = Erase"
    if r': "r' \<in> R" "governs R ao r'" "vn_cols r' = vn_cols r" "sint (vn_valid r) < sint (vn_valid r')" for r'
  proof (cases "r' \<in> set rs")
    case True
    then have "version_key rel r < version_key rel r'" using stage_head(3)[OF st] by blast
    then show ?thesis using versions_ok_less[OF stage_head(1)[OF st] stage_head(2)[OF st] r'(1), of rel] r' by auto
  next
    case False
    with r' have "r' \<notin> set (r # rs)" by auto
    then show ?thesis using stage_settled(2)[OF st r'(1), of r] r' by (simp add: governs_def)
  qed
  with e g show "visible R ao r" by (auto simp: visible_def emits_def)
qed (auto simp: visible_def governs_def emits_def)

lemma passed_over:
  assumes st: "stage arity R rel ao (r # rs)" and d: "d \<in> set rs" "\<not> next_key rel ao r \<le> version_key rel d"
  shows "vn_cols d = vn_cols r" "in_view ao d \<Longrightarrow> in_view ao r"
    "in_view ao d \<Longrightarrow> vn_valid d = vn_valid r \<Longrightarrow> \<not> governs R ao d" "\<not> visible R ao d"
    "in_view ao d \<Longrightarrow> vn_polarity r = Erase \<Longrightarrow> vn_valid d = vn_valid r"
proof -
  have in_R: "r \<in> R" "d \<in> R" and less: "version_key rel r < version_key rel d"
    using stage_head[OF st] d(1) by auto
  note le = d(2)[unfolded versions_ok_next[OF stage_head(1)[OF st] in_R less]]
  note lt = less[unfolded versions_ok_less[OF stage_head(1)[OF st] in_R]]
  show cols: "vn_cols d = vn_cols r" using le by blast
  show view: "in_view ao d \<Longrightarrow> in_view ao r" using le by (auto simp: in_view_def sint_inject split: if_splits)
  show same: "in_view ao d \<Longrightarrow> vn_valid d = vn_valid r \<Longrightarrow> \<not> governs R ao d"
    using view lt cols in_R(1) by (auto simp: governs_def)
  show "in_view ao d \<Longrightarrow> vn_polarity r = Erase \<Longrightarrow> vn_valid d = vn_valid r"
    using le view by (auto simp: in_view_def split: if_splits)
  have other: "\<not> visible R ao d" if v: "in_view ao d" "vn_valid d \<noteq> vn_valid r"
  proof -
    have "sint (vn_valid d) < sint (vn_valid r)" using lt cols v(2) by auto
    moreover have "vn_polarity r \<noteq> Erase" using le view[OF v(1)] v(2) by (auto simp: in_view_def split: if_splits)
    moreover have "governs R ao r" using head_governs[OF st view[OF v(1)]] .
    ultimately show ?thesis using cols in_R(1) unfolding visible_def by auto
  qed
  show "\<not> visible R ao d"
  proof
    assume v: "visible R ao d"
    then have "in_view ao d" "governs R ao d" by (auto simp: visible_def governs_def)
    with same other v show False by blast
  qed
qed

abbreviation kept_after :: "relation_id \<Rightarrow> as_of \<Rightarrow> version \<Rightarrow> version list \<Rightarrow> version list" where
  "kept_after rel ao r rs \<equiv> filter (\<lambda>r'. next_key rel ao r \<le> version_key rel r') rs"

lemma kept_same_fact:
  assumes st: "stage arity R rel ao (r # rs)" and k: "k \<in> set (kept_after rel ao r rs)"
    and "vn_cols k = vn_cols r" "in_view ao r"
  shows "vn_polarity r = Erase" "vn_valid k \<noteq> vn_valid r"
proof -
  have k': "k \<in> R" "version_key rel r < version_key rel k" using stage_head(3)[OF st] k by auto
  have "next_key rel ao r \<le> version_key rel k" using k by simp
  then show "vn_polarity r = Erase" "vn_valid k \<noteq> vn_valid r"
    using assms(3,4) unfolding versions_ok_next[OF stage_head(1,2)[OF st] k'] by (auto simp: in_view_def)
qed

lemma stage_step:
  assumes st: "stage arity R rel ao (r # rs)"
  shows "stage arity R rel ao (kept_after rel ao r rs)"
proof -
  have "vn_valid c \<noteq> vn_valid k \<and> (governs R ao c \<longrightarrow> vn_polarity c = Erase)"
    if c: "c \<in> R" "c \<notin> set (kept_after rel ao r rs)" and k: "k \<in> set (kept_after rel ao r rs)"
      and ck: "vn_cols c = vn_cols k" "in_view ao c" for c k
  proof -
    consider "c = r" | "c \<in> set rs" "\<not> next_key rel ao r \<le> version_key rel c" | "c \<notin> set (r # rs)"
      using c by auto
    then show ?thesis
    proof cases
      case 1
      with kept_same_fact[OF st k] ck show ?thesis by auto
    next
      case 2
      note p = passed_over[OF st 2]
      have r: "vn_cols k = vn_cols r" "in_view ao r" using p ck by auto
      from kept_same_fact[OF st k r] p ck show ?thesis by auto
    next
      case 3
      with stage_settled[OF st c(1) 3, of k] k ck show ?thesis by auto
    qed
  qed
  then have "settled R ao (kept_after rel ao r rs)" unfolding settled_def by blast
  then show ?thesis using st by (auto simp: stage_def sorted_wrt_map intro: sorted_wrt_filter)
qed

lemma walk_rows_visible:
  "stage arity R rel ao rs \<Longrightarrow> walk_rows rel ao rs = map version_row (filter (visible R ao) rs)"
proof (induction rel ao rs rule: walk_rows.induct)
  case (2 rel ao r rs)
  have "filter (visible R ao) (kept_after rel ao r rs) = filter (visible R ao) rs"
    using passed_over(4)[OF "2.prems"] by (auto intro!: filter_cong)
  with 2 stage_step[OF "2.prems"] head_visible[OF "2.prems"] show ?case by simp
qed simp

section \<open>The walk over a store\<close>

text \<open>How many entries a walk at a bound still has before it.\<close>

definition remaining :: "(bytes, bytes) entries \<Rightarrow> bytes \<Rightarrow> bytes \<Rightarrow> nat" where
  "remaining es upper b = length (filter (\<lambda>e. b \<le> fst e \<and> fst e < upper) es)"

lemma advance_past_greater: "examined < advance_past examined candidate"
proof -
  have "ocmp examined (examined @ [0]) = Less" using ocmp_append_same[of examined "[]" "[0]"] by simp
  then show ?thesis by (simp add: advance_past_def)
qed

lemma find_filter: "List.find P xs = (case filter P xs of [] \<Rightarrow> None | x # _ \<Rightarrow> Some x)"
  by (induction xs) auto

text \<open>What the walk relies on: a cursor finds the first entry at or after its target, below the bound.\<close>

locale seek_store =
  fixes invar :: "'s \<Rightarrow> bool"
    and contents :: "'s \<Rightarrow> (bytes, bytes) entries"
    and seek :: "'s \<Rightarrow> bytes \<Rightarrow> bytes \<Rightarrow> ('e + bytes \<times> bytes) option option"
  assumes contents_wf: "invar s \<Longrightarrow> bt_wf (contents s)"
    and seek_first: "invar s \<Longrightarrow> target < upper
      \<Longrightarrow> seek s upper target = Some (map_option Inr (List.find (\<lambda>e. target \<le> fst e \<and> fst e < upper) (contents s)))"
begin

lemma seek_range:
  assumes "invar s" "lower \<le> target" "target < upper"
  shows "seek s upper target
    = Some (case filter (\<lambda>e. target \<le> fst e) (bt_between (contents s) lower upper) of [] \<Rightarrow> None | e # _ \<Rightarrow> Some (Inr e))"
proof -
  have "filter (\<lambda>e. target \<le> fst e \<and> fst e < upper) (contents s)
      = filter (\<lambda>e. target \<le> fst e) (bt_between (contents s) lower upper)"
    using assms(2) by (auto simp: bt_between_def intro!: filter_cong)
  then show ?thesis by (simp add: seek_first[OF assms(1,3)] find_filter split: list.split)
qed

lemma seek_history:
  assumes "invar s" "bt_between (contents s) lower upper = history_entries rel rs" "lower \<le> target" "target < upper"
  shows "seek s upper target
    = Some (case filter (\<lambda>r. target \<le> version_key rel r) rs of
         [] \<Rightarrow> None | r # _ \<Rightarrow> Some (Inr (version_key rel r, version_value r)))"
  unfolding seek_range[OF assms(1,3,4)] assms(2) history_entries_def filter_map
  by (simp add: comp_def split: list.split)

lemma next_history:
  assumes "invar s" "bt_between (contents s) lower upper = history_entries rel rs" "lower \<le> b" "b < upper"
    "\<forall>r \<in> set rs. version_wf r" "filter (\<lambda>r. b \<le> version_key rel r) rs = r # rest"
  shows "skip_next (seek s upper) upper ao b
    = (if emits ao r then Some (Some (Inr (version_row r)), next_key rel ao r)
       else skip_next (seek s upper) upper ao (next_key rel ao r))"
proof -
  have "r \<in> set (filter (\<lambda>r. b \<le> version_key rel r) rs)" by (simp add: assms(6))
  then have wf: "version_wf r" using assms(5) by simp
  have s: "seek s upper b = Some (Some (Inr (version_key rel r, version_value r)))"
    using seek_history[OF assms(1,2,3,4)] assms(6) by simp
  have p: "claim_polarity_of_value (version_value r) = Inr (vn_polarity r)"
    by (simp add: version_value_def polarity_round_trip)
  have nle: "\<not> upper \<le> b" using assms(4) by simp
  show ?thesis
    by (subst skip_next.simps)
      (simp add: nle s p check_version[OF wf] extend_version[OF wf] advance_version[OF wf] version_row_def)
qed

lemma kept_shorter:
  assumes "filter (\<lambda>r. b \<le> version_key rel r) rs = r # rest" "version_wf r"
  shows "filter (\<lambda>r'. next_key rel ao r \<le> version_key rel r') rs
       = filter (\<lambda>r'. next_key rel ao r \<le> version_key rel r') rest"
proof -
  have r: "b \<le> version_key rel r" using assms(1) by (metis (mono_tags) filter_eq_Cons_iff)
  have gt: "version_key rel r < next_key rel ao r" using next_key_greater[OF assms(2)] .
  have "filter (\<lambda>r'. next_key rel ao r \<le> version_key rel r') rs
      = filter (\<lambda>r'. next_key rel ao r \<le> version_key rel r') (filter (\<lambda>r. b \<le> version_key rel r) rs)"
    using r gt by (auto intro!: filter_cong)
  with gt show ?thesis by (simp add: assms(1) not_le)
qed

lemma collect_history:
  assumes "invar s" "bt_between (contents s) lower upper = history_entries rel rs" "\<forall>r \<in> set rs. version_wf r"
  shows "lower \<le> b \<Longrightarrow> skip_collect (seek s upper) upper ao b
    = Some (Inr (walk_rows rel ao (filter (\<lambda>r. b \<le> version_key rel r) rs)))"
proof (induction "length (filter (\<lambda>r. b \<le> version_key rel r) rs)" arbitrary: b rule: less_induct)
  case less
  have below: "version_key rel r < upper" if "r \<in> set rs" for r
  proof -
    have "(version_key rel r, version_value r) \<in> set (bt_between (contents s) lower upper)"
      unfolding assms(2) history_entries_def using that by auto
    then show ?thesis by (simp add: bt_between_def)
  qed
  show ?case
  proof (cases "filter (\<lambda>r. b \<le> version_key rel r) rs")
    case Nil
    have "skip_next (seek s upper) upper ao b = Some (None, b)"
      by (subst skip_next.simps) (auto simp: seek_history[OF assms(1,2) less.prems] Nil not_le)
    then show ?thesis by (subst skip_collect.simps) (simp add: Nil)
  next
    case (Cons r rest)
    then have r: "r \<in> set rs" "b \<le> version_key rel r" by (metis filter_eq_Cons_iff in_set_conv_decomp, metis (mono_tags) filter_eq_Cons_iff)
    then have b: "b < upper" using below by (auto intro: order.strict_trans1)
    have wf: "version_wf r" using assms(3) r by blast
    let ?n = "next_key rel ao r"
    have n: "lower \<le> ?n" using less.prems r(2) next_key_greater[OF wf, of rel ao] by (meson order.trans less_imp_le)
    have keep: "filter (\<lambda>r'. ?n \<le> version_key rel r') rs = filter (\<lambda>r'. ?n \<le> version_key rel r') rest"
      by (rule kept_shorter[OF Cons wf])
    then have "length (filter (\<lambda>r'. ?n \<le> version_key rel r') rs) < length (filter (\<lambda>r. b \<le> version_key rel r) rs)"
      by (simp add: Cons less_Suc_eq_le)
    from less.hyps[OF this n] have IH: "skip_collect (seek s upper) upper ao ?n
        = Some (Inr (walk_rows rel ao (filter (\<lambda>r'. ?n \<le> version_key rel r') rest)))" by (simp only: keep)
    note nx = next_history[OF assms(1,2) less.prems b assms(3) Cons, of ao]
    show ?thesis
    proof (cases "emits ao r")
      case True
      with nx IH show ?thesis by (subst skip_collect.simps) (simp add: Cons)
    next
      case False
      then have "skip_collect (seek s upper) upper ao b = skip_collect (seek s upper) upper ao ?n"
        using nx by (subst (1 2) skip_collect.simps) simp
      with IH False show ?thesis by (simp add: Cons)
    qed
  qed
qed

lemma scan_resolves:
  assumes "invar s" "bt_between (contents s) lower upper = history_entries rel rs" "versions_ok arity (set rs)"
  shows "skip_collect (seek s upper) upper ao lower
    = Some (Inr (map version_row (filter (visible (set rs) ao) rs)))"
proof -
  have es: "history_entries rel rs = filter (\<lambda>e. lower \<le> fst e \<and> fst e < upper) (contents s)"
    using assms(2) by (simp add: bt_between_def)
  have "bt_wf (history_entries rel rs)" unfolding es by (rule bt_filter_wf[OF contents_wf[OF assms(1)]])
  then have sorted: "sorted_wrt (<) (map (version_key rel) rs)"
    by (simp add: bt_wf_def history_entries_def comp_def)
  have "lower \<le> version_key rel r" if "r \<in> set rs" for r
  proof -
    have "(version_key rel r, version_value r) \<in> set (history_entries rel rs)"
      unfolding history_entries_def using that by auto
    then show ?thesis unfolding es by simp
  qed
  then have all: "filter (\<lambda>r. lower \<le> version_key rel r) rs = rs" by (simp add: filter_id_conv)
  have "stage arity (set rs) rel ao rs" using assms(3) sorted by (simp add: stage_def settled_def)
  from walk_rows_visible[OF this] collect_history[OF assms(1,2), of lower ao] assms(3) all
  show ?thesis by (simp add: versions_ok_def)
qed

text \<open>Whatever the store holds, corrupt rows included, the walk moves strictly forward and so ends.\<close>

lemma seek_found:
  assumes "invar s" "b < upper" "seek s upper b = Some (Some (Inr kv))"
  shows "b \<le> fst kv" "fst kv < b' \<Longrightarrow> remaining (contents s) upper b' < remaining (contents s) upper b"
proof -
  from assms have f: "List.find (\<lambda>e. b \<le> fst e \<and> fst e < upper) (contents s) = Some kv"
    by (auto simp: seek_first)
  then have kv: "kv \<in> set (contents s)" "b \<le> fst kv" "fst kv < upper"
    by (auto simp: find_Some_iff in_set_conv_nth)
  then show "b \<le> fst kv" by simp
  show "remaining (contents s) upper b' < remaining (contents s) upper b" if "fst kv < b'"
  proof -
    have "filter (\<lambda>e. b' \<le> fst e \<and> fst e < upper) (contents s)
        = filter (\<lambda>e. b' \<le> fst e) (filter (\<lambda>e. b \<le> fst e \<and> fst e < upper) (contents s))"
      using that kv(2) by (auto intro!: filter_cong)
    moreover have "kv \<in> set (filter (\<lambda>e. b \<le> fst e \<and> fst e < upper) (contents s))" "\<not> b' \<le> fst kv"
      using kv that by auto
    ultimately show ?thesis unfolding remaining_def by (metis (no_types, lifting) length_filter_less)
  qed
qed

lemma next_ends:
  assumes "invar s"
  shows "\<exists>item b'. skip_next (seek s upper) upper ao b = Some (item, b')
    \<and> (\<forall>tup. item = Some (Inr tup) \<longrightarrow> remaining (contents s) upper b' < remaining (contents s) upper b)"
proof (induction "remaining (contents s) upper b" arbitrary: b rule: less_induct)
  case less
  show ?case
  proof (cases "\<not> upper \<le> b \<and> (\<exists>kv p nxt. seek s upper b = Some (Some (Inr kv))
      \<and> claim_polarity_of_value (snd kv) = Inr p \<and> check_key_for_bitemporal (fst kv) p ao = Inr (None, nxt))")
    case True
    then obtain kv p nxt where k: "\<not> upper \<le> b" "seek s upper b = Some (Some (Inr kv))"
      "claim_polarity_of_value (snd kv) = Inr p" "check_key_for_bitemporal (fst kv) p ao = Inr (None, nxt)" by blast
    have "skip_next (seek s upper) upper ao b = skip_next (seek s upper) upper ao (advance_past (fst kv) nxt)"
      by (subst skip_next.simps) (simp add: k)
    moreover have "b < upper" using k(1) by simp
    note lt = seek_found(2)[OF assms this k(2) advance_past_greater]
    moreover note less[OF lt, of nxt]
    ultimately show ?thesis by (fastforce dest: order.strict_trans[OF _ lt])
  next
    case False
    then show ?thesis
      using seek_found(2)[OF assms _ _ advance_past_greater] seek_first[OF assms, of b upper]
      by (subst skip_next.simps) (auto simp: not_le split: option.splits sum.splits)
  qed
qed

lemma walk_ends:
  assumes "invar s"
  shows "\<exists>res. skip_collect (seek s upper) upper ao b = Some res"
proof (induction "remaining (contents s) upper b" arbitrary: b rule: less_induct)
  case less
  obtain item b' where n: "skip_next (seek s upper) upper ao b = Some (item, b')"
    "\<And>tup. item = Some (Inr tup) \<Longrightarrow> remaining (contents s) upper b' < remaining (contents s) upper b"
    using next_ends[OF assms] by blast
  with less show ?case by (subst skip_collect.simps) (fastforce split: option.splits sum.splits)
qed

end

interpretation temp_seek_store: seek_store bt_wf "\<lambda>es. es" "\<lambda>es upper target. map_option (map_option Inr) (temp_seek es upper target)"
  by unfold_locales (simp_all add: temp_seek_def bt_range_def bt_between_def find_filter split: list.split)

end
