(* ===== verification/System_Clock.thy ===== *)
theory System_Clock
  imports Interval_Kind
begin

text \<open>
  The stamp clock of \<open>crates/kyzo-core/src/store/contract.rs\<close>. \<open>SystemClock::stamp\<close>
  is a compare-and-exchange loop on one shared \<open>AtomicI64\<close>; threads running it, and calls of
  \<open>raise_floor\<close>, interleave as the steps of \<open>clock_step\<close>.
\<close>

section \<open>One thread's arithmetic\<close>

datatype clock_refuse = StampSpaceExhausted

definition i64_sup :: "i64 \<Rightarrow> i64 \<Rightarrow> i64" where
  "i64_sup a b = (if sint a \<le> sint b then b else a)"

definition clock_candidate :: "i64 \<Rightarrow> i64 \<Rightarrow> clock_refuse + i64" where
  "clock_candidate seen now =
     (case checked_add1 seen of
        None \<Rightarrow> Inl StampSpaceExhausted
      | Some after_last \<Rightarrow> Inr (i64_sup after_last now))"

definition raise_floor :: "i64 \<Rightarrow> i64 \<Rightarrow> i64" where
  "raise_floor clock to = i64_sup clock to"

section \<open>Interleaved threads\<close>

text \<open>A thread inside \<open>stamp\<close> holds its wall-clock argument and the last value it saw.\<close>

datatype stamping = Idle | Stamping i64 i64

record clock_state =
  ck_value :: i64
  ck_threads :: "nat \<Rightarrow> stamping"
  ck_minted :: "i64 list"
  ck_refused :: nat

inductive clock_step :: "clock_state \<Rightarrow> clock_state \<Rightarrow> bool" where
  load: "ck_threads s t = Idle
    \<Longrightarrow> clock_step s (s\<lparr>ck_threads := (ck_threads s)(t := Stamping now (ck_value s))\<rparr>)"
| refuse: "ck_threads s t = Stamping now seen \<Longrightarrow> clock_candidate seen now = Inl StampSpaceExhausted
    \<Longrightarrow> clock_step s (s\<lparr>ck_threads := (ck_threads s)(t := Idle), ck_refused := Suc (ck_refused s)\<rparr>)"
| exchange: "ck_threads s t = Stamping now seen \<Longrightarrow> clock_candidate seen now = Inr nxt
    \<Longrightarrow> ck_value s = seen
    \<Longrightarrow> clock_step s (s\<lparr>ck_value := nxt, ck_threads := (ck_threads s)(t := Idle),
          ck_minted := ck_minted s @ [nxt]\<rparr>)"
| retry: "ck_threads s t = Stamping now seen \<Longrightarrow> clock_candidate seen now = Inr nxt
    \<Longrightarrow> clock_step s (s\<lparr>ck_threads := (ck_threads s)(t := Stamping now (ck_value s))\<rparr>)"
| raise: "clock_step s (s\<lparr>ck_value := raise_floor (ck_value s) to\<rparr>)"

inductive clock_run :: "clock_state \<Rightarrow> clock_state \<Rightarrow> bool" where
  start: "clock_run s s"
| step: "clock_run s s' \<Longrightarrow> clock_step s' s'' \<Longrightarrow> clock_run s s''"

definition clock_new :: "i64 \<Rightarrow> clock_state" where
  "clock_new base = \<lparr>ck_value = base, ck_threads = (\<lambda>_. Idle), ck_minted = [], ck_refused = 0\<rparr>"

inductive_cases clock_stepE: "clock_step s s'"

lemma i64_sup_ge: "sint a \<le> sint (i64_sup a b)" "sint b \<le> sint (i64_sup a b)"
  by (simp_all add: i64_sup_def)

lemma sint_after: "checked_add1 a = Some b \<Longrightarrow> sint b = sint a + 1"
  by (auto simp: checked_add1_def sint_add1 split: if_splits)

lemma clock_candidate_greater:
  assumes "clock_candidate seen now = Inr nxt"
  shows "sint seen < sint nxt" "sint now \<le> sint nxt"
proof -
  from assms obtain a where a: "checked_add1 seen = Some a" "nxt = i64_sup a now"
    by (auto simp: clock_candidate_def split: option.splits)
  from i64_sup_ge(1)[of a now] i64_sup_ge(2)[of now a] sint_after[OF a(1)] a(2)
  show "sint seen < sint nxt" "sint now \<le> sint nxt" by simp_all
qed

lemma i64_max_top: "sint (i64_max :: i64) \<le> sint a \<Longrightarrow> a = i64_max" for a :: i64
  using sint_bounds[of a] sint_inject[of a i64_max] by simp

lemma clock_candidate_refuses: "clock_candidate seen now = Inl e \<longleftrightarrow> seen = i64_max"
proof -
  have "sint seen = 2 ^ 63 - 1 \<longleftrightarrow> seen = i64_max"
    using sint_inject[of seen i64_max] by simp
  then show ?thesis by (cases e) (simp add: clock_candidate_def checked_add1_def)
qed

section \<open>The invariant\<close>

definition clock_inv :: "i64 \<Rightarrow> clock_state \<Rightarrow> bool" where
  "clock_inv base s \<longleftrightarrow>
     sint base \<le> sint (ck_value s)
     \<and> sorted_wrt (\<lambda>a b. sint a < sint b) (ck_minted s)
     \<and> (\<forall>m \<in> set (ck_minted s). sint base < sint m \<and> sint m \<le> sint (ck_value s))
     \<and> (\<forall>t now seen. ck_threads s t = Stamping now seen \<longrightarrow> sint seen \<le> sint (ck_value s))
     \<and> (0 < ck_refused s \<longrightarrow> ck_value s = i64_max)"

lemma clock_inv_new: "clock_inv base (clock_new base)"
  by (simp add: clock_inv_def clock_new_def)

lemma clock_inv_step:
  assumes "clock_step s s'" "clock_inv base s"
  shows "clock_inv base s' \<and> sint (ck_value s) \<le> sint (ck_value s')"
  using assms
proof (cases rule: clock_step.cases)
  case (refuse t now seen)
  then have "seen = i64_max" by (simp add: clock_candidate_refuses)
  moreover have "sint seen \<le> sint (ck_value s)" using assms(2) refuse unfolding clock_inv_def by blast
  ultimately have "ck_value s = i64_max" by (simp only: i64_max_top)
  with refuse assms(2) show ?thesis by (auto simp: clock_inv_def)
next
  case (exchange t now seen nxt)
  note gt = clock_candidate_greater[OF exchange(3)]
  have "ck_value s \<noteq> i64_max" using exchange clock_candidate_refuses[of seen now StampSpaceExhausted] by auto
  with exchange gt assms(2) show ?thesis by (fastforce simp: clock_inv_def sorted_wrt_append)
next
  case (raise to)
  have "sint (ck_value s) \<le> sint (raise_floor (ck_value s) to)" by (simp add: raise_floor_def i64_sup_ge)
  moreover have "raise_floor i64_max to = i64_max"
    using i64_max_top[of to] by (simp only: raise_floor_def i64_sup_def split: if_split) blast
  ultimately show ?thesis using raise assms(2) by (fastforce simp: clock_inv_def)
qed (auto simp: clock_inv_def)

lemma clock_inv_run: "clock_run s s' \<Longrightarrow> clock_inv base s \<Longrightarrow> clock_inv base s'"
  by (induction rule: clock_run.induct) (auto dest: clock_inv_step)

lemma clock_candidate_exact:
  "seen \<noteq> i64_max \<Longrightarrow> sint seen < sint now \<Longrightarrow> clock_candidate seen now = Inr now"
proof -
  assume "seen \<noteq> i64_max" "sint seen < sint now"
  then obtain n where n: "clock_candidate seen now = Inr n"
    using clock_candidate_refuses[of seen now] by (cases "clock_candidate seen now") auto
  then obtain a where a: "checked_add1 seen = Some a" "n = i64_sup a now"
    by (auto simp: clock_candidate_def split: option.splits)
  with sint_after[OF a(1)] \<open>sint seen < sint now\<close> n show ?thesis by (simp add: i64_sup_def)
qed

end
