(* ===== verification/Format_Version.thy ===== *)
theory Format_Version
  imports Byte_Strings
begin

text \<open>
  The format stamp of \<open>crates/kyzo-core/src/store/contract.rs\<close>: a \<open>u16\<close> written in ASCII decimal. Parsing
  goes through \<open>u16::from_str\<close>, which also takes a sign and leading zeros; the stamp then compares the
  bytes with its own spelling, so that exactly the written form is accepted.
\<close>

section \<open>Decimal\<close>

fun dec_digits :: "nat \<Rightarrow> bytes" where
  "dec_digits n = (if n < 10 then [of_nat (48 + n)] else dec_digits (n div 10) @ [of_nat (48 + n mod 10)])"

declare dec_digits.simps [simp del]

text \<open>\<open>u16::from_str\<close>: an optional plus sign, at least one digit, no overflow at any step.\<close>

primrec u16_digits :: "nat \<Rightarrow> bytes \<Rightarrow> nat option" where
  "u16_digits acc [] = Some acc"
| "u16_digits acc (b # bs) =
     (if 48 \<le> b \<and> b \<le> 57 then
        let acc' = acc * 10 + (unat b - 48) in
        if 65535 < acc' then None else u16_digits acc' bs
      else None)"

definition u16_from_str :: "bytes \<Rightarrow> u16 option" where
  "u16_from_str s =
     (let digits = (case s of b # bs \<Rightarrow> if b = 43 then bs else s | [] \<Rightarrow> []) in
      if digits = [] then None else map_option of_nat (u16_digits 0 digits))"

section \<open>The stamp\<close>

datatype format_error = NotUtf8 | NotANumber | NonCanonicalSpelling

definition FORMAT_CURRENT :: u16 where "FORMAT_CURRENT = 6"

definition format_as_bytes :: "u16 \<Rightarrow> bytes" where
  "format_as_bytes v = dec_digits (unat v)"

definition format_parse :: "bytes \<Rightarrow> format_error + u16" where
  "format_parse bs =
     (if \<not> utf8_valid bs then Inl NotUtf8
      else
        (case u16_from_str bs of
           None \<Rightarrow> Inl NotANumber
         | Some v \<Rightarrow> if format_as_bytes v \<noteq> bs then Inl NonCanonicalSpelling else Inr v))"

section \<open>The round trip\<close>

lemma u16_digits_append:
  "u16_digits acc (bs @ cs) = Option.bind (u16_digits acc bs) (\<lambda>acc'. u16_digits acc' cs)"
  by (induction bs arbitrary: acc) (auto simp: Let_def)

lemma digit_byte:
  assumes "d < 10"
  shows "48 \<le> (of_nat (48 + d) :: u8)" "(of_nat (48 + d) :: u8) \<le> 57" "unat (of_nat (48 + d) :: u8) = 48 + d"
proof -
  show u: "unat (of_nat (48 + d) :: u8) = 48 + d" using assms by (subst unat_of_nat) simp
  show "48 \<le> (of_nat (48 + d) :: u8)" "(of_nat (48 + d) :: u8) \<le> 57"
    using assms u by (simp_all add: word_le_nat_alt)
qed

lemma u16_digits_dec: "n \<le> 65535 \<Longrightarrow> u16_digits 0 (dec_digits n) = Some n"
proof (induction n rule: dec_digits.induct)
  case (1 n)
  note d = digit_byte[of "n mod 10"]
  show ?case
  proof (cases "n < 10")
    case True
    then show ?thesis using digit_byte[of n] 1 by (simp add: dec_digits.simps[of n] Let_def del: of_nat_add)
  next
    case False
    with 1 have "u16_digits 0 (dec_digits (n div 10)) = Some (n div 10)" by simp
    then show ?thesis
      using False d 1(2) by (simp add: dec_digits.simps[of n] u16_digits_append Let_def del: of_nat_add)
  qed
qed

lemma dec_digits_first:
  obtains b bs where "dec_digits n = b # bs" "48 \<le> b" "b \<le> 57"
proof -
  have "\<exists>b bs. dec_digits n = b # bs \<and> 48 \<le> b \<and> b \<le> 57"
  proof (induction n rule: dec_digits.induct)
    case (1 n)
    show ?case
    proof (cases "n < 10")
      case True
      then show ?thesis using digit_byte[of n] by (simp add: dec_digits.simps[of n] del: of_nat_add)
    next
      case False
      with 1 show ?thesis by (auto simp: dec_digits.simps[of n])
    qed
  qed
  then show thesis using that by blast
qed

lemma utf8_valid_ascii: "(\<forall>b \<in> set bs. b \<le> 0x7F) \<Longrightarrow> utf8_valid bs"
  by (induction bs rule: utf8_valid.induct) auto

lemma dec_digits_ascii: "b \<in> set (dec_digits n) \<Longrightarrow> b \<le> 0x7F"
proof (induction n rule: dec_digits.induct)
  case (1 n)
  have "(of_nat (48 + n mod 10) :: u8) \<le> 0x7F" "n < 10 \<Longrightarrow> (of_nat (48 + n) :: u8) \<le> 0x7F"
    using digit_byte(2)[of "n mod 10"] digit_byte(2)[of n] by (auto intro: order.trans simp del: of_nat_add)
  with 1 show ?case by (auto simp: dec_digits.simps[of n] simp del: of_nat_add split: if_splits)
qed

lemma u16_from_str_digits: "u16_from_str (dec_digits (unat v)) = Some v"
proof -
  obtain b bs where b: "dec_digits (unat v) = b # bs" "48 \<le> b" using dec_digits_first .
  then have "b \<noteq> 43" by (auto simp: word_le_nat_alt)
  moreover have "unat v \<le> 65535" using unat_lt2p[of v] by simp
  ultimately show ?thesis
    using u16_digits_dec[of "unat v"] b(1) by (simp add: u16_from_str_def Let_def)
qed

lemma format_parse_iff: "format_parse bs = Inr v \<longleftrightarrow> bs = format_as_bytes v"
proof
  assume "format_parse bs = Inr v"
  then show "bs = format_as_bytes v" by (auto simp: format_parse_def split: if_splits option.splits)
next
  assume bs: "bs = format_as_bytes v"
  have "utf8_valid bs" unfolding bs format_as_bytes_def by (rule utf8_valid_ascii) (blast intro: dec_digits_ascii)
  moreover have "u16_from_str bs = Some v" by (simp add: bs format_as_bytes_def u16_from_str_digits)
  ultimately show "format_parse bs = Inr v" by (simp add: format_parse_def bs)
qed

end
