(* ===== verification/Store_Properties.thy ===== *)
theory Store_Properties
  imports Skip_Walk System_Clock Format_Version
begin

text \<open>
  The promises of the store: the bitemporal scan resolves a history and always ends, the session
  store keeps the ordered-map contract, the stamp clock is strictly monotone under any interleaving,
  and the format stamp has one spelling.
\<close>

section \<open>Writing a history\<close>

text \<open>The versions of a history put one after the other into a session store.\<close>

primrec put_versions :: "relation_id \<Rightarrow> version list \<Rightarrow> temp_tx \<Rightarrow> temp_tx option" where
  "put_versions rel [] t = Some t"
| "put_versions rel (r # rs) t =
     Option.bind (temp_put t (version_key rel r) (version_value r)) (put_versions rel rs)"

lemma bt_insert_insort:
  assumes "\<forall>e \<in> set es. fst e \<noteq> k"
  shows "bt_insert k v es = insort_key fst (k, v) es"
  using assms by (induction k v es rule: bt_insert.induct) (auto simp: not_less)

lemma bt_wf_sort_key: "bt_wf es \<longleftrightarrow> sorted (map fst es) \<and> distinct (map fst es)"
  by (simp add: bt_wf_def strict_sorted_iff)

lemma put_versions_entries:
  assumes "tt_map t = Some es" "distinct (map (version_key rel) rs)"
    "\<forall>r \<in> set rs. \<forall>e \<in> set es. fst e \<noteq> version_key rel r"
  shows "put_versions rel rs t
    = Some (t\<lparr>tt_map := Some (foldl (\<lambda>acc e. insort_key fst e acc) es (history_entries rel rs))\<rparr>)"
  using assms
proof (induction rs arbitrary: t es)
  case (Cons r rs)
  let ?e = "(version_key rel r, version_value r)"
  have ins: "bt_insert (version_key rel r) (version_value r) es = insort_key fst ?e es"
    by (rule bt_insert_insort) (use Cons.prems(3) in auto)
  have "put_versions rel rs (t\<lparr>tt_map := Some (insort_key fst ?e es)\<rparr>)
    = Some (t\<lparr>tt_map := Some (insort_key fst ?e es)\<rparr>
        \<lparr>tt_map := Some (foldl (\<lambda>acc e. insort_key fst e acc) (insort_key fst ?e es) (history_entries rel rs))\<rparr>)"
    by (rule Cons.IH) (use Cons.prems in \<open>auto simp: set_insort_key\<close>)
  then show ?case by (simp add: temp_ops_open(2)[OF Cons.prems(1)] ins history_entries_def)
qed (simp add: history_entries_def)

lemma foldl_insort_sort:
  assumes "distinct (map f xs)"
  shows "foldl (\<lambda>acc e. insort_key f e acc) [] xs = sort_key f xs"
proof -
  have "foldl (\<lambda>acc e. insort_key f e acc) [] xs = sort_key f (rev xs)"
    by (simp add: sort_key_def foldr_conv_foldl)
  also have "\<dots> = sort_key f xs"
    using assms by (intro map_sorted_distinct_set_unique[where f = f]) (auto simp: distinct_map)
  finally show ?thesis .
qed

lemma sort_key_map: "sort_key f (map g xs) = map g (sort_key (\<lambda>x. f (g x)) xs)"
proof -
  have ins: "insort_key f (g x) (map g ys) = map g (insort_key (\<lambda>x. f (g x)) x ys)" for x ys
    by (induction ys) auto
  show ?thesis by (induction xs) (simp_all add: ins)
qed

lemma put_versions_sorted:
  assumes "tt_map t = Some []" "distinct (map (version_key rel) rs)"
  shows "put_versions rel rs t
    = Some (t\<lparr>tt_map := Some (history_entries rel (sort_key (version_key rel) rs))\<rparr>)"
proof -
  have "distinct (map fst (history_entries rel rs))" using assms(2) by (simp add: history_entries_def comp_def)
  then have "foldl (\<lambda>acc e. insort_key fst e acc) [] (history_entries rel rs)
      = history_entries rel (sort_key (version_key rel) rs)"
    by (simp add: foldl_insort_sort) (simp add: history_entries_def sort_key_map)
  then show ?thesis using put_versions_entries[OF assms(1,2)] by simp
qed

lemma history_entries_wf:
  "distinct (map (version_key rel) rs) \<Longrightarrow> bt_wf (history_entries rel (sort_key (version_key rel) rs))"
proof -
  assume d: "distinct (map (version_key rel) rs)"
  let ?rs = "sort_key (version_key rel) rs"
  have "distinct rs" using d by (simp add: distinct_map)
  then have "distinct (map (version_key rel) ?rs)" using d by (simp add: distinct_map)
  moreover have "sorted (map (version_key rel) ?rs)" by simp
  ultimately show ?thesis unfolding bt_wf_sort_key history_entries_def by (simp add: comp_def)
qed

section \<open>The bitemporal scan\<close>

text \<open>
  C25: put the versions of a history, in any order, into an empty session store; the skip scan over
  bounds around them then ends without an error and yields, in key order, exactly the versions that
  a declarative reading of the two time axes makes visible at the coordinate.
\<close>

theorem skip_scan_resolves_history:
  assumes "versions_ok arity (set rs)" "distinct (map (version_key rel) rs)" "tt_map t = Some []"
    "\<And>r. r \<in> set rs \<Longrightarrow> lower \<le> version_key rel r \<and> version_key rel r < upper"
  shows "\<exists>es. put_versions rel rs t = Some (t\<lparr>tt_map := Some es\<rparr>)
    \<and> skip_collect (\<lambda>target. map_option (map_option Inr) (temp_seek es upper target)) upper ao lower
      = Some (Inr (map version_row (filter (visible (set rs) ao) (sort_key (version_key rel) rs))))"
proof -
  let ?rs = "sort_key (version_key rel) rs"
  have "bt_between (history_entries rel ?rs) lower upper = history_entries rel ?rs"
    using assms(4) by (auto simp: bt_between_def history_entries_def filter_id_conv)
  moreover have "versions_ok arity (set ?rs)" using assms(1) by simp
  ultimately have "skip_collect (\<lambda>target. map_option (map_option Inr) (temp_seek (history_entries rel ?rs) upper target)) upper ao lower
      = Some (Inr (map version_row (filter (visible (set rs) ao) ?rs)))"
    using temp_seek_store.scan_resolves[OF history_entries_wf[OF assms(2)], of lower upper rel ?rs] by simp
  with put_versions_sorted[OF assms(3,2)] show ?thesis by blast
qed

definition sample_version :: "bool \<Rightarrow> i64 \<Rightarrow> i64 \<Rightarrow> claim_polarity \<Rightarrow> tuple \<Rightarrow> version" where
  "sample_version b v s p vals = \<lparr>vn_cols = [DBool b], vn_valid = v, vn_sys = s, vn_polarity = p, vn_vals = vals\<rparr>"

lemma sample_version_less:
  "row_storable vals \<Longrightarrow> row_storable vals' \<Longrightarrow>
   version_key rel (sample_version b v s p vals) < version_key rel (sample_version b' v' s' p' vals')
     \<longleftrightarrow> \<not> b \<and> b' \<or> b = b' \<and> (sint v' < sint v \<or> v = v' \<and> sint s' < sint s)"
  by (subst version_key_less)
    (auto simp: sample_version_def version_wf_def row_storable_def dv_storable_def encode_tuple_bare_def)

lemma sample_version_between: "[] \<le> version_key 1 (sample_version b v s p vals) \<and> version_key 1 (sample_version b v s p vals) < [0xFF]"
proof -
  have "be_nat (Suc 7) 1 = 0 # be_nat 7 1" by (simp only: be_nat.simps) simp
  then have "raw_encode 1 = 0 # be_nat 7 1" by (simp add: raw_encode_def to_be_bytes_def)
  then show ?thesis by (simp add: version_key_def slot_key_def encode_key_with_suffix_def)
qed

definition sample_history :: "version list" where
  "sample_history =
     [sample_version True 5 9 Retract [], sample_version True 5 7 Assert [DNull],
      sample_version False 8 7 Erase [], sample_version False 3 6 Assert []]"

theorem skip_scan_resolves_history_witness:
  "\<exists>es. skip_collect (\<lambda>target. map_option (map_option Inr) (temp_seek es [0xFF] target)) [0xFF] \<lparr>ao_valid = 20, ao_sys = 8\<rparr> []
     = Some (Inr [[DBool False, DValidity (stored_slot 3), DValidity (stored_slot 6)],
         [DBool True, DValidity (stored_slot 5), DValidity (stored_slot 7), DNull]])"
proof -
  have st: "row_storable []" "row_storable [DNull]" by (simp_all add: row_storable_def dv_storable_def)
  have ok: "versions_ok 1 (set sample_history)"
    by (simp add: versions_ok_def sample_history_def version_wf_def row_storable_def dv_storable_def sample_version_def)
  have lt: "sorted_wrt (<) (map (version_key 1) [sample_version False 8 7 Erase [], sample_version False 3 6 Assert [],
      sample_version True 5 9 Retract [], sample_version True 5 7 Assert [DNull]])"
    by (simp add: sample_version_less st row_storable_def dv_storable_def)
  have d: "distinct (map (version_key 1) sample_history)"
    using lt by (auto simp: sample_history_def)
  have srt: "sort_key (version_key 1) sample_history
    = [sample_version False 8 7 Erase [], sample_version False 3 6 Assert [],
      sample_version True 5 9 Retract [], sample_version True 5 7 Assert [DNull]]"
    using lt by (auto simp: sample_history_def dest: less_imp_le)
  have vis: "map version_row (filter (visible (set sample_history) \<lparr>ao_valid = 20, ao_sys = 8\<rparr>)
      (sort_key (version_key 1) sample_history))
    = [[DBool False, DValidity (stored_slot 3), DValidity (stored_slot 6)],
       [DBool True, DValidity (stored_slot 5), DValidity (stored_slot 7), DNull]]"
    unfolding srt by (simp add: sample_history_def sample_version_def visible_def governs_def in_view_def version_row_def)
  have "lower \<le> version_key 1 r \<and> version_key 1 r < [0xFF]" if "r \<in> set sample_history" "lower = []" for r lower
    using that sample_version_between by (auto simp: sample_history_def)
  with ok d vis show ?thesis
    using skip_scan_resolves_history[of 1 sample_history 1 "\<lparr>tt_map = Some [], tt_stamp = 0\<rparr>" "[]" "[0xFF]"
        "\<lparr>ao_valid = 20, ao_sys = 8\<rparr>"] by auto
qed

text \<open>
  C26: the skip scan ends on every session store, whatever bytes its rows hold: with rows, with the
  end of the range, or with a refusal.
\<close>

theorem skip_scan_always_ends:
  assumes "bt_wf es"
  shows "\<exists>res. skip_collect (\<lambda>target. map_option (map_option Inr) (temp_seek es upper target)) upper ao lower = Some res"
  using assms by (rule temp_seek_store.walk_ends)

theorem skip_scan_always_ends_witness:
  "\<exists>res. skip_collect (\<lambda>target. map_option (map_option Inr) (temp_seek [([1, 2], [9]), ([7], [])] [0xFF] target)) [0xFF]
     \<lparr>ao_valid = 20, ao_sys = 8\<rparr> [] = Some res"
  by (rule skip_scan_always_ends) simp

text \<open>
  C27: whenever the kernel judges a key, whatever its verdict, the bound it hands back lies strictly
  above the key, so that the fallback of \<open>advance_past\<close> is never taken.
\<close>

theorem kernel_bound_advances:
  assumes "check_key_for_bitemporal key p ao = Inr (ret, nxt)"
  shows "key < nxt \<and> advance_past key nxt = nxt"
  using check_key_advances[OF assms] by (simp add: advance_past_def)

theorem kernel_bound_advances_witness:
  "\<exists>nxt. check_key_for_bitemporal (version_key 1 (sample_version True 5 9 Retract [])) Retract \<lparr>ao_valid = 20, ao_sys = 10\<rparr>
       = Inr (None, nxt)
     \<and> version_key 1 (sample_version True 5 9 Retract []) < nxt"
proof -
  have wf: "version_wf (sample_version True 5 9 Retract [])"
    by (simp add: version_wf_def sample_version_def row_storable_def dv_storable_def)
  have "check_key_for_bitemporal (version_key 1 (sample_version True 5 9 Retract [])) Retract \<lparr>ao_valid = 20, ao_sys = 10\<rparr>
      = Inr (None, next_key 1 \<lparr>ao_valid = 20, ao_sys = 10\<rparr> (sample_version True 5 9 Retract []))"
    using check_version[OF wf, of 1 "\<lparr>ao_valid = 20, ao_sys = 10\<rparr>"] by (simp add: sample_version_def emits_def)
  with kernel_bound_advances[OF this] show ?thesis by blast
qed

text \<open>
  C28: the system stamp read back from a stored key is the stamp the version was written with, and
  reading the key and value back yields the row.
\<close>

theorem stored_version_reads_back:
  assumes "version_wf r"
  shows "system_stamp_of_key (version_key rel r) = Inr (vn_sys r)
    \<and> claim_polarity_of_value (version_value r) = Inr (vn_polarity r)
    \<and> rbind (map_err Codec (decode_tuple_from_key (version_key rel r)))
        (\<lambda>tup. extend_tuple_from_bitemporal_v tup (version_value r)) = Inr (version_row r)"
proof -
  have "system_stamp_of_key (version_key rel r) = Inr (vn_sys r)"
    by (simp add: system_stamp_of_key_def version_key_def slot_key_eq Let_def RELATION_PREFIX_LEN_def
        BITEMPORAL_TAIL_LEN_def VALIDITY_TAIL_LEN_def raw_encode_def decode_from_key_slot as_slot_def
        del: encode_owned.simps)
  moreover have "claim_polarity_of_value (version_value r) = Inr (vn_polarity r)"
    by (simp add: version_value_def polarity_round_trip)
  ultimately show ?thesis
    by (simp add: decode_version_key[OF assms] extend_version[OF assms] version_row_def)
qed

theorem stored_version_reads_back_witness:
  "system_stamp_of_key (version_key 1 (sample_version True 5 9 Assert [DNull])) = Inr 9"
proof -
  have "version_wf (sample_version True 5 9 Assert [DNull])"
    by (simp add: version_wf_def sample_version_def row_storable_def dv_storable_def)
  from stored_version_reads_back[OF this, of 1] show ?thesis by (simp add: sample_version_def)
qed

section \<open>The session store\<close>

text \<open>The writes of a session, on the store and on the map it stands for.\<close>

datatype session_op = PutOp bytes bytes | DelOp bytes | DelRangeOp bytes bytes

fun run_op :: "session_op \<Rightarrow> temp_tx \<Rightarrow> temp_tx option" where
  "run_op (PutOp k v) t = temp_put t k v"
| "run_op (DelOp k) t = temp_del t k"
| "run_op (DelRangeOp lo hi) t = temp_del_range t lo hi"

fun map_op :: "session_op \<Rightarrow> (bytes \<rightharpoonup> bytes) \<Rightarrow> bytes \<rightharpoonup> bytes" where
  "map_op (PutOp k v) m = m(k \<mapsto> v)"
| "map_op (DelOp k) m = m(k := None)"
| "map_op (DelRangeOp lo hi) m = (\<lambda>k. if lo \<le> k \<and> k < hi then None else m k)"

primrec run_ops :: "session_op list \<Rightarrow> temp_tx \<Rightarrow> temp_tx option" where
  "run_ops [] t = Some t"
| "run_ops (op # ops) t = Option.bind (run_op op t) (run_ops ops)"

definition stands_for :: "temp_tx \<Rightarrow> (bytes \<rightharpoonup> bytes) \<Rightarrow> bool" where
  "stands_for t m \<longleftrightarrow> (\<exists>es. tt_map t = Some es \<and> bt_wf es \<and> bt_get es = m)"

lemma run_op_stands_for:
  assumes "stands_for t m"
  shows "\<exists>t'. run_op op t = Some t' \<and> stands_for t' (map_op op m)"
proof -
  obtain es where es: "tt_map t = Some es" "bt_wf es" "bt_get es = m" using assms by (auto simp: stands_for_def)
  note laws = entries_store.put_invar entries_store.look_put entries_store.del_invar entries_store.look_del
    entries_store.del_range_invar entries_store.look_del_range
  show ?thesis by (cases op) (auto simp: stands_for_def temp_ops_open[OF es(1)] es(2) es(3)[symmetric] laws fun_eq_iff)
qed

lemma run_ops_stands_for: "stands_for t m \<Longrightarrow> \<exists>t'. run_ops ops t = Some t' \<and> stands_for t' (fold map_op ops m)"
proof (induction ops arbitrary: t m)
  case (Cons op ops)
  obtain t' where "run_op op t = Some t'" "stands_for t' (map_op op m)" using run_op_stands_for[OF Cons.prems] by blast
  with Cons.IH show ?case by simp
qed simp

text \<open>
  C29: an open session store is a map. Whatever sequence of puts, deletes and range deletes a session runs, with
  whatever bounds, none of them panics; then a lookup reads the map the sequence leaves, and a scan between any two
  bounds, degenerate ones included, returns without a panic the strictly ascending list of that map's entries in
  the half-open interval.
\<close>

theorem session_store_contract:
  assumes "tt_map t = Some es" "bt_wf es"
  shows "\<exists>t'. run_ops ops t = Some t' \<and> (\<forall>k. temp_get t' k = Some (fold map_op ops (bt_get es) k))
    \<and> (\<forall>lo hi. \<exists>sc. temp_range_scan t' lo hi = Some sc \<and> sorted_wrt (<) (map fst sc)
        \<and> (\<forall>k v. (k, v) \<in> set sc \<longleftrightarrow> lo \<le> k \<and> k < hi \<and> fold map_op ops (bt_get es) k = Some v))"
proof -
  have "stands_for t (bt_get es)" using assms by (simp add: stands_for_def)
  then obtain t' where t': "run_ops ops t = Some t'" "stands_for t' (fold map_op ops (bt_get es))" using run_ops_stands_for by blast
  then obtain es' where es': "tt_map t' = Some es'" "bt_wf es'" "bt_get es' = fold map_op ops (bt_get es)" by (auto simp: stands_for_def)
  show ?thesis
    using t'(1) by (intro exI[of _ t'])
      (simp add: temp_ops_open[OF es'(1)] es'(3)[symmetric] entries_store.scan_sorted[OF es'(2)] entries_store.scan_look[OF es'(2)])
qed

theorem session_store_contract_witness:
  "\<exists>t' sc. run_ops [PutOp [3] [4], PutOp [1] [2], DelRangeOp [9] [2], DelRangeOp [2] [5]] \<lparr>tt_map = Some [], tt_stamp = 0\<rparr> = Some t'
     \<and> temp_range_scan t' [7] [0] = Some sc \<and> temp_get t' [3] = Some None \<and> temp_get t' [1] = Some (Some [2])"
proof -
  let ?ops = "[PutOp [3] [4], PutOp [1] [2], DelRangeOp [9] [2], DelRangeOp [2] [5]]" and ?t = "\<lparr>tt_map = Some [], tt_stamp = 0\<rparr>"
  have "bt_wf ([] :: (bytes, bytes) entries)" "tt_map ?t = Some []" by simp_all
  from session_store_contract[OF this(2,1), of ?ops] obtain t' where t': "run_ops ?ops ?t = Some t'" "\<forall>k. temp_get t' k = Some (fold map_op ?ops (bt_get []) k)"
    "\<exists>sc. temp_range_scan t' [7] [0] = Some sc"
    by blast
  then show ?thesis by (auto simp: bt_get_def)
qed

text \<open>
  committing, aborting or discarding a session store spends it: no later operation that needs
  its map succeeds.
\<close>

theorem spent_session_store_refuses:
  assumes "temp_commit t = Some t' \<or> temp_abort t = Some t' \<or> temp_discard t = t'"
  shows "temp_get t' k = None \<and> temp_exists t' k = None \<and> temp_is_empty t' = None \<and> temp_total_scan t' = None
    \<and> temp_put t' k v = None \<and> temp_del t' k = None \<and> temp_commit t' = None \<and> temp_abort t' = None
    \<and> (lo < hi \<longrightarrow> temp_range_scan t' lo hi = None \<and> temp_del_range t' lo hi = None)"
  using assms
  by (auto simp: temp_get_def temp_exists_def temp_is_empty_def temp_total_scan_def temp_put_def temp_del_def
      temp_commit_def temp_abort_def temp_discard_def temp_range_scan_def temp_del_range_def not_le[symmetric])

theorem spent_session_store_refuses_witness:
  "temp_put (temp_discard \<lparr>tt_map = Some [], tt_stamp = 0\<rparr>) [1] [2] = None"
  using spent_session_store_refuses[of "\<lparr>tt_map = Some [], tt_stamp = 0\<rparr>"
      "temp_discard \<lparr>tt_map = Some [], tt_stamp = 0\<rparr>" "[1]" "[2]"] by blast

section \<open>The stamp clock\<close>

text \<open>
  C30: however the threads in \<open>stamp\<close> and the calls of \<open>raise_floor\<close> interleave, the stamps handed out
  are strictly increasing in the order of the exchanges, all lie above the initial floor and at or
  below the current one, and a refusal happens only once the floor is \<open>i64::MAX\<close>.
\<close>

theorem clock_stamps_strictly_increase:
  assumes "clock_run (clock_new base) s"
  shows "sorted_wrt (\<lambda>a b. sint a < sint b) (ck_minted s)
    \<and> (\<forall>m \<in> set (ck_minted s). sint base < sint m \<and> sint m \<le> sint (ck_value s))
    \<and> (0 < ck_refused s \<longrightarrow> ck_value s = i64_max)"
  using clock_inv_run[OF assms clock_inv_new] by (simp add: clock_inv_def)

theorem clock_stamps_strictly_increase_witness:
  "\<exists>s. clock_run (clock_new 3) s \<and> ck_minted s = [10] \<and> sint (3 :: i64) < sint (10 :: i64)"
proof -
  have c: "clock_candidate 3 10 = Inr 10" by (rule clock_candidate_exact) simp_all
  note one = clock_step.load[where s = "clock_new 3" and t = 0 and now = 10]
  let ?s = "(clock_new 3)\<lparr>ck_threads := (ck_threads (clock_new 3))(0 := Stamping 10 (ck_value (clock_new 3)))\<rparr>"
  have two: "clock_step ?s (?s\<lparr>ck_value := 10, ck_threads := (ck_threads ?s)(0 := Idle), ck_minted := ck_minted ?s @ [10]\<rparr>)"
    by (rule clock_step.exchange[where seen = 3 and now = 10]) (simp_all add: clock_new_def c)
  have run: "clock_run (clock_new 3) (?s\<lparr>ck_value := 10, ck_threads := (ck_threads ?s)(0 := Idle), ck_minted := ck_minted ?s @ [10]\<rparr>)"
    by (rule clock_run.step[OF clock_run.step[OF clock_run.start one] two]) (simp add: clock_new_def)
  with clock_stamps_strictly_increase[OF run] show ?thesis by (auto simp: clock_new_def)
qed

section \<open>The format stamp\<close>

text \<open>
  parsing accepts exactly the bytes some version writes, and gives that version back.
\<close>

theorem format_stamp_round_trip: "format_parse bs = Inr v \<longleftrightarrow> bs = format_as_bytes v"
  by (rule format_parse_iff)

end
