(* ===== verification/Level_Runs.thy ===== *)
theory Level_Runs
  imports Row_Key Ordered_Store
begin

text \<open>
  The sealed levels of \<open>crates/kyzo-core/src/exec/fixpoint/delta_store.rs\<close>: rows flattened into one byte
  arena with \<open>u32\<close> end offsets, binary searches over them, and the merge of two levels. A level stands
  for the ascending list of its rows, \<open>level_rows\<close>; every operation is related to that list.
\<close>

section \<open>Flags and levels\<close>

datatype flag_refresh = Admitted | Refresh

definition hides_from_delta :: "flag_refresh \<Rightarrow> bool" where
  "hides_from_delta r = (r = Refresh)"

datatype limiter_skip = Include | PastLimit

definition excludes_from_return :: "limiter_skip \<Rightarrow> bool" where
  "excludes_from_return s = (s = PastLimit)"

record row_flags =
  rf_skip :: limiter_skip
  rf_refresh :: flag_refresh

record normal_level =
  nl_values :: bytes
  nl_offsets :: "u32 list"
  nl_flags :: "row_flags list"

datatype level_error = LevelArenaOverflow nat

definition level_default :: normal_level where
  "level_default = \<lparr>nl_values = [], nl_offsets = [], nl_flags = []\<rparr>"

definition level_len :: "normal_level \<Rightarrow> nat" where
  "level_len l = length (nl_offsets l)"

definition level_is_empty :: "normal_level \<Rightarrow> bool" where
  "level_is_empty l \<longleftrightarrow> nl_offsets l = []"

definition row_at :: "normal_level \<Rightarrow> nat \<Rightarrow> bytes" where
  "row_at l i =
     (let start = (if i = 0 then 0 else unat (nl_offsets l ! (i - 1)));
          finish = unat (nl_offsets l ! i)
      in take (finish - start) (drop start (nl_values l)))"

definition level_row :: "normal_level \<Rightarrow> nat \<Rightarrow> bytes option" where
  "level_row l i = (if i < level_len l then Some (row_at l i) else None)"

definition row_flags_at :: "normal_level \<Rightarrow> nat \<Rightarrow> row_flags" where
  "row_flags_at l i = nl_flags l ! i"

definition level_push :: "normal_level \<Rightarrow> bytes \<Rightarrow> row_flags \<Rightarrow> level_error + normal_level" where
  "level_push l row flags =
     (let values = nl_values l @ row in
      if 2 ^ 32 \<le> length values then Inl (LevelArenaOverflow (length values))
      else Inr \<lparr>nl_values = values, nl_offsets = nl_offsets l @ [of_nat (length values)],
             nl_flags = nl_flags l @ [flags]\<rparr>)"

definition level_push_from :: "normal_level \<Rightarrow> normal_level \<Rightarrow> nat \<Rightarrow> row_flags \<Rightarrow> level_error + normal_level" where
  "level_push_from l other i flags = level_push l (row_at other i) flags"

section \<open>Binary searches\<close>

function find_loop :: "normal_level \<Rightarrow> bytes \<Rightarrow> nat \<Rightarrow> nat \<Rightarrow> nat option" where
  "find_loop l key lo hi =
     (if lo < hi then
        let mid = lo + (hi - lo) div 2 in
        (case ocmp (row_at l mid) key of
           Less \<Rightarrow> find_loop l key (mid + 1) hi
         | Greater \<Rightarrow> find_loop l key lo mid
         | Equal \<Rightarrow> Some mid)
      else None)"
  by pat_completeness auto
termination by (relation "measure (\<lambda>(l, key, lo, hi). hi - lo)") auto

definition level_find :: "normal_level \<Rightarrow> bytes \<Rightarrow> nat option" where
  "level_find l key = find_loop l key 0 (level_len l)"

text \<open>The loop all the partition searches share: the first index at which a test fails.\<close>

function search_loop :: "(nat \<Rightarrow> bool) \<Rightarrow> nat \<Rightarrow> nat \<Rightarrow> nat" where
  "search_loop below lo hi =
     (if lo < hi then
        let mid = lo + (hi - lo) div 2 in
        if below mid then search_loop below (mid + 1) hi else search_loop below lo mid
      else lo)"
  by pat_completeness auto
termination by (relation "measure (\<lambda>(below, lo, hi). hi - lo)") auto

declare find_loop.simps [simp del] search_loop.simps [simp del]

definition level_bounds :: "normal_level \<Rightarrow> bytes \<Rightarrow> bytes \<Rightarrow> bool \<Rightarrow> nat \<times> nat" where
  "level_bounds l lower upper upper_inclusive =
     (let start = search_loop (\<lambda>mid. row_at l mid < lower) 0 (level_len l);
          lo = search_loop (\<lambda>mid. if upper_inclusive then row_at l mid \<le> upper else row_at l mid < upper)
                 start (level_len l)
      in (start, max lo start))"

text \<open>Where a stored row stands to an encoded probe of its leading columns.\<close>

definition prefix_probe_cmp :: "nat \<Rightarrow> bytes \<Rightarrow> bytes \<Rightarrow> ordering" where
  "prefix_probe_cmp n probe stored =
     (case bare_prefix_len stored n of
        Some boundary \<Rightarrow> ocmp (take boundary stored) probe
      | None \<Rightarrow> Less)"

text \<open>The projection panics, here \<open>None\<close>, when a column lies outside the row.\<close>

definition project_columns :: "tuple \<Rightarrow> nat list \<Rightarrow> tuple option" where
  "project_columns row cols = (if list_all (\<lambda>c. c < length row) cols then Some (map (\<lambda>c. row ! c) cols) else None)"

definition probe_bounds :: "normal_level \<Rightarrow> tuple \<Rightarrow> nat \<times> nat" where
  "probe_bounds l projected =
     (let probe = encode_tuple_bare projected;
          cmp = (\<lambda>i. prefix_probe_cmp (length projected) probe (row_at l i));
          start = search_loop (\<lambda>mid. cmp mid = Less) 0 (level_len l);
          lo = search_loop (\<lambda>mid. cmp mid \<noteq> Greater) start (level_len l)
      in (start, max lo start))"

definition prefix_bounds :: "normal_level \<Rightarrow> tuple \<Rightarrow> nat list \<Rightarrow> (nat \<times> nat) option" where
  "prefix_bounds l row cols = map_option (probe_bounds l) (project_columns row cols)"

section \<open>The merge of two levels\<close>

function merge_loop :: "normal_level \<Rightarrow> normal_level \<Rightarrow> nat \<Rightarrow> nat \<Rightarrow> normal_level \<Rightarrow> level_error + normal_level" where
  "merge_loop older newer a b merged =
     (if a < level_len older \<or> b < level_len newer then
        if level_len older \<le> a then
          rbind (level_push_from merged newer b (row_flags_at newer b)) (merge_loop older newer a (b + 1))
        else if level_len newer \<le> b then
          rbind (level_push_from merged older a (row_flags_at older a)) (merge_loop older newer (a + 1) b)
        else
          (case ocmp (row_at older a) (row_at newer b) of
             Less \<Rightarrow> rbind (level_push_from merged older a (row_flags_at older a)) (merge_loop older newer (a + 1) b)
           | Greater \<Rightarrow> rbind (level_push_from merged newer b (row_flags_at newer b)) (merge_loop older newer a (b + 1))
           | Equal \<Rightarrow>
               rbind (level_push_from merged newer b \<lparr>rf_skip = rf_skip (row_flags_at newer b), rf_refresh = Admitted\<rparr>)
                 (merge_loop older newer (a + 1) (b + 1)))
      else Inr merged)"
  by pat_completeness auto
termination by (relation "measure (\<lambda>(older, newer, a, b, merged). (level_len older - a) + (level_len newer - b))") auto

declare merge_loop.simps [simp del]

definition merge_levels :: "normal_level \<Rightarrow> normal_level \<Rightarrow> level_error + normal_level" where
  "merge_levels older newer = merge_loop older newer 0 0 level_default"

section \<open>The rows of a level\<close>

definition level_rows :: "normal_level \<Rightarrow> (bytes, row_flags) entries" where
  "level_rows l = map (\<lambda>i. (row_at l i, row_flags_at l i)) [0..<level_len l]"

text \<open>The shape of a level: offsets ascend to the end of the arena and every row has its flags.\<close>

definition level_shape :: "normal_level \<Rightarrow> bool" where
  "level_shape l \<longleftrightarrow> length (nl_flags l) = length (nl_offsets l)
     \<and> sorted (map unat (nl_offsets l))
     \<and> (if nl_offsets l = [] then nl_values l = [] else unat (last (nl_offsets l)) = length (nl_values l))"

definition level_inv :: "normal_level \<Rightarrow> bool" where
  "level_inv l \<longleftrightarrow> level_shape l \<and> bt_wf (level_rows l)"

lemma length_level_rows [simp]: "length (level_rows l) = level_len l"
  by (simp add: level_rows_def)

lemma level_rows_nth [simp]: "i < level_len l \<Longrightarrow> level_rows l ! i = (row_at l i, row_flags_at l i)"
  by (simp add: level_rows_def)

lemma level_default_facts [simp]: "level_inv level_default" "level_rows level_default = []" "level_len level_default = 0"
  by (simp_all add: level_inv_def level_shape_def level_rows_def level_default_def level_len_def)

lemma offset_le: "level_shape l \<Longrightarrow> i < level_len l \<Longrightarrow> unat (nl_offsets l ! i) \<le> length (nl_values l)"
proof -
  assume l: "level_shape l" "i < level_len l"
  then have ne: "nl_offsets l \<noteq> []" by (auto simp: level_len_def)
  have "map unat (nl_offsets l) ! i \<le> map unat (nl_offsets l) ! (length (nl_offsets l) - 1)"
    by (rule sorted_nth_mono) (use l in \<open>auto simp: level_shape_def level_len_def\<close>)
  then show ?thesis using l ne by (simp add: level_shape_def level_len_def last_conv_nth)
qed

lemma level_push_Inr:
  assumes "level_shape l" "level_push l row flags = Inr l'"
  shows "level_shape l'" "level_rows l' = level_rows l @ [(row, flags)]" "length (nl_values l') = length (nl_values l) + length row"
proof -
  define n where "n = length (nl_values l) + length row"
  from assms(2) have small: "n < 2 ^ 32" and l': "l' = \<lparr>nl_values = nl_values l @ row,
      nl_offsets = nl_offsets l @ [of_nat n], nl_flags = nl_flags l @ [flags]\<rparr>"
    by (auto simp: level_push_def n_def Let_def split: if_splits)
  then show "length (nl_values l') = length (nl_values l) + length row" by simp
  have u: "unat (of_nat n :: u32) = n" using small by (simp add: unat_of_nat)
  have "\<forall>x \<in> set (nl_offsets l). unat x \<le> n"
    using offset_le[OF assms(1)] by (fastforce simp: in_set_conv_nth level_len_def n_def)
  then show "level_shape l'"
    using assms(1) u by (auto simp: level_shape_def l' sorted_append) (simp add: n_def)
  have old: "row_at l' i = row_at l i" if "i < level_len l" for i
  proof -
    have "unat (nl_offsets l ! i) \<le> length (nl_values l)" by (rule offset_le[OF assms(1) that])
    then show ?thesis
      using that by (auto simp: row_at_def l' nth_append level_len_def Let_def)
  qed
  have start: "(if level_len l = 0 then 0 else unat ((nl_offsets l @ [of_nat n]) ! (level_len l - 1))) = length (nl_values l)"
    using assms(1) by (auto simp: level_shape_def level_len_def nth_append last_conv_nth split: if_splits)
  have new: "row_at l' (level_len l) = row"
  proof -
    have "(nl_offsets l @ [of_nat n]) ! level_len l = of_nat n" by (simp add: level_len_def)
    then show ?thesis unfolding row_at_def l' Let_def normal_level.select_convs start by (simp add: u) (simp add: n_def)
  qed
  show "level_rows l' = level_rows l @ [(row, flags)]"
  proof (rule nth_equalityI)
    show "length (level_rows l') = length (level_rows l @ [(row, flags)])" by (simp add: l' level_len_def)
    fix i assume "i < length (level_rows l')"
    then have i: "i < Suc (level_len l)" by (simp add: l' level_len_def)
    have len': "level_len l' = Suc (level_len l)" by (simp add: l' level_len_def)
    have fl: "row_flags_at l' i = (if i < level_len l then row_flags_at l i else flags)"
      using assms(1) i by (auto simp: row_flags_at_def l' nth_append level_shape_def level_len_def)
    show "level_rows l' ! i = (level_rows l @ [(row, flags)]) ! i"
      using i old new fl by (cases "i < level_len l") (auto simp: nth_append len' less_Suc_eq)
  qed
qed

lemma level_push_ok:
  "length (nl_values l) + length row < 2 ^ 32 \<Longrightarrow> \<exists>l'. level_push l row flags = Inr l'"
  by (simp add: level_push_def Let_def)

text \<open>A level's arena is the concatenation of its rows.\<close>

definition rows_bytes :: "(bytes, row_flags) entries \<Rightarrow> nat" where
  "rows_bytes es = sum_list (map (\<lambda>e. length (fst e)) es)"

lemma rows_bytes_simps [simp]:
  "rows_bytes [] = 0" "rows_bytes (e # es) = length (fst e) + rows_bytes es"
  "rows_bytes (es @ es') = rows_bytes es + rows_bytes es'"
  by (simp_all add: rows_bytes_def)

lemma offset_mono: "level_shape l \<Longrightarrow> i \<le> j \<Longrightarrow> j < level_len l \<Longrightarrow> unat (nl_offsets l ! i) \<le> unat (nl_offsets l ! j)"
  using sorted_nth_mono[of "map unat (nl_offsets l)" i j] by (simp add: level_shape_def level_len_def)

lemma rows_bytes_prefix:
  assumes "level_shape l"
  shows "k \<le> level_len l \<Longrightarrow> rows_bytes (take k (level_rows l)) = (if k = 0 then 0 else unat (nl_offsets l ! (k - 1)))"
proof (induction k)
  case (Suc k)
  have len: "length (row_at l k) = unat (nl_offsets l ! k) - (if k = 0 then 0 else unat (nl_offsets l ! (k - 1)))"
    using offset_le[OF assms, of k] Suc.prems by (simp add: row_at_def Let_def)
  moreover have "(if k = 0 then 0 else unat (nl_offsets l ! (k - 1))) \<le> unat (nl_offsets l ! k)"
    using offset_mono[OF assms, of "k - 1" k] Suc.prems by auto
  moreover have "take (Suc k) (level_rows l) = take k (level_rows l) @ [(row_at l k, row_flags_at l k)]"
    using Suc.prems by (simp add: take_Suc_conv_app_nth)
  ultimately show ?case using Suc by simp
qed simp

lemma rows_bytes_level: "level_shape l \<Longrightarrow> rows_bytes (level_rows l) = length (nl_values l)"
  using rows_bytes_prefix[of l "level_len l"]
  by (auto simp: level_shape_def level_len_def last_conv_nth level_rows_def split: if_splits)

section \<open>What the searches find\<close>

lemma search_loop_spec:
  assumes "lo \<le> hi" "\<And>i j. lo \<le> i \<Longrightarrow> i \<le> j \<Longrightarrow> j < hi \<Longrightarrow> below j \<Longrightarrow> below i"
  shows "lo \<le> search_loop below lo hi \<and> search_loop below lo hi \<le> hi
    \<and> (\<forall>i. lo \<le> i \<and> i < hi \<longrightarrow> (below i \<longleftrightarrow> i < search_loop below lo hi))"
  using assms
proof (induction below lo hi rule: search_loop.induct)
  case (1 below lo hi)
  define mid where "mid = lo + (hi - lo) div 2"
  note IH = 1(1,2)[OF _ mid_def]
  show ?case
  proof (cases "lo < hi")
    case False
    then have "search_loop below lo hi = lo" by (simp add: search_loop.simps[of below lo hi])
    with False 1(3) show ?thesis by auto
  next
    case True
    then have mid: "lo \<le> mid" "mid < hi" by (auto simp: mid_def)
    show ?thesis
    proof (cases "below mid")
      case b: True
      have le: "mid + 1 \<le> hi" using mid by simp
      have r: "mid + 1 \<le> search_loop below (mid + 1) hi \<and> search_loop below (mid + 1) hi \<le> hi
          \<and> (\<forall>i. mid + 1 \<le> i \<and> i < hi \<longrightarrow> (below i \<longleftrightarrow> i < search_loop below (mid + 1) hi))"
        by (rule IH(1)[OF True b le]) (use mid 1(4) in auto)
      have e: "search_loop below lo hi = search_loop below (mid + 1) hi"
        using True b by (simp add: search_loop.simps[of below lo hi] Let_def mid_def)
      have "below i \<longleftrightarrow> i < search_loop below (mid + 1) hi" if "lo \<le> i" "i < hi" for i
        using r 1(4)[OF that(1) _ mid(2) b] that by (cases "i \<le> mid") auto
      then show ?thesis unfolding e using r mid by auto
    next
      case b: False
      have r: "lo \<le> search_loop below lo mid \<and> search_loop below lo mid \<le> mid
          \<and> (\<forall>i. lo \<le> i \<and> i < mid \<longrightarrow> (below i \<longleftrightarrow> i < search_loop below lo mid))"
        by (rule IH(2)[OF True b mid(1)]) (use mid 1(4) in auto)
      have e: "search_loop below lo hi = search_loop below lo mid"
        using True b by (simp add: search_loop.simps[of below lo hi] Let_def mid_def)
      have "below i \<longleftrightarrow> i < search_loop below lo mid" if "lo \<le> i" "i < hi" for i
        using r 1(4)[OF mid(1) _ that(2)] b that by (cases "i < mid") auto
      then show ?thesis unfolding e using r mid by auto
    qed
  qed
qed

lemma rows_ascend:
  assumes "level_inv l" "i < j" "j < level_len l"
  shows "row_at l i < row_at l j"
proof -
  have "map fst (level_rows l) ! i < map fst (level_rows l) ! j"
    by (rule sorted_wrt_nth_less) (use assms in \<open>auto simp: level_inv_def bt_wf_def\<close>)
  then show ?thesis using assms by simp
qed

lemma rows_ascend_le: "level_inv l \<Longrightarrow> i \<le> j \<Longrightarrow> j < level_len l \<Longrightarrow> row_at l i \<le> row_at l j"
  using rows_ascend[of l i j] by (cases "i = j") auto

lemma find_loop_spec:
  "level_inv l \<Longrightarrow> hi \<le> level_len l \<Longrightarrow> find_loop l key lo hi = Some i \<longleftrightarrow> lo \<le> i \<and> i < hi \<and> row_at l i = key"
proof (induction l key lo hi rule: find_loop.induct)
  case (1 l key lo hi)
  define mid where "mid = lo + (hi - lo) div 2"
  note IH = 1(1,2)[OF _ mid_def]
  show ?case
  proof (cases "lo < hi")
    case True
    then have mid: "lo \<le> mid" "mid < hi" "mid < level_len l" using 1(4) by (auto simp: mid_def)
    note e = find_loop.simps[of l key lo hi, unfolded Let_def, folded mid_def]
    consider "row_at l mid < key" | "row_at l mid = key" | "key < row_at l mid" by fastforce
    then show ?thesis
    proof cases
      case 1
      then have o: "ocmp (row_at l mid) key = Less" by simp
      have "row_at l i \<noteq> key" if "i \<le> mid" for i
        using rows_ascend_le[OF \<open>level_inv l\<close> that mid(3)] 1 by auto
      then show ?thesis using IH(1)[OF True o] \<open>level_inv l\<close> 1 mid \<open>hi \<le> level_len l\<close> True unfolding e o
        by (auto simp: Suc_le_eq not_le[symmetric])
    next
      case 2
      then show ?thesis using mid True rows_ascend[OF \<open>level_inv l\<close>, of _ mid] rows_ascend[OF \<open>level_inv l\<close>, of mid] \<open>hi \<le> level_len l\<close>
        unfolding e by (auto) (metis less_irrefl linorder_neqE_nat order.strict_trans2)
    next
      case 3
      then have o: "ocmp (row_at l mid) key = Greater" by simp
      have "row_at l i \<noteq> key" if "mid \<le> i" "i < hi" for i
        using rows_ascend_le[OF \<open>level_inv l\<close> that(1)] that 3 \<open>hi \<le> level_len l\<close> by fastforce
      then show ?thesis using IH(2)[OF True o] \<open>level_inv l\<close> 3 mid \<open>hi \<le> level_len l\<close> True unfolding e o
        by (auto simp: not_le[symmetric])
    qed
  qed (simp add: find_loop.simps[of l key lo hi])
qed

lemma level_find_get:
  assumes "level_inv l"
  shows "map_option (row_flags_at l) (level_find l key) = bt_get (level_rows l) key"
proof -
  have d: "distinct (map fst (level_rows l))" using assms by (simp add: level_inv_def bt_wf_distinct)
  have hit: "level_find l key = Some i \<longleftrightarrow> i < level_len l \<and> row_at l i = key" for i
    using find_loop_spec[OF assms, of "level_len l" key 0 i] by (simp add: level_find_def)
  show ?thesis
  proof (cases "level_find l key")
    case None
    then have "row_at l i \<noteq> key" if "i < level_len l" for i using hit[of i] that by auto
    then have "bt_get (level_rows l) key = None" by (fastforce simp: bt_get_def level_rows_def map_of_eq_None_iff)
    then show ?thesis using None by simp
  next
    case (Some i)
    then have i: "i < level_len l" "row_at l i = key" using hit by auto
    then have "(key, row_flags_at l i) \<in> set (level_rows l)"
      using nth_mem[of i "level_rows l"] by simp
    then show ?thesis using Some d by (simp add: bt_get_def)
  qed
qed

lemma slice_filter:
  assumes "\<And>i. i < length xs \<Longrightarrow> P (xs ! i) \<longleftrightarrow> a \<le> i \<and> i < b" "b \<le> length xs"
  shows "take (b - a) (drop a xs) = filter P xs"
proof -
  have "filter P xs = filter P (take a xs) @ filter P (take (b - a) (drop a xs)) @ filter P (drop (b - a) (drop a xs))"
    by (metis append_take_drop_id filter_append)
  moreover have "filter P (take a xs) = []"
    using assms by (auto simp: filter_empty_conv in_set_conv_nth)
  moreover have "filter P (take (b - a) (drop a xs)) = take (b - a) (drop a xs)"
    using assms by (auto simp: filter_id_conv in_set_conv_nth)
  moreover have "filter P (drop (b - a) (drop a xs)) = []"
    using assms by (auto simp: filter_empty_conv in_set_conv_nth)
  ultimately show ?thesis by simp
qed

text \<open>The two searches of a window give the slice of the rows that pass both tests.\<close>

lemma window_slice:
  assumes "\<And>i j. i \<le> j \<Longrightarrow> j < level_len l \<Longrightarrow> P j \<Longrightarrow> P i"
    "\<And>i j. i \<le> j \<Longrightarrow> j < level_len l \<Longrightarrow> \<not> P i \<Longrightarrow> Q j \<Longrightarrow> Q i"
    "\<And>i. i < level_len l \<Longrightarrow> R (level_rows l ! i) \<longleftrightarrow> \<not> P i \<and> Q i"
    "start = search_loop P 0 (level_len l)" "finish = max (search_loop Q start (level_len l)) start"
  shows "start \<le> finish \<and> finish \<le> level_len l \<and> take (finish - start) (drop start (level_rows l)) = filter R (level_rows l)"
proof -
  have s: "start \<le> level_len l" "\<And>i. i < level_len l \<Longrightarrow> P i \<longleftrightarrow> i < start"
    using search_loop_spec[of 0 "level_len l" P] assms(1,4) by auto
  have Q: "Q i" if "start \<le> i" "i \<le> j" "j < level_len l" "Q j" for i j
    using assms(2)[OF that(2,3) _ that(4)] s(2)[of i] that by auto
  have "start \<le> search_loop Q start (level_len l) \<and> search_loop Q start (level_len l) \<le> level_len l
      \<and> (\<forall>i. start \<le> i \<and> i < level_len l \<longrightarrow> (Q i \<longleftrightarrow> i < search_loop Q start (level_len l)))"
    by (rule search_loop_spec[OF s(1)]) (rule Q)
  then have f: "start \<le> finish" "finish \<le> level_len l" "\<And>i. start \<le> i \<Longrightarrow> i < level_len l \<Longrightarrow> Q i \<longleftrightarrow> i < finish"
    using assms(5) by auto
  have "take (finish - start) (drop start (level_rows l)) = filter R (level_rows l)"
    by (rule slice_filter) (use s f assms(3) in auto)
  with f show ?thesis by blast
qed

lemma level_bounds_slice:
  assumes "level_inv l" "level_bounds l lower upper incl = (a, b)"
  shows "a \<le> b \<and> b \<le> level_len l \<and> take (b - a) (drop a (level_rows l))
    = filter (\<lambda>e. lower \<le> fst e \<and> (if incl then fst e \<le> upper else fst e < upper)) (level_rows l)"
proof (rule window_slice[where P = "\<lambda>mid. row_at l mid < lower"
      and Q = "\<lambda>mid. if incl then row_at l mid \<le> upper else row_at l mid < upper"])
  show "a = search_loop (\<lambda>mid. row_at l mid < lower) 0 (level_len l)"
    "b = max (search_loop (\<lambda>mid. if incl then row_at l mid \<le> upper else row_at l mid < upper) a (level_len l)) a"
    using assms(2) by (auto simp: level_bounds_def Let_def)
qed (use rows_ascend_le[OF assms(1)] in \<open>auto intro: order.strict_trans1 order.trans split: if_splits simp: not_less\<close>)

section \<open>What the merge keeps\<close>

fun merge_runs :: "(bytes, row_flags) entries \<Rightarrow> (bytes, row_flags) entries \<Rightarrow> (bytes, row_flags) entries" where
  "merge_runs [] ys = ys"
| "merge_runs xs [] = xs"
| "merge_runs ((k, f) # xs) ((k', f') # ys) =
     (if k < k' then (k, f) # merge_runs xs ((k', f') # ys)
      else if k' < k then (k', f') # merge_runs ((k, f) # xs) ys
      else (k', \<lparr>rf_skip = rf_skip f', rf_refresh = Admitted\<rparr>) # merge_runs xs ys)"

lemma merge_runs_Nil2 [simp]: "merge_runs xs [] = xs"
  by (cases xs) auto

lemma merge_runs_bytes: "rows_bytes (merge_runs xs ys) \<le> rows_bytes xs + rows_bytes ys"
  by (induction xs ys rule: merge_runs.induct) auto

lemma fst_set_merge_runs: "fst ` set (merge_runs xs ys) = fst ` set xs \<union> fst ` set ys"
  by (induction xs ys rule: merge_runs.induct) auto

lemma ball_merge_runs:
  "(\<forall>e \<in> set (merge_runs xs ys). P (fst e)) \<longleftrightarrow> (\<forall>e \<in> set xs. P (fst e)) \<and> (\<forall>e \<in> set ys. P (fst e))"
proof -
  have "(\<forall>x \<in> fst ` set (merge_runs xs ys). P x) \<longleftrightarrow> (\<forall>x \<in> fst ` set xs \<union> fst ` set ys. P x)"
    by (simp only: fst_set_merge_runs)
  then show ?thesis by (simp add: ball_Un)
qed

lemma merge_runs_wf: "bt_wf xs \<Longrightarrow> bt_wf ys \<Longrightarrow> bt_wf (merge_runs xs ys)"
proof (induction xs ys rule: merge_runs.induct)
  case (3 k f xs k' f' ys)
  note all = ball_merge_runs[where P = "\<lambda>y. k < y"] ball_merge_runs[where P = "\<lambda>y. k' < y"]
  from 3 show ?case by (cases k k' rule: linorder_cases) (auto simp: all intro: order.strict_trans)
qed simp_all

lemma drop_level_rows: "a < level_len l \<Longrightarrow> drop a (level_rows l) = (row_at l a, row_flags_at l a) # drop (Suc a) (level_rows l)"
  by (simp add: Cons_nth_drop_Suc[symmetric])

text \<open>A level filled row by row, as the barrier and the merge fill it.\<close>

primrec push_all :: "(bytes, row_flags) entries \<Rightarrow> normal_level \<Rightarrow> level_error + normal_level" where
  "push_all [] l = Inr l"
| "push_all (e # es) l = rbind (level_push l (fst e) (snd e)) (push_all es)"

lemma push_all_Inr:
  "level_shape l \<Longrightarrow> push_all es l = Inr l' \<Longrightarrow> level_shape l' \<and> level_rows l' = level_rows l @ es"
proof (induction es arbitrary: l)
  case (Cons e es)
  then obtain m where m: "level_push l (fst e) (snd e) = Inr m" "push_all es m = Inr l'" by (auto simp: rbind_eq_Inr)
  with Cons level_push_Inr(1,2)[OF Cons.prems(1) m(1)] show ?case by simp
qed simp

lemma push_all_ok:
  "level_shape l \<Longrightarrow> length (nl_values l) + rows_bytes es < 2 ^ 32 \<Longrightarrow> \<exists>l'. push_all es l = Inr l'"
proof (induction es arbitrary: l)
  case (Cons e es)
  obtain m where m: "level_push l (fst e) (snd e) = Inr m"
    using level_push_ok[of l "fst e" "snd e"] Cons.prems by auto
  with Cons level_push_Inr[OF Cons.prems(1) m] show ?case by simp
qed simp

lemma merge_loop_push_all:
  "merge_loop older newer a b merged
     = push_all (merge_runs (drop a (level_rows older)) (drop b (level_rows newer))) merged"
proof (induction older newer a b merged rule: merge_loop.induct)
  case (1 older newer a b merged)
  note IH = 1[unfolded level_push_from_def Suc_eq_plus1[symmetric]]
  note e = merge_loop.simps[of older newer a b merged, unfolded level_push_from_def]
  consider "level_len older \<le> a" "level_len newer \<le> b" | "level_len older \<le> a" "b < level_len newer"
    | "a < level_len older" "level_len newer \<le> b" | "a < level_len older" "b < level_len newer" by linarith
  then show ?case
  proof cases
    case 1
    then show ?thesis by (simp add: e)
  next
    case 2
    then show ?thesis by (simp add: e drop_level_rows) (intro rbind_cong refl, simp add: IH(1))
  next
    case 3
    then show ?thesis by (simp add: e drop_level_rows) (intro rbind_cong refl, simp add: IH(2))
  next
    case 4
    note d = drop_level_rows[OF 4(1)] drop_level_rows[OF 4(2)]
    consider "row_at older a < row_at newer b" | "row_at newer b < row_at older a" | "row_at older a = row_at newer b"
      by fastforce
    then show ?thesis
    proof cases
      case 1
      then have o: "ocmp (row_at older a) (row_at newer b) = Less" by simp
      from 1 show ?thesis using 4 by (simp add: e d o) (intro rbind_cong refl, simp add: IH(3)[OF _ _ _ o] d)
    next
      case 2
      then have o: "ocmp (row_at older a) (row_at newer b) = Greater" by simp
      have "\<not> row_at older a < row_at newer b" using 2 by simp
      with 2 show ?thesis using 4 by (simp add: e d o) (intro rbind_cong refl, simp add: IH(5)[OF _ _ _ o] d)
    next
      case 3
      then have o: "ocmp (row_at older a) (row_at newer b) = Equal" by simp
      from 3 show ?thesis using 4 by (simp add: e d o) (intro rbind_cong refl, simp add: IH(4)[OF _ _ _ o])
    qed
  qed
qed

lemma merge_levels_runs: "merge_levels older newer = push_all (merge_runs (level_rows older) (level_rows newer)) level_default"
  by (simp add: merge_levels_def merge_loop_push_all)

end
