(* ===== verification/Delta_Store.thy ===== *)
theory Delta_Store
  imports Level_Runs
begin

text \<open>
  The working memory of a rule during the fixpoint, \<open>EpochStore\<close> of
  \<open>crates/kyzo-core/src/exec/fixpoint/delta_store.rs\<close>, for rules without a meet aggregation: a stack of
  sealed levels of which the newest is the delta. The stack stands for one map from row bytes to the
  limiter flag, \<open>stack_total\<close>; the epoch barrier \<open>merge_in\<close>, its compaction and the merging scans are
  related to that map.
\<close>

section \<open>The level stack\<close>

record 'l level_stack =
  ls_bottom :: 'l
  ls_above :: "'l list"

definition ls_singleton :: "'l \<Rightarrow> 'l level_stack" where
  "ls_singleton first = \<lparr>ls_bottom = first, ls_above = []\<rparr>"

definition ls_last :: "'l level_stack \<Rightarrow> 'l" where
  "ls_last st = (if ls_above st = [] then ls_bottom st else last (ls_above st))"

definition ls_len :: "'l level_stack \<Rightarrow> nat" where
  "ls_len st = length (ls_above st) + 1"

definition ls_push :: "'l level_stack \<Rightarrow> 'l \<Rightarrow> 'l level_stack" where
  "ls_push st level = st\<lparr>ls_above := ls_above st @ [level]\<rparr>"

definition ls_iter :: "'l level_stack \<Rightarrow> 'l list" where
  "ls_iter st = ls_bottom st # ls_above st"

definition drop_consumed_empty_delta :: "('l \<Rightarrow> bool) \<Rightarrow> 'l level_stack \<Rightarrow> 'l level_stack" where
  "drop_consumed_empty_delta is_empty st =
     (if ls_above st \<noteq> [] \<and> is_empty (last (ls_above st)) then st\<lparr>ls_above := butlast (ls_above st)\<rparr> else st)"

function compact_while :: "('l \<Rightarrow> 'l \<Rightarrow> bool) \<Rightarrow> ('l \<Rightarrow> 'l \<Rightarrow> 'e + 'l) \<Rightarrow> 'l level_stack \<Rightarrow> 'e + 'l level_stack" where
  "compact_while should_merge merge st =
     (if ls_above st = [] then Inr st
      else if length (ls_above st) = 1 then
        if \<not> should_merge (ls_bottom st) (ls_above st ! 0) then Inr st
        else
          rbind (merge (ls_bottom st) (ls_above st ! 0)) (\<lambda>merged.
            compact_while should_merge merge \<lparr>ls_bottom = merged, ls_above = butlast (ls_above st)\<rparr>)
      else
        let n = length (ls_above st) in
        if \<not> should_merge (ls_above st ! (n - 2)) (ls_above st ! (n - 1)) then Inr st
        else
          rbind (merge (ls_above st ! (n - 2)) (ls_above st ! (n - 1))) (\<lambda>merged.
            compact_while should_merge merge
              \<lparr>ls_bottom = ls_bottom st, ls_above = butlast (butlast (ls_above st)) @ [merged]\<rparr>))"
  by pat_completeness auto
termination
proof (relation "measure (\<lambda>(should_merge, merge, st). length (ls_above st))", goal_cases)
  case (3 should_merge merge st n merged)
  then show ?case by (cases "ls_above st" rule: rev_cases) (auto simp: Suc_lessI)
qed auto

declare compact_while.simps [simp del]

section \<open>The epoch store of a normal rule\<close>

record epoch_store =
  es_levels :: "normal_level level_stack"
  es_arity :: nat

definition new_normal :: "nat \<Rightarrow> epoch_store" where
  "new_normal arity = \<lparr>es_levels = ls_singleton level_default, es_arity = arity\<rparr>"

text \<open>\<open>find_map\<close>: the first element the function is defined on.\<close>

primrec find_map :: "('a \<Rightarrow> 'b option) \<Rightarrow> 'a list \<Rightarrow> 'b option" where
  "find_map f [] = None"
| "find_map f (x # xs) = (case f x of None \<Rightarrow> find_map f xs | Some y \<Rightarrow> Some y)"

definition levels_lookup :: "normal_level level_stack \<Rightarrow> bytes \<Rightarrow> row_flags option" where
  "levels_lookup levels key = find_map (\<lambda>l. map_option (row_flags_at l) (level_find l key)) (rev (ls_iter levels))"

definition store_exists :: "epoch_store \<Rightarrow> tuple \<Rightarrow> bool" where
  "store_exists s key =
     list_ex (\<lambda>l. level_find l (encode_tuple_bare key) \<noteq> None) (rev (ls_iter (es_levels s)))"

text \<open>
  An out-store of an epoch: its rows by bytes, each with its limiter flag.
\<close>

type_synonym regular_temp_store = "(bytes, limiter_skip) entries"

definition regular_put :: "regular_temp_store \<Rightarrow> tuple \<Rightarrow> regular_temp_store" where
  "regular_put out tup = bt_insert (encode_tuple_bare tup) Include out"

definition regular_put_with_skip :: "regular_temp_store \<Rightarrow> tuple \<Rightarrow> regular_temp_store" where
  "regular_put_with_skip out tup = bt_insert (encode_tuple_bare tup) PastLimit out"

definition regular_exists :: "regular_temp_store \<Rightarrow> tuple \<Rightarrow> bool" where
  "regular_exists out key = (bt_get out (encode_tuple_bare key) \<noteq> None)"

text \<open>
  The observer of admissions, \<open>AdmissionSink\<close>: whether it records, and what being told of a row does to its state.
  A recording sink may refuse a row whose bytes do not decode. The sink that does not record is \<open>()\<close>.
\<close>

record 'w admission_sink =
  sk_recording :: bool
  sk_admit :: "bytes \<times> limiter_skip \<Rightarrow> 'w \<Rightarrow> decode_error + 'w"

definition no_sink :: "unit admission_sink" where
  "no_sink = \<lparr>sk_recording = False, sk_admit = (\<lambda>_. Inr)\<rparr>"

datatype merge_error = ArenaFull level_error | TempStoreCorrupt decode_error

text \<open>
  The barrier's loop over the out-store; its state is the level being sealed, the count of
  admissions and the state of the sink. A refusal or an overflow abandons the whole merge.
\<close>

primrec merge_in_loop ::
  "'w admission_sink \<Rightarrow> normal_level level_stack \<Rightarrow> regular_temp_store \<Rightarrow> normal_level \<times> nat \<times> 'w
     \<Rightarrow> merge_error + normal_level \<times> nat \<times> 'w" where
  "merge_in_loop sink levels [] acc = Inr acc"
| "merge_in_loop sink levels (e # rest) acc =
     (let (row, skip) = e; (level, admitted, told) = acc in
      case levels_lookup levels row of
        None \<Rightarrow>
          rbind (if sk_recording sink then map_err TempStoreCorrupt (sk_admit sink (row, skip) told) else Inr told) (\<lambda>told.
          rbind (map_err ArenaFull (level_push level row \<lparr>rf_skip = skip, rf_refresh = Admitted\<rparr>)) (\<lambda>level.
            merge_in_loop sink levels rest (level, admitted + 1, told)))
      | Some old \<Rightarrow>
          if rf_skip old \<noteq> skip then
            rbind (map_err ArenaFull (level_push level row \<lparr>rf_skip = skip, rf_refresh = Refresh\<rparr>)) (\<lambda>level.
              merge_in_loop sink levels rest (level, admitted, told))
          else merge_in_loop sink levels rest acc)"

definition compact_normal :: "normal_level level_stack \<Rightarrow> level_error + normal_level level_stack" where
  "compact_normal levels =
     compact_while (\<lambda>older newer. level_len older \<le> level_len newer * 2) merge_levels levels"

definition merge_in ::
  "'w admission_sink \<Rightarrow> epoch_store \<Rightarrow> regular_temp_store \<Rightarrow> 'w \<Rightarrow> merge_error + epoch_store \<times> nat \<times> 'w" where
  "merge_in sink s out told =
     rbind (merge_in_loop sink (es_levels s) out (level_default, 0, told)) (\<lambda>(level, admitted, told).
       rbind (map_err ArenaFull (compact_normal (drop_consumed_empty_delta level_is_empty (es_levels s)))) (\<lambda>levels.
         Inr (s\<lparr>es_levels := ls_push levels level\<rparr>, admitted, told)))"

definition has_delta :: "epoch_store \<Rightarrow> bool" where
  "has_delta s =
     (let l = ls_last (es_levels s) in
      list_ex (\<lambda>i. \<not> hides_from_delta (rf_refresh (row_flags_at l i))) [0..<level_len l])"

section \<open>The merging scan\<close>

text \<open>A cursor is a level, its next row and its end.\<close>

type_synonym level_cursor = "normal_level \<times> nat \<times> nat"

definition best_cursor :: "level_cursor list \<Rightarrow> (bytes \<times> nat) option" where
  "best_cursor cursors =
     foldl (\<lambda>best (ci, l, nxt, finish).
       if nxt < finish then
         (case best of
            None \<Rightarrow> Some (row_at l nxt, ci)
          | Some (bt, bci) \<Rightarrow>
              if row_at l nxt < bt \<or> row_at l nxt = bt \<and> bci < ci then Some (row_at l nxt, ci) else Some (bt, bci))
       else best) None (enumerate 0 cursors)"

function advance_cursor :: "bytes \<Rightarrow> level_cursor \<Rightarrow> level_cursor" where
  "advance_cursor key (l, nxt, finish) =
     (if nxt < finish \<and> row_at l nxt = key then advance_cursor key (l, nxt + 1, finish) else (l, nxt, finish))"
  by pat_completeness auto
termination by (relation "measure (\<lambda>(key, l, nxt, finish). finish - nxt)") auto

declare advance_cursor.simps [simp del]

definition cursor_left :: "level_cursor \<Rightarrow> nat" where
  "cursor_left c = (case c of (l, nxt, finish) \<Rightarrow> finish - nxt)"

fun cursor_head :: "level_cursor \<Rightarrow> bytes option" where
  "cursor_head (l, nxt, finish) = (if nxt < finish then Some (row_at l nxt) else None)"

lemma best_cursor_snoc:
  "best_cursor (cs @ [c]) =
     (case cursor_head c of
        None \<Rightarrow> best_cursor cs
      | Some k \<Rightarrow>
          (case best_cursor cs of
             None \<Rightarrow> Some (k, length cs)
           | Some (bt, bci) \<Rightarrow> if k < bt \<or> k = bt \<and> bci < length cs then Some (k, length cs) else Some (bt, bci)))"
  by (cases c) (simp add: best_cursor_def enumerate_append_eq)

text \<open>The best cursor holds the least key, and is the newest of those that do.\<close>

lemma best_cursor_spec:
  "case best_cursor cs of
     None \<Rightarrow> \<forall>c \<in> set cs. cursor_head c = None
   | Some (t, ci) \<Rightarrow> ci < length cs \<and> cursor_head (cs ! ci) = Some t
       \<and> (\<forall>j k. j < length cs \<and> cursor_head (cs ! j) = Some k \<longrightarrow> t < k \<or> k = t \<and> j \<le> ci)"
proof (induction cs rule: rev_induct)
  case Nil
  then show ?case by (simp add: best_cursor_def)
next
  case (snoc c cs)
  show ?case
  proof (cases "cursor_head c")
    case None
    with snoc show ?thesis by (auto simp: best_cursor_snoc nth_append less_Suc_eq split: option.splits)
  next
    case k: (Some k)
    show ?thesis
    proof (cases "best_cursor cs")
      case None
      with snoc k show ?thesis by (auto simp: best_cursor_snoc nth_append less_Suc_eq dest!: nth_mem)
    next
      case (Some r)
      obtain t ci where r: "r = (t, ci)" by (cases r)
      note IH = snoc[unfolded Some r, simplified]
      have "k < t \<or> k = t \<or> t < k" by auto
      with IH k show ?thesis
        by (auto simp: best_cursor_snoc nth_append less_Suc_eq Some r intro: order.strict_trans)
    qed
  qed
qed

lemma best_cursor_None: "best_cursor cs = None \<longleftrightarrow> (\<forall>c \<in> set cs. cursor_head c = None)"
  using best_cursor_spec[of cs] nth_mem[of _ cs] by (auto split: option.splits)

lemma best_cursor_Some:
  assumes "best_cursor cs = Some (t, ci)"
  shows "ci < length cs" "cursor_head (cs ! ci) = Some t"
    "\<And>j k. j < length cs \<Longrightarrow> cursor_head (cs ! j) = Some k \<Longrightarrow> t < k \<or> k = t \<and> j \<le> ci"
  using best_cursor_spec[of cs] assms by auto

lemma advance_cursor_left:
  "cursor_left (advance_cursor key c) \<le> cursor_left c"
  "cursor_head c = Some key \<Longrightarrow> cursor_left (advance_cursor key c) < cursor_left c"
proof -
  show le: "cursor_left (advance_cursor key c) \<le> cursor_left c" for c
  proof (induction key c rule: advance_cursor.induct)
    case (1 key l nxt finish)
    then show ?case by (subst advance_cursor.simps) (auto simp: cursor_left_def split: prod.splits)
  qed
  assume "cursor_head c = Some key"
  then obtain l nxt finish where c: "c = (l, nxt, finish)" "nxt < finish" "row_at l nxt = key"
    by (cases c) (auto split: if_splits)
  then have "advance_cursor key c = advance_cursor key (l, nxt + 1, finish)" by (simp add: advance_cursor.simps)
  with le[of "(l, nxt + 1, finish)"] c show "cursor_left (advance_cursor key c) < cursor_left c"
    by (simp add: cursor_left_def)
qed

definition cursors_left :: "level_cursor list \<Rightarrow> nat" where
  "cursors_left cs = sum_list (map cursor_left cs)"

lemma advance_all_left:
  assumes "ci < length cs" "cursor_head (cs ! ci) = Some key"
  shows "cursors_left (map (advance_cursor key) cs) < cursors_left cs"
proof -
  obtain xs ys where cs: "cs = xs @ cs ! ci # ys" using id_take_nth_drop[OF assms(1)] by blast
  have le: "cursors_left (map (advance_cursor key) zs) \<le> cursors_left zs" for zs
    by (induction zs) (simp_all add: cursors_left_def add_mono advance_cursor_left(1))
  have split: "cursors_left (us @ c # vs) = cursors_left us + cursor_left c + cursors_left vs" for us vs c
    by (simp add: cursors_left_def)
  have "cursors_left (map (advance_cursor key) (xs @ cs ! ci # ys)) < cursors_left (xs @ cs ! ci # ys)"
    using le[of xs] le[of ys] advance_cursor_left(2)[OF assms(2)] by (simp add: split)
  then show ?thesis using cs by simp
qed

text \<open>One step of the k-way merge: the row that speaks, its flag, and the cursors past its key.\<close>

function normal_merge_next ::
  "level_cursor list \<Rightarrow> bool \<Rightarrow> ((bytes \<times> limiter_skip) \<times> level_cursor list) option" where
  "normal_merge_next cursors delta_only =
     (case best_cursor cursors of
        None \<Rightarrow> None
      | Some best \<Rightarrow>
          let (l, win_row, finish) = cursors ! snd best;
              key = row_at l win_row;
              advanced = map (advance_cursor key) cursors;
              flags = row_flags_at l win_row
          in
          if delta_only \<and> hides_from_delta (rf_refresh flags) then normal_merge_next advanced delta_only
          else Some ((row_at l win_row, rf_skip flags), advanced))"
  by pat_completeness auto
termination
proof (relation "measure (\<lambda>(cursors, delta_only). cursors_left cursors)", goal_cases)
  case (2 cursors delta_only best c l rest win_row finish key advanced flags)
  then have b: "best_cursor cursors = Some (fst best, snd best)" by simp
  have "cursors ! snd best = (l, win_row, finish)" "key = row_at l win_row" using 2 by simp_all
  then have "cursor_head (cursors ! snd best) = Some key"
    using best_cursor_Some(2)[OF b] by (simp split: if_splits)
  from advance_all_left[OF best_cursor_Some(1)[OF b] this] 2 show ?case by simp
qed simp

declare normal_merge_next.simps [simp del]

lemma normal_merge_next_left:
  "normal_merge_next cursors delta_only = Some (item, cursors') \<Longrightarrow> cursors_left cursors' < cursors_left cursors"
proof (induction cursors delta_only rule: normal_merge_next.induct)
  case (1 cursors delta_only)
  obtain t ci where b: "best_cursor cursors = Some (t, ci)"
    using "1.prems" by (subst (asm) normal_merge_next.simps) (auto split: option.splits)
  obtain l w f where c: "cursors ! ci = (l, w, f)" by (cases "cursors ! ci")
  have h: "cursor_head (cursors ! ci) = Some (row_at l w)" using best_cursor_Some(2)[OF b] by (simp add: c split: if_splits)
  note lt = advance_all_left[OF best_cursor_Some(1)[OF b] h]
  show ?case
  proof (cases "delta_only \<and> hides_from_delta (rf_refresh (row_flags_at l w))")
    case True
    with "1.prems" have "normal_merge_next (map (advance_cursor (row_at l w)) cursors) delta_only = Some (item, cursors')"
      by (subst (asm) normal_merge_next.simps) (simp add: b c Let_def)
    from "1.IH"[OF b refl _ refl refl refl refl True this] lt c show ?thesis by simp
  next
    case False
    with "1.prems" lt show ?thesis by (subst (asm) normal_merge_next.simps) (auto simp: b c Let_def)
  qed
qed

text \<open>Draining the iterator.\<close>

function merge_collect :: "level_cursor list \<Rightarrow> bool \<Rightarrow> (bytes \<times> limiter_skip) list" where
  "merge_collect cursors delta_only =
     (case normal_merge_next cursors delta_only of
        None \<Rightarrow> []
      | Some step \<Rightarrow> fst step # merge_collect (snd step) delta_only)"
  by pat_completeness auto
termination
proof (relation "measure (\<lambda>(cursors, delta_only). cursors_left cursors)", goal_cases)
  case (2 cursors delta_only step)
  then show ?case using normal_merge_next_left[of cursors delta_only "fst step" "snd step"] by simp
qed simp

declare merge_collect.simps [simp del]

definition picked_levels :: "epoch_store \<Rightarrow> bool \<Rightarrow> normal_level list" where
  "picked_levels s delta_only = (if delta_only then [ls_last (es_levels s)] else ls_iter (es_levels s))"

definition ranged :: "epoch_store \<Rightarrow> bytes \<Rightarrow> bytes \<Rightarrow> bool \<Rightarrow> bool \<Rightarrow> (bytes \<times> limiter_skip) list" where
  "ranged s lower upper upper_inclusive delta_only =
     merge_collect (map (\<lambda>l. (l, level_bounds l lower upper upper_inclusive)) (picked_levels s delta_only)) delta_only"

definition range_iter :: "epoch_store \<Rightarrow> scan_bound list \<Rightarrow> scan_bound list \<Rightarrow> bool \<Rightarrow> (bytes \<times> limiter_skip) list" where
  "range_iter s lower upper upper_inclusive =
     ranged s (bare_bounds_lower lower) (bare_bounds_upper upper) upper_inclusive False"

definition delta_range_iter :: "epoch_store \<Rightarrow> scan_bound list \<Rightarrow> scan_bound list \<Rightarrow> bool \<Rightarrow> (bytes \<times> limiter_skip) list" where
  "delta_range_iter s lower upper upper_inclusive =
     ranged s (bare_bounds_lower lower) (bare_bounds_upper upper) upper_inclusive True"

definition prefix_iter :: "epoch_store \<Rightarrow> tuple \<Rightarrow> (bytes \<times> limiter_skip) list" where
  "prefix_iter s pre =
     (let lower = encode_tuple_bare pre; upper = lower @ [0xFF] in ranged s lower upper True False)"

definition delta_prefix_iter :: "epoch_store \<Rightarrow> tuple \<Rightarrow> (bytes \<times> limiter_skip) list" where
  "delta_prefix_iter s pre =
     (let lower = encode_tuple_bare pre; upper = lower @ [0xFF] in ranged s lower upper True True)"

definition prefix_iter_projected :: "epoch_store \<Rightarrow> tuple \<Rightarrow> nat list \<Rightarrow> bool \<Rightarrow> (bytes \<times> limiter_skip) list option" where
  "prefix_iter_projected s row cols delta_only =
     map_option (\<lambda>cursors. merge_collect cursors delta_only)
       (those (map (\<lambda>l. map_option (Pair l) (prefix_bounds l row cols)) (picked_levels s delta_only)))"

definition all_iter :: "epoch_store \<Rightarrow> (bytes \<times> limiter_skip) list" where
  "all_iter s = prefix_iter s []"

definition delta_all_iter :: "epoch_store \<Rightarrow> (bytes \<times> limiter_skip) list" where
  "delta_all_iter s = delta_prefix_iter s []"

definition early_returned_iter :: "epoch_store \<Rightarrow> (bytes \<times> limiter_skip) list" where
  "early_returned_iter s = filter (\<lambda>t. \<not> excludes_from_return (snd t)) (all_iter s)"

end
