(* ===== verification/Delta_Laws.thy ===== *)
theory Delta_Laws
  imports Delta_Store
begin

text \<open>
  What the level stack means. \<open>stack_total\<close> is the map its levels stand for, the newest speaking
  first; \<open>merge_in\<close> overwrites it with the out-store, admits exactly the new keys, and keeps the stack
  short; scans list the map in key order.
\<close>

section \<open>The map of a stack\<close>

definition skip_map :: "normal_level \<Rightarrow> bytes \<rightharpoonup> limiter_skip" where
  "skip_map l k = map_option rf_skip (bt_get (level_rows l) k)"

text \<open>A list of levels, the newest first.\<close>

definition levels_total :: "normal_level list \<Rightarrow> bytes \<rightharpoonup> limiter_skip" where
  "levels_total ls = foldr (\<lambda>l m. m ++ skip_map l) ls Map.empty"

definition stack_total :: "normal_level level_stack \<Rightarrow> bytes \<rightharpoonup> limiter_skip" where
  "stack_total levels = levels_total (rev (ls_iter levels))"

definition store_total :: "epoch_store \<Rightarrow> bytes \<rightharpoonup> limiter_skip" where
  "store_total s = stack_total (es_levels s)"

definition stack_inv :: "normal_level level_stack \<Rightarrow> bool" where
  "stack_inv levels \<longleftrightarrow> (\<forall>l \<in> set (ls_iter levels). level_inv l)"

definition store_inv :: "epoch_store \<Rightarrow> bool" where
  "store_inv s \<longleftrightarrow> stack_inv (es_levels s)"

lemma levels_total_simps [simp]:
  "levels_total [] = Map.empty" "levels_total (l # ls) = levels_total ls ++ skip_map l"
  by (simp_all add: levels_total_def)

lemma levels_total_empty: "level_is_empty l \<Longrightarrow> levels_total (l # ls) = levels_total ls"
  by (auto simp: fun_eq_iff skip_map_def map_add_def level_is_empty_def level_rows_def level_len_def bt_get_def)

lemma levels_lookup_total:
  assumes "\<forall>l \<in> set ls. level_inv l"
  shows "map_option rf_skip (find_map (\<lambda>l. map_option (row_flags_at l) (level_find l key)) ls) = levels_total ls key"
  using assms
  by (induction ls) (auto simp: level_find_get skip_map_def map_add_def split: option.splits)

lemma stack_lookup_total: "stack_inv levels \<Longrightarrow> map_option rf_skip (levels_lookup levels key) = stack_total levels key"
  using levels_lookup_total[of "rev (ls_iter levels)"] by (simp add: stack_inv_def levels_lookup_def stack_total_def)

lemma store_exists_total:
  assumes "store_inv s"
  shows "store_exists s key \<longleftrightarrow> store_total s (encode_tuple_bare key) \<noteq> None"
proof -
  have "list_ex (\<lambda>l. level_find l k \<noteq> None) ls \<longleftrightarrow> levels_total ls k \<noteq> None" if "\<forall>l \<in> set ls. level_inv l" for ls k
    using that
  proof (induction ls)
    case (Cons l ls)
    have "level_find l k \<noteq> None \<longleftrightarrow> bt_get (level_rows l) k \<noteq> None"
      using level_find_get[of l k] Cons.prems by (metis list.set_intros(1) map_option_is_None)
    with Cons show ?case by (auto simp: skip_map_def)
  qed simp
  from this[of "rev (ls_iter (es_levels s))"] assms show ?thesis
    by (simp add: store_exists_def store_total_def stack_total_def store_inv_def stack_inv_def)
qed

section \<open>Compaction\<close>

lemma bt_get_Cons: "bt_get ((k, v) # es) k' = (if k' = k then Some v else bt_get es k')"
  by (simp add: bt_get_def)

lemma bt_get_below: "\<forall>e \<in> set es. k < fst e \<Longrightarrow> bt_get es k = None" for k :: "'k::linorder"
  by (fastforce simp: bt_get_def map_of_eq_None_iff)

lemma merge_runs_get:
  "bt_wf xs \<Longrightarrow> bt_wf ys \<Longrightarrow> map_option rf_skip (bt_get (merge_runs xs ys) k)
    = (case bt_get ys k of None \<Rightarrow> map_option rf_skip (bt_get xs k) | Some f \<Rightarrow> Some (rf_skip f))"
proof (induction xs ys rule: merge_runs.induct)
  case (1 ys)
  then show ?case by (simp add: bt_get_def split: option.split)
next
  case (2 x xs)
  then show ?case by (simp add: bt_get_def)
next
  case (3 k1 f xs k2 f' ys)
  consider "k1 < k2" | "k2 < k1" | "k1 = k2" by fastforce
  then show ?case
  proof cases
    case 1
    then have "bt_get ((k2, f') # ys) k1 = None" by (intro bt_get_below) (use 3 in auto)
    with 1 3 show ?thesis by (auto simp: bt_get_Cons split: option.split)
  next
    case 2
    then have n: "\<not> k1 < k2" by simp
    have "bt_get ((k1, f) # xs) k2 = None" by (rule bt_get_below) (use 2 3 in auto)
    with 2 n 3 show ?thesis by (auto simp: bt_get_Cons split: option.split)
  next
    case eq: 3
    with 3 show ?thesis by (auto simp: bt_get_Cons split: option.split)
  qed
qed

lemma merge_levels_spec:
  assumes "level_inv older" "level_inv newer" "merge_levels older newer = Inr l"
  shows "level_inv l" "skip_map l = skip_map older ++ skip_map newer" "level_rows l = merge_runs (level_rows older) (level_rows newer)"
proof -
  have "level_shape l \<and> level_rows l = merge_runs (level_rows older) (level_rows newer)"
    using push_all_Inr[of level_default "merge_runs (level_rows older) (level_rows newer)" l] assms(3) level_default_facts(1)
    by (simp add: merge_levels_runs level_inv_def)
  then show rows: "level_rows l = merge_runs (level_rows older) (level_rows newer)" and "level_inv l"
    using assms(1,2) by (simp_all add: level_inv_def merge_runs_wf)
  show "skip_map l = skip_map older ++ skip_map newer"
    using merge_runs_get[of "level_rows older" "level_rows newer"] assms(1,2)
    by (auto simp: fun_eq_iff skip_map_def rows map_add_def level_inv_def split: option.split)
qed

text \<open>Compaction on the list of levels, the newest first.\<close>

fun compact_list :: "('l \<Rightarrow> 'l \<Rightarrow> bool) \<Rightarrow> ('l \<Rightarrow> 'l \<Rightarrow> 'e + 'l) \<Rightarrow> 'l list \<Rightarrow> 'e + 'l list" where
  "compact_list should_merge merge (newer # older # rest) =
     (if should_merge older newer then
        rbind (merge older newer) (\<lambda>merged. compact_list should_merge merge (merged # rest))
      else Inr (newer # older # rest))"
| "compact_list should_merge merge ls = Inr ls"

lemma rbind_assoc: "rbind (rbind r f) g = rbind r (\<lambda>x. rbind (f x) g)"
  by (cases r) simp_all

lemma compact_while_list:
  "rbind (compact_while sm mg st) (\<lambda>st'. Inr (rev (ls_iter st'))) = compact_list sm mg (rev (ls_iter st))"
proof (induction sm mg st rule: compact_while.induct)
  case (1 sm mg st)
  note e = compact_while.simps[of sm mg st]
  consider "ls_above st = []" | x where "ls_above st = [x]" | xs x y where "ls_above st = xs @ [x, y]"
    by (metis append_Cons append_Nil append_assoc rev_exhaust)
  then show ?case
  proof cases
    case 1
    then show ?thesis by (simp add: e ls_iter_def)
  next
    case (2 x)
    then show ?thesis
      using 1(1) by (auto simp: e ls_iter_def rbind_assoc intro!: rbind_cong)
  next
    case (3 xs x y)
    then have n: "length (ls_above st) \<noteq> 1" "ls_above st ! (length (ls_above st) - 2) = x"
      "ls_above st ! (length (ls_above st) - 1) = y" "butlast (butlast (ls_above st)) = xs" "ls_above st \<noteq> []"
      by (simp_all add: nth_append butlast_append)
    note IH = 1(2)[OF n(5,1) refl, unfolded n]
    show ?thesis
      using IH by (auto simp: e n Let_def ls_iter_def 3 nth_append butlast_append rbind_assoc intro!: rbind_cong)
  qed
qed

text \<open>A slim list of levels: every level is more than twice the size of the one above it.\<close>

fun slim :: "normal_level list \<Rightarrow> bool" where
  "slim (newer # older # rest) \<longleftrightarrow> level_len newer * 2 < level_len older \<and> slim (older # rest)"
| "slim ls \<longleftrightarrow> True"

definition levels_bytes :: "normal_level list \<Rightarrow> nat" where
  "levels_bytes ls = sum_list (map (\<lambda>l. rows_bytes (level_rows l)) ls)"

abbreviation compact_levels :: "normal_level list \<Rightarrow> level_error + normal_level list" where
  "compact_levels \<equiv> compact_list (\<lambda>older newer. level_len older \<le> level_len newer * 2) merge_levels"

lemma merge_levels_ok:
  assumes "rows_bytes (level_rows older) + rows_bytes (level_rows newer) < 2 ^ 32"
  shows "\<exists>l. merge_levels older newer = Inr l"
proof -
  have "length (nl_values level_default) + rows_bytes (merge_runs (level_rows older) (level_rows newer)) < 2 ^ 32"
    using merge_runs_bytes[of "level_rows older" "level_rows newer"] assms by (simp add: level_default_def)
  then show ?thesis
    using push_all_ok level_default_facts(1) by (simp add: merge_levels_runs level_inv_def)
qed

lemma compact_levels_Inr:
  "compact_levels ls = Inr ls' \<Longrightarrow> \<forall>l \<in> set ls. level_inv l
    \<Longrightarrow> (\<forall>l \<in> set ls'. level_inv l) \<and> levels_total ls' = levels_total ls \<and> (slim (tl ls) \<longrightarrow> slim ls')
      \<and> levels_bytes ls' \<le> levels_bytes ls \<and> (ls \<noteq> [] \<longrightarrow> ls' \<noteq> [])"
proof (induction "\<lambda>older newer. level_len older \<le> level_len newer * 2" merge_levels ls rule: compact_list.induct)
  case (1 newer older rest)
  show ?case
  proof (cases "level_len older \<le> level_len newer * 2")
    case True
    then obtain m where m: "merge_levels older newer = Inr m" "compact_levels (m # rest) = Inr ls'"
      using "1.prems"(1) by (auto simp: rbind_eq_Inr)
    note spec = merge_levels_spec[OF _ _ m(1)]
    have b: "rows_bytes (level_rows m) \<le> rows_bytes (level_rows older) + rows_bytes (level_rows newer)"
      using merge_runs_bytes spec(3) "1.prems"(2) by simp
    have inv: "\<forall>l \<in> set (m # rest). level_inv l" using spec(1) "1.prems"(2) by simp
    have "slim (tl (newer # older # rest)) \<Longrightarrow> slim (tl (m # rest))" by (cases rest) simp_all
    with "1.hyps"[OF True m(1) m(2) inv] spec(2) "1.prems"(2) b show ?thesis by (auto simp: levels_bytes_def)
  next
    case False
    with 1 show ?thesis by (auto simp: levels_bytes_def)
  qed
qed (auto simp: levels_bytes_def)

lemma compact_levels_ok:
  "levels_bytes ls < 2 ^ 32 \<Longrightarrow> \<forall>l \<in> set ls. level_inv l \<Longrightarrow> \<exists>ls'. compact_levels ls = Inr ls'"
proof (induction "\<lambda>older newer. level_len older \<le> level_len newer * 2" merge_levels ls rule: compact_list.induct)
  case (1 newer older rest)
  show ?case
  proof (cases "level_len older \<le> level_len newer * 2")
    case True
    obtain m where m: "merge_levels older newer = Inr m"
      using merge_levels_ok[of older newer] "1.prems"(1) by (auto simp: levels_bytes_def)
    note spec = merge_levels_spec[OF _ _ m]
    have "rows_bytes (level_rows m) \<le> rows_bytes (level_rows older) + rows_bytes (level_rows newer)"
      using merge_runs_bytes spec(3) "1.prems"(2) by simp
    with "1.hyps"[OF True m] spec(1) "1.prems" True m show ?thesis by (simp add: levels_bytes_def)
  qed simp
qed simp_all

lemma ls_iter_inject: "ls_iter a = ls_iter b \<longleftrightarrow> a = b"
  by (cases a; cases b) (auto simp: ls_iter_def)

lemma compact_normal_list:
  "compact_normal st = Inr st' \<longleftrightarrow> compact_levels (rev (ls_iter st)) = Inr (rev (ls_iter st'))"
  using compact_while_list[of "\<lambda>older newer. level_len older \<le> level_len newer * 2" merge_levels st]
  by (cases "compact_normal st") (auto simp: compact_normal_def ls_iter_inject)

lemma compact_normal_ok:
  assumes "levels_bytes (ls_iter st) < 2 ^ 32" "stack_inv st"
  shows "\<exists>st'. compact_normal st = Inr st'"
proof -
  obtain ls where "compact_levels (rev (ls_iter st)) = Inr ls"
    using compact_levels_ok[of "rev (ls_iter st)"] assms by (auto simp: levels_bytes_def stack_inv_def sum_list_rev rev_map[symmetric])
  then show ?thesis
    using compact_while_list[of "\<lambda>older newer. level_len older \<le> level_len newer * 2" merge_levels st]
    by (cases "compact_normal st") (auto simp: compact_normal_def)
qed

section \<open>The barrier\<close>

text \<open>The rows the barrier seals: new keys, admitted, and known keys whose flag changed, refreshed.\<close>

definition sealed_flags :: "normal_level level_stack \<Rightarrow> bytes \<times> limiter_skip \<Rightarrow> (bytes \<times> row_flags) option" where
  "sealed_flags levels e =
     (case stack_total levels (fst e) of
        None \<Rightarrow> Some (fst e, \<lparr>rf_skip = snd e, rf_refresh = Admitted\<rparr>)
      | Some old \<Rightarrow> if old \<noteq> snd e then Some (fst e, \<lparr>rf_skip = snd e, rf_refresh = Refresh\<rparr>) else None)"

definition sealed_rows :: "normal_level level_stack \<Rightarrow> regular_temp_store \<Rightarrow> (bytes, row_flags) entries" where
  "sealed_rows levels out = List.map_filter (sealed_flags levels) out"

definition fresh_rows :: "normal_level level_stack \<Rightarrow> regular_temp_store \<Rightarrow> regular_temp_store" where
  "fresh_rows levels out = filter (\<lambda>e. stack_total levels (fst e) = None) out"

lemma sealed_rows_simps [simp]:
  "sealed_rows levels [] = []"
  "sealed_rows levels (e # out) =
     (case sealed_flags levels e of None \<Rightarrow> sealed_rows levels out | Some r \<Rightarrow> r # sealed_rows levels out)"
  by (simp_all add: sealed_rows_def map_filter_simps split: option.split)

text \<open>What a sink makes of a list of rows it is told of.\<close>

primrec tell :: "'w admission_sink \<Rightarrow> regular_temp_store \<Rightarrow> 'w \<Rightarrow> decode_error + 'w" where
  "tell sink [] told = Inr told"
| "tell sink (e # es) told = rbind (if sk_recording sink then sk_admit sink e told else Inr told) (tell sink es)"

lemma merge_in_loop_Inr:
  assumes "stack_inv levels"
  shows "merge_in_loop sink levels out (level, admitted, told) = Inr (level', admitted', told')
    \<longleftrightarrow> push_all (sealed_rows levels out) level = Inr level' \<and> admitted' = admitted + length (fresh_rows levels out)
      \<and> tell sink (fresh_rows levels out) told = Inr told'"
proof (induction out arbitrary: level admitted told)
  case (Cons e out)
  obtain row skip where e: "e = (row, skip)" by (cases e)
  note total = stack_lookup_total[OF assms, of row]
  show ?case
  proof (cases "levels_lookup levels row")
    case None
    with total have "stack_total levels row = None" by simp
    with None show ?thesis
      by (auto simp: e sealed_flags_def fresh_rows_def Cons.IH rbind_eq_Inr map_err_eq_Inr)
  next
    case (Some old)
    with total have "stack_total levels row = Some (rf_skip old)" by simp
    with Some show ?thesis
      by (auto simp: e sealed_flags_def fresh_rows_def Cons.IH rbind_eq_Inr map_err_eq_Inr)
  qed
qed (auto simp: fresh_rows_def)

text \<open>When no arena overflows, only the sink can refuse.\<close>

lemma merge_in_loop_refused:
  assumes "stack_inv levels"
  shows "push_all (sealed_rows levels out) level = Inr level' \<Longrightarrow> tell sink (fresh_rows levels out) told = Inl e
    \<Longrightarrow> merge_in_loop sink levels out (level, admitted, told) = Inl (TempStoreCorrupt e)"
proof (induction out arbitrary: level admitted told)
  case (Cons r out)
  obtain row skip where r: "r = (row, skip)" by (cases r)
  note total = stack_lookup_total[OF assms, of row]
  show ?case
  proof (cases "levels_lookup levels row")
    case None
    with total have "stack_total levels row = None" by simp
    with None Cons.prems Cons.IH show ?thesis
      by (auto simp: r sealed_flags_def fresh_rows_def rbind_eq_Inr rbind_eq_Inl split: if_splits)
  next
    case (Some old)
    with total have "stack_total levels row = Some (rf_skip old)" by simp
    with Some Cons.prems Cons.IH show ?thesis
      by (auto simp: r sealed_flags_def fresh_rows_def rbind_eq_Inr)
  qed
qed (simp add: fresh_rows_def)

lemma sealed_flags_fst: "sealed_flags levels e = Some r \<Longrightarrow> fst r = fst e \<and> rf_skip (snd r) = snd e"
  by (auto simp: sealed_flags_def split: option.splits if_splits)

lemma set_sealed_rows: "r \<in> set (sealed_rows levels out) \<longleftrightarrow> (\<exists>e \<in> set out. sealed_flags levels e = Some r)"
  by (induction out) (auto split: option.splits)

lemma sealed_rows_below: "\<forall>e \<in> set out. k < fst e \<Longrightarrow> \<forall>r \<in> set (sealed_rows levels out). k < fst r"
  by (fastforce simp: set_sealed_rows dest!: sealed_flags_fst)

lemma sealed_rows_wf: "bt_wf out \<Longrightarrow> bt_wf (sealed_rows levels out)"
proof (induction out)
  case (Cons e out)
  then show ?case using sealed_rows_below[of out "fst e" levels] by (auto dest!: sealed_flags_fst split: option.splits)
qed simp

lemma sealed_rows_bytes: "rows_bytes (sealed_rows levels out) \<le> sum_list (map (\<lambda>e. length (fst e)) out)"
  by (induction out) (auto dest: sealed_flags_fst split: option.splits)

lemma sealed_rows_get:
  "bt_wf out \<Longrightarrow> (case bt_get (sealed_rows levels out) x of None \<Rightarrow> stack_total levels x | Some f \<Rightarrow> Some (rf_skip f))
    = (case bt_get out x of None \<Rightarrow> stack_total levels x | Some v \<Rightarrow> Some v)"
proof (induction out)
  case (Cons e out)
  obtain k s where e: "e = (k, s)" by (cases e)
  have none: "bt_get out k = None" "bt_get (sealed_rows levels out) k = None"
    using Cons.prems sealed_rows_below[of out k levels] by (simp_all add: e bt_get_below)
  with Cons show ?case by (auto simp: e bt_get_Cons sealed_flags_def split: option.splits)
qed (simp add: bt_get_def)

lemma drop_consumed:
  assumes "stack_inv st"
  shows "stack_inv (drop_consumed_empty_delta level_is_empty st)"
    "stack_total (drop_consumed_empty_delta level_is_empty st) = stack_total st"
    "slim (tl (rev (ls_iter st))) \<Longrightarrow> slim (tl (rev (ls_iter (drop_consumed_empty_delta level_is_empty st))))"
    "levels_bytes (ls_iter (drop_consumed_empty_delta level_is_empty st)) \<le> levels_bytes (ls_iter st)"
proof -
  let ?st = "drop_consumed_empty_delta level_is_empty st"
  consider "?st = st" | xs x where "ls_above st = xs @ [x]" "level_is_empty x" "?st = st\<lparr>ls_above := xs\<rparr>"
  proof (cases "ls_above st \<noteq> [] \<and> level_is_empty (last (ls_above st))")
    case True
    then show ?thesis
      using that(2)[of "butlast (ls_above st)" "last (ls_above st)"] by (simp add: drop_consumed_empty_delta_def)
  next
    case False
    then have "?st = st" by (auto simp: drop_consumed_empty_delta_def)
    then show ?thesis by (rule that(1))
  qed
  then have "stack_inv ?st \<and> stack_total ?st = stack_total st
    \<and> (slim (tl (rev (ls_iter st))) \<longrightarrow> slim (tl (rev (ls_iter ?st))))
    \<and> levels_bytes (ls_iter ?st) \<le> levels_bytes (ls_iter st)"
  proof cases
    case 1
    with assms show ?thesis by simp
  next
    case (2 xs x)
    have "slim ls \<Longrightarrow> slim (tl ls)" for ls by (cases ls rule: slim.cases) simp_all
    with 2 assms show ?thesis
      using levels_total_empty[OF 2(2)] by (auto simp: stack_inv_def ls_iter_def stack_total_def levels_bytes_def)
  qed
  then show "stack_inv ?st" "stack_total ?st = stack_total st"
    "slim (tl (rev (ls_iter st))) \<Longrightarrow> slim (tl (rev (ls_iter ?st)))"
    "levels_bytes (ls_iter ?st) \<le> levels_bytes (ls_iter st)" by blast+
qed

text \<open>The delta: the rows of the newest level that were admitted.\<close>

definition store_delta :: "epoch_store \<Rightarrow> regular_temp_store" where
  "store_delta s = map (\<lambda>e. (fst e, rf_skip (snd e)))
     (filter (\<lambda>e. \<not> hides_from_delta (rf_refresh (snd e))) (level_rows (ls_last (es_levels s))))"

lemma has_delta_iff: "has_delta s \<longleftrightarrow> store_delta s \<noteq> []"
proof -
  have "has_delta s \<longleftrightarrow> (\<exists>e \<in> set (level_rows (ls_last (es_levels s))). \<not> hides_from_delta (rf_refresh (snd e)))"
    by (simp add: has_delta_def Let_def list_ex_iff level_rows_def)
  also have "\<dots> \<longleftrightarrow> store_delta s \<noteq> []" by (simp add: store_delta_def filter_empty_conv)
  finally show ?thesis .
qed

lemma sealed_fresh:
  "map (\<lambda>e. (fst e, rf_skip (snd e))) (filter (\<lambda>e. \<not> hides_from_delta (rf_refresh (snd e))) (sealed_rows levels out))
    = fresh_rows levels out"
  by (induction out) (auto simp: fresh_rows_def sealed_flags_def hides_from_delta_def split: option.splits)

lemma ls_last_push [simp]: "ls_last (ls_push st l) = l" "rev (ls_iter (ls_push st l)) = l # rev (ls_iter st)"
  by (simp_all add: ls_last_def ls_push_def ls_iter_def)

lemma merge_in_Inr:
  assumes "store_inv s" "bt_wf out" "merge_in sink s out told = Inr (s', admitted, told')"
  shows "store_inv s'" "store_total s' = store_total s ++ bt_get out"
    "store_delta s' = fresh_rows (es_levels s) out" "admitted = length (store_delta s')"
    "tell sink (store_delta s') told = Inr told'" "es_arity s' = es_arity s"
    "slim (tl (rev (ls_iter (es_levels s)))) \<Longrightarrow> slim (tl (rev (ls_iter (es_levels s'))))"
proof -
  have inv: "stack_inv (es_levels s)" using assms(1) by (simp add: store_inv_def)
  from assms(3) obtain level levels where
    l: "push_all (sealed_rows (es_levels s) out) level_default = Inr level"
    "compact_normal (drop_consumed_empty_delta level_is_empty (es_levels s)) = Inr levels"
    "s' = s\<lparr>es_levels := ls_push levels level\<rparr>" "admitted = length (fresh_rows (es_levels s) out)"
    "tell sink (fresh_rows (es_levels s) out) told = Inr told'"
    by (auto simp: merge_in_def merge_in_loop_Inr[OF inv] rbind_eq_Inr map_err_eq_Inr)
  have "level_shape level \<and> level_rows level = sealed_rows (es_levels s) out"
    using push_all_Inr[OF _ l(1)] level_default_facts(1) by (simp add: level_inv_def)
  then have rows: "level_rows level = sealed_rows (es_levels s) out" and li: "level_inv level"
    using sealed_rows_wf[OF assms(2)] by (simp_all add: level_inv_def)
  note d = drop_consumed[OF inv]
  have c: "(\<forall>l \<in> set (rev (ls_iter levels)). level_inv l)
      \<and> levels_total (rev (ls_iter levels)) = stack_total (es_levels s)
      \<and> (slim (tl (rev (ls_iter (es_levels s)))) \<longrightarrow> slim (rev (ls_iter levels)))"
    using compact_levels_Inr[OF l(2)[unfolded compact_normal_list]] d by (auto simp: stack_inv_def stack_total_def)
  show "store_inv s'" using c li by (simp add: l(3) store_inv_def stack_inv_def ls_iter_def ls_push_def)
  have skip: "skip_map level = (\<lambda>k. map_option rf_skip (bt_get (sealed_rows (es_levels s) out) k))"
    by (simp add: skip_map_def rows fun_eq_iff)
  have "stack_total (es_levels s) ++ skip_map level = stack_total (es_levels s) ++ bt_get out"
  proof
    fix x
    show "(stack_total (es_levels s) ++ skip_map level) x = (stack_total (es_levels s) ++ bt_get out) x"
      using sealed_rows_get[OF assms(2), of "es_levels s" x] by (simp add: map_add_def skip split: option.splits)
  qed
  with c show "store_total s' = store_total s ++ bt_get out"
    by (simp add: l(3) store_total_def stack_total_def)
  show delta: "store_delta s' = fresh_rows (es_levels s) out"
    by (simp add: store_delta_def l(3) rows sealed_fresh)
  show "admitted = length (store_delta s')" "tell sink (store_delta s') told = Inr told'" unfolding delta by (simp_all add: l(4,5))
  show "es_arity s' = es_arity s" by (simp add: l(3))
  show "slim (tl (rev (ls_iter (es_levels s)))) \<Longrightarrow> slim (tl (rev (ls_iter (es_levels s'))))"
    using c by (simp add: l(3))
qed

text \<open>
  With small arenas a barrier fails only by a refusal of the sink, and what it seals does not depend on the sink.
\<close>

definition small_barrier :: "epoch_store \<Rightarrow> regular_temp_store \<Rightarrow> bool" where
  "small_barrier s out \<longleftrightarrow> levels_bytes (ls_iter (es_levels s)) < 2 ^ 32 \<and> sum_list (map (\<lambda>e. length (fst e)) out) < 2 ^ 32"

definition sealed_store :: "epoch_store \<Rightarrow> regular_temp_store \<Rightarrow> epoch_store" where
  "sealed_store s out = (case merge_in no_sink s out () of Inr (s', _) \<Rightarrow> s' | Inl _ \<Rightarrow> s)"

lemma merge_in_small:
  assumes "store_inv s" "small_barrier s out"
  shows "merge_in sink s out told = (case tell sink (fresh_rows (es_levels s) out) told of
      Inl e \<Rightarrow> Inl (TempStoreCorrupt e)
    | Inr told' \<Rightarrow> Inr (sealed_store s out, length (fresh_rows (es_levels s) out), told'))"
proof -
  have inv: "stack_inv (es_levels s)" using assms(1) by (simp add: store_inv_def)
  have "\<exists>level. push_all (sealed_rows (es_levels s) out) level_default = Inr level"
    using push_all_ok[of level_default] level_default_facts(1) sealed_rows_bytes[of "es_levels s" out] assms(2)
    by (simp add: level_inv_def level_default_def small_barrier_def)
  then obtain level where level: "push_all (sealed_rows (es_levels s) out) level_default = Inr level" ..
  have "\<exists>levels. compact_normal (drop_consumed_empty_delta level_is_empty (es_levels s)) = Inr levels"
    using drop_consumed(1,4)[OF inv] assms(2) by (intro compact_normal_ok) (simp_all add: small_barrier_def)
  then obtain levels where levels: "compact_normal (drop_consumed_empty_delta level_is_empty (es_levels s)) = Inr levels" ..
  have ok: "merge_in sk s out w = Inr (s\<lparr>es_levels := ls_push levels level\<rparr>, length (fresh_rows (es_levels s) out), w')"
    if "tell sk (fresh_rows (es_levels s) out) w = Inr w'" for sk :: "'x admission_sink" and w w'
  proof -
    have "merge_in_loop sk (es_levels s) out (level_default, 0, w) = Inr (level, length (fresh_rows (es_levels s) out), w')"
      unfolding merge_in_loop_Inr[OF inv] using level that by simp
    then show ?thesis by (simp add: merge_in_def levels)
  qed
  have "tell no_sink es () = Inr ()" for es by (induction es) (simp_all add: no_sink_def)
  then have sealed: "sealed_store s out = s\<lparr>es_levels := ls_push levels level\<rparr>"
    using ok[of no_sink] by (simp add: sealed_store_def)
  show ?thesis
  proof (cases "tell sink (fresh_rows (es_levels s) out) told")
    case (Inl e)
    then show ?thesis by (simp add: merge_in_def merge_in_loop_refused[OF inv level Inl])
  next
    case (Inr w)
    then show ?thesis by (simp add: ok sealed)
  qed
qed

section \<open>How many levels there are\<close>

lemma slim_sizes: "slim ls \<Longrightarrow> ls \<noteq> [] \<Longrightarrow> 2 ^ (length ls - 1) \<le> level_len (last ls) + 1"
proof -
  have *: "slim (l # ls) \<Longrightarrow> 2 ^ length ls * (level_len l + 1) \<le> level_len (last (l # ls)) + 1" for l ls
  proof (induction ls arbitrary: l)
    case (Cons l' ls)
    then have "2 ^ length ls * (level_len l' + 1) \<le> level_len (last (l' # ls)) + 1" by simp
    moreover have "2 * (level_len l + 1) \<le> level_len l' + 1" using Cons.prems by simp
    then have "2 ^ length ls * (2 * (level_len l + 1)) \<le> 2 ^ length ls * (level_len l' + 1)" by (rule mult_le_mono2)
    ultimately show ?case by (simp add: algebra_simps)
  qed simp
  then show "slim ls \<Longrightarrow> ls \<noteq> [] \<Longrightarrow> 2 ^ (length ls - 1) \<le> level_len (last ls) + 1"
    by (cases ls) (fastforce dest: add_leD1)+
qed

section \<open>The rows of a cursor\<close>

fun cursor_rows :: "level_cursor \<Rightarrow> (bytes, row_flags) entries" where
  "cursor_rows (l, nxt, finish) = take (finish - nxt) (drop nxt (level_rows l))"

fun cursor_ok :: "level_cursor \<Rightarrow> bool" where
  "cursor_ok (l, nxt, finish) \<longleftrightarrow> level_inv l \<and> finish \<le> level_len l"

lemma bt_wf_take_drop: "bt_wf es \<Longrightarrow> bt_wf (take n (drop m es))"
  by (simp add: bt_wf_def sorted_wrt_take sorted_wrt_drop flip: take_map drop_map)

lemma cursor_rows_wf: "cursor_ok c \<Longrightarrow> bt_wf (cursor_rows c)"
  by (cases c) (simp add: level_inv_def bt_wf_take_drop)

lemma cursor_rows_Cons:
  assumes "cursor_ok (l, nxt, finish)" "nxt < finish"
  shows "cursor_rows (l, nxt, finish) = (row_at l nxt, row_flags_at l nxt) # cursor_rows (l, nxt + 1, finish)"
proof -
  have "drop nxt (level_rows l) = (row_at l nxt, row_flags_at l nxt) # drop (Suc nxt) (level_rows l)"
    using assms by (intro drop_level_rows) simp
  moreover have "finish - nxt = Suc (finish - Suc nxt)" using assms(2) by simp
  ultimately show ?thesis by simp
qed

lemma cursor_head_rows:
  "cursor_ok c \<Longrightarrow> cursor_head c = (case cursor_rows c of [] \<Rightarrow> None | e # _ \<Rightarrow> Some (fst e))"
proof (cases c)
  case (fields l nxt finish)
  assume "cursor_ok c"
  with fields cursor_rows_Cons[of l nxt finish] show ?thesis by (cases "nxt < finish") (simp_all del: cursor_rows.simps, simp)
qed

lemma cursor_rows_ge: "cursor_ok c \<Longrightarrow> cursor_head c = Some k \<Longrightarrow> e \<in> set (cursor_rows c) \<Longrightarrow> k \<le> fst e"
  using cursor_rows_wf[of c] by (auto simp: cursor_head_rows split: list.splits)

lemma cursor_rows_head: "cursor_ok c \<Longrightarrow> e \<in> set (cursor_rows c) \<Longrightarrow> \<exists>k. cursor_head c = Some k \<and> k \<le> fst e"
  using cursor_rows_ge[of c _ e] by (cases "cursor_rows c") (auto simp: cursor_head_rows)

lemma advance_cursor_rows:
  assumes "cursor_ok c" "\<And>k'. cursor_head c = Some k' \<Longrightarrow> k \<le> k'"
  shows "cursor_ok (advance_cursor k c)" "cursor_rows (advance_cursor k c) = filter (\<lambda>e. fst e \<noteq> k) (cursor_rows c)"
proof -
  have "cursor_ok (advance_cursor k c) \<and> cursor_rows (advance_cursor k c) = filter (\<lambda>e. fst e \<noteq> k) (cursor_rows c)"
    using assms
  proof (induction k c rule: advance_cursor.induct)
    case (1 k l nxt finish)
    show ?case
    proof (cases "nxt < finish \<and> row_at l nxt = k")
      case True
      note rows = cursor_rows_Cons[OF "1.prems"(1)] 
      have wf: "bt_wf (cursor_rows (l, nxt, finish))" by (rule cursor_rows_wf[OF "1.prems"(1)])
      have ok: "cursor_ok (l, nxt + 1, finish)" using "1.prems"(1) by simp
      have "k \<le> k'" if h: "cursor_head (l, nxt + 1, finish) = Some k'" for k'
      proof -
        have "nxt + 1 < finish" "k' = row_at l (nxt + 1)" using h by (simp_all split: if_splits)
        then have "(k', row_flags_at l (nxt + 1)) \<in> set (cursor_rows (l, nxt + 1, finish))"
          using cursor_rows_Cons[OF ok] by simp
        then show ?thesis using wf True rows by (fastforce simp del: cursor_rows.simps)
      qed
      from "1.IH"[OF True ok this] True rows show ?thesis
        by (subst (1 2) advance_cursor.simps) (simp del: cursor_rows.simps)
    next
      case False
      have "k < fst e" if e: "e \<in> set (cursor_rows (l, nxt, finish))" for e
      proof -
        from e have "nxt < finish" by (cases "nxt < finish") simp_all
        then have h: "cursor_head (l, nxt, finish) = Some (row_at l nxt)" by simp
        from cursor_rows_ge[OF "1.prems"(1) h e] "1.prems"(2)[OF h] False \<open>nxt < finish\<close> show ?thesis by auto
      qed
      then have "filter (\<lambda>e. fst e \<noteq> k) (cursor_rows (l, nxt, finish)) = cursor_rows (l, nxt, finish)"
        by (auto simp: filter_id_conv simp del: cursor_rows.simps)
      moreover have "advance_cursor k (l, nxt, finish) = (l, nxt, finish)"
        using False by (subst advance_cursor.simps) auto
      ultimately show ?thesis using "1.prems"(1) by simp
    qed
  qed
  then show "cursor_ok (advance_cursor k c)" "cursor_rows (advance_cursor k c) = filter (\<lambda>e. fst e \<noteq> k) (cursor_rows c)"
    by blast+
qed

section \<open>What a merging scan lists\<close>

text \<open>The runs of the cursors as one map, the newest speaking first.\<close>

definition runs_get :: "level_cursor list \<Rightarrow> bytes \<rightharpoonup> row_flags" where
  "runs_get cs k = find_map (\<lambda>c. bt_get (cursor_rows c) k) (rev cs)"

lemma find_map_None: "find_map f xs = None \<longleftrightarrow> (\<forall>x \<in> set xs. f x = None)"
  by (induction xs) (auto split: option.splits)

lemma find_map_append: "find_map f (xs @ ys) = (case find_map f xs of None \<Rightarrow> find_map f ys | Some y \<Rightarrow> Some y)"
  by (induction xs) (auto split: option.splits)

lemma find_map_cong: "(\<And>x. x \<in> set xs \<Longrightarrow> f x = g x) \<Longrightarrow> find_map f xs = find_map g xs"
  by (induction xs) (auto split: option.splits)

lemma find_map_map: "find_map f (map g xs) = find_map (\<lambda>x. f (g x)) xs"
  by (induction xs) (auto split: option.splits)

lemma find_map_newest:
  assumes "i < length xs" "f (xs ! i) = Some y" "\<And>j. i < j \<Longrightarrow> j < length xs \<Longrightarrow> f (xs ! j) = None"
  shows "find_map f (rev xs) = Some y"
proof -
  have "xs = take i xs @ xs ! i # drop (Suc i) xs" using assms(1) by (rule id_take_nth_drop)
  then have "rev xs = rev (drop (Suc i) xs) @ xs ! i # rev (take i xs)"
    by (metis append.assoc append_Cons append_Nil rev.simps(2) rev_append)
  moreover have "find_map f (rev (drop (Suc i) xs)) = None"
    using assms(3) by (auto simp: find_map_None in_set_conv_nth)
  ultimately show ?thesis by (simp add: find_map_append assms(2))
qed

lemma runs_get_None: "runs_get cs k = None \<longleftrightarrow> (\<forall>c \<in> set cs. bt_get (cursor_rows c) k = None)"
  by (simp add: runs_get_def find_map_None)

lemma merge_step:
  assumes ok: "\<forall>c \<in> set cs. cursor_ok c" and best: "best_cursor cs = Some (t, ci)" and c: "cs ! ci = (l, w, f)"
  shows "row_at l w = t" "runs_get cs t = Some (row_flags_at l w)"
    "\<forall>c \<in> set (map (advance_cursor t) cs). cursor_ok c"
    "runs_get (map (advance_cursor t) cs) k = (if k = t then None else runs_get cs k)"
    "runs_get cs k \<noteq> None \<Longrightarrow> t \<le> k"
proof -
  note b = best_cursor_Some[OF best]
  have least: "t \<le> k'" if "c \<in> set cs" "cursor_head c = Some k'" for c k'
    using b(3) that by (fastforce simp: in_set_conv_nth)
  have ge: "t \<le> fst e" if "c \<in> set cs" "e \<in> set (cursor_rows c)" for c e
    using cursor_rows_head[of c e] ok that least[of c] by (auto intro: order.trans)
  show w: "row_at l w = t" using b(2) by (simp add: c split: if_splits)
  have ci: "cursor_ok (l, w, f)" "w < f" using ok b(1,2) c nth_mem[OF b(1)] by (auto split: if_splits)
  show "runs_get cs t = Some (row_flags_at l w)"
    unfolding runs_get_def
  proof (rule find_map_newest[OF b(1)])
    show "bt_get (cursor_rows (cs ! ci)) t = Some (row_flags_at l w)"
      using cursor_rows_Cons[OF ci] by (simp add: c bt_get_Cons w del: cursor_rows.simps)
    fix j assume j: "ci < j" "j < length cs"
    have "t < fst e" if e: "e \<in> set (cursor_rows (cs ! j))" for e
    proof -
      obtain k' where k': "cursor_head (cs ! j) = Some k'" "k' \<le> fst e" using cursor_rows_head[OF _ e] ok j by auto
      with b(3)[OF j(2) k'(1)] j(1) show ?thesis by auto
    qed
    then show "bt_get (cursor_rows (cs ! j)) t = None" by (intro bt_get_below) blast
  qed
  note adv = advance_cursor_rows[OF bspec[OF ok] least]
  show "\<forall>c \<in> set (map (advance_cursor t) cs). cursor_ok c" using adv(1) by auto
  have "bt_get (cursor_rows (advance_cursor t c)) k = (if k = t then None else bt_get (cursor_rows c) k)" if "c \<in> set cs" for c
    using adv(2)[OF that that] bt_get_remove[of t "cursor_rows c" k] by (simp add: bt_remove_def)
  then have "runs_get (map (advance_cursor t) cs) k = find_map (\<lambda>c. if k = t then None else bt_get (cursor_rows c) k) (rev cs)"
    unfolding runs_get_def rev_map find_map_map by (intro find_map_cong) simp
  then show "runs_get (map (advance_cursor t) cs) k = (if k = t then None else runs_get cs k)"
    by (auto simp: runs_get_def find_map_None)
  show "runs_get cs k \<noteq> None \<Longrightarrow> t \<le> k"
    using ge by (auto simp: runs_get_None bt_get_def dest!: map_of_SomeD)
qed

lemma merge_collect_None: "best_cursor cs = None \<Longrightarrow> merge_collect cs d = []"
  by (simp add: merge_collect.simps[of cs] normal_merge_next.simps[of cs])

lemma merge_collect_Some:
  assumes "best_cursor cs = Some (t, ci)" "cs ! ci = (l, w, f)" "row_at l w = t"
  shows "merge_collect cs d =
    (if d \<and> hides_from_delta (rf_refresh (row_flags_at l w)) then merge_collect (map (advance_cursor t) cs) d
     else (t, rf_skip (row_flags_at l w)) # merge_collect (map (advance_cursor t) cs) d)"
proof (cases "d \<and> hides_from_delta (rf_refresh (row_flags_at l w))")
  case True
  then have "normal_merge_next cs d = normal_merge_next (map (advance_cursor t) cs) d"
    by (subst normal_merge_next.simps) (simp add: assms Let_def)
  then have "merge_collect cs d = merge_collect (map (advance_cursor t) cs) d"
    by (simp only: merge_collect.simps[of cs] merge_collect.simps[of "map (advance_cursor t) cs"])
  with True show ?thesis by simp
next
  case False
  then have "normal_merge_next cs d = Some ((t, rf_skip (row_flags_at l w)), map (advance_cursor t) cs)"
    by (subst normal_merge_next.simps) (auto simp: assms Let_def)
  then have "merge_collect cs d = (t, rf_skip (row_flags_at l w)) # merge_collect (map (advance_cursor t) cs) d"
    by (simp add: merge_collect.simps[of cs])
  with False show ?thesis by argo
qed

lemma merge_collect_spec:
  "\<forall>c \<in> set cs. cursor_ok c \<Longrightarrow> \<exists>es. bt_wf es \<and> bt_get es = runs_get cs
    \<and> merge_collect cs d = map (\<lambda>e. (fst e, rf_skip (snd e)))
        (filter (\<lambda>e. \<not> (d \<and> hides_from_delta (rf_refresh (snd e)))) es)"
proof (induction "cursors_left cs" arbitrary: cs rule: less_induct)
  case less
  show ?case
  proof (cases "best_cursor cs")
    case None
    then have "cursor_rows c = []" if "c \<in> set cs" for c
      using that less.prems by (cases "cursor_rows c") (fastforce simp: best_cursor_None cursor_head_rows)+
    then have "bt_get [] = runs_get cs" by (auto simp: fun_eq_iff bt_get_def runs_get_None eq_commute[of None])
    then show ?thesis using merge_collect_None[OF None, of d] by (intro exI[of _ "[]"]) simp
  next
    case (Some best)
    obtain t ci where best: "best_cursor cs = Some (t, ci)" using Some by (cases best) simp
    obtain l w f where c: "cs ! ci = (l, w, f)" by (cases "cs ! ci")
    note st = merge_step[OF less.prems best c] and b = best_cursor_Some[OF best]
    obtain es where es: "bt_wf es" "bt_get es = runs_get (map (advance_cursor t) cs)"
      "merge_collect (map (advance_cursor t) cs) d = map (\<lambda>e. (fst e, rf_skip (snd e)))
        (filter (\<lambda>e. \<not> (d \<and> hides_from_delta (rf_refresh (snd e)))) es)"
      using less.hyps[OF advance_all_left[OF b(1,2)] st(3)] by blast
    let ?es = "(t, row_flags_at l w) # es"
    have "t < fst e" if "e \<in> set es" for e
    proof -
      have "bt_get es (fst e) = Some (snd e)" using that bt_wf_distinct[OF es(1)] by (simp add: bt_get_def)
      then have "runs_get (map (advance_cursor t) cs) (fst e) \<noteq> None" by (simp add: es(2))
      with st(4,5)[of "fst e"] show ?thesis by (auto split: if_splits)
    qed
    then have wf: "bt_wf ?es" using es(1) by simp
    have get: "bt_get ?es = runs_get cs" using st(2,4) es(2) by (auto simp: fun_eq_iff bt_get_Cons)
    show ?thesis
      using wf get merge_collect_Some[OF best c st(1), of d] es(3) by (intro exI[of _ ?es]) auto
  qed
qed

lemma bt_wf_ext:
  assumes "bt_wf xs" "bt_wf ys" "bt_get xs = bt_get ys"
  shows "xs = ys"
proof -
  note d = bt_wf_distinct[OF assms(1)] bt_wf_distinct[OF assms(2)]
  have "set xs = set ys" using assms(3) d by (metis bt_get_def ext map_of_inject_set)
  moreover have "sorted (map fst xs)" "sorted (map fst ys)" using assms(1,2) by (simp_all add: bt_wf_def strict_sorted_iff)
  ultimately show ?thesis
    using d by (intro map_sorted_distinct_set_unique[where f = fst]) (auto simp: distinct_map)
qed

lemma bt_map_value:
  "bt_get (map (\<lambda>e. (fst e, g (snd e))) es) k = map_option g (bt_get es k)"
  "bt_wf (map (\<lambda>e. (fst e, g (snd e))) es) \<longleftrightarrow> bt_wf es"
proof -
  show "bt_get (map (\<lambda>e. (fst e, g (snd e))) es) k = map_option g (bt_get es k)"
    by (induction es) (auto simp: bt_get_def)
  show "bt_wf (map (\<lambda>e. (fst e, g (snd e))) es) \<longleftrightarrow> bt_wf es" by (simp add: bt_wf_def comp_def)
qed

text \<open>A scan whose cursors cut the same window out of every level.\<close>

definition windowed :: "(normal_level \<Rightarrow> nat \<times> nat) \<Rightarrow> (bytes \<Rightarrow> bool) \<Rightarrow> normal_level list \<Rightarrow> bool" where
  "windowed B W ls \<longleftrightarrow> (\<forall>l \<in> set ls. snd (B l) \<le> level_len l
     \<and> take (snd (B l) - fst (B l)) (drop (fst (B l)) (level_rows l)) = filter (\<lambda>e. W (fst e)) (level_rows l))"

lemma windowed_runs:
  assumes "windowed B W ls" "\<forall>l \<in> set ls. level_inv l"
  shows "\<forall>c \<in> set (map (\<lambda>l. (l, B l)) ls). cursor_ok c"
    "runs_get (map (\<lambda>l. (l, B l)) ls) k = (if W k then find_map (\<lambda>l. bt_get (level_rows l) k) (rev ls) else None)"
proof -
  have rows: "cursor_rows (l, B l) = filter (\<lambda>e. W (fst e)) (level_rows l)" if "l \<in> set ls" for l
    using assms(1) that by (cases "B l") (auto simp: windowed_def)
  show "\<forall>c \<in> set (map (\<lambda>l. (l, B l)) ls). cursor_ok c"
    using assms by (auto simp: windowed_def) (metis cursor_ok.simps prod.collapse)
  have "runs_get (map (\<lambda>l. (l, B l)) ls) k = find_map (\<lambda>l. if W k then bt_get (level_rows l) k else None) (rev ls)"
    unfolding runs_get_def rev_map find_map_map by (intro find_map_cong) (simp add: rows bt_get_filter)
  then show "runs_get (map (\<lambda>l. (l, B l)) ls) k = (if W k then find_map (\<lambda>l. bt_get (level_rows l) k) (rev ls) else None)"
    by (auto simp: find_map_None)
qed

lemma scan_total:
  assumes "store_inv s" "windowed B W (ls_iter (es_levels s))"
  defines "R \<equiv> merge_collect (map (\<lambda>l. (l, B l)) (picked_levels s False)) False"
  shows "bt_wf R" "bt_get R k = (if W k then store_total s k else None)"
proof -
  have inv: "\<forall>l \<in> set (ls_iter (es_levels s)). level_inv l" using assms(1) by (simp add: store_inv_def stack_inv_def)
  note w = windowed_runs[OF assms(2) inv]
  obtain es where es: "bt_wf es" "bt_get es = runs_get (map (\<lambda>l. (l, B l)) (ls_iter (es_levels s)))"
    "R = map (\<lambda>e. (fst e, rf_skip (snd e))) es"
    using merge_collect_spec[OF w(1), of False] unfolding R_def picked_levels_def by auto
  show "bt_wf R" using es by (simp add: bt_map_value)
  have "map_option rf_skip (find_map (\<lambda>l. bt_get (level_rows l) k) (rev (ls_iter (es_levels s)))) = store_total s k"
  proof -
    have "find_map (\<lambda>l. bt_get (level_rows l) k) (rev (ls_iter (es_levels s)))
        = find_map (\<lambda>l. map_option (row_flags_at l) (level_find l k)) (rev (ls_iter (es_levels s)))"
      using inv by (intro find_map_cong) (simp add: level_find_get)
    then show ?thesis using inv levels_lookup_total[of "rev (ls_iter (es_levels s))" k]
      by (simp add: store_total_def stack_total_def)
  qed
  then show "bt_get R k = (if W k then store_total s k else None)"
    by (simp add: es(2,3) bt_map_value w(2))
qed

lemma ls_last_iter: "ls_last st \<in> set (ls_iter st)"
  by (simp add: ls_last_def ls_iter_def)

lemma scan_delta:
  assumes "store_inv s" "windowed B W (ls_iter (es_levels s))"
  shows "merge_collect (map (\<lambda>l. (l, B l)) (picked_levels s True)) True = filter (\<lambda>e. W (fst e)) (store_delta s)"
proof -
  let ?l = "ls_last (es_levels s)"
  have inv: "\<forall>l \<in> set [?l]. level_inv l" using assms(1) ls_last_iter by (auto simp: store_inv_def stack_inv_def)
  have win: "windowed B W [?l]" using assms(2) ls_last_iter[of "es_levels s"] by (simp add: windowed_def)
  note w = windowed_runs[OF win inv]
  obtain es where es: "bt_wf es" "bt_get es = runs_get (map (\<lambda>l. (l, B l)) [?l])"
    "merge_collect (map (\<lambda>l. (l, B l)) [?l]) True
      = map (\<lambda>e. (fst e, rf_skip (snd e))) (filter (\<lambda>e. \<not> hides_from_delta (rf_refresh (snd e))) es)"
    using merge_collect_spec[OF w(1), of True] by auto
  have "bt_get es = bt_get (filter (\<lambda>e. W (fst e)) (level_rows ?l))"
    unfolding es(2) by (rule ext) (simp only: w(2), simp add: bt_get_filter split: option.split)
  then have "es = filter (\<lambda>e. W (fst e)) (level_rows ?l)"
    using inv by (intro bt_wf_ext es(1) bt_filter_wf) (simp_all add: level_inv_def)
  then show ?thesis
    using es(3) by (simp add: picked_levels_def store_delta_def filter_map comp_def conj_commute)
qed

lemma level_bounds_windowed:
  assumes "\<forall>l \<in> set ls. level_inv l"
  shows "windowed (\<lambda>l. level_bounds l lower upper incl) (\<lambda>k. lower \<le> k \<and> (if incl then k \<le> upper else k < upper)) ls"
  using assms level_bounds_slice unfolding windowed_def by (metis (no_types, lifting) prod.collapse)

lemma store_levels_inv: "store_inv s \<Longrightarrow> \<forall>l \<in> set (ls_iter (es_levels s)). level_inv l"
  by (simp add: store_inv_def stack_inv_def)

lemma ranged_total:
  assumes "store_inv s"
  shows "bt_wf (ranged s lower upper incl False)"
    "bt_get (ranged s lower upper incl False) k
      = (if lower \<le> k \<and> (if incl then k \<le> upper else k < upper) then store_total s k else None)"
  using scan_total[OF assms level_bounds_windowed[OF store_levels_inv[OF assms]]] unfolding ranged_def by blast+

lemma ranged_delta:
  assumes "store_inv s"
  shows "ranged s lower upper incl True
    = filter (\<lambda>e. lower \<le> fst e \<and> (if incl then fst e \<le> upper else fst e < upper)) (store_delta s)"
  using scan_delta[OF assms level_bounds_windowed[OF store_levels_inv[OF assms]]] unfolding ranged_def .

section \<open>Prefix scans of rows\<close>

text \<open>A store of rows: every key is the encoding of a storable row of the store's arity.\<close>

definition row_store :: "epoch_store \<Rightarrow> bool" where
  "row_store s \<longleftrightarrow> store_inv s
     \<and> (\<forall>l \<in> set (ls_iter (es_levels s)). \<forall>e \<in> set (level_rows l).
          \<exists>row. row_storable row \<and> length row = es_arity s \<and> fst e = encode_tuple_bare row)"

lemma encode_tuple_append: "encode_tuple_bare (as @ bs) = encode_tuple_bare as @ encode_tuple_bare bs"
  by (simp add: encode_tuple_bare_def)

lemma prefix_window:
  assumes "row_wf row" "row_wf pre" "length pre \<le> length row"
  shows "encode_tuple_bare pre \<le> encode_tuple_bare row \<and> encode_tuple_bare row \<le> encode_tuple_bare pre @ [0xFF]
    \<longleftrightarrow> take (length pre) row = pre"
proof -
  let ?t = "take (length pre) row" and ?d = "drop (length pre) row"
  have row: "encode_tuple_bare row = encode_tuple_bare ?t @ encode_tuple_bare ?d"
    by (metis append_take_drop_id encode_tuple_append)
  have wf: "row_wf ?t" "length ?t = length pre" using assms by (auto simp: row_wf_def dest: in_set_takeD)
  have top: "ocmp (encode_tuple_bare ?d) [0xFF] = Less"
    using tag_below_top[of ?d "[]" "[]"] by (cases "?d = []") simp_all
  have up: "ocmp (encode_tuple_bare row) (encode_tuple_bare pre @ [0xFF]) = ord_then (list_cmp dv_cmp ?t pre) Less"
    unfolding row encode_tuple_law[OF wf(1) assms(2) wf(2)] top ..
  have low: "ocmp (encode_tuple_bare row) (encode_tuple_bare pre @ [])
      = ord_then (list_cmp dv_cmp ?t pre) (ocmp (encode_tuple_bare ?d) [])"
    unfolding row by (rule encode_tuple_law[OF wf(1) assms(2) wf(2)])
  have "ocmp (encode_tuple_bare ?d) [] \<noteq> Less" by (simp add: not_less)
  then have "encode_tuple_bare pre \<le> encode_tuple_bare row \<and> encode_tuple_bare row \<le> encode_tuple_bare pre @ [0xFF]
      \<longleftrightarrow> list_cmp dv_cmp ?t pre = Equal"
    unfolding le_ocmp(2)[of "encode_tuple_bare pre"] le_ocmp(1)[of "encode_tuple_bare row"] up low[simplified]
    by (cases "list_cmp dv_cmp ?t pre") auto
  also have "\<dots> \<longleftrightarrow> ?t = pre" using wf assms by (intro list_cmp_eq dv_cmp_eq) (auto simp: row_wf_def)
  finally show ?thesis .
qed

lemma prefix_probe_row:
  assumes "row_storable row" "row_wf pre"
  shows "prefix_probe_cmp (length pre) (encode_tuple_bare pre) (encode_tuple_bare row)
    = (if length pre \<le> length row
       then ocmp (encode_tuple_bare (take (length pre) row)) (encode_tuple_bare pre) else Less)"
proof (cases "length pre \<le> length row")
  case True
  have "take (length (encode_tuple_bare (take (length pre) row))) (encode_tuple_bare row) = encode_tuple_bare (take (length pre) row)"
    by (metis append_eq_conv_conj append_take_drop_id encode_tuple_append)
  with True show ?thesis by (simp add: prefix_probe_cmp_def bare_prefix_len_encode[OF assms(1)])
qed (simp add: prefix_probe_cmp_def bare_prefix_len_encode[OF assms(1)])

lemma encode_take_mono:
  assumes "row_wf a" "row_wf b" "length a = length b" "encode_tuple_bare a \<le> encode_tuple_bare b"
  shows "encode_tuple_bare (take n a) \<le> encode_tuple_bare (take n b)"
proof -
  have wf: "row_wf (take n a)" "row_wf (take n b)" "length (take n a) = length (take n b)"
    using assms(1-3) by (auto simp: row_wf_def dest: in_set_takeD)
  have "ocmp (encode_tuple_bare a) (encode_tuple_bare b)
      = ord_then (list_cmp dv_cmp (take n a) (take n b)) (ocmp (encode_tuple_bare (drop n a)) (encode_tuple_bare (drop n b)))"
    using encode_tuple_law[OF wf, of "encode_tuple_bare (drop n a)" "encode_tuple_bare (drop n b)"]
    by (simp add: encode_tuple_append[symmetric])
  moreover have "ocmp (encode_tuple_bare a) (encode_tuple_bare b) \<noteq> Greater" using assms(4) by (simp add: not_less)
  ultimately have "list_cmp dv_cmp (take n a) (take n b) \<noteq> Greater" by auto
  then show ?thesis unfolding le_ocmp(1)[of "encode_tuple_bare (take n a)"] encode_tuple_order[OF wf(1,2)] .
qed

lemma probe_bounds_windowed:
  assumes "row_store s" "row_wf pre"
  shows "windowed (\<lambda>l. probe_bounds l pre)
    (\<lambda>k. prefix_probe_cmp (length pre) (encode_tuple_bare pre) k = Equal) (ls_iter (es_levels s))"
  unfolding windowed_def
proof
  fix l assume l: "l \<in> set (ls_iter (es_levels s))"
  let ?n = "length pre"
  let ?c = "\<lambda>i. prefix_probe_cmp ?n (encode_tuple_bare pre) (row_at l i)"
  have inv: "level_inv l" using assms(1) l by (simp add: row_store_def store_inv_def stack_inv_def)
  have rows: "\<exists>r. row_storable r \<and> length r = es_arity s \<and> row_at l i = encode_tuple_bare r" if "i < level_len l" for i
    using assms(1) l nth_mem[of i "level_rows l"] that by (fastforce simp: row_store_def)
  have mono: "?c i = Less \<or> (?c i = Equal \<and> ?c j \<noteq> Less) \<or> ?c j = Greater" if ij: "i \<le> j" "j < level_len l" for i j
  proof -
    obtain a b where a: "row_storable a" "length a = es_arity s" "row_at l i = encode_tuple_bare a"
      and b: "row_storable b" "length b = es_arity s" "row_at l j = encode_tuple_bare b"
      using rows[of i] rows[of j] ij by auto
    have "row_wf a" "row_wf b" using a(1) b(1) by (auto simp: row_storable_def row_wf_def dv_storable_def)
    then have "encode_tuple_bare (take ?n a) \<le> encode_tuple_bare (take ?n b)"
      using encode_take_mono rows_ascend_le[OF inv ij] a b by simp
    then show ?thesis
      using prefix_probe_row[OF a(1) assms(2)] prefix_probe_row[OF b(1) assms(2)] a b by (auto simp: ocmp_def)
  qed
  obtain start finish where sf: "probe_bounds l pre = (start, finish)" by (cases "probe_bounds l pre")
  have "start \<le> finish \<and> finish \<le> level_len l \<and> take (finish - start) (drop start (level_rows l))
      = filter (\<lambda>e. prefix_probe_cmp ?n (encode_tuple_bare pre) (fst e) = Equal) (level_rows l)"
  proof (rule window_slice[where P = "\<lambda>i. ?c i = Less" and Q = "\<lambda>i. ?c i \<noteq> Greater"])
    show "start = search_loop (\<lambda>i. ?c i = Less) 0 (level_len l)"
      "finish = max (search_loop (\<lambda>i. ?c i \<noteq> Greater) start (level_len l)) start"
      using sf by (auto simp: probe_bounds_def Let_def)
    show "?c i = Less" if "i \<le> j" "j < level_len l" "?c j = Less" for i j using mono[OF that(1,2)] that(3) by auto
    show "?c i \<noteq> Greater" if "i \<le> j" "j < level_len l" "?c j \<noteq> Greater" for i j using mono[OF that(1,2)] that(3) by auto
  qed (auto, metis ordering.exhaust)
  then show "snd (probe_bounds l pre) \<le> level_len l
    \<and> take (snd (probe_bounds l pre) - fst (probe_bounds l pre)) (drop (fst (probe_bounds l pre)) (level_rows l))
      = filter (\<lambda>e. prefix_probe_cmp ?n (encode_tuple_bare pre) (fst e) = Equal) (level_rows l)"
    by (simp add: sf)
qed

section \<open>Runs of epochs\<close>

text \<open>An out-store a rule of the given arity may hand to the barrier.\<close>

definition row_out :: "nat \<Rightarrow> regular_temp_store \<Rightarrow> bool" where
  "row_out arity out \<longleftrightarrow> bt_wf out
     \<and> (\<forall>e \<in> set out. \<exists>row. row_storable row \<and> length row = arity \<and> fst e = encode_tuple_bare row)"

lemma row_out_put:
  assumes "row_out arity out" "row_storable row" "length row = arity"
  shows "row_out arity (regular_put out row)" "row_out arity (regular_put_with_skip out row)"
proof -
  let ?P = "\<lambda>k. \<exists>r. row_storable r \<and> length r = arity \<and> k = encode_tuple_bare r"
  have "bt_wf (bt_insert (encode_tuple_bare row) v out) \<and> (\<forall>e \<in> set (bt_insert (encode_tuple_bare row) v out). ?P (fst e))" for v
    unfolding ball_bt_insert[where P = ?P] using assms unfolding row_out_def by (blast intro: bt_insert_wf)
  then show "row_out arity (regular_put out row)" "row_out arity (regular_put_with_skip out row)"
    by (simp_all add: row_out_def regular_put_def regular_put_with_skip_def)
qed

text \<open>Runs of barriers that told some sink of what they admitted.\<close>

inductive epoch_run :: "'w admission_sink \<Rightarrow> nat \<Rightarrow> regular_temp_store list \<Rightarrow> epoch_store \<Rightarrow> bool" for sink arity where
  start: "epoch_run sink arity [] (new_normal arity)"
| barrier: "epoch_run sink arity outs s \<Longrightarrow> row_out arity out \<Longrightarrow> merge_in sink s out told = Inr (s', admitted, told')
    \<Longrightarrow> epoch_run sink arity (outs @ [out]) s'"

definition derived :: "regular_temp_store list \<Rightarrow> bytes \<rightharpoonup> limiter_skip" where
  "derived outs = foldl (\<lambda>m out. m ++ bt_get out) Map.empty outs"

lemma derived_simps [simp]: "derived [] = Map.empty" "derived (outs @ [out]) = derived outs ++ bt_get out"
  by (simp_all add: derived_def)

lemma new_normal_facts: "store_inv (new_normal arity)" "store_total (new_normal arity) = Map.empty" "es_arity (new_normal arity) = arity"
  "rev (ls_iter (es_levels (new_normal arity))) = [level_default]"
  by (simp_all add: new_normal_def store_inv_def stack_inv_def ls_iter_def ls_singleton_def store_total_def
      stack_total_def skip_map_def fun_eq_iff bt_get_def)

lemma epoch_run_facts:
  "epoch_run sink arity outs s \<Longrightarrow> store_inv s \<and> es_arity s = arity \<and> store_total s = derived outs
    \<and> slim (tl (rev (ls_iter (es_levels s))))
    \<and> (\<forall>k. derived outs k \<noteq> None \<longrightarrow> (\<exists>row. row_storable row \<and> length row = arity \<and> k = encode_tuple_bare row))"
proof (induction rule: epoch_run.induct)
  case start
  then show ?case by (simp add: new_normal_facts)
next
  case (barrier outs s out told s' admitted told')
  have wf: "bt_wf out" using barrier(2) by (simp add: row_out_def)
  have "\<exists>row. row_storable row \<and> length row = arity \<and> k = encode_tuple_bare row" if "bt_get out k \<noteq> None" for k
    using that barrier(2) by (fastforce simp: row_out_def bt_get_def dest: map_of_SomeD)
  with merge_in_Inr[OF _ wf barrier(3)] barrier(4) show ?case by (auto simp: map_add_def split: option.splits)
qed

lemma level_row_total:
  assumes "store_inv s" "l \<in> set (ls_iter (es_levels s))" "e \<in> set (level_rows l)"
  shows "store_total s (fst e) \<noteq> None"
proof -
  have "bt_get (level_rows l) (fst e) \<noteq> None" using assms(3) by (simp add: bt_get_def map_of_eq_None_iff)
  then have "skip_map l (fst e) \<noteq> None" by (simp add: skip_map_def)
  moreover have "levels_total ls k \<noteq> None" if "l \<in> set ls" "skip_map l k \<noteq> None" for ls l k
    using that by (induction ls) (auto simp: map_add_def split: option.splits)
  ultimately show ?thesis using assms(2) by (simp add: store_total_def stack_total_def)
qed

lemma epoch_run_row_store: "epoch_run sink arity outs s \<Longrightarrow> row_store s"
  using epoch_run_facts[of sink arity outs s] level_row_total[of s] unfolding row_store_def by metis

lemma epoch_run_levels:
  assumes "epoch_run sink arity outs s"
  shows "2 ^ (ls_len (es_levels s) - 2) \<le> card (dom (derived outs)) + 1"
proof -
  note f = epoch_run_facts[OF assms]
  define ls where "ls = tl (rev (ls_iter (es_levels s)))"
  have len: "length ls = ls_len (es_levels s) - 1" by (simp add: ls_def ls_iter_def ls_len_def)
  show ?thesis
  proof (cases "ls = []")
    case False
    then have bottom: "last ls = ls_bottom (es_levels s)" by (simp add: ls_def ls_iter_def last_tl)
    let ?l = "ls_bottom (es_levels s)"
    have inv: "level_inv ?l" using f by (simp add: store_inv_def stack_inv_def ls_iter_def)
    have "finite (dom (store_total s))"
    proof -
      have "dom (skip_map l) \<subseteq> fst ` set (level_rows l)" for l
        by (force simp: skip_map_def bt_get_def dest!: map_of_SomeD)
      then have "finite (dom (skip_map l))" for l by (rule finite_subset) simp
      then have "finite (dom (levels_total ls))" for ls by (induction ls) simp_all
      then show ?thesis by (simp add: store_total_def stack_total_def)
    qed
    moreover have "fst ` set (level_rows ?l) \<subseteq> dom (store_total s)"
      using level_row_total[of s ?l] f by (force simp: ls_iter_def)
    ultimately have "card (fst ` set (level_rows ?l)) \<le> card (dom (store_total s))" by (rule card_mono)
    moreover have "card (fst ` set (level_rows ?l)) = level_len ?l"
      using distinct_card[OF bt_wf_distinct[of "level_rows ?l"]] inv by (simp add: level_inv_def)
    ultimately have "level_len (last ls) \<le> card (dom (derived outs))" using f by (simp add: bottom)
    moreover have "2 ^ (length ls - 1) \<le> level_len (last ls) + 1" using slim_sizes[OF _ False] f by (simp add: ls_def)
    moreover have "length ls - 1 = ls_len (es_levels s) - 2" by (simp add: len)
    ultimately show ?thesis by simp
  qed (use len in simp)
qed

section \<open>The projected probe\<close>

lemma probe_window:
  assumes "row_storable r" "row_wf pre" "length pre \<le> length r"
  shows "prefix_probe_cmp (length pre) (encode_tuple_bare pre) (encode_tuple_bare r) = Equal \<longleftrightarrow> take (length pre) r = pre"
    "encode_tuple_bare pre \<le> encode_tuple_bare r \<and> encode_tuple_bare r \<le> encode_tuple_bare pre @ [0xFF]
      \<longleftrightarrow> take (length pre) r = pre"
proof -
  have wf: "row_wf r" "row_wf (take (length pre) r)"
    using assms(1) by (auto simp: row_storable_def row_wf_def dv_storable_def dest: in_set_takeD)
  show "encode_tuple_bare pre \<le> encode_tuple_bare r \<and> encode_tuple_bare r \<le> encode_tuple_bare pre @ [0xFF]
      \<longleftrightarrow> take (length pre) r = pre"
    by (rule prefix_window[OF wf(1) assms(2,3)])
  have "prefix_probe_cmp (length pre) (encode_tuple_bare pre) (encode_tuple_bare r) = list_cmp dv_cmp (take (length pre) r) pre"
    using prefix_probe_row[OF assms(1,2)] encode_tuple_order[OF wf(2) assms(2)] assms(3) by simp
  also have "\<dots> = Equal \<longleftrightarrow> take (length pre) r = pre"
    using wf assms(2) by (intro list_cmp_eq dv_cmp_eq) (auto simp: row_wf_def)
  finally show "prefix_probe_cmp (length pre) (encode_tuple_bare pre) (encode_tuple_bare r) = Equal \<longleftrightarrow> take (length pre) r = pre" .
qed

text \<open>The merging scan over the windows of a probe.\<close>

definition probe_iter :: "epoch_store \<Rightarrow> tuple \<Rightarrow> bool \<Rightarrow> (bytes \<times> limiter_skip) list" where
  "probe_iter s pre delta_only =
     merge_collect (map (\<lambda>l. (l, probe_bounds l pre)) (picked_levels s delta_only)) delta_only"

lemma those_map_Some: "those (map (\<lambda>x. Some (f x)) xs) = Some (map f xs)"
  by (induction xs) simp_all

lemma prefix_iter_projected_probe:
  "prefix_iter_projected s row cols delta_only = map_option (\<lambda>pre. probe_iter s pre delta_only) (project_columns row cols)"
proof (cases "project_columns row cols")
  case None
  have "picked_levels s delta_only \<noteq> []" by (simp add: picked_levels_def ls_iter_def)
  then show ?thesis using None by (cases "picked_levels s delta_only") (simp_all add: prefix_iter_projected_def prefix_bounds_def)
next
  case (Some pre)
  then show ?thesis by (simp add: prefix_iter_projected_def prefix_bounds_def probe_iter_def those_map_Some)
qed

lemma projected_probe:
  assumes "row_store s" "row_wf pre" "length pre \<le> es_arity s"
  shows "probe_iter s pre False = prefix_iter s pre"
    "probe_iter s pre True = delta_prefix_iter s pre"
    "bt_wf (prefix_iter s pre)"
    "row_storable r \<Longrightarrow> length r = es_arity s \<Longrightarrow>
      bt_get (prefix_iter s pre) (encode_tuple_bare r)
        = (if take (length pre) r = pre then store_total s (encode_tuple_bare r) else None)"
proof -
  have inv: "store_inv s" using assms(1) by (simp add: row_store_def)
  let ?W = "\<lambda>k. prefix_probe_cmp (length pre) (encode_tuple_bare pre) k = Equal"
  let ?V = "\<lambda>k. encode_tuple_bare pre \<le> k \<and> k \<le> encode_tuple_bare pre @ [0xFF]"
  have windows: "?W (encode_tuple_bare r) \<longleftrightarrow> take (length pre) r = pre" "?V (encode_tuple_bare r) \<longleftrightarrow> take (length pre) r = pre"
    if "row_storable r" "length r = es_arity s" for r
    using probe_window[OF that(1) assms(2)] that assms(3) by simp_all
  have keys: "\<exists>r. row_storable r \<and> length r = es_arity s \<and> k = encode_tuple_bare r" if "store_total s k \<noteq> None" for k
  proof -
    have "\<exists>l \<in> set ls. skip_map l k \<noteq> None" if "levels_total ls k \<noteq> None" for ls
      using that by (induction ls) (auto simp: map_add_def split: option.splits)
    with that obtain l where "l \<in> set (ls_iter (es_levels s))" "bt_get (level_rows l) k \<noteq> None"
      by (force simp: store_total_def stack_total_def skip_map_def)
    then show ?thesis using assms(1) by (fastforce simp: row_store_def bt_get_def dest: map_of_SomeD)
  qed
  note t = scan_total[OF inv probe_bounds_windowed[OF assms(1,2)], folded probe_iter_def]
  note u = ranged_total[OF inv, of "encode_tuple_bare pre" "encode_tuple_bare pre @ [0xFF]" True]
  have iter: "prefix_iter s pre = ranged s (encode_tuple_bare pre) (encode_tuple_bare pre @ [0xFF]) True False"
    by (simp add: prefix_iter_def Let_def)
  show wf: "bt_wf (prefix_iter s pre)" unfolding iter by (rule u(1))
  have get: "bt_get (prefix_iter s pre) k = (if ?V k then store_total s k else None)" for k
    unfolding iter using u(2)[of k] by simp
  show "bt_get (prefix_iter s pre) (encode_tuple_bare r)
      = (if take (length pre) r = pre then store_total s (encode_tuple_bare r) else None)"
    if "row_storable r" "length r = es_arity s" using windows(2)[OF that] get by simp
  have "bt_get (probe_iter s pre False) k = bt_get (prefix_iter s pre) k" for k
  proof (cases "store_total s k")
    case None
    then show ?thesis by (simp add: t(2) get)
  next
    case (Some skip)
    then obtain r where "row_storable r" "length r = es_arity s" "k = encode_tuple_bare r" using keys[of k] by auto
    then show ?thesis using windows[of r] by (simp add: t(2) get)
  qed
  then show "probe_iter s pre False = prefix_iter s pre"
    by (intro bt_wf_ext t(1) wf ext)
  have "store_total s (fst e) \<noteq> None" if "e \<in> set (store_delta s)" for e
    using level_row_total[OF inv ls_last_iter] that by (auto simp: store_delta_def)
  then have "?W (fst e) \<longleftrightarrow> ?V (fst e)" if "e \<in> set (store_delta s)" for e
    using keys[of "fst e"] windows that by metis
  then show "probe_iter s pre True = delta_prefix_iter s pre"
    unfolding delta_prefix_iter_def Let_def ranged_delta[OF inv] probe_iter_def
    using scan_delta[OF inv probe_bounds_windowed[OF assms(1,2)]] by (auto intro!: filter_cong)
qed

end
