(* ===== verification/Plan_Graph.thy ===== *)
theory Plan_Graph
  imports Ordered_Store
begin

text \<open>
  The graph algorithms under the stratifier, \<open>crates/kyzo-core/src/exec/plan/graph.rs\<close>: reachability on a
  worklist and the generalized Kahn sort, which lays a graph with poisoned edges out into strata. A
  \<open>BTreeMap\<close> is the ascending list of its entries, a \<open>BTreeSet\<close> the ascending list of its members.
\<close>

section \<open>Graphs\<close>

type_synonym 'a graph = "('a, 'a list) entries"
type_synonym 'a stratified_graph = "('a, ('a, bool) entries) entries"

datatype graph_error =
  SccMemberOutOfRange | KahnSourceOutOfRange | KahnTargetOutOfRange | KahnUnderflow | KahnUnconsumed
| SccTargetOutOfRange

fun set_insert :: "'a::linorder \<Rightarrow> 'a list \<Rightarrow> 'a list" where
  "set_insert x [] = [x]"
| "set_insert x (y # ys) = (if x < y then x # y # ys else if x = y then y # ys else y # set_insert x ys)"

lemma set_set_insert [simp]: "set (set_insert x ys) = insert x (set ys)"
  by (induction x ys rule: set_insert.induct) auto

lemma length_set_insert: "length (set_insert x ys) \<le> Suc (length ys)"
  by (induction x ys rule: set_insert.induct) auto

section \<open>The generalized Kahn sort\<close>

primrec kahn_count_targets :: "nat list \<Rightarrow> (nat, bool) entries \<Rightarrow> graph_error + nat list" where
  "kahn_count_targets in_degree [] = Inr in_degree"
| "kahn_count_targets in_degree (e # tos) =
     (if fst e < length in_degree
      then kahn_count_targets (in_degree[fst e := in_degree ! fst e + 1]) tos
      else Inl KahnTargetOutOfRange)"

primrec kahn_count :: "nat \<Rightarrow> nat list \<Rightarrow> nat stratified_graph \<Rightarrow> graph_error + nat list" where
  "kahn_count num_nodes in_degree [] = Inr in_degree"
| "kahn_count num_nodes in_degree (e # graph) =
     (if fst e < num_nodes
      then rbind (kahn_count_targets in_degree (snd e)) (\<lambda>in_degree. kahn_count num_nodes in_degree graph)
      else Inl KahnSourceOutOfRange)"

record kahn_state =
  ks_degree :: "nat list"
  ks_ret :: "nat list list"
  ks_current :: "nat list"
  ks_safe :: "nat list"
  ks_unsafe :: "nat list"

text \<open>The edges of a removed node: each lowers a degree, and a poisoned one makes its target wait.\<close>

primrec kahn_edges :: "(nat, bool) entries \<Rightarrow> kahn_state \<Rightarrow> graph_error + kahn_state" where
  "kahn_edges [] s = Inr s"
| "kahn_edges (e # edges) s =
     (let nxt = fst e; poisoned = snd e in
      if length (ks_degree s) \<le> nxt then Inl KahnTargetOutOfRange
      else if ks_degree s ! nxt = 0 then Inl KahnUnderflow
      else
        let d = ks_degree s ! nxt - 1;
            unsafe = (if poisoned then set_insert nxt (ks_unsafe s) else ks_unsafe s);
            safe = (if d = 0 \<and> nxt \<notin> set unsafe then ks_safe s @ [nxt] else ks_safe s)
        in kahn_edges edges (s\<lparr>ks_degree := (ks_degree s)[nxt := d], ks_safe := safe, ks_unsafe := unsafe\<rparr>))"

text \<open>The stratum boundary: close the stratum and release the waiting nodes with no dependents left.\<close>

definition kahn_boundary :: "kahn_state \<Rightarrow> kahn_state" where
  "kahn_boundary s =
     (if ks_safe s = [] \<and> ks_unsafe s \<noteq> [] then
        s\<lparr>ks_ret := ks_ret s @ [ks_current s], ks_current := [],
          ks_safe := filter (\<lambda>node. ks_degree s ! node = 0) (ks_unsafe s), ks_unsafe := []\<rparr>
      else s)"

definition kahn_left :: "kahn_state \<Rightarrow> nat" where
  "kahn_left s = sum_list (ks_degree s) + length (ks_safe s) + length (ks_unsafe s)"

lemma kahn_edges_left: "kahn_edges edges s = Inr s' \<Longrightarrow> kahn_left s' \<le> kahn_left s"
proof (induction edges arbitrary: s)
  case (Cons e edges)
  let ?n = "fst e"
  from Cons.prems have r: "?n < length (ks_degree s)" "ks_degree s ! ?n \<noteq> 0"
    by (auto simp: Let_def split: if_splits)
  define d where "d = ks_degree s ! ?n - 1"
  from r have sum: "sum_list ((ks_degree s)[?n := d]) + 1 = sum_list (ks_degree s)"
    using elem_le_sum_list[of ?n "ks_degree s"] by (simp add: sum_list_update d_def)
  define t where "t = s\<lparr>ks_degree := (ks_degree s)[?n := d],
    ks_safe := (if d = 0 \<and> ?n \<notin> set (if snd e then set_insert ?n (ks_unsafe s) else ks_unsafe s)
                then ks_safe s @ [?n] else ks_safe s),
    ks_unsafe := (if snd e then set_insert ?n (ks_unsafe s) else ks_unsafe s)\<rparr>"
  from Cons.prems r have "kahn_edges edges t = Inr s'" by (simp add: t_def d_def Let_def)
  then have "kahn_left s' \<le> kahn_left t" by (rule Cons.IH)
  also have "kahn_left t \<le> kahn_left s"
    using sum length_set_insert[of ?n "ks_unsafe s"] by (auto simp: t_def kahn_left_def)
  finally show ?case .
qed simp

lemma kahn_boundary_left: "kahn_left (kahn_boundary s) \<le> kahn_left s"
  by (simp add: kahn_left_def kahn_boundary_def)

function kahn_loop :: "nat stratified_graph \<Rightarrow> kahn_state \<Rightarrow> graph_error + kahn_state" where
  "kahn_loop graph s =
     (let s = kahn_boundary s in
      if ks_safe s = [] then
        Inr (if ks_current s \<noteq> [] then s\<lparr>ks_ret := ks_ret s @ [ks_current s], ks_current := []\<rparr> else s)
      else
        let removed = last (ks_safe s);
            s = s\<lparr>ks_safe := butlast (ks_safe s), ks_current := ks_current s @ [removed]\<rparr>
        in
        (case bt_get graph removed of
           None \<Rightarrow> kahn_loop graph s
         | Some edges \<Rightarrow> rbind (kahn_edges edges s) (kahn_loop graph)))"
  by pat_completeness auto
termination
proof (relation "measure (\<lambda>(graph, s). kahn_left s)", goal_cases)
  case (2 graph s t removed u)
  then have "kahn_left u < kahn_left t" by (simp add: kahn_left_def)
  with 2 kahn_boundary_left[of s] show ?case by simp
next
  case (3 graph s t removed u edges v)
  then have "kahn_left u < kahn_left t" by (simp add: kahn_left_def)
  with 3 kahn_boundary_left[of s] kahn_edges_left[of edges u v] show ?case by simp
qed simp

declare kahn_loop.simps [simp del]

definition kahn_start :: "nat list \<Rightarrow> kahn_state" where
  "kahn_start in_degree =
     \<lparr>ks_degree = in_degree, ks_ret = [], ks_current = [],
      ks_safe = filter (\<lambda>node. in_degree ! node = 0) [0..<length in_degree], ks_unsafe = []\<rparr>"

definition generalized_kahn :: "nat stratified_graph \<Rightarrow> nat \<Rightarrow> graph_error + nat list list" where
  "generalized_kahn graph num_nodes =
     rbind (kahn_count num_nodes (replicate num_nodes 0) graph) (\<lambda>in_degree.
     rbind (kahn_loop graph (kahn_start in_degree)) (\<lambda>s.
       if list_all (\<lambda>d. d = 0) (ks_degree s) then Inr (ks_ret s) else Inl KahnUnconsumed))"

end
