(* ===== verification/Program_Expr.thy ===== *)
theory Program_Expr
  imports Data_Value Plan_Graph "HOL-Library.Char_ord"
begin

text \<open>
  Names and expressions, \<open>crates/kyzo-model/src/program\<close>: \<open>symbol.rs\<close>, \<open>op.rs\<close> and \<open>expr.rs\<close>. A name is
  the string of its bytes; a \<open>Symbol\<close> carries a span, and two symbols are the same when their names are,
  so maps and sets of symbols are maps and sets of names.
\<close>

section \<open>Symbols\<close>

type_synonym source_span = "nat \<times> nat"

record symbol =
  sym_name :: string
  sym_span :: source_span

datatype symbol_kind = Entry | Ignored | GeneratedIgnored | Generated | User

definition PROG_ENTRY :: string where
  "PROG_ENTRY = ''?''"

definition symbol_kind_of :: "string \<Rightarrow> symbol_kind" where
  "symbol_kind_of name =
     (if name = PROG_ENTRY then Entry
      else if name = ''_'' then Ignored
      else if take 1 name = ''~'' then GeneratedIgnored
      else if take 1 name = ''*'' then Generated
      else User)"

definition span_merge :: "source_span \<Rightarrow> source_span \<Rightarrow> source_span" where
  "span_merge a b =
     (let s = min (fst a) (fst b); e = max (fst a + snd a) (fst b + snd b) in (s, e - s))"

section \<open>Operator declarations\<close>

record op_decl =
  op_name :: string
  min_arity :: nat
  vararg :: bool
  deterministic :: bool

definition arity_matches :: "op_decl \<Rightarrow> nat \<Rightarrow> bool" where
  "arity_matches op n = (if vararg op then min_arity op \<le> n else n = min_arity op)"

definition OP_NEGATE :: op_decl where
  "OP_NEGATE = \<lparr>op_name = ''OP_NEGATE'', min_arity = 1, vararg = False, deterministic = True\<rparr>"

definition OP_EQ :: op_decl where
  "OP_EQ = \<lparr>op_name = ''OP_EQ'', min_arity = 2, vararg = False, deterministic = True\<rparr>"

definition OP_GE :: op_decl where
  "OP_GE = \<lparr>op_name = ''OP_GE'', min_arity = 2, vararg = False, deterministic = True\<rparr>"

definition OP_GT :: op_decl where
  "OP_GT = \<lparr>op_name = ''OP_GT'', min_arity = 2, vararg = False, deterministic = True\<rparr>"

definition OP_LE :: op_decl where
  "OP_LE = \<lparr>op_name = ''OP_LE'', min_arity = 2, vararg = False, deterministic = True\<rparr>"

definition OP_LT :: op_decl where
  "OP_LT = \<lparr>op_name = ''OP_LT'', min_arity = 2, vararg = False, deterministic = True\<rparr>"

definition OP_STARTS_WITH :: op_decl where
  "OP_STARTS_WITH = \<lparr>op_name = ''OP_STARTS_WITH'', min_arity = 2, vararg = False, deterministic = True\<rparr>"

section \<open>The expression tree\<close>

datatype binding_pos = Unresolved | Resolved nat

datatype lazy_op = LAnd | LOr | LCoalesce

datatype expr =
  Binding symbol binding_pos
| Const data_value source_span
| Apply op_decl "expr list" source_span
| UnboundApply string "expr list" source_span
| Cond "(expr \<times> expr) list" source_span
| Lazy lazy_op "expr list" source_span

datatype decision = Decided data_value | Continue | Refused

fun get_bool :: "data_value \<Rightarrow> bool option" where
  "get_bool (DBool b) = Some b"
| "get_bool _ = None"

fun lazy_identity :: "lazy_op \<Rightarrow> data_value" where
  "lazy_identity LAnd = DBool True"
| "lazy_identity LOr = DBool False"
| "lazy_identity LCoalesce = DNull"

fun lazy_decide :: "lazy_op \<Rightarrow> data_value \<Rightarrow> decision" where
  "lazy_decide LAnd val =
     (case get_bool val of Some True \<Rightarrow> Continue | Some False \<Rightarrow> Decided (DBool False) | None \<Rightarrow> Refused)"
| "lazy_decide LOr val =
     (case get_bool val of Some False \<Rightarrow> Continue | Some True \<Rightarrow> Decided (DBool True) | None \<Rightarrow> Refused)"
| "lazy_decide LCoalesce val = (if val = DNull then Continue else Decided val)"

fun expr_span :: "expr \<Rightarrow> source_span" where
  "expr_span (Binding var _) = sym_span var"
| "expr_span (Const _ sp) = sp"
| "expr_span (Apply _ _ sp) = sp"
| "expr_span (Cond _ sp) = sp"
| "expr_span (Lazy _ _ sp) = sp"
| "expr_span (UnboundApply _ _ sp) = sp"

fun get_binding :: "expr \<Rightarrow> symbol option" where
  "get_binding (Binding var _) = Some var"
| "get_binding _ = None"

fun get_const :: "expr \<Rightarrow> data_value option" where
  "get_const (Const val _) = Some val"
| "get_const _ = None"

definition negate :: "expr \<Rightarrow> source_span \<Rightarrow> expr" where
  "negate e sp = Apply OP_NEGATE [e] sp"

definition build_equate :: "expr list \<Rightarrow> source_span \<Rightarrow> expr" where
  "build_equate exprs sp = Apply OP_EQ exprs sp"

definition build_and :: "expr list \<Rightarrow> source_span \<Rightarrow> expr" where
  "build_and exprs sp = Lazy LAnd exprs sp"

fun to_conjunction :: "expr \<Rightarrow> expr list" where
  "to_conjunction (Lazy LAnd args _) = args"
| "to_conjunction e = [e]"

section \<open>Resolving names to positions\<close>

text \<open>Why an operator refused its arguments; the source carries the rendered message.\<close>

datatype op_refusal = RArity op_decl nat | RNan string | RBody string | RUnknown string

datatype expr_error =
  BadBinding string source_span
| NoImplementation source_span string
| UnboundVariable string source_span
| TupleTooShort string nat nat source_span
| EvalRaised source_span op_refusal
| PredicateType source_span data_value
| UnknownBuiltin string
| StrRangeScan data_value source_span

fun fill_binding_indices :: "(string, nat) entries \<Rightarrow> expr \<Rightarrow> expr_error + expr" where
  "fill_binding_indices m (Binding var _) =
     (case bt_get m (sym_name var) of
        None \<Rightarrow> Inl (BadBinding (sym_name var) (sym_span var))
      | Some i \<Rightarrow> Inr (Binding var (Resolved i)))"
| "fill_binding_indices m (Const val sp) = Inr (Const val sp)"
| "fill_binding_indices m (Apply op args sp) =
     rbind (collect_results (fill_binding_indices m) args) (\<lambda>args. Inr (Apply op args sp))"
| "fill_binding_indices m (Lazy op args sp) =
     rbind (collect_results (fill_binding_indices m) args) (\<lambda>args. Inr (Lazy op args sp))"
| "fill_binding_indices m (Cond clauses sp) =
     rbind (collect_results (\<lambda>(cond, val).
       rbind (fill_binding_indices m cond) (\<lambda>cond.
       rbind (fill_binding_indices m val) (\<lambda>val. Inr (cond, val)))) clauses) (\<lambda>clauses. Inr (Cond clauses sp))"
| "fill_binding_indices m (UnboundApply op args sp) = Inl (NoImplementation sp op)"

text \<open>Collecting the names an expression reads, in the order of the source's set.\<close>

primrec collect_over :: "('x \<Rightarrow> string list \<Rightarrow> expr_error + string list) \<Rightarrow> 'x list \<Rightarrow> string list \<Rightarrow> expr_error + string list" where
  "collect_over f [] coll = Inr coll"
| "collect_over f (x # xs) coll = rbind (f x coll) (collect_over f xs)"

lemma collect_over_cong [fundef_cong]:
  "xs = ys \<Longrightarrow> coll = coll' \<Longrightarrow> (\<And>x c. x \<in> set ys \<Longrightarrow> f x c = g x c) \<Longrightarrow> collect_over f xs coll = collect_over g ys coll'"
proof (induction ys arbitrary: xs coll coll')
  case (Cons y ys)
  have "collect_over f ys = collect_over g ys" using Cons.IH[OF refl refl] Cons.prems(3) by (simp add: fun_eq_iff)
  then show ?case using Cons.prems by simp
qed simp

fun collect_bindings :: "expr \<Rightarrow> string list \<Rightarrow> expr_error + string list" where
  "collect_bindings (Binding var _) coll = Inr (set_insert (sym_name var) coll)"
| "collect_bindings (Const _ _) coll = Inr coll"
| "collect_bindings (Apply _ args _) coll = collect_over collect_bindings args coll"
| "collect_bindings (Lazy _ args _) coll = collect_over collect_bindings args coll"
| "collect_bindings (Cond clauses _) coll =
     collect_over (\<lambda>(cond, val) coll. rbind (collect_bindings cond coll) (collect_bindings val)) clauses coll"
| "collect_bindings (UnboundApply op _ sp) coll = Inl (NoImplementation sp op)"

definition bindings :: "expr \<Rightarrow> expr_error + string list" where
  "bindings e = collect_bindings e []"

end
