(* ===== verification/Plan_Scc.thy ===== *)
theory Plan_Scc
  imports Plan_Graph
begin

text \<open>
  Reachability and strongly connected components of \<open>crates/kyzo-core/src/exec/plan/graph.rs\<close>: the worklist
  walk and Tarjan's algorithm on an explicit stack of frames. A vector used as a stack is a list with
  its top first; an index out of range, which panics, is \<open>None\<close>.
\<close>

section \<open>Reachability\<close>

primrec reach_children :: "'a::linorder list \<Rightarrow> 'a list \<times> 'a list \<Rightarrow> 'a list \<times> 'a list" where
  "reach_children [] s = s"
| "reach_children (el # children) s =
     (let (collected, pending) = s in
      reach_children children
        (if el \<in> set collected then (collected, pending) else (set_insert el collected, el # pending)))"

definition graph_targets :: "'a graph \<Rightarrow> 'a set" where
  "graph_targets graph = (\<Union>e \<in> set graph. set (snd e))"

lemma finite_graph_targets [simp]: "finite (graph_targets graph)"
  by (simp add: graph_targets_def)

lemma reach_children_left:
  assumes "finite T" "set children \<subseteq> T"
  shows "card (T - set (fst (reach_children children (col, pen)))) + length (snd (reach_children children (col, pen)))
    = card (T - set col) + length pen"
  using assms(2)
proof (induction children arbitrary: col pen)
  case (Cons el children)
  show ?case
  proof (cases "el \<in> set col")
    case False
    then have "card (T - set col) = Suc (card (T - insert el (set col)))"
      using Cons.prems assms(1) by (metis Diff_iff Diff_insert card_Suc_Diff1 finite_Diff list.set_intros(1) subset_eq)
    then show ?thesis using Cons.IH[of "set_insert el col" "el # pen"] Cons.prems False by simp
  qed (use Cons in simp)
qed simp

lemma bt_get_targets: "bt_get graph k = Some children \<Longrightarrow> set children \<subseteq> graph_targets graph"
  by (force simp: bt_get_def graph_targets_def dest: map_of_SomeD)

function reach_loop :: "'a::linorder graph \<Rightarrow> 'a list \<Rightarrow> 'a list \<Rightarrow> 'a list" where
  "reach_loop graph collected [] = collected"
| "reach_loop graph collected (node # pending) =
     (case bt_get graph node of
        None \<Rightarrow> reach_loop graph collected pending
      | Some children \<Rightarrow>
          reach_loop graph (fst (reach_children children (collected, pending)))
            (snd (reach_children children (collected, pending))))"
  by pat_completeness auto
termination
proof (relation "measure (\<lambda>(graph, collected, pending). card (graph_targets graph - set collected) + length pending)", goal_cases)
  case (3 graph collected node pending children)
  then show ?case using reach_children_left[OF finite_graph_targets bt_get_targets[OF 3]] by (simp add: case_prod_beta)
qed auto

definition reachable_components :: "'a::linorder graph \<Rightarrow> 'a \<Rightarrow> 'a list" where
  "reachable_components graph start = reach_loop graph [start] [start]"

section \<open>Tarjan's algorithm\<close>

record tarjan =
  ts_id :: nat
  ts_ids :: "nat option list"
  ts_low :: "nat list"
  ts_on_stack :: "bool list"
  ts_stack :: "nat list"

definition tarjan_new :: "nat list list \<Rightarrow> graph_error + tarjan" where
  "tarjan_new graph =
     (if list_all (list_all (\<lambda>to. to < length graph)) graph then
        Inr \<lparr>ts_id = 0, ts_ids = replicate (length graph) None, ts_low = replicate (length graph) 0,
             ts_on_stack = replicate (length graph) False, ts_stack = []\<rparr>
      else Inl SccTargetOutOfRange)"

definition tarjan_open :: "nat \<Rightarrow> tarjan \<Rightarrow> tarjan" where
  "tarjan_open node s =
     s\<lparr>ts_stack := node # ts_stack s, ts_on_stack := (ts_on_stack s)[node := True], ts_id := ts_id s + 1,
       ts_ids := (ts_ids s)[node := Some (ts_id s + 1)], ts_low := (ts_low s)[node := ts_id s + 1]\<rparr>"

primrec tarjan_pop :: "nat \<Rightarrow> nat \<Rightarrow> nat list \<Rightarrow> tarjan \<Rightarrow> tarjan" where
  "tarjan_pop closing label [] s = s\<lparr>ts_stack := []\<rparr>"
| "tarjan_pop closing label (node # stack) s =
     (let s = s\<lparr>ts_on_stack := (ts_on_stack s)[node := False], ts_low := (ts_low s)[node := label]\<rparr> in
      if node = closing then s\<lparr>ts_stack := stack\<rparr> else tarjan_pop closing label stack s)"

definition lower_low :: "nat \<Rightarrow> nat \<Rightarrow> tarjan \<Rightarrow> tarjan" where
  "lower_low node by_node s = s\<lparr>ts_low := (ts_low s)[node := min (ts_low s ! node) (ts_low s ! by_node)]\<rparr>"

text \<open>Closing a frame: the root check, then the low link of the parent.\<close>

definition tarjan_close :: "nat \<Rightarrow> (nat \<times> nat) list \<Rightarrow> tarjan \<Rightarrow> tarjan" where
  "tarjan_close node frames s =
     (let s = (if ts_ids s ! node = Some (ts_low s ! node) then tarjan_pop node (ts_low s ! node) (ts_stack s) s else s) in
      case frames of
        [] \<Rightarrow> s
      | (parent, _) # _ \<Rightarrow> if ts_on_stack s ! node then lower_low parent node s else s)"

definition unopened :: "tarjan \<Rightarrow> nat" where
  "unopened s = length (filter (\<lambda>i. i = None) (ts_ids s))"

definition frames_left :: "nat list list \<Rightarrow> (nat \<times> nat) list \<Rightarrow> nat" where
  "frames_left graph frames = sum_list (map (\<lambda>(node, cursor). Suc (length (graph ! node) - cursor)) frames)"

lemma unopened_open:
  assumes "node < length (ts_ids s)" "ts_ids s ! node = None"
  shows "unopened (tarjan_open node s) < unopened s"
proof -
  have "ts_ids s = take node (ts_ids s) @ None # drop (Suc node) (ts_ids s)"
    using assms by (metis id_take_nth_drop)
  then have "unopened s = length (filter (\<lambda>i. i = None) (take node (ts_ids s) @ None # drop (Suc node) (ts_ids s)))"
    by (simp add: unopened_def)
  moreover have "(ts_ids s)[node := x] = take node (ts_ids s) @ x # drop (Suc node) (ts_ids s)" for x
    using assms by (simp add: upd_conv_take_nth_drop)
  ultimately show ?thesis by (simp add: unopened_def tarjan_open_def)
qed

lemma tarjan_pop_ids [simp]: "ts_ids (tarjan_pop closing label stack s) = ts_ids s"
  by (induction stack arbitrary: s) (simp_all add: Let_def)

lemma unopened_same [simp]: "unopened (lower_low a b s) = unopened s" "unopened (tarjan_close node frames s) = unopened s"
  by (auto simp: unopened_def lower_low_def tarjan_close_def Let_def split: list.splits)

function tarjan_loop :: "nat list list \<Rightarrow> (nat \<times> nat) list \<Rightarrow> tarjan \<Rightarrow> tarjan option" where
  "tarjan_loop graph [] s = Some s"
| "tarjan_loop graph ((node, cursor) # frames) s =
     (if length graph \<le> node then None
      else if cursor < length (graph ! node) then
        let to = graph ! node ! cursor in
        if length (ts_ids s) \<le> to then None
        else if ts_ids s ! to = None then tarjan_loop graph ((to, 0) # (node, cursor + 1) # frames) (tarjan_open to s)
        else if ts_on_stack s ! to then tarjan_loop graph ((node, cursor + 1) # frames) (lower_low node to s)
        else tarjan_loop graph ((node, cursor + 1) # frames) s
      else tarjan_loop graph frames (tarjan_close node frames s))"
  by pat_completeness auto
termination
  by (relation "measures [\<lambda>(graph, frames, s). unopened s, \<lambda>(graph, frames, s). frames_left graph frames]")
    (auto simp: unopened_open frames_left_def)

definition tarjan_dfs :: "nat list list \<Rightarrow> nat \<Rightarrow> tarjan \<Rightarrow> tarjan option" where
  "tarjan_dfs graph start s = tarjan_loop graph [(start, 0)] (tarjan_open start s)"

primrec tarjan_roots :: "nat list list \<Rightarrow> nat list \<Rightarrow> tarjan \<Rightarrow> tarjan option" where
  "tarjan_roots graph [] s = Some s"
| "tarjan_roots graph (i # is) s =
     (if ts_ids s ! i = None then Option.bind (tarjan_dfs graph i s) (tarjan_roots graph is)
      else tarjan_roots graph is s)"

text \<open>Grouping the nodes by their component label.\<close>

primrec low_groups :: "nat list \<Rightarrow> nat \<Rightarrow> (nat, nat list) entries \<Rightarrow> (nat, nat list) entries" where
  "low_groups [] idx low_map = low_map"
| "low_groups (grp # low) idx low_map =
     low_groups low (idx + 1)
       (bt_insert grp ((case bt_get low_map grp of None \<Rightarrow> [] | Some members \<Rightarrow> members) @ [idx]) low_map)"

definition tarjan_run :: "nat list list \<Rightarrow> tarjan \<Rightarrow> nat list list option" where
  "tarjan_run graph s =
     map_option (\<lambda>s. map snd (low_groups (ts_low s) 0 [])) (tarjan_roots graph [0..<length graph] s)"

section \<open>Components of a named graph\<close>

definition index_of :: "'a list \<Rightarrow> 'a \<Rightarrow> nat option" where
  "index_of indices k = map_of (zip indices [0..<length indices]) k"

definition idx_graph :: "'a graph \<Rightarrow> nat list list" where
  "idx_graph graph = map (\<lambda>e. List.map_filter (index_of (map fst graph)) (snd e)) graph"

definition named_member :: "'a list \<Rightarrow> nat \<Rightarrow> graph_error + 'a" where
  "named_member indices i = (if i < length indices then Inr (indices ! i) else Inl SccMemberOutOfRange)"

text \<open>The outer \<open>None\<close> is a panic, the sum inside the typed error.\<close>

definition strongly_connected_components :: "'a graph \<Rightarrow> (graph_error + 'a list list) option" where
  "strongly_connected_components graph =
     (case tarjan_new (idx_graph graph) of
        Inl e \<Rightarrow> Some (Inl e)
      | Inr s \<Rightarrow>
          map_option (collect_results (collect_results (named_member (map fst graph)))) (tarjan_run (idx_graph graph) s))"

end
