(* ===== verification/Program_Tiers.thy ===== *)
theory Program_Tiers
  imports Program_Expr Plan_Scc Validity_Kind "HOL-Library.Product_Lexorder"
begin

text \<open>
  The tiers a program passes through: aggregations of \<open>crates/kyzo-model/src/program/aggregate.rs\<close>, heads and
  clauses of \<open>program/rule.rs\<close>, and the normal-form and stratified tiers, store lifetimes and rewritten names
  of \<open>crates/kyzo-core/src/exec/plan/program.rs\<close>. Maps keyed by a \<open>Symbol\<close> are keyed by its name, which is its
  identity. The engine half of a resolved search is a type parameter.
\<close>

section \<open>Aggregations\<close>

datatype aggr_kind = Meet | Normal

record aggregation =
  ag_name :: string
  ag_kind :: aggr_kind

datatype aggr_refuse = UnseededChoiceRand

definition is_meet :: "aggregation \<Rightarrow> bool" where
  "is_meet a \<longleftrightarrow> ag_kind a = Meet"

definition meet_names :: "string list" where
  "meet_names = [''and'', ''or'', ''union'', ''intersection'', ''min'', ''max'', ''choice'', ''shortest'', ''min_cost'',
     ''bit_and'', ''bit_or'', ''hll_union'']"

definition normal_names :: "string list" where
  "normal_names = [''unique'', ''group_count'', ''count'', ''count_unique'', ''variance'', ''std_dev'', ''sum'', ''product'',
     ''mean'', ''collect'', ''bit_xor'', ''latest_by'', ''smallest_by'', ''hll'', ''hll_sketch'', ''count_min'', ''tdigest'',
     ''quantile'']"

definition parse_aggr :: "string \<Rightarrow> aggr_refuse + aggregation option" where
  "parse_aggr name =
     (if List.member meet_names name then Inr (Some \<lparr>ag_name = name, ag_kind = Meet\<rparr>)
      else if List.member normal_names name then Inr (Some \<lparr>ag_name = name, ag_kind = Normal\<rparr>)
      else if name = ''choice_rand'' then Inl UnseededChoiceRand
      else Inr None)"

datatype head_aggr_slot = Plain | Aggregated aggregation "data_value list"

fun as_aggregated :: "head_aggr_slot \<Rightarrow> (aggregation \<times> data_value list) option" where
  "as_aggregated Plain = None"
| "as_aggregated (Aggregated aggr args) = Some (aggr, args)"

definition is_aggregated :: "head_aggr_slot \<Rightarrow> bool" where
  "is_aggregated slot = (case slot of Plain \<Rightarrow> False | Aggregated _ _ \<Rightarrow> True)"

section \<open>Clauses\<close>

datatype delta_axis = AxisValid | AxisSys

datatype validity_clause = At as_of | Spans i64 symbol | Delta delta_axis i64 i64 symbol

fun extra_var :: "validity_clause \<Rightarrow> symbol option" where
  "extra_var (At _) = None"
| "extra_var (Spans _ var) = Some var"
| "extra_var (Delta _ _ _ var) = Some var"

record unification =
  un_binding :: symbol
  un_expr :: expr
  un_one_many :: bool
  un_span :: source_span

definition un_is_const :: "unification \<Rightarrow> bool" where
  "un_is_const u = (case un_expr u of Const _ _ \<Rightarrow> True | _ \<Rightarrow> False)"

definition bindings_in_expr :: "unification \<Rightarrow> expr_error + string list" where
  "bindings_in_expr u = bindings (un_expr u)"

datatype fixed_rule_arg =
  InMem symbol "symbol list" source_span
| Stored symbol "symbol list" "as_of option" source_span
| NamedStored symbol "(string, symbol) entries" "as_of option" source_span

record fixed_rule_apply =
  fr_name :: symbol
  fr_args :: "fixed_rule_arg list"
  fr_options :: "(string, expr) entries"
  fr_head :: "symbol list"
  fr_arity :: nat
  fr_span :: source_span

section \<open>The normal-form tier\<close>

record 'c search_atom =
  sa_cfg :: 'c
  sa_query :: expr
  sa_own_bindings :: "symbol list"
  sa_filter :: "expr option"
  sa_span :: source_span

record nf_rule_apply =
  ra_name :: symbol
  ra_args :: "symbol list"
  ra_span :: source_span

record nf_relation_apply =
  rl_name :: symbol
  rl_args :: "symbol list"
  rl_validity :: "validity_clause option"
  rl_span :: source_span

datatype 'c nf_atom =
  NRule nf_rule_apply
| NRelation nf_relation_apply
| NNegatedRule nf_rule_apply
| NNegatedRelation nf_relation_apply
| NPredicate expr
| NUnification unification
| NSearch "'c search_atom"

record 'c nf_rule =
  nr_head :: "symbol list"
  nr_aggr :: "head_aggr_slot list"
  nr_body :: "'c nf_atom list"

datatype 'c nf_ruleset = NRules "'c nf_rule list" | NFixed fixed_rule_apply

record 'c nf_program =
  np_entry_name :: string
  np_entry :: "'c nf_ruleset"
  np_rules :: "(string, 'c nf_ruleset) entries"
  np_disable_magic :: bool

definition iter_all :: "'c nf_program \<Rightarrow> (string \<times> 'c nf_ruleset) list" where
  "iter_all prog = np_rules prog @ [(np_entry_name prog, np_entry prog)]"

section \<open>The stratified tier\<close>

type_synonym 'c nf_stratum = "(string, 'c nf_ruleset) entries"

record 'c stratified_program =
  sp_strata :: "'c nf_stratum list"
  sp_disable_magic :: bool

datatype tier_error = NoEntry | EntryNotInFinalStratum

definition holds_entry :: "'c nf_stratum \<Rightarrow> bool" where
  "holds_entry stratum = list_ex (\<lambda>e. symbol_kind_of (fst e) = Entry) stratum"

definition from_reverse_execution_order :: "'c nf_stratum list \<Rightarrow> bool \<Rightarrow> tier_error + 'c stratified_program" where
  "from_reverse_execution_order reversed_strata disable_magic =
     (let strata = rev reversed_strata in
      if strata = [] then Inl NoEntry
      else if \<not> holds_entry (last strata) then
        (if list_ex holds_entry strata then Inl EntryNotInFinalStratum else Inl NoEntry)
      else Inr \<lparr>sp_strata = strata, sp_disable_magic = disable_magic\<rparr>)"

section \<open>Rewritten names\<close>

datatype adornment_mark = Bound | Free

type_synonym adornment = "adornment_mark list"

datatype magic_symbol =
  Muggle string
| Magic string adornment
| Input string adornment
| Sup string adornment "16 word" "16 word"

fun as_plain_symbol :: "magic_symbol \<Rightarrow> string" where
  "as_plain_symbol (Muggle inner) = inner"
| "as_plain_symbol (Magic inner _) = inner"
| "as_plain_symbol (Input inner _) = inner"
| "as_plain_symbol (Sup inner _ _ _) = inner"

fun magic_adornment :: "magic_symbol \<Rightarrow> adornment" where
  "magic_adornment (Muggle _) = []"
| "magic_adornment (Magic _ adornment) = adornment"
| "magic_adornment (Input _ adornment) = adornment"
| "magic_adornment (Sup _ adornment _ _) = adornment"

text \<open>The derived order: variant first, then the fields from left to right.\<close>

fun mark_rank :: "adornment_mark \<Rightarrow> nat" where
  "mark_rank Bound = 0"
| "mark_rank Free = 1"

fun magic_rank :: "magic_symbol \<Rightarrow> nat \<times> string \<times> nat list \<times> 16 word \<times> 16 word" where
  "magic_rank (Muggle inner) = (0, inner, [], 0, 0)"
| "magic_rank (Magic inner a) = (1, inner, map mark_rank a, 0, 0)"
| "magic_rank (Input inner a) = (2, inner, map mark_rank a, 0, 0)"
| "magic_rank (Sup inner a r s) = (3, inner, map mark_rank a, r, s)"

lemma mark_rank_eq [simp]: "mark_rank a = mark_rank b \<longleftrightarrow> a = b"
  by (cases a; cases b) simp_all

lemma map_mark_rank_eq [simp]: "map mark_rank a = map mark_rank b \<longleftrightarrow> a = b"
  by (rule inj_map_eq_map) (simp add: inj_def)

lemma magic_rank_eq: "magic_rank a = magic_rank b \<longleftrightarrow> a = b"
  by (cases a; cases b) auto

instantiation magic_symbol :: linorder
begin

definition less_eq_magic_symbol :: "magic_symbol \<Rightarrow> magic_symbol \<Rightarrow> bool" where
  "less_eq_magic_symbol a b \<longleftrightarrow> magic_rank a \<le> magic_rank b"

definition less_magic_symbol :: "magic_symbol \<Rightarrow> magic_symbol \<Rightarrow> bool" where
  "less_magic_symbol a b \<longleftrightarrow> magic_rank a < magic_rank b"

instance
  by standard (auto simp: less_eq_magic_symbol_def less_magic_symbol_def magic_rank_eq
      dest: order.antisym order.trans)

end

section \<open>Store lifetimes\<close>

type_synonym store_lifetimes = "(magic_symbol, nat) entries"

definition note_use :: "magic_symbol \<Rightarrow> nat \<Rightarrow> store_lifetimes \<Rightarrow> store_lifetimes" where
  "note_use store last_use lts =
     (case bt_get lts store of
        None \<Rightarrow> bt_insert store last_use lts
      | Some old \<Rightarrow> if old < last_use then bt_insert store last_use lts else lts)"

definition is_live_at :: "store_lifetimes \<Rightarrow> magic_symbol \<Rightarrow> nat \<Rightarrow> bool" where
  "is_live_at lts store stratum = (case bt_get lts store of None \<Rightarrow> False | Some final \<Rightarrow> stratum \<le> final)"

end
