(* ===== verification/Witness_Binder.thy ===== *)
theory Witness_Binder
  imports Delta_Laws Program_Tiers
begin

text \<open>
  The sink of a query that records provenance, \<open>WitnessBinder\<close> of \<open>crates/kyzo-core/src/exec/provenance/eval.rs\<close>,
  for a regular store, which \<open>exec/fixpoint/eval.rs\<close> binds by the full tuple. It decodes every admitted row, and so
  refuses one that is nested deeper than the decoder goes, although such a row was encoded and stored.
\<close>

record witness =
  wt_store :: magic_symbol
  wt_tuple :: tuple
  wt_derivation :: "(nat \<times> tuple list) option"

type_synonym pending_witnesses = "tuple \<rightharpoonup> nat \<times> tuple list"

record witness_binder =
  wb_store :: magic_symbol
  wb_pending :: pending_witnesses

text \<open>The view of a regular store's row, its bytes and its limiter flag, as a tuple.\<close>

definition try_into_tuple :: "bytes \<times> limiter_skip \<Rightarrow> decode_error + tuple" where
  "try_into_tuple view = decode_tuple_bare (fst view)"

definition binder_admit :: "witness_binder \<Rightarrow> bytes \<times> limiter_skip \<Rightarrow> witness list \<Rightarrow> decode_error + witness list" where
  "binder_admit b view table =
     rbind (try_into_tuple view) (\<lambda>full.
       Inr (table @ [\<lparr>wt_store = wb_store b, wt_tuple = full, wt_derivation = wb_pending b full\<rparr>]))"

definition binder_sink :: "witness_binder \<Rightarrow> witness list admission_sink" where
  "binder_sink b = \<lparr>sk_recording = True, sk_admit = binder_admit b\<rparr>"

section \<open>What the binder is told\<close>

definition witness_of :: "witness_binder \<Rightarrow> tuple \<Rightarrow> witness" where
  "witness_of b tup = \<lparr>wt_store = wb_store b, wt_tuple = tup, wt_derivation = wb_pending b tup\<rparr>"

definition row_of :: "bytes \<times> limiter_skip \<Rightarrow> tuple \<Rightarrow> bool" where
  "row_of view tup \<longleftrightarrow> row_storable tup \<and> fst view = encode_tuple_bare tup"

lemma try_into_tuple_iff: "try_into_tuple view = Inr tup \<longleftrightarrow> row_of view tup"
  by (auto simp: try_into_tuple_def row_of_def decode_tuple_bare_def decode_values_all_iff)

lemma binder_told:
  "sk_recording (binder_sink b)"
  "sk_admit (binder_sink b) view table = Inr table' \<longleftrightarrow> (\<exists>tup. row_of view tup \<and> table' = table @ [witness_of b tup])"
  by (auto simp: binder_sink_def binder_admit_def rbind_eq_Inr try_into_tuple_iff witness_of_def)

lemma tell_binder:
  "tell (binder_sink b) es table = Inr table'
    \<longleftrightarrow> (\<exists>tups. list_all2 row_of es tups \<and> table' = table @ map (witness_of b) tups)"
proof (induction es arbitrary: table)
  case (Cons e es)
  have "tell (binder_sink b) (e # es) table = Inr table'
      \<longleftrightarrow> (\<exists>tup. row_of e tup \<and> tell (binder_sink b) es (table @ [witness_of b tup]) = Inr table')"
    by (auto simp: binder_told rbind_eq_Inr)
  also have "\<dots> \<longleftrightarrow> (\<exists>tup tups. row_of e tup \<and> list_all2 row_of es tups \<and> table' = table @ map (witness_of b) (tup # tups))"
    by (simp add: Cons.IH)
  also have "\<dots> \<longleftrightarrow> (\<exists>tups. list_all2 row_of (e # es) tups \<and> table' = table @ map (witness_of b) tups)"
    unfolding list_all2_Cons1 by blast
  finally show ?case .
qed auto

lemma tell_no_sink: "tell no_sink es () = Inr ()"
  by (induction es) (simp_all add: no_sink_def)

text \<open>Rows of well-formed values decode exactly when none of them is nested too deeply.\<close>

lemma rows_decodable:
  assumes "\<forall>e \<in> set es. \<exists>row. row_wf row \<and> fst e = encode_tuple_bare row"
  shows "(\<exists>tups. list_all2 row_of es tups) \<longleftrightarrow> \<not> (\<exists>row. row_wf row \<and> \<not> row_storable row \<and> encode_tuple_bare row \<in> fst ` set es)"
  using assms
proof (induction es)
  case (Cons e es)
  obtain row where row: "row_wf row" "fst e = encode_tuple_bare row" using Cons.prems by auto
  have "(\<exists>tup. row_of e tup) \<longleftrightarrow> row_storable row"
    using row storable_wf encode_tuple_inject[OF row(1)] by (auto simp: row_of_def)
  moreover have "(\<exists>r. row_wf r \<and> \<not> row_storable r \<and> encode_tuple_bare r = fst e) \<longleftrightarrow> \<not> row_storable row"
    using row encode_tuple_inject[OF _ row(1)] by auto
  ultimately show ?case using Cons by (auto simp: list_all2_Cons1)
qed auto

lemma row_of_unique: "row_of e a \<Longrightarrow> row_of e b \<Longrightarrow> a = b"
  using encode_tuple_inject[of a b] storable_wf by (auto simp: row_of_def)

lemma list_all2_row_of_unique: "list_all2 row_of es as \<Longrightarrow> list_all2 row_of es bs \<Longrightarrow> as = bs"
  by (induction es arbitrary: as bs) (auto simp: list_all2_Cons1 dest: row_of_unique)

end
