(* ===== verification/Fixpoint_Properties.thy ===== *)
theory Fixpoint_Properties
  imports Witness_Binder
begin

text \<open>
  The promises of the fixpoint's working memory, for every store that a run of epoch barriers reaches.
\<close>

section \<open>Sample runs\<close>

definition sample_out :: regular_temp_store where
  "sample_out = regular_put_with_skip (regular_put [] [DBool True]) [DBool False]"

lemma sample_out_rows: "row_out 1 sample_out"
  unfolding sample_out_def
  by (intro row_out_put) (simp_all add: row_out_def row_storable_def dv_storable_def)

lemma sample_out_eq: "sample_out = [(encode_tuple_bare [DBool False], PastLimit), (encode_tuple_bare [DBool True], Include)]"
  by (simp add: sample_out_def regular_put_def regular_put_with_skip_def encode_tuple_bare_def)

lemma sample_small: "small_barrier (new_normal 1) sample_out"
  by (simp add: small_barrier_def levels_bytes_def new_normal_def ls_singleton_def ls_iter_def sample_out_eq encode_tuple_bare_def)

lemma sample_run: "\<exists>s. epoch_run no_sink 1 [sample_out] s"
proof -
  have "merge_in no_sink (new_normal 1) sample_out () = Inr (sealed_store (new_normal 1) sample_out,
      length (fresh_rows (es_levels (new_normal 1)) sample_out), ())"
    by (subst merge_in_small[OF new_normal_facts(1) sample_small]) (simp add: tell_no_sink)
  from epoch_run.barrier[OF epoch_run.start sample_out_rows this] show ?thesis by auto
qed

section \<open>The barrier\<close>

text \<open>
  C31: after any run of epoch barriers the store stands for the rows of all the out-stores, each with
  the flag of its last derivation; its delta is exactly the rows of the last out-store that no earlier
  one had, and \<open>has_delta\<close> tells whether there are any.
\<close>

theorem epoch_store_is_total_and_delta:
  assumes "epoch_run sink arity (outs @ [out]) s"
  shows "store_total s = derived (outs @ [out])
    \<and> store_delta s = filter (\<lambda>e. derived outs (fst e) = None) out
    \<and> (has_delta s \<longleftrightarrow> (\<exists>e \<in> set out. derived outs (fst e) = None))"
  using assms
proof cases
  case (barrier outs' s0 out' told admitted told')
  then have e: "outs' = outs" "out' = out" by simp_all
  have "bt_wf out" using barrier(3) by (simp add: e row_out_def)
  note m = merge_in_Inr[OF _ this barrier(4)[unfolded e]]
  have "store_delta s = filter (\<lambda>e. derived outs (fst e) = None) out"
    using m(3) epoch_run_facts[OF barrier(2)[unfolded e]] by (simp add: fresh_rows_def store_total_def)
  with epoch_run_facts[OF assms] show ?thesis by (auto simp: has_delta_iff filter_empty_conv)
qed simp

theorem epoch_store_is_total_and_delta_witness:
  "\<exists>s. epoch_run no_sink 1 ([] @ [sample_out]) s \<and> has_delta s \<and> store_delta s = sample_out"
proof -
  obtain s where s: "epoch_run no_sink 1 ([] @ [sample_out]) s" using sample_run by auto
  from epoch_store_is_total_and_delta[OF s] have "has_delta s \<and> store_delta s = sample_out" by (auto simp: sample_out_eq)
  with s show ?thesis by blast
qed

text \<open>
  C32: a barrier over less than four gigabytes of rows on either side seals the epoch when no provenance is recorded,
  counting the rows no earlier epoch had. With provenance recorded it seals the same store and appends one witness
  for each of those rows, in key order and with the derivation pending for it, exactly when each of them can be
  decoded; otherwise, when one of them is nested deeper than the decoder goes, the barrier fails.
\<close>

theorem barrier_succeeds_and_reports:
  fixes s out b table
  defines "admitted \<equiv> filter (\<lambda>e. store_total s (fst e) = None) out"
  assumes "store_inv s" "bt_wf out" "small_barrier s out" "\<forall>e \<in> set out. \<exists>row. row_wf row \<and> fst e = encode_tuple_bare row"
  shows "\<exists>s'. store_inv s' \<and> store_total s' = store_total s ++ bt_get out
    \<and> merge_in no_sink s out () = Inr (s', length admitted, ())
    \<and> (if \<exists>row. row_wf row \<and> \<not> row_storable row \<and> encode_tuple_bare row \<in> fst ` set admitted
       then \<exists>e. merge_in (binder_sink b) s out table = Inl (TempStoreCorrupt e)
       else \<exists>tups. list_all2 row_of admitted tups
         \<and> merge_in (binder_sink b) s out table = Inr (s', length admitted, table @ map (witness_of b) tups))"
proof -
  have new: "fresh_rows (es_levels s) out = admitted" by (simp add: admitted_def fresh_rows_def store_total_def)
  note run = merge_in_small[OF assms(2,4), unfolded new]
  have plain: "merge_in no_sink s out () = Inr (sealed_store s out, length admitted, ())" by (simp add: run tell_no_sink)
  note m = merge_in_Inr[OF assms(2,3) plain]
  have bound: "(\<exists>tups. list_all2 row_of admitted tups)
      \<longleftrightarrow> \<not> (\<exists>row. row_wf row \<and> \<not> row_storable row \<and> encode_tuple_bare row \<in> fst ` set admitted)"
    using rows_decodable[of admitted] assms(5) by (simp add: admitted_def)
  show ?thesis
  proof (cases "tell (binder_sink b) admitted table")
    case (Inl e)
    then have "\<not> (\<exists>tups. list_all2 row_of admitted tups)" using tell_binder[of b admitted table] by auto
    with Inl m(1,2) plain bound run[of "binder_sink b" table] show ?thesis by (intro exI[of _ "sealed_store s out"]) simp
  next
    case (Inr table')
    then obtain tups where "list_all2 row_of admitted tups" "table' = table @ map (witness_of b) tups" using tell_binder by blast
    with Inr m(1,2) plain bound run[of "binder_sink b" table] show ?thesis by (intro exI[of _ "sealed_store s out"]) auto
  qed
qed

definition sample_binder :: witness_binder where
  "sample_binder = \<lparr>wb_store = Muggle ''r'', wb_pending = [[DBool True] \<mapsto> (0, [[DNull]])]\<rparr>"

theorem barrier_succeeds_and_reports_witness:
  "\<exists>s'. merge_in (binder_sink sample_binder) (new_normal 1) sample_out []
     = Inr (s', 2, [witness_of sample_binder [DBool False], witness_of sample_binder [DBool True]])"
proof -
  have wf: "bt_wf sample_out" using sample_out_rows by (simp add: row_out_def)
  have new: "filter (\<lambda>e. store_total (new_normal 1) (fst e) = None) sample_out = sample_out"
    by (simp add: new_normal_facts)
  have rows: "\<forall>e \<in> set sample_out. \<exists>row. row_wf row \<and> fst e = encode_tuple_bare row"
    by (auto simp: sample_out_eq intro: exI[of _ "[DBool _]"])
  have st: "list_all2 row_of sample_out [[DBool False], [DBool True]]"
    by (simp add: sample_out_eq row_of_def row_storable_def dv_storable_def)
  have ok: "\<not> (\<exists>row. row_wf row \<and> \<not> row_storable row \<and> encode_tuple_bare row \<in> fst ` set sample_out)"
    using rows_decodable[OF rows] st by blast
  have unique: "tups = [[DBool False], [DBool True]]" if "list_all2 row_of sample_out tups" for tups
    using list_all2_row_of_unique[OF that st] .
  from barrier_succeeds_and_reports[OF new_normal_facts(1) wf sample_small rows, of sample_binder "[]", unfolded new if_not_P[OF ok]]
  obtain s' tups where "list_all2 row_of sample_out tups"
    "merge_in (binder_sink sample_binder) (new_normal 1) sample_out [] = Inr (s', length sample_out, [] @ map (witness_of sample_binder) tups)"
    by blast
  moreover have "length sample_out = 2" by (simp add: sample_out_eq)
  ultimately show ?thesis using unique[of tups] by auto
qed

text \<open>
  C33: the level stack stays logarithmic in the number of distinct rows derived, however many epochs
  have been sealed.
\<close>

theorem level_stack_stays_logarithmic:
  assumes "epoch_run sink arity outs s"
  shows "2 ^ (ls_len (es_levels s) - 2) \<le> card (dom (derived outs)) + 1"
  using assms by (rule epoch_run_levels)

theorem level_stack_stays_logarithmic_witness:
  "\<exists>s. epoch_run no_sink 1 [sample_out] s \<and> 2 ^ (ls_len (es_levels s) - 2) \<le> card (dom (derived [sample_out])) + 1"
  using sample_run level_stack_stays_logarithmic by blast

section \<open>Scans\<close>

text \<open>
  C34: a range scan of the total lists, in strictly ascending key order, exactly the derived rows in
  the window, each once and with its current limiter flag; a range scan of the delta lists exactly the
  admitted rows in it.
\<close>

theorem range_scans_are_exact:
  assumes "epoch_run sink arity outs s"
  shows "sorted_wrt (<) (map fst (range_iter s lower upper incl))
    \<and> (\<forall>k skip. (k, skip) \<in> set (range_iter s lower upper incl) \<longleftrightarrow>
         bare_bounds_lower lower \<le> k \<and> (if incl then k \<le> bare_bounds_upper upper else k < bare_bounds_upper upper)
         \<and> derived outs k = Some skip)
    \<and> delta_range_iter s lower upper incl
        = filter (\<lambda>e. bare_bounds_lower lower \<le> fst e
            \<and> (if incl then fst e \<le> bare_bounds_upper upper else fst e < bare_bounds_upper upper)) (store_delta s)"
proof -
  note f = epoch_run_facts[OF assms]
  have inv: "store_inv s" and total: "store_total s = derived outs" using f by simp_all
  note r = ranged_total[OF inv, of "bare_bounds_lower lower" "bare_bounds_upper upper" incl]
  have wf: "bt_wf (range_iter s lower upper incl)" using r(1) by (simp add: range_iter_def)
  have "(k, skip) \<in> set (range_iter s lower upper incl) \<longleftrightarrow> bt_get (range_iter s lower upper incl) k = Some skip" for k skip
    using bt_wf_distinct[OF wf] by (simp add: bt_get_def)
  moreover have "bt_get (range_iter s lower upper incl) k = (if bare_bounds_lower lower \<le> k
      \<and> (if incl then k \<le> bare_bounds_upper upper else k < bare_bounds_upper upper) then derived outs k else None)" for k
    unfolding range_iter_def r(2) total ..
  ultimately show ?thesis
    using wf ranged_delta[OF inv] by (auto simp: bt_wf_def delta_range_iter_def split: if_splits)
qed

theorem range_scans_are_exact_witness:
  "\<exists>s. (encode_tuple_bare [DBool True], Include) \<in> set (range_iter s [Least] [Greatest] True)"
proof -
  obtain s where s: "epoch_run no_sink 1 [sample_out] s" using sample_run by auto
  have "derived [sample_out] (encode_tuple_bare [DBool True]) = Some Include"
    by (simp add: derived_def sample_out_eq bt_get_def encode_tuple_bare_def)
  moreover have "bare_bounds_lower [Least] \<le> encode_tuple_bare [DBool True]"
    "encode_tuple_bare [DBool True] \<le> bare_bounds_upper [Greatest]"
    by (simp_all add: bare_bounds_upper_def encode_tuple_bare_def)
  ultimately show ?thesis using range_scans_are_exact[OF s, of "[Least]" "[Greatest]" True] by auto
qed



end
