(* ===== verification/Stratify.thy ===== *)
theory Stratify
  imports Program_Tiers
begin

text \<open>
  The stratifier, \<open>crates/kyzo-core/src/exec/plan/stratify.rs\<close>: the dependency graph of a normal-form program
  with its poisoned edges, the refusal of poison inside recursion, the condensation, its sort into strata and
  the lifetimes of the stores. The outer \<open>None\<close> of a result is a panic.
\<close>

section \<open>The dependency graph\<close>

type_synonym poison_spans = "(string \<times> string, source_span) entries"

text \<open>The rule an atom reads, with the span of the read and whether it is negated.\<close>

fun contained_rules :: "'c nf_atom \<Rightarrow> (symbol \<times> bool) list" where
  "contained_rules (NRule r) = [(ra_name r, False)]"
| "contained_rules (NNegatedRule r) = [(ra_name r, True)]"
| "contained_rules _ = []"

definition aggregation_character :: "'c nf_rule list \<Rightarrow> bool \<times> bool" where
  "aggregation_character rules =
     (let has_aggr = list_ex (\<lambda>rule. list_ex is_aggregated (nr_aggr rule)) rules;
          meet = (has_aggr \<and> list_all (\<lambda>rule. list_all (\<lambda>v. case as_aggregated v of
              None \<Rightarrow> True
            | Some (a, _) \<Rightarrow> is_meet a) (nr_aggr rule)) rules)
      in (has_aggr, meet))"

definition meet_rules :: "'c nf_program \<Rightarrow> string list" where
  "meet_rules prog = map fst (filter (\<lambda>(k, ruleset).
     case ruleset of NRules rules \<Rightarrow> snd (aggregation_character rules) | NFixed _ \<Rightarrow> False) (iter_all prog))"

definition fixed_rules :: "'c nf_program \<Rightarrow> string list" where
  "fixed_rules prog = map fst (filter (\<lambda>(k, ruleset).
     case ruleset of NRules _ \<Rightarrow> False | NFixed _ \<Rightarrow> True) (iter_all prog))"

definition or_insert :: "'k::linorder \<Rightarrow> 'v \<Rightarrow> ('k, 'v) entries \<Rightarrow> ('k, 'v) entries" where
  "or_insert k v es = (case bt_get es k of None \<Rightarrow> bt_insert k v es | Some _ \<Rightarrow> es)"

definition note_read :: "'c nf_program \<Rightarrow> string \<Rightarrow> bool \<times> bool \<Rightarrow> symbol \<times> bool
    \<Rightarrow> (string, bool) entries \<times> poison_spans \<Rightarrow> (string, bool) entries \<times> poison_spans" where
  "note_read prog k character found_read s =
     (let (has_aggr, meet) = character;
          (found, is_negated) = found_read;
          (ret, spans) = s;
          key = sym_name found;
          found_key_is_meet = (key \<in> set (meet_rules prog) \<and> key \<noteq> k);
          found_key_is_fixed_rule = (key \<in> set (fixed_rules prog))
      in case bt_get ret key of
           None \<Rightarrow>
             let poisoned =
               (if has_aggr then
                  (if meet \<and> k = key then found_key_is_fixed_rule \<or> is_negated else True)
                else found_key_is_fixed_rule \<or> found_key_is_meet \<or> is_negated)
             in (bt_insert key poisoned ret, if poisoned then or_insert (k, key) (sym_span found) spans else spans)
         | Some old \<Rightarrow>
             let new_val =
               (if has_aggr then
                  (if meet \<and> k = key then found_key_is_fixed_rule \<or> found_key_is_meet \<or> is_negated else True)
                else found_key_is_fixed_rule \<or> found_key_is_meet \<or> is_negated)
             in (bt_insert key (old \<or> new_val) ret,
                 if new_val \<and> \<not> old then or_insert (k, key) (sym_span found) spans else spans))"

definition rules_reads :: "'c nf_rule list \<Rightarrow> (symbol \<times> bool) list" where
  "rules_reads rules = concat (map (\<lambda>rule. concat (map contained_rules (nr_body rule))) rules)"

definition note_fixed_arg :: "string \<Rightarrow> fixed_rule_arg \<Rightarrow> (string, bool) entries \<times> poison_spans
    \<Rightarrow> (string, bool) entries \<times> poison_spans" where
  "note_fixed_arg k rel s =
     (case rel of
        InMem name _ _ \<Rightarrow> (bt_insert (sym_name name) True (fst s), or_insert (k, sym_name name) (sym_span name) (snd s))
      | _ \<Rightarrow> s)"

definition ruleset_edges :: "'c nf_program \<Rightarrow> string \<Rightarrow> 'c nf_ruleset \<Rightarrow> poison_spans \<Rightarrow> (string, bool) entries \<times> poison_spans" where
  "ruleset_edges prog k ruleset spans =
     (case ruleset of
        NRules rules \<Rightarrow> fold (note_read prog k (aggregation_character rules)) (rules_reads rules) ([], spans)
      | NFixed fixed \<Rightarrow> fold (note_fixed_arg k) (fr_args fixed) ([], spans))"

definition convert_normal_form_program_to_graph :: "'c nf_program \<Rightarrow> string stratified_graph \<times> poison_spans" where
  "convert_normal_form_program_to_graph prog =
     fold (\<lambda>(k, ruleset) (graph, spans).
       let (ret, spans) = ruleset_edges prog k ruleset spans in (bt_insert k ret graph, spans)) (iter_all prog) ([], [])"

definition reduce_to_graph :: "string stratified_graph \<Rightarrow> string graph" where
  "reduce_to_graph g = map (\<lambda>(k, s). (k, map fst s)) g"

section \<open>The refusal\<close>

datatype stratify_error =
  UnStratifiableProgram string "string list" "source_span option"
| GraphFault graph_error
| NodeInNoScc
| ReachableRuleNotSorted
| StratumOutOfRange
| TierFault tier_error

text \<open>The span is that of the atom that poisoned the edge; \<open>None\<close> stands for the dependency's own span.\<close>

primrec verify_targets :: "string \<Rightarrow> string list \<Rightarrow> poison_spans \<Rightarrow> (string, bool) entries \<Rightarrow> stratify_error + unit" where
  "verify_targets k scc spans [] = Inr ()"
| "verify_targets k scc spans (e # vs) =
     (if \<not> snd e \<or> fst e \<notin> set scc then verify_targets k scc spans vs
      else Inl (UnStratifiableProgram (fst e) scc (bt_get spans (k, fst e))))"

primrec verify_sccs :: "string \<Rightarrow> (string, bool) entries \<Rightarrow> poison_spans \<Rightarrow> string list list \<Rightarrow> stratify_error + unit" where
  "verify_sccs k vs spans [] = Inr ()"
| "verify_sccs k vs spans (scc # sccs) =
     rbind (if k \<in> set scc then verify_targets k scc spans vs else Inr ()) (\<lambda>_. verify_sccs k vs spans sccs)"

primrec verify_no_cycle :: "string stratified_graph \<Rightarrow> poison_spans \<Rightarrow> string list list \<Rightarrow> stratify_error + unit" where
  "verify_no_cycle [] spans sccs = Inr ()"
| "verify_no_cycle (e # g) spans sccs =
     rbind (verify_sccs (fst e) (snd e) spans sccs) (\<lambda>_. verify_no_cycle g spans sccs)"

section \<open>The condensation\<close>

definition bt_of_list :: "('k::linorder \<times> 'v) list \<Rightarrow> ('k, 'v) entries" where
  "bt_of_list kvs = fold (\<lambda>(k, v). bt_insert k v) kvs []"

definition indexed :: "'a list list \<Rightarrow> ('a \<times> nat) list" where
  "indexed groups = concat (map (\<lambda>(idx, group). map (\<lambda>k. (k, idx)) group) (enumerate 0 groups))"

definition reduce_target :: "(string, nat) entries \<Rightarrow> nat \<Rightarrow> string \<times> bool \<Rightarrow> (nat, bool) entries \<Rightarrow> (nat, bool) entries" where
  "reduce_target indices from_idx e cur_entry =
     (case bt_get indices (fst e) of
        None \<Rightarrow> cur_entry
      | Some to_idx \<Rightarrow>
          if from_idx = to_idx then cur_entry
          else (case bt_get cur_entry to_idx of
                  None \<Rightarrow> bt_insert to_idx (snd e) cur_entry
                | Some old_p \<Rightarrow> bt_insert to_idx (old_p \<or> snd e) cur_entry))"

primrec reduce_nodes :: "(string, nat) entries \<Rightarrow> string stratified_graph \<Rightarrow> nat stratified_graph
    \<Rightarrow> stratify_error + nat stratified_graph" where
  "reduce_nodes indices [] ret = Inr ret"
| "reduce_nodes indices (e # graph) ret =
     (case bt_get indices (fst e) of
        None \<Rightarrow> Inl NodeInNoScc
      | Some from_idx \<Rightarrow>
          let cur_entry = (case bt_get ret from_idx of None \<Rightarrow> [] | Some tos \<Rightarrow> tos)
          in reduce_nodes indices graph (bt_insert from_idx (fold (reduce_target indices from_idx) (snd e) cur_entry) ret))"

definition make_scc_reduced_graph :: "string list list \<Rightarrow> string stratified_graph
    \<Rightarrow> stratify_error + (string, nat) entries \<times> nat stratified_graph" where
  "make_scc_reduced_graph sccs graph =
     (let indices = bt_of_list (indexed sccs)
      in rbind (reduce_nodes indices graph []) (\<lambda>ret. Inr (indices, ret)))"

section \<open>Strata and lifetimes\<close>

primrec note_uses :: "(string, bool) entries \<Rightarrow> nat \<Rightarrow> store_lifetimes \<Rightarrow> store_lifetimes" where
  "note_uses [] fr_exec lts = lts"
| "note_uses (e # tos) fr_exec lts = note_uses tos fr_exec (note_use (Muggle (fst e)) fr_exec lts)"

primrec collect_lifetimes :: "(string, nat) entries \<Rightarrow> (nat, nat) entries \<Rightarrow> string stratified_graph \<Rightarrow> store_lifetimes
    \<Rightarrow> store_lifetimes" where
  "collect_lifetimes invert exec_of [] lts = lts"
| "collect_lifetimes invert exec_of (e # graph) lts =
     collect_lifetimes invert exec_of graph
       (case Option.bind (bt_get invert (fst e)) (bt_get exec_of) of
          None \<Rightarrow> lts
        | Some fr_exec \<Rightarrow> note_uses (snd e) fr_exec lts)"

primrec distribute :: "(string, nat) entries \<Rightarrow> (nat, nat) entries \<Rightarrow> (string \<times> 'c nf_ruleset) list \<Rightarrow> 'c nf_stratum list
    \<Rightarrow> stratify_error + 'c nf_stratum list" where
  "distribute invert rev_of [] strata = Inr strata"
| "distribute invert rev_of (r # rules) strata =
     (case bt_get invert (fst r) of
        None \<Rightarrow> distribute invert rev_of rules strata
      | Some component \<Rightarrow>
          (case bt_get rev_of component of
             None \<Rightarrow> Inl ReachableRuleNotSorted
           | Some rev_idx \<Rightarrow>
               if rev_idx < length strata
               then distribute invert rev_of rules (strata[rev_idx := bt_insert (fst r) (snd r) (strata ! rev_idx)])
               else Inl StratumOutOfRange))"

definition lay_out :: "'c nf_program \<Rightarrow> string stratified_graph \<Rightarrow> poison_spans \<Rightarrow> string list list
    \<Rightarrow> stratify_error + 'c stratified_program \<times> store_lifetimes" where
  "lay_out prog graph spans sccs =
     rbind (verify_no_cycle graph spans sccs) (\<lambda>_.
     rbind (make_scc_reduced_graph sccs graph) (\<lambda>(invert, reduced).
     rbind (map_err GraphFault (generalized_kahn reduced (length sccs))) (\<lambda>sorted.
       let rev_of = bt_of_list (indexed sorted);
           exec_of = bt_of_list (indexed (rev sorted));
           lifetimes = collect_lifetimes invert exec_of graph []
       in rbind (distribute invert rev_of (iter_all prog) (replicate (length sorted) [])) (\<lambda>strata.
          rbind (map_err TierFault (from_reverse_execution_order strata (np_disable_magic prog))) (\<lambda>stratified.
            Inr (stratified, lifetimes))))))"

definition into_stratified_program :: "'c nf_program
    \<Rightarrow> (stratify_error + 'c stratified_program \<times> store_lifetimes) option" where
  "into_stratified_program prog =
     (let (labelled, spans) = convert_normal_form_program_to_graph prog;
          graph = reduce_to_graph labelled;
          reachable = reachable_components graph (np_entry_name prog);
          keep = (\<lambda>k. k \<in> set reachable)
      in map_option (\<lambda>sccs. rbind (map_err GraphFault sccs) (\<lambda>sccs.
             lay_out prog (filter (\<lambda>e. keep (fst e)) labelled) spans (map (\<lambda>scc. fold set_insert scc []) sccs)))
           (strongly_connected_components (filter (\<lambda>e. keep (fst e)) graph)))"

end
