(* ===== verification/Scc_Laws.thy ===== *)
theory Scc_Laws
  imports Plan_Scc
begin

text \<open>
  Tarjan's algorithm on frames finds the strongly connected components. The invariant follows the two
  stacks: nodes on the component stack reach each other upwards, each reaches an open frame below it,
  low links name nodes of the stack, and what has left the stack is closed under edges and labelled by
  component.
\<close>

section \<open>The invariant\<close>

definition edges :: "nat list list \<Rightarrow> (nat \<times> nat) set" where
  "edges graph = {(u, v). u < length graph \<and> v \<in> set (graph ! u)}"

definition tid :: "tarjan \<Rightarrow> nat \<Rightarrow> nat" where
  "tid s v = the (ts_ids s ! v)"

definition opened :: "tarjan \<Rightarrow> nat \<Rightarrow> bool" where
  "opened s v \<longleftrightarrow> v < length (ts_ids s) \<and> ts_ids s ! v \<noteq> None"

definition popped :: "tarjan \<Rightarrow> nat \<Rightarrow> bool" where
  "popped s v \<longleftrightarrow> opened s v \<and> v \<notin> set (ts_stack s)"

abbreviation gray :: "(nat \<times> nat) list \<Rightarrow> nat set" where
  "gray frames \<equiv> fst ` set frames"

definition tj_shape :: "nat list list \<Rightarrow> tarjan \<Rightarrow> bool" where
  "tj_shape graph s \<longleftrightarrow>
     length (ts_ids s) = length graph \<and> length (ts_low s) = length graph \<and> length (ts_on_stack s) = length graph
     \<and> (\<forall>v < length graph. ts_on_stack s ! v \<longleftrightarrow> v \<in> set (ts_stack s))
     \<and> (\<forall>v \<in> set (ts_stack s). opened s v)
     \<and> sorted_wrt (\<lambda>a b. tid s b < tid s a) (ts_stack s)
     \<and> (\<forall>v. opened s v \<longrightarrow> tid s v \<le> ts_id s)
     \<and> (\<forall>u v. opened s u \<longrightarrow> opened s v \<longrightarrow> tid s u = tid s v \<longrightarrow> u = v)"

definition tj_frames :: "nat list list \<Rightarrow> (nat \<times> nat) list \<Rightarrow> tarjan \<Rightarrow> bool" where
  "tj_frames graph frames s \<longleftrightarrow>
     sorted_wrt (\<lambda>a b. tid s b < tid s a) (map fst frames) \<and> gray frames \<subseteq> set (ts_stack s)
     \<and> (\<forall>f \<in> set frames. snd f \<le> length (graph ! fst f))"

definition tj_paths :: "nat list list \<Rightarrow> (nat \<times> nat) list \<Rightarrow> tarjan \<Rightarrow> bool" where
  "tj_paths graph frames s \<longleftrightarrow>
     (\<forall>x \<in> set (ts_stack s). \<forall>y \<in> set (ts_stack s). tid s x \<le> tid s y \<longrightarrow> (x, y) \<in> (edges graph)\<^sup>*)
     \<and> (\<forall>y \<in> set (ts_stack s). \<exists>g \<in> gray frames. tid s g \<le> tid s y \<and> (y, g) \<in> (edges graph)\<^sup>*)"

text \<open>The edges examined so far: up to the cursor of an open frame, all those of a closed node.\<close>

definition examined :: "nat list list \<Rightarrow> (nat \<times> nat) list \<Rightarrow> tarjan \<Rightarrow> nat \<Rightarrow> nat \<Rightarrow> bool" where
  "examined graph frames s v w \<longleftrightarrow>
     (\<exists>c. (v, c) \<in> set frames \<and> w \<in> set (take c (graph ! v)))
     \<or> (opened s v \<and> v \<notin> gray frames \<and> w \<in> set (graph ! v))"

definition tj_low :: "nat list list \<Rightarrow> (nat \<times> nat) list \<Rightarrow> tarjan \<Rightarrow> bool" where
  "tj_low graph frames s \<longleftrightarrow>
     (\<forall>v \<in> set (ts_stack s). \<exists>w \<in> set (ts_stack s).
        ts_low s ! v = tid s w \<and> ts_low s ! v \<le> tid s v \<and> (v, w) \<in> (edges graph)\<^sup>*)
     \<and> (\<forall>v w. examined graph frames s v w \<longrightarrow>
          opened s w \<and> (v \<in> set (ts_stack s) \<longrightarrow> w \<in> set (ts_stack s) \<longrightarrow> ts_low s ! v \<le> tid s w))"

text \<open>A closed node on the stack has handed its low link to the nearest open frame below it.\<close>

definition tj_near :: "(nat \<times> nat) list \<Rightarrow> tarjan \<Rightarrow> bool" where
  "tj_near frames s \<longleftrightarrow>
     (\<forall>x \<in> set (ts_stack s) - gray frames. \<forall>g \<in> gray frames.
        tid s g < tid s x \<longrightarrow> (\<forall>h \<in> gray frames. tid s h \<le> tid s g \<or> tid s x < tid s h) \<longrightarrow> ts_low s ! g \<le> ts_low s ! x)"

definition tj_popped :: "nat list list \<Rightarrow> tarjan \<Rightarrow> bool" where
  "tj_popped graph s \<longleftrightarrow>
     (\<forall>v w. popped s v \<longrightarrow> (v, w) \<in> edges graph \<longrightarrow> popped s w)
     \<and> (\<forall>u. popped s u \<longrightarrow> (\<exists>r. popped s r \<and> ts_low s ! u = tid s r \<and> (u, r) \<in> (edges graph)\<^sup>* \<and> (r, u) \<in> (edges graph)\<^sup>*))
     \<and> (\<forall>u v. popped s u \<longrightarrow> popped s v \<longrightarrow> (u, v) \<in> (edges graph)\<^sup>* \<longrightarrow> (v, u) \<in> (edges graph)\<^sup>*
          \<longrightarrow> ts_low s ! u = ts_low s ! v)"

definition tarjan_inv :: "nat list list \<Rightarrow> (nat \<times> nat) list \<Rightarrow> tarjan \<Rightarrow> bool" where
  "tarjan_inv graph frames s \<longleftrightarrow>
     tj_shape graph s \<and> tj_frames graph frames s \<and> tj_paths graph frames s \<and> tj_low graph frames s
     \<and> tj_near frames s \<and> tj_popped graph s"

definition targets_in_range :: "nat list list \<Rightarrow> bool" where
  "targets_in_range graph \<longleftrightarrow> (\<forall>u < length graph. set (graph ! u) \<subseteq> {..<length graph})"

lemma tj_shapeD:
  assumes "tj_shape graph s"
  shows "length (ts_ids s) = length graph" "length (ts_low s) = length graph" "length (ts_on_stack s) = length graph"
    "\<And>v. v < length graph \<Longrightarrow> ts_on_stack s ! v \<longleftrightarrow> v \<in> set (ts_stack s)"
    "\<And>v. v \<in> set (ts_stack s) \<Longrightarrow> opened s v" "sorted_wrt (\<lambda>a b. tid s b < tid s a) (ts_stack s)"
    "\<And>v. opened s v \<Longrightarrow> tid s v \<le> ts_id s"
    "\<And>u v. opened s u \<Longrightarrow> opened s v \<Longrightarrow> tid s u = tid s v \<Longrightarrow> u = v"
    "\<And>v. opened s v \<Longrightarrow> v < length graph" "\<And>v. v \<in> set (ts_stack s) \<Longrightarrow> v < length graph"
  using assms unfolding tj_shape_def opened_def by metis+

lemma tj_framesD:
  assumes "tj_frames graph frames s"
  shows "sorted_wrt (\<lambda>a b. tid s b < tid s a) (map fst frames)" "gray frames \<subseteq> set (ts_stack s)"
    "\<And>v c. (v, c) \<in> set frames \<Longrightarrow> c \<le> length (graph ! v)"
  using assms unfolding tj_frames_def by auto

lemma tj_pathsD:
  assumes "tj_paths graph frames s"
  shows "\<And>x y. x \<in> set (ts_stack s) \<Longrightarrow> y \<in> set (ts_stack s) \<Longrightarrow> tid s x \<le> tid s y \<Longrightarrow> (x, y) \<in> (edges graph)\<^sup>*"
    "\<And>y. y \<in> set (ts_stack s) \<Longrightarrow> \<exists>g \<in> gray frames. tid s g \<le> tid s y \<and> (y, g) \<in> (edges graph)\<^sup>*"
  using assms unfolding tj_paths_def by blast+

lemma tj_lowD:
  assumes "tj_low graph frames s"
  shows "\<And>v. v \<in> set (ts_stack s) \<Longrightarrow> \<exists>w \<in> set (ts_stack s). ts_low s ! v = tid s w \<and> (v, w) \<in> (edges graph)\<^sup>*"
    "\<And>v. v \<in> set (ts_stack s) \<Longrightarrow> ts_low s ! v \<le> tid s v"
    "\<And>v w. examined graph frames s v w \<Longrightarrow> opened s w"
    "\<And>v w. examined graph frames s v w \<Longrightarrow> v \<in> set (ts_stack s) \<Longrightarrow> w \<in> set (ts_stack s) \<Longrightarrow> ts_low s ! v \<le> tid s w"
  using assms unfolding tj_low_def by blast+

lemma tj_nearD:
  "tj_near frames s \<Longrightarrow> x \<in> set (ts_stack s) \<Longrightarrow> x \<notin> gray frames \<Longrightarrow> g \<in> gray frames \<Longrightarrow> tid s g < tid s x
    \<Longrightarrow> (\<And>h. h \<in> gray frames \<Longrightarrow> tid s h \<le> tid s g \<or> tid s x < tid s h) \<Longrightarrow> ts_low s ! g \<le> ts_low s ! x"
  unfolding tj_near_def by blast

lemma tj_poppedD:
  assumes "tj_popped graph s"
  shows "\<And>v w. popped s v \<Longrightarrow> (v, w) \<in> edges graph \<Longrightarrow> popped s w"
    "\<And>u. popped s u \<Longrightarrow> \<exists>r. popped s r \<and> ts_low s ! u = tid s r \<and> (u, r) \<in> (edges graph)\<^sup>* \<and> (r, u) \<in> (edges graph)\<^sup>*"
    "\<And>u v. popped s u \<Longrightarrow> popped s v \<Longrightarrow> (u, v) \<in> (edges graph)\<^sup>* \<Longrightarrow> (v, u) \<in> (edges graph)\<^sup>* \<Longrightarrow> ts_low s ! u = ts_low s ! v"
  using assms unfolding tj_popped_def by blast+

lemma tj_popped_same:
  assumes "tj_popped graph s" and eq: "\<And>v. popped s' v \<longleftrightarrow> popped s v"
    "\<And>v. popped s v \<Longrightarrow> ts_low s' ! v = ts_low s ! v \<and> tid s' v = tid s v"
  shows "tj_popped graph s'"
proof -
  note p = tj_poppedD[OF assms(1)]
  have "\<exists>r. popped s r \<and> ts_low s' ! u = tid s' r \<and> (u, r) \<in> (edges graph)\<^sup>* \<and> (r, u) \<in> (edges graph)\<^sup>*" if u: "popped s u" for u
  proof -
    from p(2)[OF u] obtain r where "popped s r" "ts_low s ! u = tid s r" "(u, r) \<in> (edges graph)\<^sup>*" "(r, u) \<in> (edges graph)\<^sup>*" by blast
    then show ?thesis using eq(2)[OF u] eq(2)[of r] by auto
  qed
  moreover have "ts_low s' ! u = ts_low s' ! v"
    if "popped s u" "popped s v" "(u, v) \<in> (edges graph)\<^sup>*" "(v, u) \<in> (edges graph)\<^sup>*" for u v
    using p(3)[OF that] eq(2)[OF that(1)] eq(2)[OF that(2)] by simp
  ultimately show ?thesis unfolding tj_popped_def eq(1) using p(1) by blast
qed

lemma tarjan_invD:
  "tarjan_inv graph frames s \<Longrightarrow> tj_shape graph s" "tarjan_inv graph frames s \<Longrightarrow> tj_frames graph frames s"
  "tarjan_inv graph frames s \<Longrightarrow> tj_paths graph frames s" "tarjan_inv graph frames s \<Longrightarrow> tj_low graph frames s"
  "tarjan_inv graph frames s \<Longrightarrow> tj_near frames s" "tarjan_inv graph frames s \<Longrightarrow> tj_popped graph s"
  by (simp_all add: tarjan_inv_def)

section \<open>Opening a node\<close>

lemma open_facts:
  assumes "tj_shape graph s" "t < length graph" "ts_ids s ! t = None"
  shows "opened (tarjan_open t s) v \<longleftrightarrow> v = t \<or> opened s v" "tid (tarjan_open t s) v = (if v = t then ts_id s + 1 else tid s v)"
    "ts_stack (tarjan_open t s) = t # ts_stack s" "t \<notin> set (ts_stack s)" "\<not> opened s t"
    "ts_low (tarjan_open t s) ! v = (if v = t then ts_id s + 1 else ts_low s ! v)"
    "popped (tarjan_open t s) v \<longleftrightarrow> popped s v" "ts_id (tarjan_open t s) = ts_id s + 1"
proof -
  note sh = tj_shapeD[OF assms(1)]
  show t: "\<not> opened s t" using assms(3) by (simp add: opened_def)
  then show ts: "t \<notin> set (ts_stack s)" using sh(5) by blast
  show st: "ts_stack (tarjan_open t s) = t # ts_stack s" by (simp add: tarjan_open_def)
  show op: "opened (tarjan_open t s) v \<longleftrightarrow> v = t \<or> opened s v" for v
    using assms(2) sh(1) by (auto simp: opened_def tarjan_open_def nth_list_update)
  show "tid (tarjan_open t s) v = (if v = t then ts_id s + 1 else tid s v)"
    using assms(2) sh(1) by (auto simp: tid_def tarjan_open_def)
  show "ts_low (tarjan_open t s) ! v = (if v = t then ts_id s + 1 else ts_low s ! v)"
    using assms(2) sh(2) by (auto simp: tarjan_open_def)
  show "popped (tarjan_open t s) v \<longleftrightarrow> popped s v" using t by (auto simp: popped_def op st)
  show "ts_id (tarjan_open t s) = ts_id s + 1" by (simp add: tarjan_open_def)
qed

lemma examined_open:
  assumes "tj_shape graph s" "tj_frames graph frames s" "t < length graph" "ts_ids s ! t = None"
  shows "examined graph ((t, 0) # frames) (tarjan_open t s) v w \<longleftrightarrow> examined graph frames s v w"
proof -
  note f = open_facts[OF assms(1,3,4)]
  have "t \<notin> gray frames" using tj_framesD(2)[OF assms(2)] f(4) by blast
  then have "(t, c) \<notin> set frames" for c by force
  then show ?thesis using f(5) by (auto simp: examined_def f(1))
qed

lemma open_inv:
  assumes inv: "tarjan_inv graph frames s" and t: "t < length graph" "ts_ids s ! t = None"
    and reach: "\<And>x. x \<in> set (ts_stack s) \<Longrightarrow> (x, t) \<in> (edges graph)\<^sup>*"
  shows "tarjan_inv graph ((t, 0) # frames) (tarjan_open t s)"
proof -
  note i = tarjan_invD[OF inv]
  note sh = tj_shapeD[OF i(1)] and fr = tj_framesD[OF i(2)] and f = open_facts[OF i(1) t]
  let ?s = "tarjan_open t s"
  have old: "tid s x \<le> ts_id s" "x \<noteq> t" if "x \<in> set (ts_stack s)" for x using sh(5,7) that f(4) by blast+
  have "tj_shape graph ?s"
    unfolding tj_shape_def
  proof (intro conjI allI impI ballI)
    show "length (ts_ids ?s) = length graph" "length (ts_low ?s) = length graph" "length (ts_on_stack ?s) = length graph"
      using sh(1-3) by (simp_all add: tarjan_open_def)
    show "ts_on_stack ?s ! v \<longleftrightarrow> v \<in> set (ts_stack ?s)" if "v < length graph" for v
      using sh(3,4) t(1) that by (auto simp: tarjan_open_def nth_list_update)
    show "opened ?s v" if "v \<in> set (ts_stack ?s)" for v using that sh(5) by (auto simp: f)
    have "sorted_wrt (\<lambda>a b. tid ?s b < tid ?s a) (ts_stack s)"
      using sh(6) by (rule sorted_wrt_mono_rel[rotated]) (use old in \<open>auto simp: f\<close>)
    then show "sorted_wrt (\<lambda>a b. tid ?s b < tid ?s a) (ts_stack ?s)" using old by (fastforce simp: f)
    show "tid ?s v \<le> ts_id ?s" if "opened ?s v" for v using that sh(7)[of v] by (auto simp: f)
    show "u = v" if "opened ?s u" "opened ?s v" "tid ?s u = tid ?s v" for u v
      using that sh(7)[of u] sh(7)[of v] sh(8)[of u v] by (auto simp: f split: if_splits)
  qed
  moreover have "tj_frames graph ((t, 0) # frames) ?s"
  proof -
    have g: "tid ?s x = tid s x" "tid s x \<le> ts_id s" if "x \<in> gray frames" for x
      using that fr(2) old[of x] by (auto simp: f)
    have "sorted_wrt (\<lambda>a b. tid ?s b < tid ?s a) (map fst frames)"
      using fr(1) by (rule sorted_wrt_mono_rel[rotated]) (use g in auto)
    then show ?thesis unfolding tj_frames_def using g fr(2,3) by (fastforce simp: f)
  qed
  moreover have "tj_paths graph ((t, 0) # frames) ?s"
    unfolding tj_paths_def
  proof (intro conjI ballI impI)
    fix x y assume x: "x \<in> set (ts_stack ?s)" and y: "y \<in> set (ts_stack ?s)" and le: "tid ?s x \<le> tid ?s y"
    consider "y = t" | "y \<noteq> t" "x \<noteq> t" using x y le old[of y] by (auto simp: f split: if_splits)
    then show "(x, y) \<in> (edges graph)\<^sup>*"
      by cases (use x y le reach[of x] tj_pathsD(1)[OF i(3), of x y] in \<open>auto simp: f\<close>)
  next
    fix y assume y: "y \<in> set (ts_stack ?s)"
    show "\<exists>g \<in> gray ((t, 0) # frames). tid ?s g \<le> tid ?s y \<and> (y, g) \<in> (edges graph)\<^sup>*"
    proof (cases "y = t")
      case False
      then obtain g where "g \<in> gray frames" "tid s g \<le> tid s y" "(y, g) \<in> (edges graph)\<^sup>*"
        using tj_pathsD(2)[OF i(3), of y] y by (auto simp: f)
      moreover from this(1) have "g \<noteq> t" using fr(2) f(4) by blast
      ultimately show ?thesis using False by (auto simp: f)
    qed auto
  qed
  moreover have "tj_low graph ((t, 0) # frames) ?s"
    unfolding tj_low_def examined_open[OF i(1,2) t]
  proof (intro conjI ballI allI impI)
    fix v assume "v \<in> set (ts_stack ?s)"
    then show "\<exists>w \<in> set (ts_stack ?s). ts_low ?s ! v = tid ?s w \<and> ts_low ?s ! v \<le> tid ?s v \<and> (v, w) \<in> (edges graph)\<^sup>*"
      using tj_lowD(1,2)[OF i(4), of v] old by (cases "v = t") (auto simp: f)
  next
    fix v w assume e: "examined graph frames s v w"
    then show "opened ?s w" using tj_lowD(3)[OF i(4)] by (simp add: f)
    have "v \<noteq> t" using e fr(2) f(4,5) by (force simp: examined_def)
    moreover have "w \<noteq> t" using tj_lowD(3)[OF i(4) e] f(5) by blast
    moreover assume "v \<in> set (ts_stack ?s)" "w \<in> set (ts_stack ?s)"
    ultimately show "ts_low ?s ! v \<le> tid ?s w" using tj_lowD(4)[OF i(4) e] by (simp add: f)
  qed
  moreover have "tj_near ((t, 0) # frames) ?s"
    unfolding tj_near_def
  proof (intro ballI impI)
    fix x g assume x: "x \<in> set (ts_stack ?s) - gray ((t, 0) # frames)" and g: "g \<in> gray ((t, 0) # frames)"
      and lt: "tid ?s g < tid ?s x" and nb: "\<forall>h \<in> gray ((t, 0) # frames). tid ?s h \<le> tid ?s g \<or> tid ?s x < tid ?s h"
    have x': "x \<in> set (ts_stack s)" "x \<noteq> t" "x \<notin> gray frames" using x by (auto simp: f)
    then have g': "g \<noteq> t" "g \<in> gray frames" using lt g old[of x] by (auto simp: f split: if_splits)
    have "h \<noteq> t" if "h \<in> gray frames" for h using that fr(2) f(4) by blast
    then have "tid s h \<le> tid s g \<or> tid s x < tid s h" if "h \<in> gray frames" for h
      using nb g' x' that by (auto simp: f)
    from tj_nearD[OF i(5) x'(1,3) g'(2) _ this] lt g' x' show "ts_low ?s ! g \<le> ts_low ?s ! x" by (simp add: f)
  qed
  moreover have "tj_popped graph ?s"
  proof (rule tj_popped_same[OF i(6)])
    show "popped ?s v \<longleftrightarrow> popped s v" for v by (rule f(7))
    show "ts_low ?s ! v = ts_low s ! v \<and> tid ?s v = tid s v" if "popped s v" for v
      using that f(5) by (auto simp: popped_def f(2,6))
  qed
  ultimately show ?thesis unfolding tarjan_inv_def by blast
qed

section \<open>Examining an edge\<close>

lemma examined_bump:
  assumes "c < length (graph ! v)" "examined graph (F @ (v, Suc c) # fr) s x y"
  shows "examined graph (F @ (v, c) # fr) s x y \<or> (x = v \<and> y = graph ! v ! c)"
  using assms by (auto simp: examined_def take_Suc_conv_app_nth)

lemma bump_inv:
  assumes inv: "tarjan_inv graph (F @ (v, c) # fr) s" and c: "c < length (graph ! v)" and op: "opened s (graph ! v ! c)"
    and low: "v \<in> set (ts_stack s) \<Longrightarrow> graph ! v ! c \<in> set (ts_stack s) \<Longrightarrow> ts_low s ! v \<le> tid s (graph ! v ! c)"
  shows "tarjan_inv graph (F @ (v, Suc c) # fr) s"
proof -
  note i = tarjan_invD[OF inv]
  have "tj_frames graph (F @ (v, Suc c) # fr) s" using i(2) c by (auto simp: tj_frames_def)
  moreover have "tj_low graph (F @ (v, Suc c) # fr) s"
    unfolding tj_low_def
  proof (intro conjI allI impI)
    show "\<forall>v \<in> set (ts_stack s). \<exists>w \<in> set (ts_stack s). ts_low s ! v = tid s w \<and> ts_low s ! v \<le> tid s v \<and> (v, w) \<in> (edges graph)\<^sup>*"
      using i(4) unfolding tj_low_def by blast
    fix x y assume "examined graph (F @ (v, Suc c) # fr) s x y"
    then consider "examined graph (F @ (v, c) # fr) s x y" | "x = v" "y = graph ! v ! c" using examined_bump[OF c] by blast
    note cases = this
    from cases show "opened s y" by cases (use tj_lowD(3)[OF i(4)] op in auto)
    assume "x \<in> set (ts_stack s)" "y \<in> set (ts_stack s)"
    with cases show "ts_low s ! x \<le> tid s y" by cases (use tj_lowD(4)[OF i(4)] low in auto)
  qed
  ultimately show ?thesis using i by (simp add: tarjan_inv_def tj_paths_def tj_near_def)
qed

section \<open>Lowering a low link\<close>

lemma lower_simps [simp]:
  "ts_ids (lower_low a b s) = ts_ids s" "ts_stack (lower_low a b s) = ts_stack s" "ts_id (lower_low a b s) = ts_id s"
  "ts_on_stack (lower_low a b s) = ts_on_stack s" "length (ts_low (lower_low a b s)) = length (ts_low s)"
  "tid (lower_low a b s) = tid s" "opened (lower_low a b s) = opened s" "popped (lower_low a b s) = popped s"
  by (simp_all add: lower_low_def tid_def opened_def popped_def fun_eq_iff)

lemma lower_keeps:
  "tj_shape graph (lower_low a b s) = tj_shape graph s" "tj_frames graph frames (lower_low a b s) = tj_frames graph frames s"
  "tj_paths graph frames (lower_low a b s) = tj_paths graph frames s"
  "examined graph frames (lower_low a b s) = examined graph frames s"
  by (simp_all add: tj_shape_def tj_frames_def tj_paths_def examined_def fun_eq_iff)

lemma lower_low_nth: "a < length (ts_low s) \<Longrightarrow> ts_low (lower_low a b s) ! v = (if v = a then min (ts_low s ! a) (ts_low s ! b) else ts_low s ! v)"
  by (simp add: lower_low_def)

lemma lower_low_inv:
  assumes sh: "tj_shape graph s" and low: "tj_low graph frames s" and ab: "a \<in> set (ts_stack s)" "b \<in> set (ts_stack s)" "(a, b) \<in> (edges graph)\<^sup>*"
  shows "tj_low graph frames (lower_low a b s)"
proof -
  have a: "a < length (ts_low s)" using tj_shapeD(2,10)[OF sh] ab(1) by simp
  have le: "ts_low (lower_low a b s) ! v \<le> ts_low s ! v" for v by (simp add: lower_low_nth[OF a])
  note l = tj_lowD[OF low]
  have "\<exists>w \<in> set (ts_stack s). ts_low (lower_low a b s) ! v = tid s w \<and> (v, w) \<in> (edges graph)\<^sup>*" if v: "v \<in> set (ts_stack s)" for v
  proof (cases "v = a \<and> ts_low s ! b < ts_low s ! a")
    case True
    from l(1)[OF ab(2)] obtain w where "w \<in> set (ts_stack s)" "ts_low s ! b = tid s w" "(b, w) \<in> (edges graph)\<^sup>*" by blast
    with True ab(3) show ?thesis by (intro bexI[of _ w]) (auto simp: lower_low_nth[OF a])
  next
    case False
    then have "ts_low (lower_low a b s) ! v = ts_low s ! v" by (auto simp: lower_low_nth[OF a] min_def)
    with l(1)[OF v] show ?thesis by simp
  qed
  moreover have "ts_low (lower_low a b s) ! v \<le> tid s v" if "v \<in> set (ts_stack s)" for v
    using l(2)[OF that] le[of v] by linarith
  moreover have "ts_low (lower_low a b s) ! v \<le> tid s w"
    if "examined graph frames s v w" "v \<in> set (ts_stack s)" "w \<in> set (ts_stack s)" for v w
    using l(4)[OF that] le[of v] by linarith
  ultimately show ?thesis unfolding tj_low_def lower_keeps lower_simps using l(3) by blast
qed

lemma lower_popped:
  assumes "tj_shape graph s" "tj_popped graph s" "a \<in> set (ts_stack s)"
  shows "tj_popped graph (lower_low a b s)"
proof (rule tj_popped_same[OF assms(2)])
  show "ts_low (lower_low a b s) ! v = ts_low s ! v \<and> tid (lower_low a b s) v = tid s v" if "popped s v" for v
    using that assms(3) tj_shapeD(2,10)[OF assms(1)] by (auto simp: lower_low_nth popped_def)
qed simp

lemma lower_inv:
  assumes inv: "tarjan_inv graph frames s" and ab: "a \<in> gray frames" "b \<in> set (ts_stack s)" "(a, b) \<in> (edges graph)\<^sup>*"
  shows "tarjan_inv graph frames (lower_low a b s)"
proof -
  note i = tarjan_invD[OF inv]
  have a: "a \<in> set (ts_stack s)" using tj_framesD(2)[OF i(2)] ab(1) by blast
  then have al: "a < length (ts_low s)" using tj_shapeD(2,10)[OF i(1)] by simp
  have "tj_near frames (lower_low a b s)"
    unfolding tj_near_def lower_simps
  proof (intro ballI impI)
    fix x g assume x: "x \<in> set (ts_stack s) - gray frames" and "g \<in> gray frames" "tid s g < tid s x"
      "\<forall>h \<in> gray frames. tid s h \<le> tid s g \<or> tid s x < tid s h"
    then have "ts_low s ! g \<le> ts_low s ! x" using tj_nearD[OF i(5), of x g] by blast
    moreover have "x \<noteq> a" using x ab(1) by blast
    ultimately show "ts_low (lower_low a b s) ! g \<le> ts_low (lower_low a b s) ! x"
      by (auto simp: lower_low_nth[OF al] min_le_iff_disj)
  qed
  with i lower_low_inv[OF i(1,4) a ab(2,3)] lower_popped[OF i(1,6) a] show ?thesis
    by (simp add: tarjan_inv_def lower_keeps)
qed

section \<open>Closing a node that is no root\<close>

lemma examined_close:
  assumes "length (graph ! v) \<le> c" "ts_ids s' = ts_ids s" "examined graph fr s' x y"
  shows "examined graph ((v, c) # fr) s x y"
  using assms by (auto simp: examined_def opened_def)

lemma top_gray:
  assumes "tj_frames graph ((v, c) # fr) s"
  shows "v \<in> set (ts_stack s)" "\<And>g. g \<in> gray fr \<Longrightarrow> tid s g < tid s v" "gray fr \<subseteq> set (ts_stack s)" "tj_frames graph fr s"
  using tj_framesD[OF assms] assms by (auto simp: tj_frames_def)

lemma lower_frame:
  assumes inv: "tarjan_inv graph ((v, c) # fr) s" and low: "ts_low s ! v \<noteq> tid s v"
  obtains g where "g \<in> gray fr" "tid s g < tid s v" "(v, g) \<in> (edges graph)\<^sup>*"
proof -
  note i = tarjan_invD[OF inv] and t = top_gray[OF tarjan_invD(2)[OF inv]]
  from tj_lowD(1)[OF i(4) t(1)] obtain w where w: "w \<in> set (ts_stack s)" "ts_low s ! v = tid s w" "(v, w) \<in> (edges graph)\<^sup>*" by blast
  have lt: "tid s w < tid s v" using tj_lowD(2)[OF i(4) t(1)] low w(2) by simp
  from tj_pathsD(2)[OF i(3) w(1)] obtain g where g: "g \<in> gray ((v, c) # fr)" "tid s g \<le> tid s w" "(w, g) \<in> (edges graph)\<^sup>*" by blast
  from g lt have "g \<in> gray fr" by auto
  moreover have "(v, g) \<in> (edges graph)\<^sup>*" using w(3) g(3) by (rule rtrancl_trans)
  ultimately show ?thesis using g(2) lt that by force
qed

lemma close_near:
  assumes inv: "tarjan_inv graph ((v, c) # (p, d) # fr) s"
  shows "tj_near ((p, d) # fr) (lower_low p v s)"
  unfolding tj_near_def lower_simps
proof (intro ballI impI)
  note i = tarjan_invD[OF inv] and t = top_gray[OF tarjan_invD(2)[OF inv]]
  note tp = top_gray[OF t(4)]
  let ?fr = "(p, d) # fr"
  have p: "p < length (ts_low s)" using tj_shapeD(2,10)[OF i(1)] tp(1) by simp
  fix x g assume x: "x \<in> set (ts_stack s) - gray ?fr" and g: "g \<in> gray ?fr" "tid s g < tid s x"
    and nb: "\<forall>h \<in> gray ?fr. tid s h \<le> tid s g \<or> tid s x < tid s h"
  have low_x: "ts_low (lower_low p v s) ! x = ts_low s ! x" using x by (auto simp: lower_low_nth[OF p])
  have low_g: "ts_low (lower_low p v s) ! g \<le> ts_low s ! g" by (simp add: lower_low_nth[OF p])
  show "ts_low (lower_low p v s) ! g \<le> ts_low (lower_low p v s) ! x"
  proof (cases "tid s x < tid s v")
    case True
    have "ts_low s ! g \<le> ts_low s ! x"
      by (rule tj_nearD[OF i(5)]) (use x g nb True in auto)
    then show ?thesis using low_x low_g by simp
  next
    case False
    have "tid s p < tid s v" using t(2)[of p] by simp
    then have "tid s p \<le> tid s g" using nb False by auto
    then have gp: "g = p" using g(1) tp(2)[of g] by auto
    have "ts_low s ! v \<le> ts_low s ! x"
    proof (cases "x = v")
      case False
      have "tid s x \<noteq> tid s v" using False x t(1) tj_shapeD(5,8)[OF i(1)] by blast
      moreover have "tid s h \<le> tid s v" if "h \<in> gray ((v, c) # ?fr)" for h using that t(2)[of h] by force
      ultimately show ?thesis
        using tj_nearD[OF i(5), of x v] x False \<open>\<not> tid s x < tid s v\<close> by simp
    qed simp
    then show ?thesis using low_x by (simp add: gp lower_low_nth[OF p])
  qed
qed

lemma close_keep_inv:
  assumes inv: "tarjan_inv graph ((v, c) # fr) s" and c: "length (graph ! v) \<le> c" and low: "ts_low s ! v \<noteq> tid s v"
  obtains p d fr' where "fr = (p, d) # fr'" "tarjan_inv graph fr (lower_low p v s)"
proof -
  note i = tarjan_invD[OF inv] and t = top_gray[OF tarjan_invD(2)[OF inv]]
  obtain g where g: "g \<in> gray fr" "tid s g < tid s v" "(v, g) \<in> (edges graph)\<^sup>*" by (rule lower_frame[OF inv low])
  then obtain p d fr' where fr: "fr = (p, d) # fr'" by (cases fr) auto
  have p: "p \<in> set (ts_stack s)" "tid s p < tid s v" using t(2)[of p] t(3) by (auto simp: fr)
  have "tj_paths graph fr s"
    unfolding tj_paths_def
  proof (intro conjI ballI impI)
    show "(x, y) \<in> (edges graph)\<^sup>*" if "x \<in> set (ts_stack s)" "y \<in> set (ts_stack s)" "tid s x \<le> tid s y" for x y
      by (rule tj_pathsD(1)[OF i(3) that])
    fix y assume "y \<in> set (ts_stack s)"
    from tj_pathsD(2)[OF i(3) this] obtain h where h: "h \<in> gray ((v, c) # fr)" "tid s h \<le> tid s y" "(y, h) \<in> (edges graph)\<^sup>*" by blast
    show "\<exists>g \<in> gray fr. tid s g \<le> tid s y \<and> (y, g) \<in> (edges graph)\<^sup>*"
    proof (cases "h = v")
      case True
      then show ?thesis using g h(2,3) by (intro bexI[of _ g]) auto
    qed (use h in auto)
  qed
  moreover have "tj_low graph fr s"
    using i(4) examined_close[OF c refl] unfolding tj_low_def by blast
  moreover have "(p, v) \<in> (edges graph)\<^sup>*" using tj_pathsD(1)[OF i(3) p(1) t(1)] p(2) by simp
  ultimately have "tarjan_inv graph fr (lower_low p v s)"
    using i(1) t(4) lower_low_inv[OF i(1) _ p(1) t(1)] lower_popped[OF i(1,6) p(1)] close_near[of graph v c p d fr' s] inv
    by (auto simp: tarjan_inv_def lower_keeps fr)
  with fr show ?thesis using that by blast
qed

section \<open>Closing a root\<close>

lemma tarjan_pop_facts:
  assumes "v \<notin> set seg"
  shows "ts_stack (tarjan_pop v label (seg @ v # rest) s) = rest"
    "ts_id (tarjan_pop v label (seg @ v # rest) s) = ts_id s"
    "length (ts_low (tarjan_pop v label (seg @ v # rest) s)) = length (ts_low s)"
    "length (ts_on_stack (tarjan_pop v label (seg @ v # rest) s)) = length (ts_on_stack s)"
    "\<forall>x < length (ts_low s). ts_low (tarjan_pop v label (seg @ v # rest) s) ! x
       = (if x \<in> insert v (set seg) then label else ts_low s ! x)"
    "\<forall>x < length (ts_on_stack s). ts_on_stack (tarjan_pop v label (seg @ v # rest) s) ! x
       \<longleftrightarrow> ts_on_stack s ! x \<and> x \<notin> insert v (set seg)"
  using assms by (induction seg arbitrary: s) (auto simp: Let_def nth_list_update_read)

lemma tarjan_pop_keeps [simp]:
  "tid (tarjan_pop v label st s) = tid s" "opened (tarjan_pop v label st s) = opened s"
  by (simp_all add: tid_def opened_def fun_eq_iff)

text \<open>The component of a root: what lies on the stack above it, and it.\<close>

lemma root_segment:
  assumes inv: "tarjan_inv graph ((v, c) # fr) s" and c: "length (graph ! v) \<le> c" and low: "ts_low s ! v = tid s v"
    and st: "ts_stack s = seg @ v # rest"
  shows "x \<in> insert v (set seg) \<Longrightarrow> (x, y) \<in> edges graph \<Longrightarrow> y \<in> insert v (set seg) \<or> popped s y"
    and "x \<in> insert v (set seg) \<Longrightarrow> (x, v) \<in> (edges graph)\<^sup>*"
proof -
  note i = tarjan_invD[OF inv] and t = top_gray[OF tarjan_invD(2)[OF inv]]
  have above: "tid s v < tid s x" if "x \<in> set seg" for x using tj_shapeD(6)[OF i(1)] that by (auto simp: st sorted_wrt_append)
  have below: "tid s x < tid s v" if "x \<in> set rest" for x using tj_shapeD(6)[OF i(1)] that by (auto simp: st sorted_wrt_append)
  have gr: "tid s h \<le> tid s v" if "h \<in> gray ((v, c) # fr)" for h using that t(2)[of h] by force
  have black: "x \<notin> gray ((v, c) # fr)" if "x \<in> set seg" for x using gr[of x] above[OF that] by linarith
  have lows: "tid s v \<le> ts_low s ! x" if "x \<in> insert v (set seg)" for x
  proof (cases "x = v")
    case False
    then have x: "x \<in> set seg" using that by simp
    show ?thesis using tj_nearD[OF i(5), of x v] x above[OF x] black[OF x] gr by (simp add: low st)
  qed (simp add: low)
  have ex: "examined graph ((v, c) # fr) s x y" if "x \<in> insert v (set seg)" "(x, y) \<in> edges graph" for x y
  proof (cases "x = v")
    case True
    with that(2) c show ?thesis by (auto simp: examined_def edges_def)
  next
    case False
    with that tj_shapeD(5)[OF i(1), of x] black[of x] show ?thesis by (auto simp: examined_def edges_def st)
  qed
  show out: "y \<in> insert v (set seg) \<or> popped s y" if x: "x \<in> insert v (set seg)" "(x, y) \<in> edges graph" for x y
  proof (cases "y \<in> set (ts_stack s)")
    case True
    then have "ts_low s ! x \<le> tid s y" using tj_lowD(4)[OF i(4) ex[OF x]] x(1) by (auto simp: st)
    then have "y \<notin> set rest" using lows[OF x(1)] below[of y] by auto
    with True show ?thesis by (auto simp: st)
  next
    case False
    then show ?thesis using tj_lowD(3)[OF i(4) ex[OF x]] by (simp add: popped_def)
  qed
  have stay: "y \<in> insert v (set seg) \<or> popped s y" if "(x, y) \<in> (edges graph)\<^sup>*" "x \<in> insert v (set seg)" for x y
    using that by (induction rule: rtrancl_induct) (use out tj_poppedD(1)[OF i(6)] in blast)+
  show "(x, v) \<in> (edges graph)\<^sup>*" if x: "x \<in> insert v (set seg)" for x
  proof -
    have "x \<in> set (ts_stack s)" using x by (auto simp: st)
    from tj_pathsD(2)[OF i(3) this] obtain g where g: "g \<in> gray ((v, c) # fr)" "(x, g) \<in> (edges graph)\<^sup>*" by blast
    then have "g \<in> set (ts_stack s)" using t(1,3) by auto
    with stay[OF g(2) x] have "g \<in> insert v (set seg)" by (auto simp: popped_def)
    with black[of g] g show ?thesis by auto
  qed
qed

end
