(* ===== verification/Scc_Correct.thy ===== *)
theory Scc_Correct
  imports Scc_Laws
begin

text \<open>
  A root's component leaves the stack labelled, the loop ends with every node labelled by its component,
  and \<open>strongly_connected_components\<close> returns exactly the classes of mutual reachability.
\<close>

section \<open>Popping a component\<close>

lemma stack_split:
  assumes "tj_shape graph s" "ts_stack s = seg @ v # rest"
  shows "\<And>x. x \<in> set seg \<Longrightarrow> tid s v < tid s x" "\<And>x. x \<in> set rest \<Longrightarrow> tid s x < tid s v"
    "v \<notin> set seg" "set rest \<inter> insert v (set seg) = {}"
proof -
  have "sorted_wrt (\<lambda>a b. tid s b < tid s a) (seg @ v # rest)" using tj_shapeD(6)[OF assms(1)] by (simp add: assms(2))
  then show "\<And>x. x \<in> set seg \<Longrightarrow> tid s v < tid s x" "\<And>x. x \<in> set rest \<Longrightarrow> tid s x < tid s v"
    "v \<notin> set seg" "set rest \<inter> insert v (set seg) = {}"
    by (auto simp: sorted_wrt_append)
qed

lemma pop_popped:
  assumes inv: "tarjan_inv graph ((v, c) # fr) s" and c: "length (graph ! v) \<le> c" and low: "ts_low s ! v = tid s v"
    and st: "ts_stack s = seg @ v # rest"
  shows "tj_popped graph (tarjan_pop v (tid s v) (ts_stack s) s)"
proof -
  note i = tarjan_invD[OF inv]
  note sp = stack_split[OF i(1) st] and seg = root_segment[OF inv c low st] and sh = tj_shapeD[OF i(1)]
  define S where "S = insert v (set seg)"
  define s' where "s' = tarjan_pop v (tid s v) (ts_stack s) s"
  note f = tarjan_pop_facts[OF sp(3), where label = "tid s v" and rest = rest and s = s, folded st, folded s'_def]
  have same [simp]: "tid s' = tid s" "opened s' = opened s" by (simp_all add: s'_def)
  have S_st: "S \<subseteq> set (ts_stack s)" by (auto simp: S_def st)
  have pop: "popped s' x \<longleftrightarrow> popped s x \<or> x \<in> S" for x
    using sp(4) sh(5)[of x] by (auto simp: popped_def f(1) S_def st)
  have lo: "ts_low s' ! x = (if x \<in> S then tid s v else ts_low s ! x)" if "opened s x" for x
    using f(5) sh(9)[OF that] sh(2) by (simp add: S_def)
  have S_op: "opened s x" if "x \<in> S" for x using sh(5) S_st that by blast
  have lo_old: "ts_low s' ! x = ts_low s ! x" "x \<notin> S" if "popped s x" for x
    using lo[of x] that S_st by (auto simp: popped_def)
  have vS: "(v, x) \<in> (edges graph)\<^sup>*" "(x, v) \<in> (edges graph)\<^sup>*" if "x \<in> S" for x
    using that seg(2)[of x] tj_pathsD(1)[OF i(3), of v x] sp(1)[of x] by (auto simp: S_def st less_imp_le)
  have closed: "popped s y" if "(x, y) \<in> (edges graph)\<^sup>*" "popped s x" for x y
    using that by (induction rule: rtrancl_induct) (use tj_poppedD(1)[OF i(6)] in blast)+
  show ?thesis
    unfolding s'_def[symmetric] tj_popped_def
  proof (intro conjI allI impI)
    show "popped s' w" if "popped s' x" "(x, w) \<in> edges graph" for x w
      using that seg(1)[of x w] tj_poppedD(1)[OF i(6), of x w] by (auto simp: pop S_def)
    show "\<exists>r. popped s' r \<and> ts_low s' ! u = tid s' r \<and> (u, r) \<in> (edges graph)\<^sup>* \<and> (r, u) \<in> (edges graph)\<^sup>*" if u: "popped s' u" for u
    proof (cases "u \<in> S")
      case True
      then show ?thesis using vS[OF True] lo[OF S_op[OF True]] by (intro exI[of _ v]) (simp add: pop S_def)
    next
      case False
      then show ?thesis using u tj_poppedD(2)[OF i(6), of u] lo_old(1)[of u] by (auto simp: pop)
    qed
    show "ts_low s' ! u = ts_low s' ! w"
      if "popped s' u" "popped s' w" "(u, w) \<in> (edges graph)\<^sup>*" "(w, u) \<in> (edges graph)\<^sup>*" for u w
    proof (cases "u \<in> S")
      case True
      then have "w \<in> S" using that closed[OF that(4)] lo_old(2) by (auto simp: pop)
      with True show ?thesis by (simp add: lo S_op)
    next
      case False
      then have "popped s u" "popped s w" using that closed[OF that(3)] by (auto simp: pop)
      then show ?thesis using tj_poppedD(3)[OF i(6) _ _ that(3,4)] lo_old(1) by simp
    qed
  qed
qed

lemma pop_inv:
  assumes inv: "tarjan_inv graph ((v, c) # fr) s" and c: "length (graph ! v) \<le> c" and low: "ts_low s ! v = tid s v"
  shows "tarjan_inv graph fr (tarjan_pop v (tid s v) (ts_stack s) s)" "\<not> ts_on_stack (tarjan_pop v (tid s v) (ts_stack s) s) ! v"
proof -
  note i = tarjan_invD[OF inv] and t = top_gray[OF tarjan_invD(2)[OF inv]]
  from t(1) obtain seg rest where st: "ts_stack s = seg @ v # rest" by (meson split_list)
  note sp = stack_split[OF i(1) st] and sh = tj_shapeD[OF i(1)]
  define s' where "s' = tarjan_pop v (tid s v) (ts_stack s) s"
  note f = tarjan_pop_facts[OF sp(3), where label = "tid s v" and rest = rest and s = s, folded st, folded s'_def]
  have same [simp]: "tid s' = tid s" "opened s' = opened s" "ts_ids s' = ts_ids s" by (simp_all add: s'_def)
  have rest: "x \<in> set (ts_stack s)" "tid s x < tid s v" if "x \<in> set rest" for x using that sp(2) by (auto simp: st)
  have in_rest: "x \<in> set rest" if "x \<in> set (ts_stack s)" "tid s x < tid s v" for x using that sp(1)[of x] by (auto simp: st)
  have lo: "ts_low s' ! x = ts_low s ! x" if "x \<in> set rest" for x
    using f(5) sh(2) sh(10)[OF rest(1)[OF that]] sp(4) that by auto
  have gr: "gray fr \<subseteq> set rest" using t(2,3) in_rest by blast
  show "\<not> ts_on_stack (tarjan_pop v (tid s v) (ts_stack s) s) ! v"
    unfolding s'_def[symmetric] using f(6) sh(3) sh(10)[OF t(1)] by simp
  have "tj_shape graph s'"
    unfolding tj_shape_def using sh f sp(4) rest(1)
    by (auto simp: st sorted_wrt_append)
  moreover have "tj_frames graph fr s'" using t(4) gr by (simp add: tj_frames_def f(1))
  moreover have "tj_paths graph fr s'"
    unfolding tj_paths_def f(1) same
  proof (intro conjI ballI impI)
    show "(x, y) \<in> (edges graph)\<^sup>*" if "x \<in> set rest" "y \<in> set rest" "tid s x \<le> tid s y" for x y
      using tj_pathsD(1)[OF i(3) rest(1) rest(1)] that by blast
    fix y assume y: "y \<in> set rest"
    from tj_pathsD(2)[OF i(3) rest(1)[OF y]] rest(2)[OF y]
    show "\<exists>g \<in> gray fr. tid s g \<le> tid s y \<and> (y, g) \<in> (edges graph)\<^sup>*" by auto
  qed
  moreover have "tj_low graph fr s'"
    unfolding tj_low_def f(1) same
  proof (intro conjI ballI allI impI)
    fix x assume x: "x \<in> set rest"
    from tj_lowD(1,2)[OF i(4) rest(1)[OF x]] obtain w where "w \<in> set (ts_stack s)" "ts_low s ! x = tid s w" "(x, w) \<in> (edges graph)\<^sup>*"
      "tid s w \<le> tid s x" by auto
    with in_rest[of w] rest(2)[OF x] lo[OF x]
    show "\<exists>w \<in> set rest. ts_low s' ! x = tid s w \<and> ts_low s' ! x \<le> tid s x \<and> (x, w) \<in> (edges graph)\<^sup>*" by auto
  next
    fix x y assume "examined graph fr s' x y"
    then have e: "examined graph ((v, c) # fr) s x y" by (rule examined_close[OF c same(3)])
    then show "opened s y" by (rule tj_lowD(3)[OF i(4)])
    show "ts_low s' ! x \<le> tid s y" if "x \<in> set rest" "y \<in> set rest"
      using tj_lowD(4)[OF i(4) e rest(1) rest(1)] that lo by simp
  qed
  moreover have "tj_near fr s'"
    unfolding tj_near_def f(1) same
  proof (intro ballI impI)
    fix x g assume x: "x \<in> set rest - gray fr" and g: "g \<in> gray fr" "tid s g < tid s x"
      and nb: "\<forall>h \<in> gray fr. tid s h \<le> tid s g \<or> tid s x < tid s h"
    have x': "x \<in> set rest" using x by blast
    have "ts_low s ! g \<le> ts_low s ! x"
      by (rule tj_nearD[OF i(5) rest(1)[OF x']]) (use x g nb rest(2)[OF x'] in auto)
    then show "ts_low s' ! g \<le> ts_low s' ! x" using lo[OF x'] lo[of g] gr g(1) by auto
  qed
  moreover have "tj_popped graph s'" unfolding s'_def by (rule pop_popped[OF inv c low st])
  ultimately show "tarjan_inv graph fr (tarjan_pop v (tid s v) (ts_stack s) s)"
    unfolding tarjan_inv_def s'_def by blast
qed

lemma close_inv:
  assumes inv: "tarjan_inv graph ((v, c) # fr) s" and c: "length (graph ! v) \<le> c"
  shows "tarjan_inv graph fr (tarjan_close v fr s)"
proof -
  note i = tarjan_invD[OF inv] and t = top_gray[OF tarjan_invD(2)[OF inv]]
  have id: "ts_ids s ! v = Some (tid s v)" using tj_shapeD(5)[OF i(1) t(1)] by (auto simp: opened_def tid_def)
  show ?thesis
  proof (cases "ts_low s ! v = tid s v")
    case True
    from pop_inv[OF inv c True] True id show ?thesis by (auto simp: tarjan_close_def Let_def split: list.splits)
  next
    case False
    obtain p d fr' where fr: "fr = (p, d) # fr'" "tarjan_inv graph fr (lower_low p v s)" by (rule close_keep_inv[OF inv c False])
    have "ts_on_stack s ! v" using tj_shapeD(4,10)[OF i(1)] t(1) by simp
    with fr False id show ?thesis by (simp add: tarjan_close_def Let_def)
  qed
qed

section \<open>The search\<close>

lemma reach_top:
  assumes inv: "tarjan_inv graph ((v, c) # fr) s" and x: "x \<in> set (ts_stack s)"
  shows "(x, v) \<in> (edges graph)\<^sup>*"
proof -
  note i = tarjan_invD[OF inv] and t = top_gray[OF tarjan_invD(2)[OF inv]]
  from tj_pathsD(2)[OF i(3) x] obtain g where g: "g \<in> gray ((v, c) # fr)" "(x, g) \<in> (edges graph)\<^sup>*" by blast
  then have "g = v \<or> g \<in> gray fr" by auto
  then have "g \<in> set (ts_stack s)" "tid s g \<le> tid s v" using t(1,3) less_imp_le[OF t(2)[of g]] by blast+
  then have "(g, v) \<in> (edges graph)\<^sup>*" using tj_pathsD(1)[OF i(3) _ t(1)] by blast
  with g(2) show ?thesis by (rule rtrancl_trans)
qed

lemma descend_inv:
  assumes inv: "tarjan_inv graph ((v, c) # fr) s" and c: "c < length (graph ! v)" and rng: "targets_in_range graph"
    and new: "ts_ids s ! (graph ! v ! c) = None"
  shows "tarjan_inv graph ((graph ! v ! c, 0) # (v, Suc c) # fr) (tarjan_open (graph ! v ! c) s)"
proof -
  note i = tarjan_invD[OF inv] and t = top_gray[OF tarjan_invD(2)[OF inv]]
  let ?w = "graph ! v ! c"
  have v: "v < length graph" using tj_shapeD(10)[OF i(1) t(1)] .
  then have w: "?w < length graph" using rng c unfolding targets_in_range_def by (meson lessThan_iff nth_mem subsetD)
  have "(v, ?w) \<in> edges graph" using v c by (simp add: edges_def)
  then have "tarjan_inv graph ((?w, 0) # (v, c) # fr) (tarjan_open ?w s)"
    by (intro open_inv[OF inv w new]) (use reach_top[OF inv] in \<open>auto intro: rtrancl.rtrancl_into_rtrancl\<close>)
  moreover note f = open_facts[OF i(1) w new]
  have "v \<noteq> ?w" using f(4) t(1) by metis
  moreover have "ts_low s ! v \<le> ts_id s"
    using tj_lowD(2)[OF i(4) t(1)] tj_shapeD(7)[OF i(1) tj_shapeD(5)[OF i(1) t(1)]] by linarith
  ultimately show ?thesis
    using bump_inv[of graph "[(?w, 0)]" v c fr "tarjan_open ?w s"] c by (simp add: f)
qed

lemma examine_inv:
  assumes inv: "tarjan_inv graph ((v, c) # fr) s" and c: "c < length (graph ! v)"
    and old: "ts_ids s ! (graph ! v ! c) \<noteq> None" "graph ! v ! c < length graph"
  shows "ts_on_stack s ! (graph ! v ! c) \<Longrightarrow> tarjan_inv graph ((v, Suc c) # fr) (lower_low v (graph ! v ! c) s)"
    and "\<not> ts_on_stack s ! (graph ! v ! c) \<Longrightarrow> tarjan_inv graph ((v, Suc c) # fr) s"
proof -
  note i = tarjan_invD[OF inv] and t = top_gray[OF tarjan_invD(2)[OF inv]]
  let ?w = "graph ! v ! c"
  have op: "opened s ?w" using old tj_shapeD(1)[OF i(1)] by (simp add: opened_def)
  have v: "v < length graph" using tj_shapeD(10)[OF i(1) t(1)] .
  then have "(v, ?w) \<in> (edges graph)\<^sup>*" using c by (intro r_into_rtrancl) (simp add: edges_def)
  then show "tarjan_inv graph ((v, Suc c) # fr) (lower_low v ?w s)" if on: "ts_on_stack s ! ?w"
    using bump_inv[of graph "[]" v c fr "lower_low v ?w s"] lower_inv[OF inv, of v ?w] on op c
      tj_shapeD(4)[OF i(1) old(2)] tj_lowD(2)[OF i(4), of ?w] v tj_shapeD(2)[OF i(1)]
    by (auto simp: lower_low_nth min_le_iff_disj)
  show "tarjan_inv graph ((v, Suc c) # fr) s" if "\<not> ts_on_stack s ! ?w"
    using bump_inv[of graph "[]" v c fr s] inv op c tj_shapeD(4)[OF i(1) old(2)] that by simp
qed

lemma opened_keeps [simp]: "opened (tarjan_close v fr s) = opened s"
  by (auto simp: tarjan_close_def Let_def split: list.splits)

declare tarjan_loop.simps(2) [simp del]

theorem tarjan_loop_inv:
  "targets_in_range graph \<Longrightarrow> tarjan_inv graph frames s \<Longrightarrow>
    \<exists>t. tarjan_loop graph frames s = Some t \<and> tarjan_inv graph [] t \<and> (\<forall>v. opened s v \<longrightarrow> opened t v)"
proof (induction graph frames s rule: tarjan_loop.induct)
  case (2 graph v c frames s)
  note inv = 2(6) and rng = 2(5)
  note i = tarjan_invD[OF inv] and t = top_gray[OF tarjan_invD(2)[OF inv]]
  note step = tarjan_loop.simps(2)[of graph v c frames s]
  have v: "\<not> length graph \<le> v" using tj_shapeD(10)[OF i(1) t(1)] by simp
  show ?case
  proof (cases "c < length (graph ! v)")
    case True
    let ?w = "graph ! v ! c"
    have w: "?w < length graph" using rng True v unfolding targets_in_range_def by (meson lessThan_iff not_le nth_mem subsetD)
    then have w': "\<not> length (ts_ids s) \<le> ?w" using tj_shapeD(1)[OF i(1)] by simp
    show ?thesis
    proof (cases "ts_ids s ! ?w = None")
      case new: True
      from 2(1)[OF v True refl w' new rng] descend_inv[OF inv True rng new] v True w' new open_facts(1)[OF i(1) w new]
      show ?thesis by (auto simp: step Let_def)
    next
      case False
      from 2(2)[OF v True refl w' False _ rng] 2(3)[OF v True refl w' False _ rng] examine_inv[OF inv True False w] v True w' False
      show ?thesis by (cases "ts_on_stack s ! ?w") (auto simp: step Let_def)
    qed
  next
    case False
    from 2(4)[OF v False rng close_inv[OF inv]] False v show ?thesis by (simp add: step)
  qed
qed auto

lemma no_frames_no_stack: "tarjan_inv graph [] s \<Longrightarrow> ts_stack s = []"
  using tj_pathsD(2)[OF tarjan_invD(3)] by (cases "ts_stack s") force+

lemma tarjan_roots_inv:
  "targets_in_range graph \<Longrightarrow> tarjan_inv graph [] s \<Longrightarrow> set is \<subseteq> {..<length graph} \<Longrightarrow>
    \<exists>t. tarjan_roots graph is s = Some t \<and> tarjan_inv graph [] t \<and> (\<forall>v. opened s v \<or> v \<in> set is \<longrightarrow> opened t v)"
proof (induction "is" arbitrary: s)
  case (Cons v "is")
  have v: "v < length graph" using Cons.prems(3) by simp
  note sh = tj_shapeD[OF tarjan_invD(1)[OF Cons.prems(2)]]
  show ?case
  proof (cases "ts_ids s ! v = None")
    case True
    have "tarjan_inv graph [(v, 0)] (tarjan_open v s)"
      by (rule open_inv[OF Cons.prems(2) v True]) (simp add: no_frames_no_stack[OF Cons.prems(2)])
    from tarjan_loop_inv[OF Cons.prems(1) this] obtain t where t: "tarjan_dfs graph v s = Some t" "tarjan_inv graph [] t"
      "\<forall>x. opened (tarjan_open v s) x \<longrightarrow> opened t x" by (auto simp: tarjan_dfs_def)
    from Cons.IH[OF Cons.prems(1) t(2)] Cons.prems(3) obtain u where "tarjan_roots graph is t = Some u" "tarjan_inv graph [] u"
      "\<forall>x. opened t x \<or> x \<in> set is \<longrightarrow> opened u x" by auto
    with t True open_facts(1)[OF tarjan_invD(1)[OF Cons.prems(2)] v True] show ?thesis by auto
  next
    case False
    then have "opened s v" using v sh(1) by (simp add: opened_def)
    with Cons.IH[OF Cons.prems(1,2)] Cons.prems(3) False show ?thesis by auto
  qed
qed auto

definition mutual :: "nat list list \<Rightarrow> nat \<Rightarrow> nat \<Rightarrow> bool" where
  "mutual graph u v \<longleftrightarrow> (u, v) \<in> (edges graph)\<^sup>* \<and> (v, u) \<in> (edges graph)\<^sup>*"

text \<open>After the search the labels are the components.\<close>

theorem tarjan_labels:
  assumes "tarjan_new graph = Inr s"
  obtains t where "tarjan_roots graph [0..<length graph] s = Some t" "length (ts_low t) = length graph"
    "\<And>u v. u < length graph \<Longrightarrow> v < length graph \<Longrightarrow> ts_low t ! u = ts_low t ! v \<longleftrightarrow> mutual graph u v"
proof -
  have rng: "targets_in_range graph" and s: "s = \<lparr>ts_id = 0, ts_ids = replicate (length graph) None, ts_low = replicate (length graph) 0,
      ts_on_stack = replicate (length graph) False, ts_stack = []\<rparr>"
    using assms by (auto simp: tarjan_new_def targets_in_range_def list_all_iff split: if_splits)
  have "\<not> opened s v" for v by (simp add: opened_def s)
  then have "tarjan_inv graph [] s"
    unfolding tarjan_inv_def tj_shape_def tj_frames_def tj_paths_def tj_low_def tj_near_def tj_popped_def examined_def popped_def
    by (simp add: s)
  from tarjan_roots_inv[OF rng this, of "[0..<length graph]"] obtain t where t: "tarjan_roots graph [0..<length graph] s = Some t"
    "tarjan_inv graph [] t" "\<forall>v < length graph. opened t v" by (auto simp: lessThan_atLeast0)
  note sh = tj_shapeD[OF tarjan_invD(1)[OF t(2)]] and pp = tj_poppedD[OF tarjan_invD(6)[OF t(2)]]
  have pop: "popped t v" if "v < length graph" for v using t(3) no_frames_no_stack[OF t(2)] that by (simp add: popped_def)
  have "ts_low t ! u = ts_low t ! v \<longleftrightarrow> mutual graph u v" if u: "u < length graph" and v: "v < length graph" for u v
  proof
    assume eq: "ts_low t ! u = ts_low t ! v"
    from pp(2)[OF pop[OF u]] obtain r where r: "popped t r" "ts_low t ! u = tid t r" "(u, r) \<in> (edges graph)\<^sup>*" "(r, u) \<in> (edges graph)\<^sup>*" by blast
    from pp(2)[OF pop[OF v]] obtain q where q: "popped t q" "ts_low t ! v = tid t q" "(v, q) \<in> (edges graph)\<^sup>*" "(q, v) \<in> (edges graph)\<^sup>*" by blast
    have "r = q" by (rule sh(8)) (use r q eq in \<open>auto simp: popped_def\<close>)
    with r q show "mutual graph u v" by (auto simp: mutual_def)
  next
    assume "mutual graph u v"
    then show "ts_low t ! u = ts_low t ! v" unfolding mutual_def by (blast intro: pp(3)[OF pop[OF u] pop[OF v]])
  qed
  with t(1) sh(2) show ?thesis using that by blast
qed

section \<open>Groups\<close>

definition members :: "('k, 'v list) entries \<Rightarrow> 'k \<Rightarrow> 'v list" where
  "members m k = (case bt_get m k of None \<Rightarrow> [] | Some vs \<Rightarrow> vs)"

lemma members_insert: "bt_wf m \<Longrightarrow> members (bt_insert k vs m) k' = (if k' = k then vs else members m k')"
  by (simp add: members_def bt_get_def map_of_bt_insert)

lemma set_bt_insert_le: "set (bt_insert k v es) \<subseteq> insert (k, v) (set es)"
  by (induction k v es rule: bt_insert.induct) auto

lemma low_groups_spec:
  "bt_wf m \<Longrightarrow> (\<forall>e \<in> set m. snd e \<noteq> []) \<Longrightarrow>
    bt_wf (low_groups low idx m) \<and> (\<forall>e \<in> set (low_groups low idx m). snd e \<noteq> [])
    \<and> (\<forall>g. members (low_groups low idx m) g = members m g @ filter (\<lambda>j. low ! (j - idx) = g) [idx..<idx + length low])"
proof (induction low arbitrary: idx m)
  case (Cons l low)
  define m' where "m' = bt_insert l (members m l @ [idx]) m"
  have m': "bt_wf m'" "\<forall>e \<in> set m'. snd e \<noteq> []"
    using Cons.prems bt_insert_wf[OF Cons.prems(1)] set_bt_insert_le[of l "members m l @ [idx]" m] by (auto simp: m'_def)
  have mem: "members m' g = members m g @ (if l = g then [idx] else [])" for g
    by (simp add: m'_def members_insert[OF Cons.prems(1)])
  have fil: "filter (\<lambda>j. (l # low) ! (j - idx) = g) [idx..<idx + length (l # low)]
      = (if l = g then [idx] else []) @ filter (\<lambda>j. low ! (j - Suc idx) = g) [Suc idx..<Suc idx + length low]" for g
  proof -
    define U where "U = [Suc idx..<Suc idx + length low]"
    have "filter (\<lambda>j. (l # low) ! (j - idx) = g) U = filter (\<lambda>j. low ! (j - Suc idx) = g) U"
      by (rule filter_cong) (auto simp: U_def nth_Cons')
    moreover have "[idx..<idx + length (l # low)] = idx # U" by (subst upt_rec) (simp add: U_def)
    ultimately show ?thesis unfolding U_def[symmetric] by (cases "l = g") simp_all
  qed
  show ?case using Cons.IH[OF m', of "Suc idx"] unfolding fil mem by (simp add: m'_def members_def)
qed (simp add: members_def)

definition scc_partition :: "'a::linorder list list \<Rightarrow> 'a set \<Rightarrow> ('a \<Rightarrow> 'a \<Rightarrow> bool) \<Rightarrow> bool" where
  "scc_partition groups V R \<longleftrightarrow>
     distinct (concat groups) \<and> set (concat groups) = V \<and> [] \<notin> set groups \<and> (\<forall>g \<in> set groups. sorted_wrt (<) g)
     \<and> (\<forall>u \<in> V. \<forall>v \<in> V. (\<exists>g \<in> set groups. u \<in> set g \<and> v \<in> set g) \<longleftrightarrow> R u v)"

lemma grouped_by_label:
  fixes low :: "nat list"
  defines "es \<equiv> low_groups low 0 []"
  shows "scc_partition (map snd es) {..<length low} (\<lambda>u v. low ! u = low ! v)"
proof -
  from low_groups_spec[of "[]" low 0] have es: "bt_wf es" "\<forall>e \<in> set es. snd e \<noteq> []"
    "\<And>g. members es g = filter (\<lambda>j. low ! j = g) [0..<length low]" by (simp_all add: es_def members_def bt_get_def)
  have mem: "snd e = filter (\<lambda>j. low ! j = fst e) [0..<length low]" if "e \<in> set es" for e
  proof -
    have "bt_get es (fst e) = Some (snd e)" using that bt_wf_distinct[OF es(1)] by (simp add: bt_get_def)
    then show ?thesis using es(3)[of "fst e"] by (simp add: members_def)
  qed
  have mem': "v \<in> set (snd e) \<longleftrightarrow> v < length low \<and> low ! v = fst e" if "e \<in> set es" for e v
    by (subst mem[OF that]) auto
  have ent: "(low ! u, filter (\<lambda>j. low ! j = low ! u) [0..<length low]) \<in> set es" if u: "u < length low" for u
  proof -
    have "members es (low ! u) \<noteq> []" using u by (simp add: es(3) filter_empty_conv) auto
    then obtain vs where "bt_get es (low ! u) = Some vs" by (auto simp: members_def split: option.splits)
    then have "(low ! u, vs) \<in> set es" by (simp add: bt_get_def map_of_SomeD)
    with mem[OF this] show ?thesis by simp
  qed
  have "distinct (concat (map snd es))"
  proof (rule distinct_concat)
    have inj: "inj_on snd (set es)"
    proof (rule inj_onI)
      fix a b assume ab: "a \<in> set es" "b \<in> set es" "snd a = snd b"
      obtain j where "j \<in> set (snd a)" using es(2) ab(1) by (cases "snd a") auto
      then have "low ! j = fst a" "low ! j = fst b" using mem'[OF ab(1), of j] mem'[OF ab(2), of j] ab(3) by simp_all
      with ab(3) show "a = b" by (simp add: prod_eq_iff)
    qed
    show "distinct (map snd es)" using bt_wf_distinct[OF es(1)] inj by (simp add: distinct_map)
    show "distinct ys" if "ys \<in> set (map snd es)" for ys
    proof -
      from that obtain e where "e \<in> set es" "ys = snd e" by auto
      with mem[of e] show ?thesis by simp
    qed
    show "set ys \<inter> set zs = {}" if yz: "ys \<in> set (map snd es)" "zs \<in> set (map snd es)" "ys \<noteq> zs" for ys zs
    proof -
      from yz obtain a b where ab: "a \<in> set es" "b \<in> set es" "ys = snd a" "zs = snd b" by auto
      with yz(3) mem[of a] mem[of b] have "fst a \<noteq> fst b" by auto
      then have "x \<notin> set zs" if "x \<in> set ys" for x
        using that mem'[OF ab(1), of x] mem'[OF ab(2), of x] ab(3,4) by simp
      then show ?thesis by blast
    qed
  qed
  moreover have "set (concat (map snd es)) = {..<length low}" using mem' ent by fastforce
  moreover have "[] \<notin> set (map snd es)" using es(2) by auto
  moreover have "sorted_wrt (<) g" if "g \<in> set (map snd es)" for g
  proof -
    from that obtain e where "e \<in> set es" "g = snd e" by auto
    with mem[of e] show ?thesis by (simp add: sorted_wrt_filter)
  qed
  moreover have "(\<exists>g \<in> set (map snd es). u \<in> set g \<and> v \<in> set g) \<longleftrightarrow> low ! u = low ! v" if "u < length low" "v < length low" for u v
  proof
    assume "\<exists>g \<in> set (map snd es). u \<in> set g \<and> v \<in> set g"
    then show "low ! u = low ! v" using mem' by auto
  next
    assume "low ! u = low ! v"
    then show "\<exists>g \<in> set (map snd es). u \<in> set g \<and> v \<in> set g" using ent[OF that(1)] that by (force simp: image_iff)
  qed
  ultimately show ?thesis unfolding scc_partition_def by blast
qed

section \<open>Named graphs\<close>

definition graph_edges :: "'a graph \<Rightarrow> ('a \<times> 'a) set" where
  "graph_edges graph = {(u, v). \<exists>vs. bt_get graph u = Some vs \<and> v \<in> set vs}"

abbreviation keys :: "('k, 'v) entries \<Rightarrow> 'k list" where
  "keys graph \<equiv> map fst graph"

lemma index_of_Some: "distinct ks \<Longrightarrow> index_of ks k = Some i \<longleftrightarrow> i < length ks \<and> ks ! i = k"
  by (auto simp: index_of_def map_of_zip_is_Some in_set_zip dest!: map_of_SomeD)

lemma length_idx_graph [simp]: "length (idx_graph graph) = length graph"
  by (simp add: idx_graph_def)

lemma idx_edge:
  assumes wf: "bt_wf graph"
  shows "(i, j) \<in> edges (idx_graph graph) \<longleftrightarrow> i < length graph \<and> j < length graph \<and> (keys graph ! i, keys graph ! j) \<in> graph_edges graph"
proof (cases "i < length graph")
  case True
  have d: "distinct (keys graph)" by (rule bt_wf_distinct[OF wf])
  have "bt_get graph (keys graph ! i) = Some (snd (graph ! i))"
    using True d by (simp add: bt_get_def map_of_eq_Some_iff)
  moreover have "j \<in> set (idx_graph graph ! i) \<longleftrightarrow> (\<exists>k \<in> set (snd (graph ! i)). index_of (keys graph) k = Some j)"
    using True by (force simp: idx_graph_def map_filter_def image_iff)
  ultimately show ?thesis using True by (auto simp: edges_def graph_edges_def index_of_Some[OF d])
qed (simp add: edges_def)

lemma graph_edge_key: "(u, v) \<in> graph_edges graph \<Longrightarrow> u \<in> set (keys graph)"
  by (auto simp: graph_edges_def bt_get_def dest!: map_of_SomeD intro!: image_eqI)

lemma idx_reach:
  assumes wf: "bt_wf graph" and i: "i < length graph" and j: "j < length graph"
  shows "(i, j) \<in> (edges (idx_graph graph))\<^sup>* \<longleftrightarrow> (keys graph ! i, keys graph ! j) \<in> (graph_edges graph)\<^sup>*"
proof
  assume "(i, j) \<in> (edges (idx_graph graph))\<^sup>*"
  then show "(keys graph ! i, keys graph ! j) \<in> (graph_edges graph)\<^sup>*"
    by (induction rule: rtrancl_induct) (auto simp: idx_edge[OF wf] intro: rtrancl.rtrancl_into_rtrancl)
next
  have d: "distinct (keys graph)" by (rule bt_wf_distinct[OF wf])
  have "(k, j) \<in> (edges (idx_graph graph))\<^sup>*" if "(a, keys graph ! j) \<in> (graph_edges graph)\<^sup>*" "k < length graph" "keys graph ! k = a" for a k
    using that
  proof (induction arbitrary: k rule: converse_rtrancl_induct)
    case base
    then have "k = j" using d j nth_eq_iff_index_eq[OF d] by simp
    then show ?case by simp
  next
    case (step a b)
    have "b = keys graph ! j \<or> (\<exists>x. (b, x) \<in> graph_edges graph)" using step.hyps(2) by (metis converse_rtranclE)
    moreover have "keys graph ! j \<in> set (keys graph)" using j by (intro nth_mem) simp
    ultimately have "b \<in> set (keys graph)" using graph_edge_key by metis
    then obtain l where l: "l < length graph" "keys graph ! l = b" by (metis in_set_conv_nth length_map)
    have "(k, l) \<in> edges (idx_graph graph)" using step.prems step.hyps(1) l by (simp add: idx_edge[OF wf])
    then show ?case using step.IH[OF l] by (rule converse_rtrancl_into_rtrancl)
  qed
  then show "(keys graph ! i, keys graph ! j) \<in> (graph_edges graph)\<^sup>* \<Longrightarrow> (i, j) \<in> (edges (idx_graph graph))\<^sup>*" using i by blast
qed

lemma tarjan_new_idx:
  assumes "bt_wf graph"
  shows "\<exists>s. tarjan_new (idx_graph graph) = Inr s"
proof -
  have "v < length graph" if "u < length graph" "v \<in> set (idx_graph graph ! u)" for u v
    using idx_edge[OF assms, of u v] that by (auto simp: edges_def)
  then have "\<forall>x \<in> set (idx_graph graph). \<forall>v \<in> set x. v < length graph" by (metis in_set_conv_nth length_idx_graph)
  then show ?thesis by (simp add: tarjan_new_def list_all_iff)
qed

definition same_component :: "'a graph \<Rightarrow> 'a \<Rightarrow> 'a \<Rightarrow> bool" where
  "same_component graph u v \<longleftrightarrow> (u, v) \<in> (graph_edges graph)\<^sup>* \<and> (v, u) \<in> (graph_edges graph)\<^sup>*"

theorem scc_correct:
  assumes wf: "bt_wf graph"
  obtains comps where "strongly_connected_components graph = Some (Inr comps)"
    "scc_partition comps (set (keys graph)) (same_component graph)"
proof -
  obtain s where s: "tarjan_new (idx_graph graph) = Inr s" using tarjan_new_idx[OF wf] by blast
  obtain t where t: "tarjan_roots (idx_graph graph) [0..<length graph] s = Some t" "length (ts_low t) = length graph"
    "\<And>u v. u < length graph \<Longrightarrow> v < length graph \<Longrightarrow> ts_low t ! u = ts_low t ! v \<longleftrightarrow> mutual (idx_graph graph) u v"
    by (rule tarjan_labels[OF s]) auto
  define gs where "gs = map snd (low_groups (ts_low t) 0 [])"
  note part = grouped_by_label[of "ts_low t", folded gs_def, unfolded t(2) scc_partition_def]
  let ?k = "\<lambda>i. keys graph ! i"
  define comps where "comps = map (map ?k) gs"
  have in_rng: "i < length graph" if "g \<in> set gs" "i \<in> set g" for g i using part that by auto
  have run: "strongly_connected_components graph = Some (Inr comps)"
  proof -
    have "collect_results (named_member (keys graph)) g = Inr (map ?k g)" if "g \<in> set gs" for g
      by (rule collect_results_Inr) (use in_rng[OF that] in \<open>simp add: named_member_def\<close>)
    then have "collect_results (collect_results (named_member (keys graph))) gs = Inr comps"
      unfolding comps_def by (rule collect_results_Inr)
    then show ?thesis using s t(1) by (simp add: strongly_connected_components_def tarjan_run_def gs_def)
  qed
  have d: "distinct (keys graph)" and srt: "sorted_wrt (<) (keys graph)" using bt_wf_distinct[OF wf] wf by (simp_all add: bt_wf_def)
  have inj: "inj_on ?k {..<length graph}" by (rule inj_on_nth[OF d]) simp
  have all: "concat comps = map ?k (concat gs)" by (simp add: comps_def map_concat)
  have "distinct (concat comps)" unfolding all using part inj by (simp add: distinct_map)
  moreover have "set (concat comps) = set (keys graph)"
  proof -
    have "set (keys graph) = set (map ?k [0..<length graph])" using map_nth[of "keys graph"] by simp
    then show ?thesis unfolding all set_map[of ?k] using part by (simp add: lessThan_atLeast0)
  qed
  moreover have "[] \<notin> set comps" using part by (auto simp: comps_def)
  moreover have "sorted_wrt (<) c" if "c \<in> set comps" for c
  proof -
    from that obtain g where g: "g \<in> set gs" "c = map ?k g" by (auto simp: comps_def)
    have "sorted_wrt (<) g" using part g(1) by blast
    then show ?thesis unfolding g(2) sorted_wrt_map
      by (rule sorted_wrt_mono_rel[rotated]) (use srt in_rng[OF g(1)] in \<open>auto simp: sorted_wrt_iff_nth_less\<close>)
  qed
  moreover have "(\<exists>c \<in> set comps. u \<in> set c \<and> v \<in> set c) \<longleftrightarrow> same_component graph u v"
    if "u \<in> set (keys graph)" "v \<in> set (keys graph)" for u v
  proof -
    from that obtain i j where ij: "i < length graph" "?k i = u" "j < length graph" "?k j = v" by (metis in_set_conv_nth length_map)
    have mem: "?k i \<in> set (map ?k g) \<longleftrightarrow> i \<in> set g" if "g \<in> set gs" "i < length graph" for g i
      using inj in_rng[OF that(1)] that(2) by (auto simp: inj_on_def)
    have "(\<exists>c \<in> set comps. u \<in> set c \<and> v \<in> set c) \<longleftrightarrow> (\<exists>g \<in> set gs. ?k i \<in> set (map ?k g) \<and> ?k j \<in> set (map ?k g))"
      by (simp only: comps_def set_map[of "map ?k" gs] bex_simps(7) ij)
    also have "\<dots> \<longleftrightarrow> (\<exists>g \<in> set gs. i \<in> set g \<and> j \<in> set g)" by (rule bex_cong[OF refl]) (simp only: mem ij(1,3))
    also have "\<dots> \<longleftrightarrow> mutual (idx_graph graph) i j" using part t(3) ij by auto
    finally show ?thesis using ij by (simp add: mutual_def same_component_def idx_reach[OF wf])
  qed
  ultimately show ?thesis using run that unfolding scc_partition_def by blast
qed

end
