(* ===== verification/Kahn_Laws.thy ===== *)
theory Kahn_Laws
  imports Plan_Graph
begin

text \<open>
  The generalized Kahn sort is a stratification: it places every node once, every edge leads to the
  same or a later stratum, a poisoned edge to a later one; and it succeeds on every acyclic graph.
\<close>

section \<open>Edges and degrees\<close>

definition kedge :: "'a stratified_graph \<Rightarrow> 'a \<Rightarrow> 'a \<Rightarrow> bool \<Rightarrow> bool" where
  "kedge graph u v p \<longleftrightarrow> (\<exists>tos. bt_get graph u = Some tos \<and> bt_get tos v = Some p)"

definition graph_wf :: "'a::linorder stratified_graph \<Rightarrow> bool" where
  "graph_wf graph \<longleftrightarrow> bt_wf graph \<and> (\<forall>e \<in> set graph. bt_wf (snd e))"

definition in_range :: "nat stratified_graph \<Rightarrow> nat \<Rightarrow> bool" where
  "in_range graph n \<longleftrightarrow> (\<forall>e \<in> set graph. fst e < n \<and> (\<forall>t \<in> set (snd e). fst t < n))"

text \<open>The edges into a node from nodes not yet placed.\<close>

definition open_degree :: "nat stratified_graph \<Rightarrow> nat set \<Rightarrow> nat \<Rightarrow> nat" where
  "open_degree graph placed v = length (filter (\<lambda>e. fst e \<notin> placed \<and> v \<in> fst ` set (snd e)) graph)"

lemma bt_get_set: "bt_wf es \<Longrightarrow> bt_get es k = Some v \<longleftrightarrow> (k, v) \<in> set es"
  using bt_wf_distinct[of es] by (simp add: bt_get_def)

lemma bt_get_fst: "bt_get es k \<noteq> None \<longleftrightarrow> k \<in> fst ` set es"
  by (simp add: bt_get_def map_of_eq_None_iff)

lemma kedge_set: "graph_wf graph \<Longrightarrow> kedge graph u v p \<longleftrightarrow> (\<exists>tos. (u, tos) \<in> set graph \<and> (v, p) \<in> set tos)"
  by (auto simp: kedge_def graph_wf_def bt_get_set) (metis bt_get_set snd_conv)+

lemma open_degree_0: "open_degree graph placed v = 0 \<longleftrightarrow> (\<forall>e \<in> set graph. v \<in> fst ` set (snd e) \<longrightarrow> fst e \<in> placed)"
  by (auto simp: open_degree_def filter_empty_conv)

lemma open_degree_insert:
  assumes "bt_wf graph" "u \<notin> placed"
  shows "open_degree graph placed v
    = open_degree graph (insert u placed) v + (case bt_get graph u of None \<Rightarrow> 0 | Some tos \<Rightarrow> if v \<in> fst ` set tos then 1 else 0)"
  using assms(1)
proof (induction graph)
  case Nil
  then show ?case by (simp add: open_degree_def bt_get_def)
next
  case (Cons e graph)
  obtain k tos where e: "e = (k, tos)" by (cases e)
  show ?case
  proof (cases "k = u")
    case True
    have "u \<notin> fst ` set graph" using Cons.prems True by (auto simp: e)
    then have "bt_get graph u = None" using bt_get_fst by metis
    with Cons True assms(2) show ?thesis by (auto simp: open_degree_def e bt_get_def)
  next
    case False
    with Cons show ?thesis by (auto simp: open_degree_def e bt_get_def)
  qed
qed

lemma kahn_count_targets_spec:
  "bt_wf tos \<Longrightarrow> (\<forall>t \<in> set tos. fst t < length d) \<Longrightarrow> \<exists>d'. kahn_count_targets d tos = Inr d' \<and> length d' = length d
    \<and> (\<forall>v < length d. d' ! v = d ! v + (if v \<in> fst ` set tos then 1 else 0))"
proof (induction tos arbitrary: d)
  case (Cons t tos)
  let ?d = "d[fst t := d ! fst t + 1]"
  have "\<exists>d'. kahn_count_targets ?d tos = Inr d' \<and> length d' = length ?d
      \<and> (\<forall>v < length ?d. d' ! v = ?d ! v + (if v \<in> fst ` set tos then 1 else 0))"
    by (rule Cons.IH) (use Cons.prems in auto)
  then obtain d' where d': "kahn_count_targets ?d tos = Inr d'" "length d' = length d"
    "\<forall>v < length d. d' ! v = ?d ! v + (if v \<in> fst ` set tos then 1 else 0)" by auto
  have "fst t \<notin> fst ` set tos" using Cons.prems(1) by auto
  with d' Cons.prems(2) show ?case by (auto simp: nth_list_update)
qed simp

lemma kahn_count_targets_range: "kahn_count_targets d tos = Inr d' \<Longrightarrow> length d' = length d \<and> (\<forall>t \<in> set tos. fst t < length d)"
proof (induction tos arbitrary: d)
  case (Cons t tos)
  then have t: "fst t < length d" "kahn_count_targets (d[fst t := d ! fst t + 1]) tos = Inr d'" by (auto split: if_splits)
  from Cons.IH[OF t(2)] t(1) show ?case by simp
qed simp

lemma kahn_count_range:
  "kahn_count n d graph = Inr d' \<Longrightarrow> length d = n \<Longrightarrow> length d' = n \<and> in_range graph n"
proof (induction graph arbitrary: d)
  case (Cons e graph)
  then obtain m where m: "fst e < n" "kahn_count_targets d (snd e) = Inr m" "kahn_count n m graph = Inr d'"
    by (auto simp: rbind_eq_Inr split: if_splits)
  from kahn_count_targets_range[OF m(2)] Cons.prems(2) Cons.IH[OF m(3)] m(1) show ?case by (auto simp: in_range_def)
qed (simp add: in_range_def)

lemma kahn_count_spec:
  "graph_wf graph \<Longrightarrow> in_range graph (length d) \<Longrightarrow> \<exists>d'. kahn_count (length d) d graph = Inr d' \<and> length d' = length d
    \<and> (\<forall>v < length d. d' ! v = d ! v + open_degree graph {} v)"
proof (induction graph arbitrary: d)
  case (Cons e graph)
  obtain m where m: "kahn_count_targets d (snd e) = Inr m" "length m = length d"
    "\<forall>v < length d. m ! v = d ! v + (if v \<in> fst ` set (snd e) then 1 else 0)"
    using kahn_count_targets_spec[of "snd e" d] Cons.prems by (auto simp: graph_wf_def in_range_def)
  have "graph_wf graph" "in_range graph (length m)" using Cons.prems m(2) by (auto simp: graph_wf_def in_range_def)
  from Cons.IH[OF this] obtain d' where "kahn_count (length m) m graph = Inr d'" "length d' = length m"
    "\<forall>v < length m. d' ! v = m ! v + open_degree graph {} v" by auto
  with m Cons.prems(2) show ?case by (auto simp: in_range_def open_degree_def)
qed (simp add: open_degree_def)

section \<open>One node's edges\<close>

lemma kahn_edges_spec:
  assumes "bt_wf edges" "\<forall>t \<in> set edges. fst t < length (ks_degree s) \<and> 0 < ks_degree s ! fst t"
  shows "\<exists>s'. kahn_edges edges s = Inr s' \<and> ks_ret s' = ks_ret s \<and> ks_current s' = ks_current s
    \<and> length (ks_degree s') = length (ks_degree s)
    \<and> (\<forall>v < length (ks_degree s). ks_degree s' ! v = ks_degree s ! v - (if v \<in> fst ` set edges then 1 else 0))
    \<and> set (ks_unsafe s') = set (ks_unsafe s) \<union> {v. (v, True) \<in> set edges}
    \<and> ks_safe s' = ks_safe s @ map fst (filter (\<lambda>(v, p). ks_degree s ! v = 1 \<and> \<not> p \<and> v \<notin> set (ks_unsafe s)) edges)"
  using assms
proof (induction edges arbitrary: s)
  case (Cons e edges)
  obtain n p where e: "e = (n, p)" by (cases e)
  define d where "d = ks_degree s ! n - 1"
  define t where "t = s\<lparr>ks_degree := (ks_degree s)[n := d],
    ks_safe := (if d = 0 \<and> n \<notin> set (if p then set_insert n (ks_unsafe s) else ks_unsafe s)
                then ks_safe s @ [n] else ks_safe s),
    ks_unsafe := (if p then set_insert n (ks_unsafe s) else ks_unsafe s)\<rparr>"
  have n: "n < length (ks_degree s)" "0 < ks_degree s ! n" using Cons.prems(2) by (auto simp: e)
  have fresh: "\<forall>t \<in> set edges. n < fst t" using Cons.prems(1) by (simp add: e)
  have step: "kahn_edges (e # edges) s = kahn_edges edges t" using n by (simp add: e t_def d_def Let_def not_le)
  have pre: "bt_wf edges" "\<forall>u \<in> set edges. fst u < length (ks_degree t) \<and> 0 < ks_degree t ! fst u"
    using Cons.prems fresh by (fastforce simp: t_def)+
  have safe: "filter (\<lambda>(v, p). ks_degree t ! v = 1 \<and> \<not> p \<and> v \<notin> set (ks_unsafe t)) edges
      = filter (\<lambda>(v, p). ks_degree s ! v = 1 \<and> \<not> p \<and> v \<notin> set (ks_unsafe s)) edges"
  proof (intro filter_cong refl)
    fix x assume "x \<in> set edges"
    then have "fst x \<noteq> n" using fresh by auto
    then show "(case x of (v, p) \<Rightarrow> ks_degree t ! v = 1 \<and> \<not> p \<and> v \<notin> set (ks_unsafe t))
        = (case x of (v, p) \<Rightarrow> ks_degree s ! v = 1 \<and> \<not> p \<and> v \<notin> set (ks_unsafe s))"
      by (cases x) (simp add: t_def)
  qed
  have head: "ks_safe t = ks_safe s @ map fst (filter (\<lambda>(v, p). ks_degree s ! v = 1 \<and> \<not> p \<and> v \<notin> set (ks_unsafe s)) [e])"
    using n(2) by (auto simp: t_def e d_def)
  from Cons.IH[OF pre] obtain s' where s': "kahn_edges edges t = Inr s'" "ks_ret s' = ks_ret s" "ks_current s' = ks_current s"
    "length (ks_degree s') = length (ks_degree s)"
    "\<forall>v < length (ks_degree s). ks_degree s' ! v = ks_degree t ! v - (if v \<in> fst ` set edges then 1 else 0)"
    "set (ks_unsafe s') = set (ks_unsafe t) \<union> {v. (v, True) \<in> set edges}"
    "ks_safe s' = ks_safe t @ map fst (filter (\<lambda>(v, p). ks_degree s ! v = 1 \<and> \<not> p \<and> v \<notin> set (ks_unsafe s)) edges)"
    unfolding safe by (auto simp: t_def)
  have "n \<notin> fst ` set edges" using fresh by auto
  then have deg: "\<forall>v < length (ks_degree s). ks_degree s' ! v = ks_degree s ! v - (if v \<in> fst ` set (e # edges) then 1 else 0)"
    by (simp add: s'(5) t_def d_def e nth_list_update n(1) del: One_nat_def)
  have un: "set (ks_unsafe s') = set (ks_unsafe s) \<union> {v. (v, True) \<in> set (e # edges)}" using s'(6) by (auto simp: t_def e)
  have sf: "ks_safe s' = ks_safe s @ map fst (filter (\<lambda>(v, p). ks_degree s ! v = 1 \<and> \<not> p \<and> v \<notin> set (ks_unsafe s)) (e # edges))"
    unfolding s'(7) head by simp
  show ?case unfolding step using s'(1-4) deg un sf by blast
qed simp

lemma set_insert_sorted: "sorted_wrt (<) ys \<Longrightarrow> sorted_wrt (<) (set_insert x ys)"
  by (induction x ys rule: set_insert.induct) auto

lemma kahn_edges_sorted:
  "kahn_edges edges s = Inr s' \<Longrightarrow> sorted_wrt (<) (ks_unsafe s) \<Longrightarrow> sorted_wrt (<) (ks_unsafe s')"
proof (induction edges arbitrary: s)
  case (Cons e edges)
  then show ?case by (fastforce simp: Let_def set_insert_sorted split: if_splits)
qed simp

section \<open>The invariant\<close>

text \<open>Strata in order: an edge into a stratum comes from it or an earlier one, a poisoned edge from an earlier one.\<close>

definition strata_ok :: "nat stratified_graph \<Rightarrow> nat list list \<Rightarrow> bool" where
  "strata_ok graph sts \<longleftrightarrow>
     (\<forall>i < length sts. \<forall>v \<in> set (sts ! i). \<forall>u p. kedge graph u v p
        \<longrightarrow> (\<exists>j \<le> i. u \<in> set (sts ! j) \<and> (p \<longrightarrow> j < i)))"

text \<open>A topological order: the sources of the edges into a node come before it.\<close>

definition topo_ok :: "nat stratified_graph \<Rightarrow> nat list \<Rightarrow> bool" where
  "topo_ok graph xs \<longleftrightarrow> (\<forall>i < length xs. \<forall>u p. kedge graph u (xs ! i) p \<longrightarrow> u \<in> set (take i xs))"

lemma topo_ok_snoc: "topo_ok graph (xs @ [r]) \<longleftrightarrow> topo_ok graph xs \<and> (\<forall>u p. kedge graph u r p \<longrightarrow> u \<in> set xs)"
  by (auto simp: topo_ok_def All_less_Suc nth_append)

definition kahn_placed :: "kahn_state \<Rightarrow> nat set" where
  "kahn_placed s = set (concat (ks_ret s)) \<union> set (ks_current s)"

definition kahn_inv :: "nat stratified_graph \<Rightarrow> nat \<Rightarrow> kahn_state \<Rightarrow> bool" where
  "kahn_inv graph n s \<longleftrightarrow>
     length (ks_degree s) = n
     \<and> (\<forall>v < n. ks_degree s ! v = open_degree graph (kahn_placed s) v)
     \<and> distinct (concat (ks_ret s) @ ks_current s @ ks_safe s)
     \<and> kahn_placed s \<union> set (ks_safe s) \<union> set (ks_unsafe s) \<subseteq> {..<n}
     \<and> (\<forall>v \<in> kahn_placed s \<union> set (ks_safe s). ks_degree s ! v = 0)
     \<and> (\<forall>v < n. ks_degree s ! v = 0 \<longrightarrow> v \<in> kahn_placed s \<union> set (ks_safe s) \<union> set (ks_unsafe s))
     \<and> set (ks_unsafe s) \<inter> (kahn_placed s \<union> set (ks_safe s)) = {}
     \<and> sorted_wrt (<) (ks_unsafe s)
     \<and> (\<forall>u \<in> set (ks_current s). \<forall>v. kedge graph u v True \<longrightarrow> v \<in> set (ks_unsafe s))
     \<and> strata_ok graph (ks_ret s @ [ks_current s])
     \<and> (ks_unsafe s \<noteq> [] \<longrightarrow> ks_current s \<noteq> []) \<and> [] \<notin> set (ks_ret s)
     \<and> topo_ok graph (concat (ks_ret s) @ ks_current s)"

lemma kahn_invD:
  assumes "kahn_inv graph n s"
  shows "length (ks_degree s) = n" "\<And>v. v < n \<Longrightarrow> ks_degree s ! v = open_degree graph (kahn_placed s) v"
    "distinct (concat (ks_ret s) @ ks_current s @ ks_safe s)"
    "kahn_placed s \<union> set (ks_safe s) \<union> set (ks_unsafe s) \<subseteq> {..<n}"
    "\<And>v. v \<in> kahn_placed s \<union> set (ks_safe s) \<Longrightarrow> ks_degree s ! v = 0"
    "\<And>v. v < n \<Longrightarrow> ks_degree s ! v = 0 \<Longrightarrow> v \<in> kahn_placed s \<union> set (ks_safe s) \<union> set (ks_unsafe s)"
    "set (ks_unsafe s) \<inter> (kahn_placed s \<union> set (ks_safe s)) = {}" "sorted_wrt (<) (ks_unsafe s)"
    "\<And>u v. u \<in> set (ks_current s) \<Longrightarrow> kedge graph u v True \<Longrightarrow> v \<in> set (ks_unsafe s)"
    "strata_ok graph (ks_ret s @ [ks_current s])" "ks_unsafe s \<noteq> [] \<Longrightarrow> ks_current s \<noteq> []" "[] \<notin> set (ks_ret s)"
    "topo_ok graph (concat (ks_ret s) @ ks_current s)"
  using assms unfolding kahn_inv_def by blast+

lemma strata_ok_Nil: "strata_ok graph sts \<Longrightarrow> strata_ok graph (sts @ [[]])"
proof -
  assume ok: "strata_ok graph sts"
  show ?thesis unfolding strata_ok_def
  proof (intro allI impI ballI)
    fix i v u p assume i: "i < length (sts @ [[]])" "v \<in> set ((sts @ [[]]) ! i)" "kedge graph u v p"
    then have "i < length sts" "v \<in> set (sts ! i)" by (auto simp: nth_append less_Suc_eq split: if_splits)
    with ok i(3) obtain j where "j \<le> i" "u \<in> set (sts ! j)" "p \<longrightarrow> j < i" unfolding strata_ok_def by blast
    with \<open>i < length sts\<close> show "\<exists>j \<le> i. u \<in> set ((sts @ [[]]) ! j) \<and> (p \<longrightarrow> j < i)"
      by (intro exI[of _ j]) (simp add: nth_append)
  qed
qed

lemma strata_ok_place:
  assumes "strata_ok graph (ret @ [cur])"
    "\<And>u p. kedge graph u r p \<Longrightarrow> u \<in> set (concat ret) \<union> set cur \<and> (p \<longrightarrow> u \<notin> set cur)"
  shows "strata_ok graph (ret @ [cur @ [r]])"
  unfolding strata_ok_def
proof (intro allI impI ballI)
  fix i v u p assume i: "i < length (ret @ [cur @ [r]])" "v \<in> set ((ret @ [cur @ [r]]) ! i)" and e: "kedge graph u v p"
  have grow: "set ((ret @ [cur]) ! j) \<subseteq> set ((ret @ [cur @ [r]]) ! j)" if "j \<le> length ret" for j
    using that by (auto simp: nth_append)
  show "\<exists>j \<le> i. u \<in> set ((ret @ [cur @ [r]]) ! j) \<and> (p \<longrightarrow> j < i)"
  proof (cases "v \<in> set ((ret @ [cur]) ! i)")
    case True
    then obtain j where "j \<le> i" "u \<in> set ((ret @ [cur]) ! j)" "p \<longrightarrow> j < i"
      using assms(1) i(1) e unfolding strata_ok_def by fastforce
    then show ?thesis using grow[of j] i(1) by auto
  next
    case False
    then have v: "i = length ret" "v = r" using i by (auto simp: nth_append less_Suc_eq split: if_splits)
    from assms(2)[of u p] e v consider "u \<in> set (concat ret)" | "u \<in> set cur" "\<not> p" by auto
    then show ?thesis
    proof cases
      case 1
      then obtain j where "j < length ret" "u \<in> set (ret ! j)" by (metis UN_E in_set_conv_nth set_concat)
      then show ?thesis by (intro exI[of _ j]) (simp add: v nth_append)
    next
      case 2
      then show ?thesis by (intro exI[of _ i]) (simp add: v nth_append)
    qed
  qed
qed

lemma kahn_boundary_inv:
  assumes "kahn_inv graph n s"
  shows "kahn_inv graph n (kahn_boundary s)"
proof (cases "ks_safe s = [] \<and> ks_unsafe s \<noteq> []")
  case True
  note i = kahn_invD[OF assms]
  let ?s = "kahn_boundary s"
  have s: "?s = s\<lparr>ks_ret := ks_ret s @ [ks_current s], ks_current := [],
      ks_safe := filter (\<lambda>node. ks_degree s ! node = 0) (ks_unsafe s), ks_unsafe := []\<rparr>"
    using True by (simp add: kahn_boundary_def)
  have placed: "kahn_placed ?s = kahn_placed s" by (auto simp: s kahn_placed_def)
  have "distinct (ks_unsafe s)" using i(8) by (simp add: strict_sorted_iff)
  then have "distinct (concat (ks_ret s) @ ks_current s @ filter (\<lambda>node. ks_degree s ! node = 0) (ks_unsafe s))"
    using i(3,7) by (auto simp: kahn_placed_def)
  then show ?thesis
    unfolding kahn_inv_def placed
    using i True strata_ok_Nil[OF i(10)] by (auto simp: s)
qed (use assms in \<open>auto simp: kahn_boundary_def\<close>)

definition kahn_out :: "nat stratified_graph \<Rightarrow> nat \<Rightarrow> (nat, bool) entries" where
  "kahn_out graph r = (case bt_get graph r of None \<Rightarrow> [] | Some edges \<Rightarrow> edges)"

lemma kahn_out_kedge: "kedge graph r v p \<longleftrightarrow> bt_get (kahn_out graph r) v = Some p"
  by (auto simp: kedge_def kahn_out_def bt_get_def split: option.splits)

text \<open>What removing one node does to the state.\<close>

lemma kahn_step_effect:
  assumes wf: "graph_wf graph" and rng: "in_range graph n" and inv: "kahn_inv graph n s" and safe: "ks_safe s = B @ [r]"
  obtains s' new where
    "kahn_edges (kahn_out graph r) (s\<lparr>ks_safe := B, ks_current := ks_current s @ [r]\<rparr>) = Inr s'"
    "ks_ret s' = ks_ret s" "ks_current s' = ks_current s @ [r]" "ks_safe s' = B @ new"
    "set (ks_unsafe s') = set (ks_unsafe s) \<union> {v. kedge graph r v True}" "sorted_wrt (<) (ks_unsafe s')"
    "length (ks_degree s') = n" "\<forall>v < n. ks_degree s' ! v = open_degree graph (insert r (kahn_placed s)) v"
    "\<forall>v p. kedge graph r v p \<longrightarrow> v < n \<and> ks_degree s ! v = Suc (ks_degree s' ! v)"
    "\<forall>v < n. (\<forall>p. \<not> kedge graph r v p) \<longrightarrow> ks_degree s' ! v = ks_degree s ! v"
    "distinct new" "\<forall>v. v \<in> set new \<longleftrightarrow> kedge graph r v False \<and> ks_degree s ! v = 1 \<and> v \<notin> set (ks_unsafe s)"
proof -
  note i = kahn_invD[OF inv]
  define es where "es = kahn_out graph r"
  have "r \<notin> kahn_placed s" using i(3) by (auto simp: safe kahn_placed_def)
  then have deg: "open_degree graph (kahn_placed s) v = open_degree graph (insert r (kahn_placed s)) v + (if v \<in> fst ` set es then 1 else 0)" for v
    using open_degree_insert[of graph r "kahn_placed s" v] wf
    by (auto simp: graph_wf_def es_def kahn_out_def split: option.splits)
  have es_mem: "es = [] \<or> (r, es) \<in> set graph"
    using wf by (auto simp: es_def kahn_out_def graph_wf_def bt_get_set split: option.splits)
  then have es_wf: "bt_wf es" using wf by (auto simp: graph_wf_def)
  have edge: "kedge graph r v p \<longleftrightarrow> (v, p) \<in> set es" for v p
    by (simp add: kahn_out_kedge flip: es_def bt_get_set[OF es_wf])
  have es_range: "v < n" if "(v, p) \<in> set es" for v p
    using that rng es_mem by (fastforce simp: in_range_def)
  have pos: "0 < ks_degree s ! v" if "v \<in> fst ` set es" for v
    using deg[of v] i(2)[of v] that es_range by auto
  let ?p = "s\<lparr>ks_safe := B, ks_current := ks_current s @ [r]\<rparr>"
  have ok: "\<forall>t \<in> set es. fst t < length (ks_degree ?p) \<and> 0 < ks_degree ?p ! fst t"
    using es_range pos i(1) by auto
  define new where "new = map fst (filter (\<lambda>(v, p). ks_degree s ! v = 1 \<and> \<not> p \<and> v \<notin> set (ks_unsafe s)) es)"
  from kahn_edges_spec[OF es_wf ok] obtain s' where s': "kahn_edges es ?p = Inr s'" "ks_ret s' = ks_ret s"
    "ks_current s' = ks_current s @ [r]" "length (ks_degree s') = n"
    "\<forall>v < n. ks_degree s' ! v = ks_degree s ! v - (if v \<in> fst ` set es then 1 else 0)"
    "set (ks_unsafe s') = set (ks_unsafe s) \<union> {v. (v, True) \<in> set es}" "ks_safe s' = B @ new"
    unfolding new_def using i(1) by auto
  show thesis
  proof (rule that[of s' new])
    show "distinct new" unfolding new_def using bt_wf_distinct[OF es_wf] by (rule distinct_map_filter)
    show "\<forall>v. v \<in> set new \<longleftrightarrow> kedge graph r v False \<and> ks_degree s ! v = 1 \<and> v \<notin> set (ks_unsafe s)"
      by (auto simp: new_def edge) (force intro!: image_eqI)
    show "\<forall>v < n. ks_degree s' ! v = open_degree graph (insert r (kahn_placed s)) v"
      using s'(5) deg i(2) by simp
    show "\<forall>v p. kedge graph r v p \<longrightarrow> v < n \<and> ks_degree s ! v = Suc (ks_degree s' ! v)"
    proof (intro allI impI)
      fix v p assume "kedge graph r v p"
      then have "v \<in> fst ` set es" "v < n" using es_range by (force simp: edge)+
      then show "v < n \<and> ks_degree s ! v = Suc (ks_degree s' ! v)" using pos[of v] s'(5) by simp
    qed
    show "\<forall>v < n. (\<forall>p. \<not> kedge graph r v p) \<longrightarrow> ks_degree s' ! v = ks_degree s ! v"
      using s'(5) by (auto simp: edge)
  qed (use s' kahn_edges_sorted[OF s'(1)] i(8) in \<open>simp_all add: edge es_def\<close>)
qed

lemma kahn_step_inv:
  assumes wf: "graph_wf graph" and rng: "in_range graph n" and inv: "kahn_inv graph n s" and safe: "ks_safe s = B @ [r]"
  shows "\<exists>s'. kahn_edges (kahn_out graph r) (s\<lparr>ks_safe := B, ks_current := ks_current s @ [r]\<rparr>) = Inr s' \<and> kahn_inv graph n s'"
proof -
  note i = kahn_invD[OF inv]
  have di: "distinct (concat (ks_ret s) @ ks_current s @ B @ [r])" using i(3) safe by simp
  have r: "r < n" "ks_degree s ! r = 0" "r \<notin> set (ks_unsafe s)" using i(4,5,7) by (auto simp: safe kahn_placed_def)
  obtain s' new where s': "kahn_edges (kahn_out graph r) (s\<lparr>ks_safe := B, ks_current := ks_current s @ [r]\<rparr>) = Inr s'"
    "ks_ret s' = ks_ret s" "ks_current s' = ks_current s @ [r]" "ks_safe s' = B @ new"
    "set (ks_unsafe s') = set (ks_unsafe s) \<union> {v. kedge graph r v True}" "sorted_wrt (<) (ks_unsafe s')"
    "length (ks_degree s') = n" "\<forall>v < n. ks_degree s' ! v = open_degree graph (insert r (kahn_placed s)) v"
    "\<forall>v p. kedge graph r v p \<longrightarrow> v < n \<and> ks_degree s ! v = Suc (ks_degree s' ! v)"
    "\<forall>v < n. (\<forall>p. \<not> kedge graph r v p) \<longrightarrow> ks_degree s' ! v = ks_degree s ! v"
    "distinct new" and new: "\<forall>v. v \<in> set new \<longleftrightarrow> kedge graph r v False \<and> ks_degree s ! v = 1 \<and> v \<notin> set (ks_unsafe s)"
    by (rule kahn_step_effect[OF assms])
  note eff = s'(9)[rule_format] s'(10)[rule_format]
  have placed: "kahn_placed s' = insert r (kahn_placed s)" by (auto simp: kahn_placed_def s')
  have old: "ks_degree s ! v = 0" if "v \<in> insert r (kahn_placed s) \<union> set B" for v using i(5) that r(2) by (auto simp: safe)
  have "v \<notin> set new" if "v \<in> insert r (kahn_placed s) \<union> set B" for v using old[OF that] by (simp add: new)
  then have dist: "distinct (concat (ks_ret s') @ ks_current s' @ ks_safe s')"
    using di s'(11) by (auto simp: s'(2-4) kahn_placed_def)
  have range: "kahn_placed s' \<union> set (ks_safe s') \<union> set (ks_unsafe s') \<subseteq> {..<n}"
    using i(4) r(1) eff(1) by (auto simp: placed s'(4,5) new safe)
  have zero: "ks_degree s' ! v = 0" if v: "v \<in> kahn_placed s' \<union> set (ks_safe s')" for v
  proof (cases "v \<in> set new")
    case True
    with eff(1)[of v False] show ?thesis by (simp add: new)
  next
    case False
    then have "ks_degree s ! v = 0" using v old by (auto simp: placed s'(4))
    moreover have "v < n" using v range by auto
    ultimately show ?thesis using eff[of v] by force
  qed
  have waits: "v \<in> kahn_placed s' \<union> set (ks_safe s') \<union> set (ks_unsafe s')" if v: "v < n" "ks_degree s' ! v = 0" for v
  proof (cases "\<exists>p. kedge graph r v p")
    case True
    then obtain p where p: "kedge graph r v p" by blast
    with eff(1)[OF p] v(2) show ?thesis by (cases p) (auto simp: s'(4,5) new)
  next
    case False
    with i(6)[OF v(1)] eff(2)[OF v(1)] v(2) show ?thesis by (auto simp: placed s'(4,5) safe)
  qed
  have apart: "set (ks_unsafe s') \<inter> (kahn_placed s' \<union> set (ks_safe s')) = {}"
  proof -
    have "v \<notin> insert r (kahn_placed s) \<union> set B \<union> set new" if "kedge graph r v True" for v
      using eff(1)[OF that] old[of v] that by (auto simp: new kahn_out_kedge)
    then show ?thesis using i(7) r(3) by (auto simp: placed s'(4,5) safe new)
  qed
  have "open_degree graph (kahn_placed s) r = 0" using i(2)[OF r(1)] r(2) by simp
  then have before: "u \<in> kahn_placed s" if "kedge graph u r p" for u p using that wf by (force simp: open_degree_0 kedge_set)
  have "strata_ok graph (ks_ret s @ [ks_current s @ [r]])"
  proof (rule strata_ok_place[OF i(10)])
    fix u p assume e: "kedge graph u r p"
    have "u \<notin> set (ks_current s)" if p using i(9)[of u r] e that r(3) by auto
    with before[OF e] show "u \<in> set (concat (ks_ret s)) \<union> set (ks_current s) \<and> (p \<longrightarrow> u \<notin> set (ks_current s))"
      by (auto simp: kahn_placed_def)
  qed
  moreover have "topo_ok graph (concat (ks_ret s') @ ks_current s')"
    using topo_ok_snoc[of graph "concat (ks_ret s) @ ks_current s" r] i(13) before by (auto simp: s'(2,3) kahn_placed_def)
  ultimately have "kahn_inv graph n s'"
    unfolding kahn_inv_def using s'(2,3,5-8) dist range zero waits apart i(9,12) placed by (intro conjI) auto
  then show ?thesis using s'(1) by blast
qed

section \<open>The whole sort\<close>

definition kahn_done :: "nat stratified_graph \<Rightarrow> nat \<Rightarrow> kahn_state \<Rightarrow> bool" where
  "kahn_done graph n t \<longleftrightarrow>
     length (ks_degree t) = n \<and> distinct (concat (ks_ret t)) \<and> set (concat (ks_ret t)) \<subseteq> {..<n}
     \<and> (\<forall>v < n. ks_degree t ! v = open_degree graph (set (concat (ks_ret t))) v)
     \<and> (\<forall>v < n. ks_degree t ! v = 0 \<longleftrightarrow> v \<in> set (concat (ks_ret t)))
     \<and> strata_ok graph (ks_ret t) \<and> [] \<notin> set (ks_ret t) \<and> topo_ok graph (concat (ks_ret t))"

lemma strata_ok_prefix:
  assumes "strata_ok graph (sts @ [st])"
  shows "strata_ok graph sts"
  unfolding strata_ok_def
proof (intro allI impI ballI)
  fix i v u p assume i: "i < length sts" "v \<in> set (sts ! i)" "kedge graph u v p"
  then have "i < length (sts @ [st])" "v \<in> set ((sts @ [st]) ! i)" by (simp_all add: nth_append)
  with assms i(3) obtain j where "j \<le> i" "u \<in> set ((sts @ [st]) ! j)" "p \<longrightarrow> j < i" unfolding strata_ok_def by blast
  with i(1) show "\<exists>j \<le> i. u \<in> set (sts ! j) \<and> (p \<longrightarrow> j < i)" by (intro exI[of _ j]) (simp add: nth_append)
qed

lemma kahn_inv_done:
  assumes "kahn_inv graph n s" "ks_safe s = []" "ks_unsafe s = []"
  shows "kahn_done graph n (if ks_current s \<noteq> [] then s\<lparr>ks_ret := ks_ret s @ [ks_current s], ks_current := []\<rparr> else s)"
proof -
  note i = kahn_invD[OF assms(1)]
  have placed: "kahn_placed s = set (concat (ks_ret s @ [ks_current s]))" by (simp add: kahn_placed_def)
  have "\<forall>v < n. ks_degree s ! v = 0 \<longleftrightarrow> v \<in> kahn_placed s" using i(5,6) assms(2,3) by auto
  then show ?thesis
    using i(1-4,10,12,13) assms(2,3) strata_ok_prefix[OF i(10)] unfolding placed kahn_done_def by (auto simp: Un_commute)
qed

lemma kahn_loop_done:
  "graph_wf graph \<Longrightarrow> in_range graph n \<Longrightarrow> kahn_inv graph n s \<Longrightarrow> \<exists>t. kahn_loop graph s = Inr t \<and> kahn_done graph n t"
proof (induction graph s rule: kahn_loop.induct)
  case (1 graph s)
  define b where "b = kahn_boundary s"
  have b: "kahn_inv graph n b" unfolding b_def by (rule kahn_boundary_inv[OF 1(5)])
  show ?case
  proof (cases "ks_safe b = []")
    case True
    then have "ks_unsafe b = []" by (auto simp: b_def kahn_boundary_def split: if_splits)
    from kahn_inv_done[OF b True this] True show ?thesis by (auto simp: kahn_loop.simps[of graph s] Let_def b_def split: if_splits)
  next
    case False
    define p where "p = b\<lparr>ks_safe := butlast (ks_safe b), ks_current := ks_current b @ [last (ks_safe b)]\<rparr>"
    have safe: "ks_safe b = butlast (ks_safe b) @ [last (ks_safe b)]" using False by simp
    from kahn_step_inv[OF 1(3,4) b safe] obtain s' where s': "kahn_edges (kahn_out graph (last (ks_safe b))) p = Inr s'" "kahn_inv graph n s'"
      unfolding p_def by blast
    have step: "kahn_loop graph s = (case bt_get graph (last (ks_safe b)) of None \<Rightarrow> kahn_loop graph p
        | Some edges \<Rightarrow> rbind (kahn_edges edges p) (kahn_loop graph))"
      using False unfolding p_def b_def by (subst kahn_loop.simps) (simp add: Let_def)
    show ?thesis
    proof (cases "bt_get graph (last (ks_safe b))")
      case None
      then have "s' = p" using s'(1) by (simp add: kahn_out_def)
      with 1(1)[OF b_def False refl p_def None 1(3,4)] s'(2) None step show ?thesis by simp
    next
      case (Some edges)
      then have e: "kahn_edges edges p = Inr s'" using s'(1) by (simp add: kahn_out_def)
      from 1(2)[OF b_def False refl p_def Some e 1(3,4) s'(2)] Some e step show ?thesis by simp
    qed
  qed
qed

lemma kahn_start_inv:
  assumes "length d = n" "\<forall>v < n. d ! v = open_degree graph {} v"
  shows "kahn_inv graph n (kahn_start d)"
  using assms by (auto simp: kahn_inv_def kahn_start_def kahn_placed_def strata_ok_def topo_ok_def)

theorem generalized_kahn_done:
  assumes "graph_wf graph" "in_range graph n"
  shows "\<exists>t. kahn_done graph n t
    \<and> generalized_kahn graph n = (if set (concat (ks_ret t)) = {..<n} then Inr (ks_ret t) else Inl KahnUnconsumed)"
proof -
  from kahn_count_spec[of graph "replicate n 0"] assms obtain d where d: "kahn_count n (replicate n 0) graph = Inr d"
    "length d = n" "\<forall>v < n. d ! v = open_degree graph {} v" by auto
  from kahn_loop_done[OF assms kahn_start_inv[OF d(2,3)]] obtain t where t: "kahn_loop graph (kahn_start d) = Inr t" "kahn_done graph n t"
    by blast
  define C where "C = set (concat (ks_ret t))"
  have C: "C \<subseteq> {..<n}" "\<forall>v < n. ks_degree t ! v = 0 \<longleftrightarrow> v \<in> C" using t(2) unfolding kahn_done_def C_def by blast+
  have "list_all (\<lambda>d. d = 0) (ks_degree t) \<longleftrightarrow> (\<forall>v < n. ks_degree t ! v = 0)"
    using t(2) by (simp add: list_all_length kahn_done_def)
  also have "\<dots> \<longleftrightarrow> C = {..<n}" using C by auto
  finally show ?thesis using t d(1) by (intro exI[of _ t]) (simp add: generalized_kahn_def C_def)
qed

definition kahn_relation :: "nat stratified_graph \<Rightarrow> (nat \<times> nat) set" where
  "kahn_relation graph = {(u, v). \<exists>p. kedge graph u v p}"

lemma topo_ok_acyclic:
  assumes "topo_ok graph xs" "\<And>u v p. kedge graph u v p \<Longrightarrow> v \<in> set xs"
  shows "acyclic (kahn_relation graph)"
proof (rule acyclicI_order[where f = "\<lambda>v. length xs - (LEAST i. i < length xs \<and> xs ! i = v)"])
  define ix where "ix v = (LEAST i. i < length xs \<and> xs ! i = v)" for v
  fix u v assume "(u, v) \<in> kahn_relation graph"
  then obtain p where e: "kedge graph u v p" by (auto simp: kahn_relation_def)
  from assms(2)[OF e] have "\<exists>i. i < length xs \<and> xs ! i = v" by (simp add: in_set_conv_nth)
  then have "ix v < length xs \<and> xs ! ix v = v" unfolding ix_def by (rule LeastI_ex)
  then have v: "ix v < length xs" "xs ! ix v = v" by simp_all
  have "\<forall>u p. kedge graph u (xs ! ix v) p \<longrightarrow> u \<in> set (take (ix v) xs)" using assms(1) v(1) by (simp add: topo_ok_def)
  then have "u \<in> set (take (ix v) xs)" using e v(2) by auto
  then obtain j where j: "j < ix v" "xs ! j = u" using v(1) by (auto simp: in_set_conv_nth)
  then have "j < length xs \<and> xs ! j = u" using v(1) by simp
  then have "ix u \<le> j" unfolding ix_def by (rule Least_le)
  with j v(1) show "length xs - (LEAST i. i < length xs \<and> xs ! i = v) < length xs - (LEAST i. i < length xs \<and> xs ! i = u)"
    unfolding ix_def by linarith
qed

lemma kahn_done_complete:
  assumes "acyclic (kahn_relation graph)" "graph_wf graph" "in_range graph n" "kahn_done graph n t"
  shows "set (concat (ks_ret t)) = {..<n}"
proof (rule ccontr)
  define C where "C = set (concat (ks_ret t))"
  have C: "C \<subseteq> {..<n}" "\<And>v. v < n \<Longrightarrow> open_degree graph C v = 0 \<longleftrightarrow> v \<in> C"
    using assms(4) unfolding kahn_done_def C_def by auto
  assume "set (concat (ks_ret t)) \<noteq> {..<n}"
  with C(1) obtain w where w: "w < n" "w \<notin> C" unfolding C_def by blast
  have sub: "kahn_relation graph \<subseteq> {..<n} \<times> {..<n}"
    using assms(2,3) by (fastforce simp: kahn_relation_def kedge_set in_range_def)
  then have "wf (kahn_relation graph)" using assms(1) finite_acyclic_wf finite_subset by blast
  from wfE_min'[OF this, of "{..<n} - C"] w obtain m where m: "m < n" "m \<notin> C"
    "\<And>y. (y, m) \<in> kahn_relation graph \<Longrightarrow> y \<notin> {..<n} - C" by auto
  have "open_degree graph C m = 0"
    unfolding open_degree_0
  proof (intro ballI impI)
    fix e assume e: "e \<in> set graph" "m \<in> fst ` set (snd e)"
    then have "(fst e, m) \<in> kahn_relation graph" using assms(2) by (force simp: kahn_relation_def kedge_set)
    with m(3) sub show "fst e \<in> C" by blast
  qed
  with C(2) m show False by blast
qed

text \<open>The layout is reached exactly on the acyclic graphs.\<close>

theorem generalized_kahn_iff:
  assumes "graph_wf graph"
  shows "(\<exists>strata. generalized_kahn graph n = Inr strata) \<longleftrightarrow> in_range graph n \<and> acyclic (kahn_relation graph)"
proof (cases "in_range graph n")
  case True
  from generalized_kahn_done[OF assms True] obtain t where t: "kahn_done graph n t"
    "generalized_kahn graph n = (if set (concat (ks_ret t)) = {..<n} then Inr (ks_ret t) else Inl KahnUnconsumed)" by blast
  have "v < n" if "kedge graph u v p" for u v p
    using that True assms by (fastforce simp: kedge_set in_range_def)
  then have "acyclic (kahn_relation graph)" if "set (concat (ks_ret t)) = {..<n}"
    by (intro topo_ok_acyclic[where xs = "concat (ks_ret t)"]) (use t(1) that in \<open>auto simp: kahn_done_def\<close>)
  then show ?thesis using True t(2) kahn_done_complete[OF _ assms True t(1)] by auto
next
  case False
  then show ?thesis using kahn_count_range[of n "replicate n 0" graph] by (auto simp: generalized_kahn_def rbind_eq_Inr)
qed

lemma generalized_kahn_layout:
  assumes "graph_wf graph" "generalized_kahn graph n = Inr strata"
  shows "distinct (concat strata)" "set (concat strata) = {..<n}" "[] \<notin> set strata" "strata_ok graph strata"
    "topo_ok graph (concat strata)"
proof -
  have "in_range graph n" using generalized_kahn_iff[OF assms(1)] assms(2) by blast
  from generalized_kahn_done[OF assms(1) this] obtain t where "kahn_done graph n t"
    "generalized_kahn graph n = (if set (concat (ks_ret t)) = {..<n} then Inr (ks_ret t) else Inl KahnUnconsumed)" by blast
  with assms(2) show "distinct (concat strata)" "set (concat strata) = {..<n}" "[] \<notin> set strata" "strata_ok graph strata"
    "topo_ok graph (concat strata)"
    unfolding kahn_done_def by (auto split: if_splits)
qed

end
