(* ===== verification/Reach_Laws.thy ===== *)
theory Reach_Laws
  imports Scc_Correct Kahn_Laws
begin

text \<open>
  The worklist walk collects exactly the nodes reachable from its start, in ascending order.
\<close>

lemma reach_children_spec:
  "set (fst (reach_children cs (col, pen))) = set col \<union> set cs
   \<and> set (snd (reach_children cs (col, pen))) = set pen \<union> (set cs - set col)
   \<and> (sorted_wrt (<) col \<longrightarrow> sorted_wrt (<) (fst (reach_children cs (col, pen))))"
proof (induction cs arbitrary: col pen)
  case (Cons c cs)
  show ?case using Cons.IH[of col pen] Cons.IH[of "set_insert c col" "c # pen"] set_insert_sorted[of col c] by auto
qed simp

lemma reach_loop_spec:
  "set pen \<subseteq> set col \<Longrightarrow> (\<And>u v. u \<in> set col - set pen \<Longrightarrow> (u, v) \<in> graph_edges graph \<Longrightarrow> v \<in> set col) \<Longrightarrow> sorted_wrt (<) col
    \<Longrightarrow> set (reach_loop graph col pen) = (graph_edges graph)\<^sup>* `` set col \<and> sorted_wrt (<) (reach_loop graph col pen)"
proof (induction graph col pen rule: reach_loop.induct)
  case (1 graph col)
  have "v \<in> set col" if "(u, v) \<in> (graph_edges graph)\<^sup>*" "u \<in> set col" for u v
    using that by (induction rule: rtrancl_induct) (use 1(2) in auto)
  with 1(3) show ?case by auto
next
  case (2 graph col node pen)
  show ?case
  proof (cases "bt_get graph node")
    case None
    then have "(node, v) \<notin> graph_edges graph" for v by (simp add: graph_edges_def)
    then have "v \<in> set col" if "u \<in> set col - set pen" "(u, v) \<in> graph_edges graph" for u v
      using 2(4)[of u v] that by (cases "u = node") auto
    with 2(1)[OF None _ _ 2(5)] 2(3) None show ?thesis by auto
  next
    case (Some cs)
    let ?r = "reach_children cs (col, pen)"
    have edge: "(node, v) \<in> graph_edges graph \<longleftrightarrow> v \<in> set cs" for v using Some by (simp add: graph_edges_def)
    note sp = reach_children_spec[of cs col pen]
    have fst: "set (fst ?r) = set col \<union> set cs" and snd: "set (snd ?r) = set pen \<union> (set cs - set col)" and srt: "sorted_wrt (<) (fst ?r)"
      using sp 2(5) by auto
    have sub: "set (snd ?r) \<subseteq> set (fst ?r)" using 2(3) unfolding fst snd by auto
    have closed: "v \<in> set (fst ?r)" if "u \<in> set (fst ?r) - set (snd ?r)" "(u, v) \<in> graph_edges graph" for u v
      using that 2(4)[of u v] edge[of v] unfolding fst snd by (cases "u = node") auto
    have "set cs \<subseteq> (graph_edges graph)\<^sup>* `` set col" using edge 2(3) by auto
    then have "(graph_edges graph)\<^sup>* `` (set col \<union> set cs) = (graph_edges graph)\<^sup>* `` set col"
      by (auto intro: rtrancl_trans)
    then show ?thesis using 2(2)[OF Some sub closed srt] Some by (simp add: fst)
  qed
qed

theorem reachable_components_spec:
  "set (reachable_components graph start) = {v. (start, v) \<in> (graph_edges graph)\<^sup>*}"
  "sorted_wrt (<) (reachable_components graph start)"
  using reach_loop_spec[of "[start]" "[start]" graph] by (auto simp: reachable_components_def)

end
