(* ===== verification/Dependency_Laws.thy ===== *)
theory Dependency_Laws
  imports Stratify Reach_Laws
begin

text \<open>
  The stratifier's dependency graph against the rules: an edge for every rule read, poisoned exactly when one
  of the reads forces a boundary, with the span of a read that does.
\<close>

section \<open>Reads of a program\<close>

definition program_wf :: "'c nf_program \<Rightarrow> bool" where
  "program_wf prog \<longleftrightarrow> bt_wf (np_rules prog) \<and> np_entry_name prog = PROG_ENTRY \<and> PROG_ENTRY \<notin> fst ` set (np_rules prog)"

text \<open>The read \<open>r\<close> of a rule head \<open>k\<close> needs the read rule complete.\<close>

definition read_poisons :: "'c nf_program \<Rightarrow> string \<Rightarrow> 'c nf_rule list \<Rightarrow> symbol \<times> bool \<Rightarrow> bool" where
  "read_poisons prog k rules r \<longleftrightarrow>
     (let (has_aggr, meet) = aggregation_character rules; v = sym_name (fst r)
      in snd r \<or> v \<in> set (fixed_rules prog) \<or> has_aggr \<and> \<not> (meet \<and> v = k)
         \<or> \<not> has_aggr \<and> v \<noteq> k \<and> v \<in> set (meet_rules prog))"

text \<open>The reads of a rule set: the symbol read and whether the read forces a boundary.\<close>

fun ruleset_reads :: "'c nf_program \<Rightarrow> string \<Rightarrow> 'c nf_ruleset \<Rightarrow> (symbol \<times> bool) list" where
  "ruleset_reads prog k (NRules rules) = map (\<lambda>r. (fst r, read_poisons prog k rules r)) (rules_reads rules)"
| "ruleset_reads prog k (NFixed fixed) =
     concat (map (\<lambda>rel. case rel of InMem name _ _ \<Rightarrow> [(name, True)] | _ \<Rightarrow> []) (fr_args fixed))"

definition rule_read :: "'c nf_program \<Rightarrow> string \<Rightarrow> symbol \<Rightarrow> bool \<Rightarrow> bool" where
  "rule_read prog k s p \<longleftrightarrow> (\<exists>ruleset. (k, ruleset) \<in> set (iter_all prog) \<and> (s, p) \<in> set (ruleset_reads prog k ruleset))"

definition depends :: "'c nf_program \<Rightarrow> (string \<times> string) set" where
  "depends prog = {(k, v). \<exists>s p. rule_read prog k s p \<and> sym_name s = v}"

definition poisoned :: "'c nf_program \<Rightarrow> (string \<times> string) set" where
  "poisoned prog = {(k, v). \<exists>s. rule_read prog k s True \<and> sym_name s = v}"

section \<open>The graph builder\<close>

lemma or_insert_wf: "bt_wf es \<Longrightarrow> bt_wf (or_insert k v es)"
  by (simp add: or_insert_def bt_insert_wf split: option.split)

lemma or_insert_get: "bt_wf es \<Longrightarrow> bt_get (or_insert k v es) k' = (if k' = k \<and> bt_get es k = None then Some v else bt_get es k')"
  by (auto simp: or_insert_def bt_get_insert split: option.split)

text \<open>One read, in the terms of the specification.\<close>

definition note_edge :: "string \<Rightarrow> symbol \<times> bool \<Rightarrow> (string, bool) entries \<times> poison_spans \<Rightarrow> (string, bool) entries \<times> poison_spans" where
  "note_edge k r s =
     (let v = sym_name (fst r); old = (bt_get (fst s) v = Some True)
      in (bt_insert v (old \<or> snd r) (fst s), if snd r \<and> \<not> old then or_insert (k, v) (sym_span (fst r)) (snd s) else snd s))"

lemma note_read_edge: "note_read prog k (aggregation_character rules) r s = note_edge k (fst r, read_poisons prog k rules r) s"
proof -
  obtain h m where a: "aggregation_character rules = (h, m)" by fastforce
  obtain f n where r: "r = (f, n)" by fastforce
  obtain ret spans where s: "s = (ret, spans)" by fastforce
  have pois: "read_poisons prog k rules (f, n) \<longleftrightarrow> n \<or> sym_name f \<in> set (fixed_rules prog) \<or> h \<and> \<not> (m \<and> sym_name f = k)
     \<or> \<not> h \<and> sym_name f \<noteq> k \<and> sym_name f \<in> set (meet_rules prog)"
    by (simp add: read_poisons_def a Let_def)
  show ?thesis
    unfolding r s by (cases "bt_get ret (sym_name f)") (auto simp: note_read_def note_edge_def a pois Let_def)
qed

text \<open>The spans collected so far belong to poisoning reads.\<close>

definition spans_ok :: "'c nf_program \<Rightarrow> poison_spans \<Rightarrow> bool" where
  "spans_ok prog spans \<longleftrightarrow> bt_wf spans
     \<and> (\<forall>k v sp. bt_get spans (k, v) = Some sp \<longrightarrow> (\<exists>s. rule_read prog k s True \<and> sym_name s = v \<and> sym_span s = sp))"

definition edge_state :: "string \<Rightarrow> (string, bool) entries \<times> poison_spans \<Rightarrow> bool" where
  "edge_state k s \<longleftrightarrow> bt_wf (fst s) \<and> bt_wf (snd s) \<and> (\<forall>v. bt_get (fst s) v = Some True \<longrightarrow> bt_get (snd s) (k, v) \<noteq> None)"

lemma note_edge_state: "edge_state k s \<Longrightarrow> edge_state k (note_edge k r s)"
  by (auto simp: edge_state_def note_edge_def Let_def bt_insert_wf or_insert_wf bt_get_insert or_insert_get split: if_splits)

lemma note_edge_spans:
  "spans_ok prog (snd s) \<Longrightarrow> rule_read prog k (fst r) (snd r) \<Longrightarrow> spans_ok prog (snd (note_edge k r s))"
  by (cases r) (auto simp: spans_ok_def note_edge_def Let_def or_insert_wf or_insert_get)

lemma note_edge_mono: "bt_wf (snd s) \<Longrightarrow> bt_get (snd s) e \<noteq> None \<Longrightarrow> bt_get (snd (note_edge k r s)) e \<noteq> None"
  by (auto simp: note_edge_def Let_def or_insert_get)

lemma note_edges_spec:
  assumes "edge_state k s" "\<And>r. r \<in> set rs \<Longrightarrow> rule_read prog k (fst r) (snd r)" "spans_ok prog (snd s)"
  shows "edge_state k (fold (note_edge k) rs s) \<and> spans_ok prog (snd (fold (note_edge k) rs s))
    \<and> (\<forall>e. bt_get (snd s) e \<noteq> None \<longrightarrow> bt_get (snd (fold (note_edge k) rs s)) e \<noteq> None)
    \<and> (\<forall>v. (bt_get (fst (fold (note_edge k) rs s)) v \<noteq> None \<longleftrightarrow> bt_get (fst s) v \<noteq> None \<or> (\<exists>r \<in> set rs. sym_name (fst r) = v))
      \<and> (bt_get (fst (fold (note_edge k) rs s)) v = Some True
           \<longleftrightarrow> bt_get (fst s) v = Some True \<or> (\<exists>r \<in> set rs. sym_name (fst r) = v \<and> snd r)))"
  using assms
proof (induction rs arbitrary: s)
  case (Cons r rs)
  have wf: "bt_wf (fst s)" "bt_wf (snd s)" using Cons.prems(1) by (simp_all add: edge_state_def)
  note step = note_edge_state[OF Cons.prems(1), of r] note_edge_spans[OF Cons.prems(3), of k r]
  have g: "bt_get (fst (note_edge k r s)) v = (if v = sym_name (fst r) then Some (bt_get (fst s) v = Some True \<or> snd r) else bt_get (fst s) v)" for v
    using wf by (simp add: note_edge_def Let_def bt_get_insert)
  show ?case
    using Cons.IH[of "note_edge k r s"] step Cons.prems(2) note_edge_mono[OF wf(2), of _ k r] by (auto simp: g)
qed simp

text \<open>A fixed rule's arguments are such reads.\<close>

lemma note_fixed_edges:
  assumes "edge_state k s"
  shows "note_fixed_arg k rel s = fold (note_edge k) (case rel of InMem name _ _ \<Rightarrow> [(name, True)] | _ \<Rightarrow> []) s"
proof (cases rel)
  case (InMem name vs sp)
  then show ?thesis using assms
    by (cases "bt_get (fst s) (sym_name name) = Some True")
      (auto simp: edge_state_def note_fixed_arg_def note_edge_def or_insert_def Let_def split: option.split)
qed (simp_all add: note_fixed_arg_def)

lemma note_edges_state: "edge_state k s \<Longrightarrow> edge_state k (fold (note_edge k) rs s)"
  by (induction rs arbitrary: s) (simp_all add: note_edge_state)

lemma note_fixed_args:
  "edge_state k s \<Longrightarrow> fold (note_fixed_arg k) args s
     = fold (note_edge k) (concat (map (\<lambda>rel. case rel of InMem name _ _ \<Rightarrow> [(name, True)] | _ \<Rightarrow> []) args)) s"
proof (induction args arbitrary: s)
  case (Cons rel args)
  show ?case using Cons.IH[OF note_edges_state[OF Cons.prems]] note_fixed_edges[OF Cons.prems, of rel]
    by simp
qed simp

lemma ruleset_edges_fold:
  assumes "bt_wf spans"
  shows "ruleset_edges prog k ruleset spans = fold (note_edge k) (ruleset_reads prog k ruleset) ([], spans)"
proof (cases ruleset)
  case (NRules rules)
  have "fold (note_read prog k (aggregation_character rules)) rs s
      = fold (note_edge k) (map (\<lambda>r. (fst r, read_poisons prog k rules r)) rs) s" for rs s
    by (induction rs arbitrary: s) (simp_all add: note_read_edge)
  with NRules show ?thesis by (simp add: ruleset_edges_def)
next
  case (NFixed fixed)
  have "edge_state k ([], spans)" using assms by (simp add: edge_state_def bt_get_def)
  from note_fixed_args[OF this, of "fr_args fixed"] NFixed show ?thesis by (simp add: ruleset_edges_def)
qed

definition edges_of :: "'c nf_program \<Rightarrow> string \<Rightarrow> 'c nf_ruleset \<Rightarrow> (string, bool) entries \<Rightarrow> bool" where
  "edges_of prog k ruleset ret \<longleftrightarrow> bt_wf ret \<and> (\<forall>v.
     (bt_get ret v \<noteq> None \<longleftrightarrow> (\<exists>r \<in> set (ruleset_reads prog k ruleset). sym_name (fst r) = v))
     \<and> (bt_get ret v = Some True \<longleftrightarrow> (\<exists>r \<in> set (ruleset_reads prog k ruleset). sym_name (fst r) = v \<and> snd r)))"

lemma edges_of_present:
  "edges_of prog k rs ret \<Longrightarrow> bt_get ret v \<noteq> None \<longleftrightarrow> (\<exists>s p. (s, p) \<in> set (ruleset_reads prog k rs) \<and> sym_name s = v)"
  by (fastforce simp: edges_of_def)

lemma edges_of_poisoned:
  "edges_of prog k rs ret \<Longrightarrow> bt_get ret v = Some True \<longleftrightarrow> (\<exists>s. (s, True) \<in> set (ruleset_reads prog k rs) \<and> sym_name s = v)"
  by (fastforce simp: edges_of_def)

lemma ruleset_edges_spec:
  assumes "spans_ok prog spans" "(k, ruleset) \<in> set (iter_all prog)" "ruleset_edges prog k ruleset spans = (ret, spans')"
  shows "edges_of prog k ruleset ret" "spans_ok prog spans'" "\<And>e. bt_get spans e \<noteq> None \<Longrightarrow> bt_get spans' e \<noteq> None"
    "\<And>v. bt_get ret v = Some True \<Longrightarrow> bt_get spans' (k, v) \<noteq> None"
proof -
  have wf: "bt_wf spans" using assms(1) by (simp add: spans_ok_def)
  have st: "edge_state k ([], spans)" using wf by (simp add: edge_state_def bt_get_def)
  have rd: "rule_read prog k (fst r) (snd r)" if "r \<in> set (ruleset_reads prog k ruleset)" for r
    using that assms(2) by (auto simp: rule_read_def)
  have f: "fold (note_edge k) (ruleset_reads prog k ruleset) ([], spans) = (ret, spans')"
    using assms(3) by (simp add: ruleset_edges_fold[OF wf])
  note sp = note_edges_spec[OF st, where rs = "ruleset_reads prog k ruleset" and prog = prog, OF rd, unfolded f fst_conv snd_conv, OF _ assms(1)]
  have "edge_state k (ret, spans')" using sp by blast
  then show "edges_of prog k ruleset ret" using sp by (simp add: edges_of_def edge_state_def bt_get_def)
  show "spans_ok prog spans'" "\<And>e. bt_get spans e \<noteq> None \<Longrightarrow> bt_get spans' e \<noteq> None" using sp by blast+
  show "\<And>v. bt_get ret v = Some True \<Longrightarrow> bt_get spans' (k, v) \<noteq> None" using sp unfolding edge_state_def by auto
qed

definition graph_built :: "'c nf_program \<Rightarrow> (string \<times> 'c nf_ruleset) list \<Rightarrow> string stratified_graph \<times> poison_spans \<Rightarrow> bool" where
  "graph_built prog rules s \<longleftrightarrow> bt_wf (fst s) \<and> spans_ok prog (snd s) \<and> fst ` set (fst s) = fst ` set rules
     \<and> (\<forall>e \<in> set rules. \<exists>ret. bt_get (fst s) (fst e) = Some ret \<and> edges_of prog (fst e) (snd e) ret
          \<and> (\<forall>v. bt_get ret v = Some True \<longrightarrow> bt_get (snd s) (fst e, v) \<noteq> None))"

lemma graph_built_fold:
  assumes "distinct (map fst rules)" "set rules \<subseteq> set (iter_all prog)"
  shows "graph_built prog rules (fold (\<lambda>(k, ruleset) (graph, spans).
       let (ret, spans) = ruleset_edges prog k ruleset spans in (bt_insert k ret graph, spans)) rules ([], []))"
  using assms
proof (induction rules rule: rev_induct)
  case Nil
  show ?case by (simp add: graph_built_def spans_ok_def bt_get_def)
next
  case (snoc x rules)
  obtain k rs where x: "x = (k, rs)" by fastforce
  define s where "s = fold (\<lambda>(k, ruleset) (graph, spans).
       let (ret, spans) = ruleset_edges prog k ruleset spans in (bt_insert k ret graph, spans)) rules ([], [])"
  obtain graph spans where gs: "s = (graph, spans)" by fastforce
  have IH: "graph_built prog rules (graph, spans)" using snoc unfolding s_def[symmetric] gs by simp
  obtain ret spans' where r: "ruleset_edges prog k rs spans = (ret, spans')" by fastforce
  have ok: "spans_ok prog spans" "bt_wf graph" using IH by (simp_all add: graph_built_def)
  note sp = ruleset_edges_spec[OF ok(1) _ r]
  have mem: "(k, rs) \<in> set (iter_all prog)" using snoc.prems(2) x by simp
  have new: "k \<notin> fst ` set rules" using snoc.prems(1) x by simp
  have "graph_built prog (rules @ [x]) (bt_insert k ret graph, spans')"
    using IH sp[OF mem] new unfolding graph_built_def x
    by (simp add: bt_insert_wf bt_get_insert fst_set_bt_insert) (metis image_eqI)
  then show ?case unfolding fold_append comp_def s_def[symmetric] gs by (simp add: x r)
qed

lemma iter_all_distinct: "program_wf prog \<Longrightarrow> distinct (map fst (iter_all prog))"
  by (auto simp: program_wf_def iter_all_def bt_wf_distinct)

theorem convert_spec: "program_wf prog \<Longrightarrow> graph_built prog (iter_all prog) (convert_normal_form_program_to_graph prog)"
  unfolding convert_normal_form_program_to_graph_def by (rule graph_built_fold) (simp_all add: iter_all_distinct)

lemma convert_graph:
  assumes "program_wf prog" "convert_normal_form_program_to_graph prog = (graph, spans)"
  shows "graph_wf graph" "fst ` set graph = fst ` set (iter_all prog)" "spans_ok prog spans"
    "\<And>u v. (\<exists>p. kedge graph u v p) \<longleftrightarrow> (u, v) \<in> depends prog"
    "\<And>u v. kedge graph u v True \<longleftrightarrow> (u, v) \<in> poisoned prog"
    "\<And>u v. kedge graph u v True \<Longrightarrow> bt_get spans (u, v) \<noteq> None"
proof -
  have b: "graph_built prog (iter_all prog) (graph, spans)" using convert_spec[OF assms(1)] assms(2) by simp
  have wf: "bt_wf graph" and ks: "fst ` set graph = fst ` set (iter_all prog)" and so: "spans_ok prog spans"
    using b by (simp_all add: graph_built_def)
  have get: "\<exists>ret. bt_get graph k = Some ret \<and> edges_of prog k rs ret \<and> (\<forall>v. bt_get ret v = Some True \<longrightarrow> bt_get spans (k, v) \<noteq> None)"
    if "(k, rs) \<in> set (iter_all prog)" for k rs
    using b that unfolding graph_built_def by fastforce
  have node: "\<exists>rs. (u, rs) \<in> set (iter_all prog) \<and> edges_of prog u rs ret \<and> (\<forall>v. bt_get ret v = Some True \<longrightarrow> bt_get spans (u, v) \<noteq> None)"
    if u: "bt_get graph u = Some ret" for u ret
  proof -
    have "u \<in> fst ` set (iter_all prog)" using u bt_get_fst[of graph u] ks by simp
    then obtain rs where "(u, rs) \<in> set (iter_all prog)" by auto
    with get[OF this] u show ?thesis by auto
  qed
  show "graph_wf graph" unfolding graph_wf_def
  proof (intro conjI wf ballI)
    fix e assume "e \<in> set graph"
    then have "bt_get graph (fst e) = Some (snd e)" using bt_get_set[OF wf] by simp
    from node[OF this] show "bt_wf (snd e)" by (auto simp: edges_of_def)
  qed
  show "fst ` set graph = fst ` set (iter_all prog)" "spans_ok prog spans" by fact+
  show "(\<exists>p. kedge graph u v p) \<longleftrightarrow> (u, v) \<in> depends prog" for u v
  proof
    assume "\<exists>p. kedge graph u v p"
    then obtain p ret where r: "bt_get graph u = Some ret" "bt_get ret v \<noteq> None" by (auto simp: kedge_def)
    from node[OF r(1)] obtain rs where "(u, rs) \<in> set (iter_all prog)" "edges_of prog u rs ret" by blast
    with r(2) edges_of_present[of prog u rs ret v] show "(u, v) \<in> depends prog" by (auto simp: depends_def rule_read_def)
  next
    assume "(u, v) \<in> depends prog"
    then obtain rs s p where r: "(u, rs) \<in> set (iter_all prog)" "(s, p) \<in> set (ruleset_reads prog u rs)" "sym_name s = v"
      by (auto simp: depends_def rule_read_def)
    from get[OF r(1)] obtain ret where "bt_get graph u = Some ret" "edges_of prog u rs ret" by blast
    with edges_of_present[of prog u rs ret v] r(2,3) show "\<exists>p. kedge graph u v p" by (auto simp: kedge_def)
  qed
  show "kedge graph u v True \<longleftrightarrow> (u, v) \<in> poisoned prog" for u v
  proof
    assume "kedge graph u v True"
    then obtain ret where r: "bt_get graph u = Some ret" "bt_get ret v = Some True" by (auto simp: kedge_def)
    from node[OF r(1)] obtain rs where "(u, rs) \<in> set (iter_all prog)" "edges_of prog u rs ret" by blast
    with r(2) show "(u, v) \<in> poisoned prog" by (auto simp: edges_of_poisoned poisoned_def rule_read_def)
  next
    assume "(u, v) \<in> poisoned prog"
    then obtain rs s where r: "(u, rs) \<in> set (iter_all prog)" "(s, True) \<in> set (ruleset_reads prog u rs)" "sym_name s = v"
      by (auto simp: poisoned_def rule_read_def)
    from get[OF r(1)] obtain ret where "bt_get graph u = Some ret" "edges_of prog u rs ret" by blast
    with edges_of_poisoned[of prog u rs ret v] r(2,3) show "kedge graph u v True" by (auto simp: kedge_def)
  qed
  show "\<And>u v. kedge graph u v True \<Longrightarrow> bt_get spans (u, v) \<noteq> None"
    using node by (fastforce simp: kedge_def)
qed

end
