(* ===== verification/Stratify_Laws.thy ===== *)
theory Stratify_Laws
  imports Dependency_Laws
begin

text \<open>
  The condensation of the dependency graph and its sort: the component graph has the edges between components,
  is acyclic and is laid out into strata; the refusal is exactly a poisoned edge inside a component.
\<close>

section \<open>Indices\<close>

lemma set_insert_snoc: "\<forall>y \<in> set ys. y < x \<Longrightarrow> set_insert x ys = ys @ [x]"
  by (induction x ys rule: set_insert.induct) auto

lemma fold_set_insert_sorted: "sorted_wrt (<) (ys @ xs) \<Longrightarrow> fold set_insert xs ys = ys @ xs"
proof (induction xs arbitrary: ys)
  case (Cons x xs)
  have "set_insert x ys = ys @ [x]" using Cons.prems by (intro set_insert_snoc) (auto simp: sorted_wrt_append)
  then show ?case using Cons.IH[of "ys @ [x]"] Cons.prems by simp
qed simp

lemma bt_of_list_spec:
  "distinct (map fst kvs) \<Longrightarrow> bt_wf (bt_of_list kvs) \<and> (bt_get (bt_of_list kvs) k = Some v \<longleftrightarrow> (k, v) \<in> set kvs)"
proof (induction kvs arbitrary: k v rule: rev_induct)
  case Nil
  show ?case by (simp add: bt_of_list_def bt_get_def)
next
  case (snoc e kvs)
  obtain k' v' where e: "e = (k', v')" by fastforce
  have "bt_of_list (kvs @ [e]) = bt_insert k' v' (bt_of_list kvs)" by (simp add: bt_of_list_def e)
  moreover have "(k', w) \<notin> set kvs" for w using snoc.prems e by force
  ultimately show ?case using snoc.IH[of k v] snoc.prems by (auto simp: e bt_insert_wf bt_get_insert)
qed

lemma map_fst_indexed: "map fst (indexed groups) = concat groups"
proof -
  have "map fst (concat (map (\<lambda>(idx, group). map (\<lambda>k. (k, idx)) group) (enumerate n groups))) = concat groups" for n
    by (induction groups arbitrary: n) (simp_all add: comp_def)
  then show ?thesis by (simp add: indexed_def)
qed

lemma set_indexed: "(k, i) \<in> set (indexed groups) \<longleftrightarrow> i < length groups \<and> k \<in> set (groups ! i)"
  by (force simp: indexed_def in_set_enumerate_eq)

lemma index_get:
  assumes "distinct (concat groups)"
  shows "bt_get (bt_of_list (indexed groups)) k = Some i \<longleftrightarrow> i < length groups \<and> k \<in> set (groups ! i)"
  using bt_of_list_spec[of "indexed groups" k i] assms by (simp add: map_fst_indexed set_indexed)

section \<open>The refusal\<close>

lemma verify_targets_ok: "verify_targets k scc spans vs = Inr () \<longleftrightarrow> (\<forall>e \<in> set vs. snd e \<longrightarrow> fst e \<notin> set scc)"
  by (induction vs) auto

lemma verify_targets_error:
  "verify_targets k scc spans vs = Inl e
     \<Longrightarrow> \<exists>v. (v, True) \<in> set vs \<and> v \<in> set scc \<and> e = UnStratifiableProgram v scc (bt_get spans (k, v))"
  by (induction vs) (force split: if_splits)+

lemma verify_sccs_ok:
  "verify_sccs k vs spans sccs = Inr () \<longleftrightarrow> (\<forall>scc \<in> set sccs. k \<in> set scc \<longrightarrow> (\<forall>e \<in> set vs. snd e \<longrightarrow> fst e \<notin> set scc))"
  by (induction sccs) (auto simp: rbind_eq_Inr verify_targets_ok)

lemma verify_sccs_error:
  "verify_sccs k vs spans sccs = Inl e \<Longrightarrow> \<exists>scc \<in> set sccs. k \<in> set scc \<and> (\<exists>v. (v, True) \<in> set vs \<and> v \<in> set scc
     \<and> e = UnStratifiableProgram v scc (bt_get spans (k, v)))"
  by (induction sccs) (auto simp: rbind_eq_Inl split: if_splits dest!: verify_targets_error)

lemma verify_ok_set:
  "verify_no_cycle g spans sccs = Inr () \<longleftrightarrow> (\<forall>e \<in> set g. \<forall>scc \<in> set sccs. fst e \<in> set scc \<longrightarrow> (\<forall>t \<in> set (snd e). snd t \<longrightarrow> fst t \<notin> set scc))"
  by (induction g) (auto simp: rbind_eq_Inr verify_sccs_ok)

lemma verify_error_set:
  "verify_no_cycle g spans sccs = Inl e \<Longrightarrow> \<exists>(k, vs) \<in> set g. \<exists>scc \<in> set sccs. k \<in> set scc \<and> (\<exists>v. (v, True) \<in> set vs \<and> v \<in> set scc
     \<and> e = UnStratifiableProgram v scc (bt_get spans (k, v)))"
  by (induction g) (auto simp: rbind_eq_Inl dest!: verify_sccs_error)

theorem verify_no_cycle_ok:
  assumes "graph_wf g"
  shows "verify_no_cycle g spans sccs = Inr () \<longleftrightarrow> \<not> (\<exists>u v. kedge g u v True \<and> (\<exists>scc \<in> set sccs. u \<in> set scc \<and> v \<in> set scc))"
  unfolding verify_ok_set kedge_set[OF assms] by fastforce

theorem verify_no_cycle_error:
  assumes "graph_wf g" "verify_no_cycle g spans sccs = Inl e"
  obtains u v scc where "kedge g u v True" "scc \<in> set sccs" "u \<in> set scc" "v \<in> set scc"
    "e = UnStratifiableProgram v scc (bt_get spans (u, v))"
  using verify_error_set[OF assms(2)] unfolding kedge_set[OF assms(1)] by blast

section \<open>The condensation\<close>

lemma reduce_targets:
  assumes "bt_wf cur"
  shows "bt_wf (fold (reduce_target indices a) tos cur)
    \<and> (bt_get (fold (reduce_target indices a) tos cur) b \<noteq> None
         \<longleftrightarrow> bt_get cur b \<noteq> None \<or> (\<exists>t \<in> set tos. bt_get indices (fst t) = Some b \<and> a \<noteq> b))
    \<and> (bt_get (fold (reduce_target indices a) tos cur) b = Some True
         \<longleftrightarrow> bt_get cur b = Some True \<or> (\<exists>t \<in> set tos. snd t \<and> bt_get indices (fst t) = Some b \<and> a \<noteq> b))"
  using assms
proof (induction tos arbitrary: cur)
  case (Cons t tos)
  define cur' where "cur' = reduce_target indices a t cur"
  have wf: "bt_wf cur'" using Cons.prems by (simp add: cur'_def reduce_target_def bt_insert_wf split: option.split)
  have "bt_get cur' b \<noteq> None \<longleftrightarrow> bt_get cur b \<noteq> None \<or> bt_get indices (fst t) = Some b \<and> a \<noteq> b"
    "bt_get cur' b = Some True \<longleftrightarrow> bt_get cur b = Some True \<or> snd t \<and> bt_get indices (fst t) = Some b \<and> a \<noteq> b"
    using Cons.prems by (auto simp: cur'_def reduce_target_def bt_get_insert split: option.splits if_splits)
  with Cons.IH[OF wf] show ?case unfolding fold_simps cur'_def[symmetric] by auto
qed simp

lemma graph_wf_insert: "graph_wf g \<Longrightarrow> bt_wf tos \<Longrightarrow> graph_wf (bt_insert a tos g)"
  using set_bt_insert_le[of a tos g] by (auto simp: graph_wf_def bt_insert_wf)

lemma kedge_insert:
  "bt_wf g \<Longrightarrow> kedge (bt_insert a tos g) a' b p \<longleftrightarrow> (if a' = a then bt_get tos b = Some p else kedge g a' b p)"
  by (simp add: kedge_def bt_get_insert)

text \<open>The component edges that a list of nodes contributes.\<close>

definition lifted :: "(string \<Rightarrow> nat option) \<Rightarrow> string stratified_graph \<Rightarrow> nat \<Rightarrow> nat \<Rightarrow> (bool \<Rightarrow> bool) \<Rightarrow> bool" where
  "lifted idx g a b P \<longleftrightarrow> a \<noteq> b \<and> (\<exists>e \<in> set g. \<exists>t \<in> set (snd e). P (snd t) \<and> idx (fst e) = Some a \<and> idx (fst t) = Some b)"

lemma lifted_Cons:
  "lifted idx (e # g) a b P \<longleftrightarrow> lifted idx g a b P \<or> a \<noteq> b \<and> idx (fst e) = Some a \<and> (\<exists>t \<in> set (snd e). P (snd t) \<and> idx (fst t) = Some b)"
  by (auto simp: lifted_def)

lemma reduce_nodes_spec:
  assumes "graph_wf ret" "\<And>e. e \<in> set g \<Longrightarrow> bt_get indices (fst e) \<noteq> None"
  shows "\<exists>out. reduce_nodes indices g ret = Inr out \<and> graph_wf out
    \<and> (\<forall>a b. ((\<exists>p. kedge out a b p) \<longleftrightarrow> (\<exists>p. kedge ret a b p) \<or> lifted (bt_get indices) g a b (\<lambda>_. True))
        \<and> (kedge out a b True \<longleftrightarrow> kedge ret a b True \<or> lifted (bt_get indices) g a b (\<lambda>p. p)))
    \<and> fst ` set out \<subseteq> fst ` set ret \<union> {a. \<exists>e \<in> set g. bt_get indices (fst e) = Some a}"
  using assms
proof (induction g arbitrary: ret)
  case Nil
  then show ?case by (simp add: lifted_def)
next
  case (Cons e g)
  obtain a where a: "bt_get indices (fst e) = Some a" using Cons.prems(2)[of e] by auto
  define cur where "cur = (case bt_get ret a of None \<Rightarrow> [] | Some tos \<Rightarrow> tos)"
  define tos where "tos = fold (reduce_target indices a) (snd e) cur"
  have wf: "bt_wf ret" using Cons.prems(1) by (simp add: graph_wf_def)
  have cwf: "bt_wf cur" using Cons.prems(1) bt_get_set[OF wf, of a] by (auto simp: cur_def graph_wf_def split: option.split)
  have cur: "bt_get cur b = Some p \<longleftrightarrow> kedge ret a b p" for b p by (simp add: cur_def kedge_def bt_get_def split: option.split)
  note tgt = reduce_targets[OF cwf, where indices = indices and a = a and tos = "snd e", folded tos_def]
  have wf': "graph_wf (bt_insert a tos ret)" using Cons.prems(1) tgt by (simp add: graph_wf_insert)
  have get: "(\<exists>p. bt_get tos b = Some p) \<longleftrightarrow> (\<exists>p. kedge ret a b p) \<or> lifted (bt_get indices) [e] a b (\<lambda>_. True)"
    "bt_get tos b = Some True \<longleftrightarrow> kedge ret a b True \<or> lifted (bt_get indices) [e] a b (\<lambda>p. p)" for b
    using tgt[of b] unfolding not_None_eq cur by (auto simp: lifted_def a)
  have edge: "(\<exists>p. kedge (bt_insert a tos ret) c b p) \<longleftrightarrow> (\<exists>p. kedge ret c b p) \<or> lifted (bt_get indices) [e] c b (\<lambda>_. True)"
    "kedge (bt_insert a tos ret) c b True \<longleftrightarrow> kedge ret c b True \<or> lifted (bt_get indices) [e] c b (\<lambda>p. p)" for c b
    by (cases "c = a"; simp add: kedge_insert[OF wf] get; simp add: lifted_def a)+
  have split: "lifted (bt_get indices) (e # g) c b P \<longleftrightarrow> lifted (bt_get indices) [e] c b P \<or> lifted (bt_get indices) g c b P" for c b P
    by (auto simp: lifted_def)
  have red: "reduce_nodes indices (e # g) ret = reduce_nodes indices g (bt_insert a tos ret)"
    by (simp add: a Let_def tos_def cur_def)
  from Cons.IH[OF wf'] Cons.prems(2) obtain out where out: "reduce_nodes indices g (bt_insert a tos ret) = Inr out" "graph_wf out"
    "\<And>c b. (\<exists>p. kedge out c b p) \<longleftrightarrow> (\<exists>p. kedge (bt_insert a tos ret) c b p) \<or> lifted (bt_get indices) g c b (\<lambda>_. True)"
    "\<And>c b. kedge out c b True \<longleftrightarrow> kedge (bt_insert a tos ret) c b True \<or> lifted (bt_get indices) g c b (\<lambda>p. p)"
    "fst ` set out \<subseteq> fst ` set (bt_insert a tos ret) \<union> {a. \<exists>e \<in> set g. bt_get indices (fst e) = Some a}"
    by (metis (no_types, lifting) list.set_intros(2))
  have "fst ` set out \<subseteq> fst ` set ret \<union> {a. \<exists>e \<in> set (e # g). bt_get indices (fst e) = Some a}"
    using out(5) a unfolding fst_set_bt_insert by auto
  then show ?case unfolding red out(3,4) split edge by (intro exI[of _ out]) (simp add: out(1,2), simp add: out(3,4) edge disj_ac)
qed

definition sedges :: "'a stratified_graph \<Rightarrow> ('a \<times> 'a) set" where
  "sedges g = {(u, v). \<exists>p. kedge g u v p}"

definition placed :: "'a list list \<Rightarrow> 'a \<Rightarrow> nat \<Rightarrow> bool" where
  "placed groups u a \<longleftrightarrow> a < length groups \<and> u \<in> set (groups ! a)"

lemma placed_unique: "distinct (concat groups) \<Longrightarrow> placed groups u a \<Longrightarrow> placed groups u b \<Longrightarrow> a = b" for u :: "'a::linorder"
  using index_get[of groups u] by (metis option.inject placed_def)

lemma placed_ex: "u \<in> set (concat groups) \<longleftrightarrow> (\<exists>a. placed groups u a)"
  unfolding placed_def set_concat UN_iff by (metis in_set_conv_nth)

definition components :: "string stratified_graph \<Rightarrow> string list list \<Rightarrow> bool" where
  "components g sccs \<longleftrightarrow> graph_wf g
     \<and> scc_partition sccs (fst ` set g) (\<lambda>u v. (u, v) \<in> (sedges g)\<^sup>* \<and> (v, u) \<in> (sedges g)\<^sup>*)"

lemma components_facts:
  assumes "components g sccs"
  shows "distinct (concat sccs)" "u \<in> fst ` set g \<longleftrightarrow> (\<exists>a. placed sccs u a)"
    "placed sccs u a \<Longrightarrow> placed sccs v b \<Longrightarrow> a = b \<longleftrightarrow> (u, v) \<in> (sedges g)\<^sup>* \<and> (v, u) \<in> (sedges g)\<^sup>*"
proof -
  show d: "distinct (concat sccs)" using assms by (simp add: components_def scc_partition_def)
  have c: "set (concat sccs) = fst ` set g" using assms by (simp add: components_def scc_partition_def)
  then show "u \<in> fst ` set g \<longleftrightarrow> (\<exists>a. placed sccs u a)" using placed_ex[of u sccs] by simp
  assume p: "placed sccs u a" "placed sccs v b"
  then have uv: "u \<in> fst ` set g" "v \<in> fst ` set g" using placed_ex[of u sccs] placed_ex[of v sccs] c by auto
  have "(\<exists>s \<in> set sccs. u \<in> set s \<and> v \<in> set s) \<longleftrightarrow> (u, v) \<in> (sedges g)\<^sup>* \<and> (v, u) \<in> (sedges g)\<^sup>*"
    using assms uv unfolding components_def scc_partition_def by blast
  moreover have "(\<exists>s \<in> set sccs. u \<in> set s \<and> v \<in> set s) \<longleftrightarrow> a = b"
  proof
    assume "\<exists>s \<in> set sccs. u \<in> set s \<and> v \<in> set s"
    then obtain i where "placed sccs u i" "placed sccs v i" unfolding placed_def by (metis in_set_conv_nth[of _ sccs])
    then show "a = b" using placed_unique[OF d p(1)] placed_unique[OF d p(2)] by blast
  next
    assume "a = b"
    then show "\<exists>s \<in> set sccs. u \<in> set s \<and> v \<in> set s" using p by (intro bexI[of _ "sccs ! a"]) (simp_all add: placed_def)
  qed
  ultimately show "a = b \<longleftrightarrow> (u, v) \<in> (sedges g)\<^sup>* \<and> (v, u) \<in> (sedges g)\<^sup>*" by simp
qed

definition condensed :: "string stratified_graph \<Rightarrow> string list list \<Rightarrow> nat stratified_graph \<Rightarrow> bool" where
  "condensed g sccs reduced \<longleftrightarrow> graph_wf reduced \<and> in_range reduced (length sccs)
     \<and> (\<forall>a b. ((a, b) \<in> sedges reduced \<longleftrightarrow> a \<noteq> b \<and> (\<exists>u v. (u, v) \<in> sedges g \<and> placed sccs u a \<and> placed sccs v b))
         \<and> (kedge reduced a b True \<longleftrightarrow> a \<noteq> b \<and> (\<exists>u v. kedge g u v True \<and> placed sccs u a \<and> placed sccs v b)))"

lemma make_scc_reduced_graph_spec:
  assumes "components g sccs"
  obtains reduced where "make_scc_reduced_graph sccs g = Inr (bt_of_list (indexed sccs), reduced)" "condensed g sccs reduced"
proof -
  have wf: "graph_wf g" using assms by (simp add: components_def)
  note cf = components_facts[OF assms]
  let ?ix = "bt_of_list (indexed sccs)"
  have ix: "bt_get ?ix u = Some a \<longleftrightarrow> placed sccs u a" for u a using index_get[OF cf(1)] by (simp add: placed_def)
  have "bt_get ?ix (fst e) \<noteq> None" if "e \<in> set g" for e using that cf(2)[of "fst e"] ix by auto
  from reduce_nodes_spec[of "[]" g ?ix, OF _ this] obtain out where
    out: "reduce_nodes ?ix g [] = Inr out" "graph_wf out"
      "\<And>a b. (\<exists>p. kedge out a b p) \<longleftrightarrow> (\<exists>p. kedge [] a b p) \<or> lifted (bt_get ?ix) g a b (\<lambda>_. True)"
      "\<And>a b. kedge out a b True \<longleftrightarrow> kedge [] a b True \<or> lifted (bt_get ?ix) g a b (\<lambda>p. p)"
      "fst ` set out \<subseteq> {a. \<exists>e \<in> set g. bt_get ?ix (fst e) = Some a}"
    by (auto simp: graph_wf_def)
  have nil: "\<not> kedge [] a b p" for a b :: nat and p by (simp add: kedge_def bt_get_def)
  have lift: "lifted (bt_get ?ix) g a b P \<longleftrightarrow> a \<noteq> b \<and> (\<exists>u v p. kedge g u v p \<and> P p \<and> placed sccs u a \<and> placed sccs v b)" for a b P
    unfolding lifted_def kedge_set[OF wf] ix Bex_def split_paired_Ex fst_conv snd_conv by blast
  have "in_range out (length sccs)"
  proof -
    have "fst e < length sccs" if "e \<in> set out" for e using out(5) that ix by (auto simp: placed_def)
    moreover have "fst t < length sccs" if "e \<in> set out" "t \<in> set (snd e)" for e t
    proof -
      have "kedge out (fst e) (fst t) (snd t)" unfolding kedge_set[OF out(2)] using that by (metis prod.collapse)
      then show ?thesis using out(3)[of "fst e" "fst t"] lift nil by (auto simp: placed_def)
    qed
    ultimately show ?thesis by (simp add: in_range_def)
  qed
  moreover have "lifted (bt_get ?ix) g a b (\<lambda>p. p) \<longleftrightarrow> a \<noteq> b \<and> (\<exists>u v. kedge g u v True \<and> placed sccs u a \<and> placed sccs v b)" for a b
    unfolding lift ex_bool_eq by simp
  ultimately have "condensed g sccs out" using out(2-4) unfolding condensed_def sedges_def by (simp add: nil) (auto simp: lift)
  with out(1) show ?thesis by (intro that[of out]) (simp_all add: make_scc_reduced_graph_def)
qed

lemma condensed_path:
  assumes "components g sccs" "condensed g sccs reduced" "(a, b) \<in> (sedges reduced)\<^sup>*"
  shows "placed sccs u a \<Longrightarrow> placed sccs v b \<Longrightarrow> (u, v) \<in> (sedges g)\<^sup>*"
  using assms(3)
proof (induction arbitrary: v rule: rtrancl_induct)
  case base
  then show ?case using components_facts(3)[OF assms(1)] by blast
next
  case (step b c)
  from step(2) assms(2) obtain x y where e: "(x, y) \<in> sedges g" "placed sccs x b" "placed sccs y c" unfolding condensed_def by blast
  have "(y, v) \<in> (sedges g)\<^sup>*" using components_facts(3)[OF assms(1) e(3) step(5)] by blast
  with step(3)[OF step(4) e(2)] e(1) show ?case by (meson rtrancl.rtrancl_into_rtrancl rtrancl_trans)
qed

lemma condensed_acyclic:
  assumes "components g sccs" "condensed g sccs reduced"
  shows "acyclic (kahn_relation reduced)"
proof (rule ccontr)
  assume "\<not> acyclic (kahn_relation reduced)"
  then obtain a where "(a, a) \<in> (sedges reduced)\<^sup>+" by (auto simp: acyclic_def kahn_relation_def sedges_def)
  then obtain b where b: "(a, b) \<in> sedges reduced" "(b, a) \<in> (sedges reduced)\<^sup>*" by (meson tranclD)
  then obtain u v where e: "a \<noteq> b" "(u, v) \<in> sedges g" "placed sccs u a" "placed sccs v b"
    using assms(2) unfolding condensed_def by blast
  from condensed_path[OF assms b(2) e(4,3)] components_facts(3)[OF assms(1) e(3,4)] e(1,2) show False by blast
qed

end
