(* ===== verification/Stratify_Correct.thy ===== *)
theory Stratify_Correct
  imports Stratify_Laws
begin

text \<open>
  The stratifier end to end: it refuses exactly the programs with a poisoned read on a cycle of needed rules, and
  on every other program the strata compute each rule after what it reads.
\<close>

section \<open>Lifetimes\<close>

lemma note_use_wf: "bt_wf lts \<Longrightarrow> bt_wf (note_use st n lts)"
  by (simp add: note_use_def bt_insert_wf split: option.split)

lemma live_note_use:
  "bt_wf lts \<Longrightarrow> is_live_at (note_use st n lts) st' s \<longleftrightarrow> is_live_at lts st' s \<or> st' = st \<and> s \<le> n"
  by (auto simp: is_live_at_def note_use_def bt_get_insert split: option.splits)

lemma live_note_uses:
  "bt_wf lts \<Longrightarrow> bt_wf (note_uses tos n lts)
     \<and> (is_live_at (note_uses tos n lts) st s \<longleftrightarrow> is_live_at lts st s \<or> (\<exists>t \<in> set tos. st = Muggle (fst t) \<and> s \<le> n))"
proof (induction tos arbitrary: lts)
  case (Cons t tos)
  show ?case using Cons.IH[OF note_use_wf[OF Cons.prems], of "Muggle (fst t)" n] live_note_use[OF Cons.prems, of "Muggle (fst t)" n st s] by auto
qed simp

lemma live_collect:
  "bt_wf lts \<Longrightarrow> is_live_at (collect_lifetimes invert exec_of g lts) st s \<longleftrightarrow> is_live_at lts st s
     \<or> (\<exists>e \<in> set g. \<exists>n. Option.bind (bt_get invert (fst e)) (bt_get exec_of) = Some n \<and> s \<le> n \<and> (\<exists>t \<in> set (snd e). st = Muggle (fst t)))"
proof (induction g arbitrary: lts)
  case (Cons e g)
  show ?case
  proof (cases "Option.bind (bt_get invert (fst e)) (bt_get exec_of)")
    case None
    with Cons show ?thesis by simp
  next
    case (Some n)
    note uses = live_note_uses[OF Cons.prems, of "snd e" n]
    show ?thesis using Cons.IH[of "note_uses (snd e) n lts"] uses Some by auto
  qed
qed simp

lemma not_live_empty: "\<not> is_live_at [] st s"
  by (simp add: is_live_at_def bt_get_def)

section \<open>Distribution\<close>

definition distributed :: "(string \<Rightarrow> nat option) \<Rightarrow> (string \<times> 'c nf_ruleset) list \<Rightarrow> 'c nf_stratum list \<Rightarrow> 'c nf_stratum list \<Rightarrow> bool" where
  "distributed pos rules strata out \<longleftrightarrow> length out = length strata \<and> (\<forall>r < length strata. \<forall>k. bt_get (out ! r) k =
     (if pos k = Some r \<and> k \<in> fst ` set rules then map_of rules k else bt_get (strata ! r) k))"

lemma distribute_spec:
  fixes invert :: "(string, nat) entries" and rev_of :: "(nat, nat) entries"
  defines "pos \<equiv> \<lambda>k. Option.bind (bt_get invert k) (bt_get rev_of)"
  assumes "\<forall>k c. bt_get invert k = Some c \<longrightarrow> (\<exists>r. bt_get rev_of c = Some r \<and> r < length strata)"
    "distinct (map fst rules)" "\<forall>s \<in> set strata. bt_wf s"
  shows "\<exists>out. distribute invert rev_of rules strata = Inr out \<and> distributed pos rules strata out"
  using assms(2-)
proof (induction rules arbitrary: strata)
  case Nil
  show ?case by (simp add: distributed_def)
next
  case (Cons e rules)
  obtain k0 rs0 where e: "e = (k0, rs0)" by fastforce
  have new: "k0 \<notin> fst ` set rules" and d: "distinct (map fst rules)" using Cons.prems(2) e by simp_all
  show ?case
  proof (cases "bt_get invert k0")
    case None
    then have "pos k0 = None" by (simp add: pos_def)
    then have "distributed pos (e # rules) strata out" if "distributed pos rules strata out" for out
      using that unfolding distributed_def e by auto
    moreover have "distribute invert rev_of (e # rules) strata = distribute invert rev_of rules strata" using None by (simp add: e)
    ultimately show ?thesis using Cons.IH[OF Cons.prems(1) d Cons.prems(3)] by auto
  next
    case (Some c)
    then obtain r0 where r0: "bt_get rev_of c = Some r0" "r0 < length strata" using Cons.prems(1) by blast
    then have pos: "pos k0 = Some r0" using Some by (simp add: pos_def)
    define st where "st = strata[r0 := bt_insert k0 rs0 (strata ! r0)]"
    have len: "length st = length strata" by (simp add: st_def)
    have wf: "\<forall>s \<in> set st. bt_wf s" using Cons.prems(3) r0(2)
      unfolding st_def by (metis bt_insert_wf insert_iff nth_mem set_update_subset_insert subset_iff)
    have get: "bt_get (st ! r) k = (if r = r0 \<and> k = k0 then Some rs0 else bt_get (strata ! r) k)" if "r < length strata" for r k
      using that r0(2) Cons.prems(3) by (auto simp: st_def nth_list_update_read bt_get_insert)
    obtain out where out: "distribute invert rev_of rules st = Inr out" "distributed pos rules st out"
      using Cons.IH[of st] Cons.prems(1) d wf unfolding len by blast
    have "distribute invert rev_of (e # rules) strata = Inr out" using Some r0 out(1) by (simp add: e st_def)
    moreover have "distributed pos (e # rules) strata out"
      using out(2) new pos unfolding distributed_def e len by (auto simp: get)
    ultimately show ?thesis by blast
  qed
qed

section \<open>The layout\<close>

text \<open>
  The strata by a level of every needed rule: each rule with its rule set in the stratum of its level, no rule
  below what it reads and strictly above what it needs complete, the entry in the last, and a store live up to
  the last level that reads it.
\<close>

definition stratified_at :: "'c nf_program \<Rightarrow> string set \<Rightarrow> (string \<times> string) set \<Rightarrow> (string \<times> string) set
    \<Rightarrow> (string \<Rightarrow> nat) \<Rightarrow> 'c stratified_program \<Rightarrow> store_lifetimes \<Rightarrow> bool" where
  "stratified_at prog V E P lvl sp lts \<longleftrightarrow>
     (\<forall>i < length (sp_strata sp). \<forall>k. bt_get (sp_strata sp ! i) k = (if k \<in> V \<and> lvl k = i then map_of (iter_all prog) k else None))
     \<and> (\<forall>k \<in> V. lvl k < length (sp_strata sp))
     \<and> (\<forall>(u, v) \<in> E. v \<in> V \<longrightarrow> lvl v \<le> lvl u)
     \<and> (\<forall>(u, v) \<in> P. v \<in> V \<longrightarrow> lvl v < lvl u)
     \<and> PROG_ENTRY \<in> V \<and> Suc (lvl PROG_ENTRY) = length (sp_strata sp)
     \<and> (\<forall>v s. is_live_at lts (Muggle v) s \<longleftrightarrow> (\<exists>u. (u, v) \<in> E \<and> s \<le> lvl u))
     \<and> sp_disable_magic sp = np_disable_magic prog"

lemma rev_placed: "i < length xs \<Longrightarrow> placed (rev xs) c i \<longleftrightarrow> placed xs c (length xs - Suc i)"
  by (auto simp: placed_def rev_nth)

lemma kahn_entry_first:
  assumes "graph_wf reduced" "generalized_kahn reduced n = Inr layers" "c < n" "\<And>b. b < n \<Longrightarrow> (c, b) \<in> (sedges reduced)\<^sup>*"
  shows "placed layers c 0"
proof -
  note lay = generalized_kahn_layout[OF assms(1,2)]
  have "layers \<noteq> []" using lay(2) assms(3) by (metis concat.simps(1) empty_iff empty_set lessThan_iff)
  then obtain xs rest where s: "layers = xs # rest" by (cases layers) auto
  with lay(3) obtain b ys where x: "xs = b # ys" by (cases xs) auto
  have "\<not> kedge reduced u b p" for u p using lay(5) by (fastforce simp: topo_ok_def s x)
  moreover have "(c, b) \<in> (sedges reduced)\<^sup>*" using assms(4)[of b] lay(2) by (auto simp: s x)
  ultimately have "c = b" by (auto simp: sedges_def elim: rtranclE)
  then show ?thesis by (simp add: placed_def s x)
qed

lemma kahn_edge_order:
  assumes "graph_wf reduced" "generalized_kahn reduced n = Inr layers" "kedge reduced a b p" "placed layers a i" "placed layers b j"
  shows "i \<le> j" "p \<Longrightarrow> i < j"
proof -
  note lay = generalized_kahn_layout[OF assms(1,2)]
  obtain i' where i': "i' \<le> j" "a \<in> set (layers ! i')" "p \<longrightarrow> i' < j"
    using lay(4) assms(3,5) unfolding strata_ok_def placed_def by blast
  then have "placed layers a i'" using assms(5) by (simp add: placed_def)
  then have "i' = i" using placed_unique[OF lay(1)] assms(4) by blast
  with i' show "i \<le> j" "p \<Longrightarrow> i < j" by auto
qed

text \<open>The position of a rule in the sort of its components.\<close>

definition rank_in :: "string list list \<Rightarrow> nat list list \<Rightarrow> string \<Rightarrow> nat option" where
  "rank_in sccs layers k = Option.bind (bt_get (bt_of_list (indexed sccs)) k) (bt_get (bt_of_list (indexed layers)))"

lemma rank_in_Some:
  "distinct (concat sccs) \<Longrightarrow> distinct (concat layers) \<Longrightarrow> rank_in sccs layers k = Some r \<longleftrightarrow> (\<exists>a. placed sccs k a \<and> placed layers a r)"
  by (auto simp: rank_in_def bind_eq_Some_conv index_get placed_def)

lemma condensed_edge:
  assumes "condensed g sccs reduced" "kedge g u v p" "placed sccs u a" "placed sccs v b" "a \<noteq> b"
  shows "(a, b) \<in> sedges reduced"
proof -
  have "(u, v) \<in> sedges g" using assms(2) by (auto simp: sedges_def)
  moreover have "(a, b) \<in> sedges reduced \<longleftrightarrow> a \<noteq> b \<and> (\<exists>u v. (u, v) \<in> sedges g \<and> placed sccs u a \<and> placed sccs v b)"
    using assms(1) by (simp add: condensed_def)
  ultimately show ?thesis using assms(3-5) by blast
qed

lemma condensed_poison:
  assumes "condensed g sccs reduced" "kedge g u v True" "placed sccs u a" "placed sccs v b" "a \<noteq> b"
  shows "kedge reduced a b True"
proof -
  have "kedge reduced a b True \<longleftrightarrow> a \<noteq> b \<and> (\<exists>u v. kedge g u v True \<and> placed sccs u a \<and> placed sccs v b)"
    using assms(1) by (simp add: condensed_def)
  then show ?thesis using assms(2-5) by blast
qed

lemma rank_edge:
  assumes "components g sccs" "condensed g sccs reduced" "generalized_kahn reduced (length sccs) = Inr layers"
    "kedge g u v p" "p \<Longrightarrow> \<not> (\<exists>a. placed sccs u a \<and> placed sccs v a)"
    "rank_in sccs layers u = Some i" "rank_in sccs layers v = Some j"
  shows "i \<le> j" "p \<Longrightarrow> i < j"
proof -
  have wf: "graph_wf reduced" using assms(2) by (simp add: condensed_def)
  note d = components_facts(1)[OF assms(1)] generalized_kahn_layout(1)[OF wf assms(3)]
  obtain a b where ab: "placed sccs u a" "placed layers a i" "placed sccs v b" "placed layers b j"
    using assms(6,7) by (auto simp: rank_in_Some[OF d])
  have "i \<le> j \<and> (p \<longrightarrow> i < j)"
  proof (cases "a = b")
    case True
    then have "i = j" using placed_unique[OF d(2) ab(2)] ab(4) by simp
    moreover have "\<not> p" using assms(5) ab(1,3) True by blast
    ultimately show ?thesis by simp
  next
    case False
    have "(a, b) \<in> sedges reduced" by (rule condensed_edge[OF assms(2,4) ab(1,3) False])
    then obtain q where q: "kedge reduced a b q" by (auto simp: sedges_def)
    have strict: "kedge reduced a b True" if p using condensed_poison[OF assms(2) _ ab(1,3) False] assms(4) that by simp
    have "i < j" if p using kahn_edge_order(2)[OF wf assms(3) strict[OF that] ab(2,4)] by simp
    then show ?thesis using kahn_edge_order(1)[OF wf assms(3) q ab(2,4)] by simp
  qed
  then show "i \<le> j" "p \<Longrightarrow> i < j" by auto
qed

lemma condensed_reach:
  assumes "components g sccs" "condensed g sccs reduced" "placed sccs u a" "(u, w) \<in> (sedges g)\<^sup>*"
  shows "placed sccs w b \<Longrightarrow> (a, b) \<in> (sedges reduced)\<^sup>*"
  using assms(4)
proof (induction arbitrary: b rule: rtrancl_induct)
  case base
  then show ?case using placed_unique[OF components_facts(1)[OF assms(1)] assms(3)] by blast
next
  case (step y z)
  from step(2) obtain p where e: "kedge g y z p" by (auto simp: sedges_def)
  then have "y \<in> fst ` set g" using bt_get_fst[of g y] by (auto simp: kedge_def)
  then obtain c where c: "placed sccs y c" using components_facts(2)[OF assms(1)] by blast
  show ?case
  proof (cases "c = b")
    case False
    from condensed_edge[OF assms(2) e c step(4) False] step(3)[OF c] show ?thesis by simp
  qed (use step(3)[OF c] in simp)
qed

lemma distinct_concat_rev: "distinct (concat xs) \<Longrightarrow> distinct (concat (rev xs))"
  by (induction xs) auto

text \<open>The sort of the components, as ranks of the rules.\<close>

definition ranked :: "string stratified_graph \<Rightarrow> string list list \<Rightarrow> nat list list \<Rightarrow> bool" where
  "ranked g sccs layers \<longleftrightarrow> distinct (concat layers) \<and> (\<forall>k. k \<in> fst ` set g \<longleftrightarrow> rank_in sccs layers k \<noteq> None)
     \<and> (\<forall>k r. rank_in sccs layers k = Some r \<longrightarrow> r < length layers) \<and> rank_in sccs layers PROG_ENTRY = Some 0"

lemma rankedD:
  assumes "ranked g sccs layers"
  shows "distinct (concat layers)" "\<And>k. k \<in> fst ` set g \<longleftrightarrow> rank_in sccs layers k \<noteq> None"
    "\<And>k r. rank_in sccs layers k = Some r \<Longrightarrow> r < length layers" "rank_in sccs layers PROG_ENTRY = Some 0"
  using assms unfolding ranked_def by blast+

lemma condensed_sorted:
  assumes comp: "components g sccs" and entry: "PROG_ENTRY \<in> fst ` set g"
    and reach: "\<And>u. u \<in> fst ` set g \<Longrightarrow> (PROG_ENTRY, u) \<in> (sedges g)\<^sup>*" and cond: "condensed g sccs reduced"
  obtains layers where "generalized_kahn reduced (length sccs) = Inr layers" "ranked g sccs layers"
proof -
  have wf: "graph_wf reduced" using cond by (simp add: condensed_def)
  have "in_range reduced (length sccs)" using cond by (simp add: condensed_def)
  then have "\<exists>layers. generalized_kahn reduced (length sccs) = Inr layers"
    using generalized_kahn_iff[OF wf, of "length sccs"] condensed_acyclic[OF comp cond] by simp
  then obtain layers where lay: "generalized_kahn reduced (length sccs) = Inr layers" by blast
  note ly = generalized_kahn_layout[OF wf lay]
  note cf = components_facts[OF comp]
  note rk = rank_in_Some[OF cf(1) ly(1)]
  have "\<exists>r. placed layers a r" if "placed sccs k a" for k a
    using that ly(2) unfolding placed_ex[symmetric] by (simp add: placed_def)
  then have known: "k \<in> fst ` set g \<longleftrightarrow> rank_in sccs layers k \<noteq> None" for k unfolding cf(2) not_None_eq rk by blast
  obtain c where c: "placed sccs PROG_ENTRY c" using cf(2) entry by blast
  have "(c, b) \<in> (sedges reduced)\<^sup>*" if "b < length sccs" for b
  proof -
    have "sccs ! b \<noteq> []" using comp that nth_mem[OF that] unfolding components_def scc_partition_def by metis
    then have w: "placed sccs (hd (sccs ! b)) b" using that by (simp add: placed_def)
    show ?thesis using condensed_reach[OF comp cond c reach w] cf(2) w by blast
  qed
  from kahn_entry_first[OF wf lay _ this] c have "placed layers c 0" by (simp add: placed_def)
  then have first: "rank_in sccs layers PROG_ENTRY = Some 0" using c rk[of PROG_ENTRY 0] by blast
  have "r < length layers" if "rank_in sccs layers k = Some r" for k r using that rk[of k r] by (auto simp: placed_def)
  then have "ranked g sccs layers" using ly(1) known first unfolding ranked_def by blast
  from that[OF lay this] show ?thesis .
qed

lemma rank_in_rev:
  assumes "distinct (concat sccs)" "distinct (concat layers)"
  shows "rank_in sccs (rev layers) k = Some n \<longleftrightarrow> n < length layers \<and> rank_in sccs layers k = Some (length layers - Suc n)"
proof (cases "n < length layers")
  case True
  then show ?thesis using rank_in_Some[OF assms(1) distinct_concat_rev[OF assms(2)]] rank_in_Some[OF assms] by (simp add: rev_placed)
next
  case False
  then show ?thesis using rank_in_Some[OF assms(1) distinct_concat_rev[OF assms(2)], of k n] by (auto simp: placed_def)
qed

lemma tier_of_reversed:
  assumes "out \<noteq> []" "bt_get (out ! 0) PROG_ENTRY \<noteq> None"
  shows "from_reverse_execution_order out dm = Inr \<lparr>sp_strata = rev out, sp_disable_magic = dm\<rparr>"
proof -
  have "PROG_ENTRY \<in> fst ` set (hd out)" using assms bt_get_fst[of "hd out" PROG_ENTRY] by (simp add: hd_conv_nth)
  then obtain rs where "(PROG_ENTRY, rs) \<in> set (hd out)" by auto
  then have "holds_entry (hd out)" unfolding holds_entry_def list_ex_iff by (rule bexI[rotated]) (simp add: symbol_kind_of_def)
  with assms(1) show ?thesis by (simp add: from_reverse_execution_order_def Let_def last_rev)
qed

lemma map_of_iter_all: "program_wf prog \<Longrightarrow> map_of (iter_all prog) k \<noteq> None \<longleftrightarrow> k \<in> fst ` set (iter_all prog)"
  by (simp add: map_of_eq_None_iff)

definition level_of :: "string list list \<Rightarrow> nat list list \<Rightarrow> string \<Rightarrow> nat" where
  "level_of sccs layers k = length layers - Suc (the (rank_in sccs layers k))"

lemma reversed_strata_spec:
  assumes "distributed (rank_in sccs layers) rules (replicate (length layers) []) out" "i < length layers"
    "\<And>k. rank_in sccs layers k \<noteq> None \<Longrightarrow> k \<in> fst ` set rules"
    "\<And>k r. rank_in sccs layers k = Some r \<Longrightarrow> r < length layers"
  shows "bt_get (rev out ! i) k = (if rank_in sccs layers k \<noteq> None \<and> level_of sccs layers k = i then map_of rules k else None)"
proof -
  have len: "length out = length layers" using assms(1) by (simp add: distributed_def)
  have "length layers - Suc i < length layers" using assms(2) by simp
  then have "bt_get (out ! (length layers - Suc i)) k
      = (if rank_in sccs layers k = Some (length layers - Suc i) \<and> k \<in> fst ` set rules then map_of rules k else None)"
    using assms(1) by (simp add: distributed_def bt_get_def)
  moreover have "rank_in sccs layers k = Some (length layers - Suc i) \<longleftrightarrow> rank_in sccs layers k \<noteq> None \<and> level_of sccs layers k = i"
    using assms(2) assms(4)[of k] by (auto simp: level_of_def)
  ultimately show ?thesis using assms(2) assms(3)[of k] by (auto simp: rev_nth len)
qed

lemma lifetimes_spec:
  assumes wf: "graph_wf g" and d: "distinct (concat sccs)" "distinct (concat layers)"
    and known: "\<And>k. k \<in> fst ` set g \<longleftrightarrow> rank_in sccs layers k \<noteq> None" and lt: "\<And>k r. rank_in sccs layers k = Some r \<Longrightarrow> r < length layers"
  shows "is_live_at (collect_lifetimes (bt_of_list (indexed sccs)) (bt_of_list (indexed (rev layers))) g []) (Muggle v) s
    \<longleftrightarrow> (\<exists>u. (u, v) \<in> sedges g \<and> s \<le> level_of sccs layers u)"
proof -
  have rank: "rank_in sccs (rev layers) u = Some n \<longleftrightarrow> n = level_of sccs layers u" if u: "u \<in> fst ` set g" for u n
  proof -
    obtain r where r: "rank_in sccs layers u = Some r" using known u by auto
    have "r < length layers" by (rule lt[OF r])
    then show ?thesis unfolding rank_in_rev[OF d] r level_of_def by auto
  qed
  have "is_live_at (collect_lifetimes (bt_of_list (indexed sccs)) (bt_of_list (indexed (rev layers))) g []) (Muggle v) s
    \<longleftrightarrow> (\<exists>e \<in> set g. \<exists>n. rank_in sccs (rev layers) (fst e) = Some n \<and> s \<le> n \<and> (\<exists>t \<in> set (snd e). v = fst t))"
    by (simp add: live_collect rank_in_def not_live_empty)
  also have "\<dots> \<longleftrightarrow> (\<exists>e \<in> set g. s \<le> level_of sccs layers (fst e) \<and> (\<exists>t \<in> set (snd e). v = fst t))"
    using rank by (metis image_eqI)
  also have "\<dots> \<longleftrightarrow> (\<exists>u. (u, v) \<in> sedges g \<and> s \<le> level_of sccs layers u)"
    unfolding sedges_def kedge_set[OF wf] Bex_def split_paired_Ex fst_conv snd_conv by blast
  finally show ?thesis .
qed

text \<open>The needed rules of a program whose dependency graph, cut to them, is \<open>g\<close>.\<close>

definition needed_graph :: "'c nf_program \<Rightarrow> string stratified_graph \<Rightarrow> bool" where
  "needed_graph prog g \<longleftrightarrow> fst ` set g \<subseteq> fst ` set (iter_all prog) \<and> PROG_ENTRY \<in> fst ` set g
     \<and> (\<forall>u \<in> fst ` set g. (PROG_ENTRY, u) \<in> (sedges g)\<^sup>*)"

lemma distribute_rules:
  assumes "components g sccs" "program_wf prog" "ranked g sccs layers"
  obtains out where
    "distribute (bt_of_list (indexed sccs)) (bt_of_list (indexed layers)) (iter_all prog) (replicate (length layers) []) = Inr out"
    "distributed (rank_in sccs layers) (iter_all prog) (replicate (length layers) []) out"
proof -
  have "\<exists>r. bt_get (bt_of_list (indexed layers)) c = Some r \<and> r < length layers" if c: "bt_get (bt_of_list (indexed sccs)) k = Some c" for k c
  proof -
    have "k \<in> fst ` set g" using c index_get[OF components_facts(1)[OF assms(1)]] components_facts(2)[OF assms(1)] by (auto simp: placed_def)
    then obtain r where r: "rank_in sccs layers k = Some r" using rankedD(2)[OF assms(3)] by auto
    then show ?thesis using rankedD(3)[OF assms(3) r] c by (auto simp: rank_in_def)
  qed
  then have "\<exists>out. distribute (bt_of_list (indexed sccs)) (bt_of_list (indexed layers)) (iter_all prog) (replicate (length layers) []) = Inr out
      \<and> distributed (\<lambda>k. Option.bind (bt_get (bt_of_list (indexed sccs)) k) (bt_get (bt_of_list (indexed layers)))) (iter_all prog) (replicate (length layers) []) out"
    by (intro distribute_spec) (simp_all add: iter_all_distinct[OF assms(2)])
  then show ?thesis using that by (auto simp: rank_in_def[abs_def])
qed

lemma lay_out_runs:
  assumes prog: "program_wf prog" and comp: "components g sccs" and need: "needed_graph prog g"
    and ver: "verify_no_cycle g spans sccs = Inr ()"
  obtains layers out reduced where "condensed g sccs reduced" "generalized_kahn reduced (length sccs) = Inr layers" "ranked g sccs layers" "distributed (rank_in sccs layers) (iter_all prog) (replicate (length layers) []) out"
    "lay_out prog g spans sccs = Inr (\<lparr>sp_strata = rev out, sp_disable_magic = np_disable_magic prog\<rparr>,
       collect_lifetimes (bt_of_list (indexed sccs)) (bt_of_list (indexed (rev layers))) g [])"
proof -
  obtain reduced where red: "make_scc_reduced_graph sccs g = Inr (bt_of_list (indexed sccs), reduced)" "condensed g sccs reduced"
    using make_scc_reduced_graph_spec[OF comp] .
  have entry: "PROG_ENTRY \<in> fst ` set g" and reach: "\<And>u. u \<in> fst ` set g \<Longrightarrow> (PROG_ENTRY, u) \<in> (sedges g)\<^sup>*"
    and sub: "fst ` set g \<subseteq> fst ` set (iter_all prog)" using need unfolding needed_graph_def by blast+
  obtain layers where lay: "generalized_kahn reduced (length sccs) = Inr layers" "ranked g sccs layers"
    using condensed_sorted[OF comp entry reach red(2)] .
  note rk = rankedD[OF lay(2)]
  obtain out where out: "distribute (bt_of_list (indexed sccs)) (bt_of_list (indexed layers)) (iter_all prog) (replicate (length layers) []) = Inr out"
    "distributed (rank_in sccs layers) (iter_all prog) (replicate (length layers) []) out"
    using distribute_rules[OF comp prog lay(2)] .
  have pos: "0 < length layers" by (rule rk(3)[OF rk(4)])
  have len: "out \<noteq> []" using out(2) pos by (auto simp: distributed_def)
  have "bt_get (out ! 0) PROG_ENTRY = map_of (iter_all prog) PROG_ENTRY"
    using out(2) pos rk(4) sub entry by (auto simp: distributed_def)
  then have "bt_get (out ! 0) PROG_ENTRY \<noteq> None" using map_of_iter_all[OF prog, of PROG_ENTRY] sub entry by auto
  note tier = tier_of_reversed[OF len this, of "np_disable_magic prog"]
  have "lay_out prog g spans sccs = Inr (\<lparr>sp_strata = rev out, sp_disable_magic = np_disable_magic prog\<rparr>,
       collect_lifetimes (bt_of_list (indexed sccs)) (bt_of_list (indexed (rev layers))) g [])"
    by (simp add: lay_out_def ver red(1) lay(1) out(1) tier Let_def)
  from that[OF red(2) lay out(2) this] show ?thesis .
qed

theorem lay_out_ok:
  assumes prog: "program_wf prog" and comp: "components g sccs" and need: "needed_graph prog g"
    and ver: "verify_no_cycle g spans sccs = Inr ()"
  shows "\<exists>lvl sp lts. lay_out prog g spans sccs = Inr (sp, lts)
    \<and> stratified_at prog (fst ` set g) (sedges g) {(u, v). kedge g u v True} lvl sp lts"
proof -
  obtain layers out reduced where r: "condensed g sccs reduced" "generalized_kahn reduced (length sccs) = Inr layers" "ranked g sccs layers" "distributed (rank_in sccs layers) (iter_all prog) (replicate (length layers) []) out"
    "lay_out prog g spans sccs = Inr (\<lparr>sp_strata = rev out, sp_disable_magic = np_disable_magic prog\<rparr>,
       collect_lifetimes (bt_of_list (indexed sccs)) (bt_of_list (indexed (rev layers))) g [])"
    using lay_out_runs[OF assms] .
  note rk = rankedD[OF r(3)]
  let ?lvl = "level_of sccs layers" and ?V = "fst ` set g"
  have wf: "graph_wf g" and sub: "?V \<subseteq> fst ` set (iter_all prog)" and entry: "PROG_ENTRY \<in> ?V"
    using comp need by (simp_all add: components_def needed_graph_def)
  have len: "length out = length layers" using r(4) by (simp add: distributed_def)
  have bound: "?lvl k < length layers" if "k \<in> ?V" for k using rk(3)[OF rk(4)] by (auto simp: level_of_def)
  have known: "rank_in sccs layers k \<noteq> None \<Longrightarrow> k \<in> fst ` set (iter_all prog)" for k using rk(2) sub by blast
  have strata: "bt_get (rev out ! i) k = (if k \<in> ?V \<and> ?lvl k = i then map_of (iter_all prog) k else None)" if "i < length layers" for i k
    unfolding rk(2) by (rule reversed_strata_spec[OF r(4) that known rk(3)])
  have edge: "?lvl v \<le> ?lvl u \<and> (p \<longrightarrow> ?lvl v < ?lvl u)" if e: "kedge g u v p" and v: "v \<in> ?V" for u v p
  proof -
    have "u \<in> ?V" using e bt_get_fst[of g u] by (auto simp: kedge_def)
    then obtain i where i: "rank_in sccs layers u = Some i" using rk(2)[of u] by auto
    obtain j where j: "rank_in sccs layers v = Some j" using rk(2)[of v] v by auto
    have "\<not> (\<exists>a. placed sccs u a \<and> placed sccs v a)" if p
      using ver e that unfolding verify_no_cycle_ok[OF wf] placed_def by (metis (full_types) nth_mem)
    note ij = rank_edge[OF comp r(1,2) e this i j]
    show ?thesis using ij rk(3)[OF i] rk(3)[OF j] by (auto simp: level_of_def i j)
  qed
  have last: "Suc (?lvl PROG_ENTRY) = length layers" using rk(3)[OF rk(4)] by (simp add: level_of_def rk(4))
  note life = lifetimes_spec[OF wf components_facts(1)[OF comp] rk(1,2,3)]
  show ?thesis
    by (intro exI[of _ ?lvl] exI conjI, rule r(5))
      (auto simp: stratified_at_def strata len bound last life entry sedges_def dest: edge)
qed

end
