(* ===== verification/Stratify_Program.thy ===== *)
theory Stratify_Program
  imports Stratify_Correct
begin

text \<open>
  The stratifier against the reads of a program: the pruned dependency graph, and the acceptance, layout and
  refusal of whole programs.
\<close>

definition needed :: "'c nf_program \<Rightarrow> string set" where
  "needed prog = {k \<in> fst ` set (iter_all prog). (PROG_ENTRY, k) \<in> (depends prog)\<^sup>*}"

definition from_needed :: "'c nf_program \<Rightarrow> (string \<times> string) set \<Rightarrow> (string \<times> string) set" where
  "from_needed prog E = {(u, v) \<in> E. u \<in> needed prog}"

text \<open>A needed rule needs complete a rule that depends on it.\<close>

definition conflict :: "'c nf_program \<Rightarrow> string \<Rightarrow> string \<Rightarrow> bool" where
  "conflict prog u v \<longleftrightarrow> u \<in> needed prog \<and> (u, v) \<in> poisoned prog \<and> (v, u) \<in> (depends prog)\<^sup>*"

lemma depends_source: "(u, v) \<in> depends prog \<Longrightarrow> u \<in> fst ` set (iter_all prog)"
  by (force simp: depends_def rule_read_def)

lemma poisoned_depends: "(u, v) \<in> poisoned prog \<Longrightarrow> (u, v) \<in> depends prog"
  by (auto simp: poisoned_def depends_def)

lemma needed_step: "u \<in> needed prog \<Longrightarrow> (u, v) \<in> depends prog \<Longrightarrow> v \<in> fst ` set (iter_all prog) \<Longrightarrow> v \<in> needed prog"
  by (auto simp: needed_def intro: rtrancl_into_rtrancl)

lemma depends_path_name:
  assumes "(v, u) \<in> (depends prog)\<^sup>*" "u \<in> fst ` set (iter_all prog)"
  shows "v \<in> fst ` set (iter_all prog)"
  using assms by (metis converse_rtranclE depends_source)

text \<open>Paths between needed rules stay among the needed rules.\<close>

lemma needed_path:
  assumes "u \<in> needed prog"
  shows "(u, v) \<in> (from_needed prog (depends prog))\<^sup>* \<longleftrightarrow> (u, v) \<in> (depends prog)\<^sup>*"
proof
  assume "(u, v) \<in> (depends prog)\<^sup>*"
  then show "(u, v) \<in> (from_needed prog (depends prog))\<^sup>*"
  proof (induction rule: rtrancl_induct)
    case (step y z)
    have "(PROG_ENTRY, y) \<in> (depends prog)\<^sup>*" using assms step(1) by (auto simp: needed_def)
    then have "y \<in> needed prog" using depends_source[OF step(2)] by (simp add: needed_def)
    then have "(y, z) \<in> from_needed prog (depends prog)" using step(2) by (simp add: from_needed_def)
    then show ?case using step(3) by simp
  qed simp
next
  assume "(u, v) \<in> (from_needed prog (depends prog))\<^sup>*"
  moreover have "from_needed prog (depends prog) \<subseteq> depends prog" by (auto simp: from_needed_def)
  ultimately show "(u, v) \<in> (depends prog)\<^sup>*" using rtrancl_mono by blast
qed

section \<open>The pruned graph\<close>

lemma reduce_edges: "graph_edges (reduce_to_graph g) = sedges g"
proof -
  have "bt_get (reduce_to_graph g) u = map_option (map fst) (bt_get g u)" for u
    by (simp add: reduce_to_graph_def bt_get_def map_of_map)
  moreover have "v \<in> set (map fst tos) \<longleftrightarrow> (\<exists>p. bt_get tos v = Some p)" for v and tos :: "(string, bool) entries"
    using bt_get_fst[of tos v] by auto
  ultimately show ?thesis by (auto simp: graph_edges_def sedges_def kedge_def)
qed

lemma reduce_filter: "filter (\<lambda>e. W (fst e)) (reduce_to_graph g) = reduce_to_graph (filter (\<lambda>e. W (fst e)) g)"
  by (induction g) (auto simp: reduce_to_graph_def)

lemma reduce_keys: "map fst (reduce_to_graph g) = map fst g"
  by (induction g) (auto simp: reduce_to_graph_def)

lemma reduce_wf: "bt_wf g \<Longrightarrow> bt_wf (reduce_to_graph g)"
  by (simp add: bt_wf_def reduce_keys)

lemma kedge_filter: "kedge (filter (\<lambda>e. W (fst e)) g) u v p \<longleftrightarrow> W u \<and> kedge g u v p"
  by (auto simp: kedge_def bt_get_filter)

lemma graph_wf_filter: "graph_wf g \<Longrightarrow> graph_wf (filter P g)"
  by (auto simp: graph_wf_def bt_filter_wf)

definition pruned :: "'c nf_program \<Rightarrow> string stratified_graph \<Rightarrow> bool" where
  "pruned prog g \<longleftrightarrow> graph_wf g \<and> fst ` set g = needed prog \<and> sedges g = from_needed prog (depends prog)
     \<and> {(u, v). kedge g u v True} = from_needed prog (poisoned prog)"

lemma prune_spec:
  assumes prog: "program_wf prog" and conv: "convert_normal_form_program_to_graph prog = (labelled, spans)"
  shows "pruned prog (filter (\<lambda>e. fst e \<in> set (reachable_components (reduce_to_graph labelled) (np_entry_name prog))) labelled)"
proof -
  note cg = convert_graph[OF prog conv]
  have sed: "sedges labelled = depends prog" using cg(4) by (auto simp: sedges_def)
  have entry: "np_entry_name prog = PROG_ENTRY" using prog by (simp add: program_wf_def)
  have mem: "k \<in> set (reachable_components (reduce_to_graph labelled) (np_entry_name prog)) \<longleftrightarrow> (PROG_ENTRY, k) \<in> (depends prog)\<^sup>*" for k
    using reachable_components_spec(1)[of "reduce_to_graph labelled" PROG_ENTRY] by (simp add: entry reduce_edges sed)
  let ?g = "filter (\<lambda>e. (PROG_ENTRY, fst e) \<in> (depends prog)\<^sup>*) labelled"
  note kf = kedge_filter[of "\<lambda>k. (PROG_ENTRY, k) \<in> (depends prog)\<^sup>*" labelled]
  have "fst ` set ?g = needed prog" unfolding needed_def cg(2)[symmetric] by force
  moreover have "sedges ?g = from_needed prog (depends prog)"
  proof -
    have "(u, v) \<in> sedges ?g \<longleftrightarrow> (u, v) \<in> from_needed prog (depends prog)" for u v
      using cg(4)[of u v] depends_source[of u v prog] unfolding sedges_def from_needed_def needed_def kf by auto
    then show ?thesis by auto
  qed
  moreover have "{(u, v). kedge ?g u v True} = from_needed prog (poisoned prog)"
  proof -
    have "kedge ?g u v True \<longleftrightarrow> (u, v) \<in> from_needed prog (poisoned prog)" for u v
      using cg(5)[of u v] depends_source[of u v prog] poisoned_depends[of u v prog] unfolding from_needed_def needed_def kf by auto
    then show ?thesis by auto
  qed
  ultimately show ?thesis using graph_wf_filter[OF cg(1)] unfolding pruned_def mem by blast
qed

lemma pruned_needed:
  assumes "program_wf prog" "pruned prog g"
  shows "needed_graph prog g"
proof -
  have "PROG_ENTRY \<in> needed prog" using assms(1) by (simp add: program_wf_def needed_def iter_all_def)
  moreover have "(PROG_ENTRY, u) \<in> (sedges g)\<^sup>*" if "u \<in> needed prog" for u
    using that assms(2) needed_path[OF calculation] by (simp add: pruned_def needed_def)
  ultimately show ?thesis using assms(2) by (auto simp: needed_graph_def pruned_def needed_def)
qed

lemma pruned_components:
  assumes "pruned prog g"
  obtains sccs where "strongly_connected_components (reduce_to_graph g) = Some (Inr sccs)"
    "map (\<lambda>scc. fold set_insert scc []) sccs = sccs" "components g sccs"
proof -
  have wf: "graph_wf g" "bt_wf g" using assms by (simp_all add: pruned_def graph_wf_def)
  obtain sccs where s: "strongly_connected_components (reduce_to_graph g) = Some (Inr sccs)"
    "scc_partition sccs (set (keys (reduce_to_graph g))) (same_component (reduce_to_graph g))"
    using scc_correct[OF reduce_wf[OF wf(2)]] .
  have "fold set_insert scc [] = scc" if "scc \<in> set sccs" for scc
    using s(2) that fold_set_insert_sorted[of "[]" scc] by (simp add: scc_partition_def)
  then have "map (\<lambda>scc. fold set_insert scc []) sccs = sccs" by (simp add: map_idI)
  moreover have "components g sccs"
    using s(2) wf(1) unfolding components_def reduce_keys same_component_def[abs_def] reduce_edges by simp
  ultimately show ?thesis using that s(1) by blast
qed

text \<open>The poisoned edges inside a component are the conflicts.\<close>

lemma conflict_in_component:
  assumes "pruned prog g" "components g sccs"
  shows "kedge g u v True \<and> (\<exists>scc \<in> set sccs. u \<in> set scc \<and> v \<in> set scc) \<longleftrightarrow> conflict prog u v"
proof
  assume "kedge g u v True \<and> (\<exists>scc \<in> set sccs. u \<in> set scc \<and> v \<in> set scc)"
  then obtain scc where e: "kedge g u v True" and scc: "scc \<in> set sccs" "u \<in> set scc" "v \<in> set scc" by blast
  have un: "u \<in> needed prog" "(u, v) \<in> poisoned prog" using e assms(1) by (auto simp: pruned_def from_needed_def)
  obtain a where "placed sccs u a" "placed sccs v a" using scc unfolding placed_def by (metis in_set_conv_nth[of _ sccs])
  then have "(v, u) \<in> (sedges g)\<^sup>*" "v \<in> fst ` set g" using components_facts(2,3)[OF assms(2)] by blast+
  then have "(v, u) \<in> (depends prog)\<^sup>*" using needed_path[of v prog u] assms(1) by (simp add: pruned_def)
  with un show "conflict prog u v" by (simp add: conflict_def)
next
  assume c: "conflict prog u v"
  then have un: "u \<in> needed prog" "(u, v) \<in> poisoned prog" "(v, u) \<in> (depends prog)\<^sup>*" by (simp_all add: conflict_def)
  have vn: "v \<in> needed prog" using depends_path_name[OF un(3)] needed_step[OF un(1) poisoned_depends[OF un(2)]] un(1) by (simp add: needed_def)
  obtain a b where ab: "placed sccs u a" "placed sccs v b"
    using un(1) vn components_facts(2)[OF assms(2)] assms(1) unfolding pruned_def by metis
  have "(u, v) \<in> (sedges g)\<^sup>*" "(v, u) \<in> (sedges g)\<^sup>*"
    using needed_path[OF un(1)] needed_path[OF vn] un(3) poisoned_depends[OF un(2)] assms(1) by (auto simp: pruned_def)
  then have "a = b" using components_facts(3)[OF assms(2) ab] by blast
  with ab have "\<exists>scc \<in> set sccs. u \<in> set scc \<and> v \<in> set scc" unfolding placed_def by (intro bexI[of _ "sccs ! a"]) simp_all
  moreover have "(u, v) \<in> {(u, v). kedge g u v True}" using assms(1) un by (simp add: pruned_def from_needed_def)
  ultimately show "kedge g u v True \<and> (\<exists>scc \<in> set sccs. u \<in> set scc \<and> v \<in> set scc)" by simp
qed

lemma component_members:
  assumes "pruned prog g" "components g sccs" "u \<in> needed prog" "placed sccs u a"
  shows "placed sccs w a \<longleftrightarrow> (u, w) \<in> (depends prog)\<^sup>* \<and> (w, u) \<in> (depends prog)\<^sup>*"
proof (cases "w \<in> needed prog")
  case True
  then obtain b where b: "placed sccs w b" using components_facts(2)[OF assms(2)] assms(1) unfolding pruned_def by metis
  have "placed sccs w a \<longleftrightarrow> a = b" using b placed_unique[OF components_facts(1)[OF assms(2)] b] by blast
  also have "\<dots> \<longleftrightarrow> (u, w) \<in> (depends prog)\<^sup>* \<and> (w, u) \<in> (depends prog)\<^sup>*"
    using components_facts(3)[OF assms(2,4) b] assms(1) needed_path[OF assms(3)] needed_path[OF True] by (simp add: pruned_def)
  finally show ?thesis .
next
  case False
  have "\<not> placed sccs w a" using False components_facts(2)[OF assms(2), of w] assms(1) unfolding pruned_def by metis
  moreover have "w \<in> needed prog" if "(u, w) \<in> (depends prog)\<^sup>*" "(w, u) \<in> (depends prog)\<^sup>*"
    using that depends_path_name[OF that(2)] assms(3) by (auto simp: needed_def)
  ultimately show ?thesis using False by blast
qed

section \<open>The stratifier\<close>

lemma stratifier_run:
  assumes "program_wf prog"
  obtains g spans sccs where "into_stratified_program prog = Some (lay_out prog g spans sccs)" "pruned prog g" "components g sccs"
    "spans_ok prog spans" "\<And>u v. kedge g u v True \<Longrightarrow> bt_get spans (u, v) \<noteq> None"
proof -
  obtain labelled spans where conv: "convert_normal_form_program_to_graph prog = (labelled, spans)" by fastforce
  define R where "R = set (reachable_components (reduce_to_graph labelled) (np_entry_name prog))"
  let ?g = "filter (\<lambda>e. fst e \<in> R) labelled"
  have pr: "pruned prog ?g" unfolding R_def by (rule prune_spec[OF assms conv])
  obtain sccs where sc: "strongly_connected_components (reduce_to_graph ?g) = Some (Inr sccs)"
    "map (\<lambda>scc. fold set_insert scc []) sccs = sccs" "components ?g sccs"
    using pruned_components[OF pr] .
  have "into_stratified_program prog = Some (lay_out prog ?g spans sccs)"
    using sc(1,2) by (simp add: into_stratified_program_def conv Let_def R_def[symmetric] reduce_filter[of "\<lambda>k. k \<in> R"])
  moreover have "bt_get spans (u, v) \<noteq> None" if "kedge ?g u v True" for u v
    using convert_graph(6)[OF assms conv] that by (simp add: kedge_filter[of "\<lambda>k. k \<in> R"])
  ultimately show ?thesis using that pr sc(3) convert_graph(3)[OF assms conv] by blast
qed

lemma lay_out_refuses: "verify_no_cycle g spans sccs = Inl e \<Longrightarrow> lay_out prog g spans sccs = Inl e"
  by (simp add: lay_out_def)

theorem stratifier_layout:
  assumes "program_wf prog" "\<And>u v. \<not> conflict prog u v"
  shows "\<exists>lvl sp lts. into_stratified_program prog = Some (Inr (sp, lts))
    \<and> stratified_at prog (needed prog) (from_needed prog (depends prog)) (from_needed prog (poisoned prog)) lvl sp lts"
proof -
  obtain g spans sccs where r: "into_stratified_program prog = Some (lay_out prog g spans sccs)" "pruned prog g" "components g sccs"
    by (rule stratifier_run[OF assms(1)]) blast
  have wf: "graph_wf g" using r(2) by (simp add: pruned_def)
  have "verify_no_cycle g spans sccs = Inr ()"
    unfolding verify_no_cycle_ok[OF wf] using conflict_in_component[OF r(2,3)] assms(2) by blast
  from lay_out_ok[OF assms(1) r(3) pruned_needed[OF assms(1) r(2)] this] show ?thesis
    using r(2) unfolding r(1) pruned_def by auto
qed

theorem stratifier_refusal:
  assumes "program_wf prog" "conflict prog a b"
  shows "\<exists>u s scc. into_stratified_program prog = Some (Inl (UnStratifiableProgram (sym_name s) scc (Some (sym_span s))))
    \<and> conflict prog u (sym_name s) \<and> rule_read prog u s True
    \<and> set scc = {w. (u, w) \<in> (depends prog)\<^sup>* \<and> (w, u) \<in> (depends prog)\<^sup>*}"
proof -
  obtain g spans sccs where r: "into_stratified_program prog = Some (lay_out prog g spans sccs)" "pruned prog g" "components g sccs"
    "spans_ok prog spans" "\<forall>u v. kedge g u v True \<longrightarrow> bt_get spans (u, v) \<noteq> None"
    by (rule stratifier_run[OF assms(1)]) blast
  have wf: "graph_wf g" using r(2) by (simp add: pruned_def)
  have "verify_no_cycle g spans sccs \<noteq> Inr ()"
    unfolding verify_no_cycle_ok[OF wf] using conflict_in_component[OF r(2,3)] assms(2) by blast
  then obtain e where e: "verify_no_cycle g spans sccs = Inl e" by (cases "verify_no_cycle g spans sccs") auto
  obtain u v scc where c: "kedge g u v True" "scc \<in> set sccs" "u \<in> set scc" "v \<in> set scc"
    "e = UnStratifiableProgram v scc (bt_get spans (u, v))"
    using verify_no_cycle_error[OF wf e] .
  obtain sp where sp: "bt_get spans (u, v) = Some sp" using r(5) c(1) by blast
  then obtain s where s: "rule_read prog u s True" "sym_name s = v" "sym_span s = sp" using r(4) unfolding spans_ok_def by blast
  have cf: "conflict prog u v" using conflict_in_component[OF r(2,3)] c by blast
  then have un: "u \<in> needed prog" by (simp add: conflict_def)
  obtain a where a: "a < length sccs" "scc = sccs ! a" using c(2) by (auto simp: in_set_conv_nth)
  have "w \<in> set scc \<longleftrightarrow> (u, w) \<in> (depends prog)\<^sup>* \<and> (w, u) \<in> (depends prog)\<^sup>*" for w
    using component_members[OF r(2,3) un, of a w] c(3) a by (simp add: placed_def)
  then have "set scc = {w. (u, w) \<in> (depends prog)\<^sup>* \<and> (w, u) \<in> (depends prog)\<^sup>*}" by blast
  moreover have "into_stratified_program prog = Some (Inl (UnStratifiableProgram (sym_name s) scc (Some (sym_span s))))"
    using r(1) lay_out_refuses[OF e, of prog] c(5) sp s(2,3) by simp
  ultimately show ?thesis using cf s(1,2) by (intro exI[of _ u] exI[of _ s] exI[of _ scc]) simp
qed

end
