(* ===== verification/Plan_Properties.thy ===== *)
theory Plan_Properties
  imports Stratify_Program
begin

text \<open>
  The properties of the stratifier and of the planner's graph algorithms, each with a witness on a small graph.
\<close>

text \<open>A rule \<open>a\<close> that reads itself, negated on demand, and an entry that reads it negated.\<close>

definition reads_a :: "bool \<Rightarrow> nat \<Rightarrow> unit nf_rule" where
  "reads_a negated pos =
     (let apply = \<lparr>ra_name = \<lparr>sym_name = ''a'', sym_span = (pos, 1)\<rparr>, ra_args = [], ra_span = (pos, 1)\<rparr>
      in \<lparr>nr_head = [], nr_aggr = [], nr_body = [if negated then NNegatedRule apply else NRule apply]\<rparr>)"

definition self_reader :: "bool \<Rightarrow> unit nf_program" where
  "self_reader negated = \<lparr>np_entry_name = ''?'', np_entry = NRules [reads_a True 20], np_rules = [(''a'', NRules [reads_a negated 10])],
     np_disable_magic = False\<rparr>"

lemma self_reader_wf: "program_wf (self_reader negated)"
  by (simp add: program_wf_def self_reader_def PROG_ENTRY_def)

lemma self_reader_runs:
  "into_stratified_program (self_reader False)
     = Some (Inr (\<lparr>sp_strata = [[(''a'', NRules [reads_a False 10])], [(''?'', NRules [reads_a True 20])]], sp_disable_magic = False\<rparr>, [(Muggle ''a'', 1)]))"
  "into_stratified_program (self_reader True) = Some (Inl (UnStratifiableProgram ''a'' [''a''] (Some (10, 1))))"
  by code_simp+

text \<open>
  C7: The stratifier accepts a normal-form program exactly when no rule the entry needs requires, by a negated
  read, a fixed rule or an aggregation, a complete rule that in turn depends on it; it never panics.
\<close>
theorem stratifier_accepts_exactly:
  assumes "program_wf prog"
  shows "into_stratified_program prog \<noteq> None
    \<and> ((\<exists>r. into_stratified_program prog = Some (Inr r)) \<longleftrightarrow> \<not> (\<exists>u v. conflict prog u v))"
proof (cases "\<exists>u v. conflict prog u v")
  case True
  then obtain a b where "conflict prog a b" by blast
  from stratifier_refusal[OF assms this] True show ?thesis by auto
next
  case False
  with stratifier_layout[OF assms] show ?thesis by auto
qed

theorem stratifier_accepts_exactly_witness:
  "\<not> (\<exists>u v. conflict (self_reader False) u v) \<and> (\<exists>u v. conflict (self_reader True) u v)"
  using stratifier_accepts_exactly[OF self_reader_wf, of False] stratifier_accepts_exactly[OF self_reader_wf, of True]
  by (simp add: self_reader_runs)

text \<open>
  C8: The strata of an accepted program hold every rule the entry needs, once and with its definition, and no
  other; no rule is placed before a rule it reads, and one that needs another complete is placed strictly after
  it. The entry is in the last stratum, and a store is live at exactly the strata up to the last one that reads it.
\<close>
theorem strata_respect_dependencies:
  assumes "program_wf prog" "into_stratified_program prog = Some (Inr (sp, lts))"
  shows "\<exists>lvl. stratified_at prog (needed prog) (from_needed prog (depends prog)) (from_needed prog (poisoned prog)) lvl sp lts"
proof (cases "\<exists>u v. conflict prog u v")
  case True
  then obtain a b where "conflict prog a b" by blast
  from stratifier_refusal[OF assms(1) this] assms(2) show ?thesis by auto
next
  case False
  with stratifier_layout[OF assms(1)] assms(2) show ?thesis by auto
qed

theorem strata_respect_dependencies_witness:
  "\<exists>lvl. stratified_at (self_reader False) (needed (self_reader False)) (from_needed (self_reader False) (depends (self_reader False)))
     (from_needed (self_reader False) (poisoned (self_reader False))) lvl
     \<lparr>sp_strata = [[(''a'', NRules [reads_a False 10])], [(''?'', NRules [reads_a True 20])]], sp_disable_magic = False\<rparr> [(Muggle ''a'', 1)]"
  using strata_respect_dependencies[OF self_reader_wf self_reader_runs(1)] .

text \<open>
  C9: A refused program is refused for a real conflict: the error names a rule that a needed rule reads and needs
  complete while depending on it, lists exactly the recursive family of the two, and carries the span of a read
  that forces the boundary, never that of a harmless read of the same rule.
\<close>
theorem refusal_names_the_poisoning_read:
  assumes "program_wf prog" "into_stratified_program prog = Some (Inl e)"
  shows "\<exists>u s scc. e = UnStratifiableProgram (sym_name s) scc (Some (sym_span s))
    \<and> conflict prog u (sym_name s) \<and> rule_read prog u s True
    \<and> set scc = {w. (u, w) \<in> (depends prog)\<^sup>* \<and> (w, u) \<in> (depends prog)\<^sup>*}"
proof (cases "\<exists>u v. conflict prog u v")
  case True
  then obtain a b where "conflict prog a b" by blast
  from stratifier_refusal[OF assms(1) this] show ?thesis using assms(2) by auto
next
  case False
  then show ?thesis using stratifier_layout[OF assms(1)] assms(2) by auto
qed

theorem refusal_names_the_poisoning_read_witness:
  "\<exists>u s. sym_name s = ''a'' \<and> sym_span s = (10, 1) \<and> rule_read (self_reader True) u s True
     \<and> {''a''} = {w. (u, w) \<in> (depends (self_reader True))\<^sup>* \<and> (w, u) \<in> (depends (self_reader True))\<^sup>*}"
proof -
  obtain u s scc where r: "UnStratifiableProgram ''a'' [''a''] (Some (10, 1)) = UnStratifiableProgram (sym_name s) scc (Some (sym_span s))"
    "rule_read (self_reader True) u s True"
    "set scc = {w. (u, w) \<in> (depends (self_reader True))\<^sup>* \<and> (w, u) \<in> (depends (self_reader True))\<^sup>*}"
    using refusal_names_the_poisoning_read[OF self_reader_wf self_reader_runs(2)] by blast
  from r(1) have "sym_name s = ''a''" "sym_span s = (10, 1)" "scc = [''a'']" unfolding stratify_error.inject option.inject by metis+
  with r(2,3) show ?thesis by (intro exI[of _ u] exI[of _ s]) simp
qed

text \<open>
  C36: The generalized Kahn sort returns a layout exactly when every node id is in range and the graph
  has no cycle; on every other graph it is a typed error, never a truncated layout.
\<close>
theorem kahn_accepts_exactly_dags:
  "graph_wf graph \<Longrightarrow>
     (\<exists>strata. generalized_kahn graph n = Inr strata) \<longleftrightarrow> in_range graph n \<and> acyclic (kahn_relation graph)"
  by (rule generalized_kahn_iff)

theorem kahn_accepts_exactly_dags_witness:
  "acyclic (kahn_relation [(0, [(1, True), (2, False)]), (2, [(1, False)])])
   \<and> \<not> acyclic (kahn_relation [(0, [(1, False)]), (1, [(0, True)])])"
proof -
  let ?g = "[(0, [(1, True), (2, False)]), (2, [(1, False)])] :: nat stratified_graph"
  let ?h = "[(0, [(1, False)]), (1, [(0, True)])] :: nat stratified_graph"
  have "generalized_kahn ?g 3 = Inr [[0, 2], [1]]" "generalized_kahn ?h 2 = Inl KahnUnconsumed" by code_simp+
  moreover have "graph_wf ?g" "graph_wf ?h" "in_range ?h 2" by (simp_all add: graph_wf_def in_range_def)
  ultimately show ?thesis
    using kahn_accepts_exactly_dags[of ?g 3] kahn_accepts_exactly_dags[of ?h 2] by simp
qed

text \<open>
  The layout places every node exactly once and has no empty stratum; it is a topological order,
  every edge leads to the same or a later stratum, and a poisoned edge to a strictly later one.
\<close>
theorem kahn_layout_is_stratification:
  assumes "graph_wf graph" "generalized_kahn graph n = Inr strata"
  shows "distinct (concat strata) \<and> set (concat strata) = {..<n} \<and> [] \<notin> set strata
    \<and> topo_ok graph (concat strata) \<and> strata_ok graph strata"
  using generalized_kahn_layout[OF assms] by blast

theorem kahn_layout_is_stratification_witness:
  "generalized_kahn [(0, [(1, True), (2, False)]), (2, [(1, False)])] 3 = Inr [[0, 2], [1]]
   \<and> strata_ok [(0, [(1, True), (2, False)]), (2, [(1, False)])] [[0, 2], [1]]"
proof -
  let ?g = "[(0, [(1, True), (2, False)]), (2, [(1, False)])] :: nat stratified_graph"
  have r: "generalized_kahn ?g 3 = Inr [[0, 2], [1]]" by code_simp
  have "graph_wf ?g" by (simp add: graph_wf_def)
  from kahn_layout_is_stratification[OF this r] r show ?thesis by simp
qed

text \<open>
  C37: On every graph, Tarjan's walk returns, without a panic or an error, the partition of the graph's nodes
  into its strongly connected components: two nodes share a group exactly when each reaches the other.
\<close>
theorem scc_is_mutual_reachability:
  assumes "bt_wf graph"
  shows "\<exists>comps. strongly_connected_components graph = Some (Inr comps)
    \<and> scc_partition comps (set (keys graph)) (same_component graph)"
  using scc_correct[OF assms] by metis

theorem scc_is_mutual_reachability_witness:
  "scc_partition [[0, 1], [2::nat]] {0, 1, 2} (same_component [(0, [1]), (1, [0, 2]), (2, [])])"
proof -
  let ?g = "[(0, [1]), (1, [0, 2]), (2, [])] :: nat graph"
  have "strongly_connected_components ?g = Some (Inr [[0, 1], [2]])" by code_simp
  moreover have "bt_wf ?g" by (simp add: bt_wf_def)
  ultimately show ?thesis using scc_is_mutual_reachability[of ?g] by (simp add: insert_commute)
qed

text \<open>
  The worklist walk ends on every graph and returns exactly the nodes the start reaches, the start
  included, in ascending order.
\<close>
theorem reachable_is_transitive_closure:
  "set (reachable_components graph start) = {v. (start, v) \<in> (graph_edges graph)\<^sup>*}
   \<and> sorted_wrt (<) (reachable_components graph start)"
  using reachable_components_spec[of graph start] by blast

end
