(* ===== verification/Expr_Eval.thy ===== *)
theory Expr_Eval
  imports Program_Expr
begin

text \<open>
  The two evaluators of \<open>crates/kyzo-core/src/exec/expr\<close>: \<open>eval_expr\<close> on one row and \<open>eval_expr_batched\<close>
  over the columns of a batch, \<open>eval.rs\<close> and \<open>batch.rs\<close>, with \<open>BoundOp::apply\<close> of
  \<open>exec/stdlib/bound_op.rs\<close>. The table from an operator's name to its body is a parameter. Row ids and
  node ids are natural numbers: a selection holds at most \<open>u32::MAX\<close> rows, refused beyond, and a batch
  claims at most two ids per node of the expression.
\<close>

section \<open>Applying an operator\<close>

record bound_op =
  bo_decl :: op_decl
  bo_body :: "data_value list \<Rightarrow> string + data_value"

type_synonym op_table = "string \<Rightarrow> bound_op option"

definition ascii_lower :: "char \<Rightarrow> char" where
  "ascii_lower c = (let n = (of_char c :: nat) in if 65 \<le> n \<and> n \<le> 90 then char_of (n + 32) else c)"

definition display_name :: "op_decl \<Rightarrow> string" where
  "display_name op = map ascii_lower (if take 3 (op_name op) = ''OP_'' then drop 3 (op_name op) else op_name op)"

definition result_has_nan :: "data_value \<Rightarrow> bool" where
  "result_has_nan v =
     (case v of
        DNum (NFloat x) \<Rightarrow> f64_is_nan x
      | DVector w \<Rightarrow> list_ex f64_is_nan (vec_components w)
      | _ \<Rightarrow> False)"

definition bound_apply :: "bound_op \<Rightarrow> data_value list \<Rightarrow> op_refusal + data_value" where
  "bound_apply b args =
     (if \<not> arity_matches (bo_decl b) (length args) then Inl (RArity (bo_decl b) (length args))
      else rbind (map_err RBody (bo_body b args)) (\<lambda>result.
        if result_has_nan result then Inl (RNan (display_name (bo_decl b))) else Inr result))"

definition bound_of :: "op_table \<Rightarrow> op_decl \<Rightarrow> string + bound_op" where
  "bound_of table op = (case table (display_name op) of None \<Rightarrow> Inl (op_name op) | Some b \<Rightarrow> Inr b)"

section \<open>One row\<close>

primrec lazy_loop :: "lazy_op \<Rightarrow> (expr \<Rightarrow> expr_error + data_value) \<Rightarrow> expr list \<Rightarrow> expr_error + data_value" where
  "lazy_loop op f [] = Inr (lazy_identity op)"
| "lazy_loop op f (arg # args) =
     rbind (f arg) (\<lambda>v.
       case lazy_decide op v of
         Decided d \<Rightarrow> Inr d
       | Continue \<Rightarrow> lazy_loop op f args
       | Refused \<Rightarrow> Inl (PredicateType (expr_span arg) v))"

primrec cond_loop :: "(expr \<Rightarrow> expr_error + data_value) \<Rightarrow> (expr \<times> expr) list \<Rightarrow> expr_error + data_value" where
  "cond_loop f [] = Inr DNull"
| "cond_loop f (clause # clauses) =
     rbind (f (fst clause)) (\<lambda>cond_val.
       case get_bool cond_val of
         None \<Rightarrow> Inl (PredicateType (expr_span (fst clause)) cond_val)
       | Some True \<Rightarrow> f (snd clause)
       | Some False \<Rightarrow> cond_loop f clauses)"

lemma lazy_loop_cong [fundef_cong]:
  "op = op' \<Longrightarrow> args = args' \<Longrightarrow> (\<And>a. a \<in> set args' \<Longrightarrow> f a = g a) \<Longrightarrow> lazy_loop op f args = lazy_loop op' g args'"
proof (induction args' arbitrary: args)
  case (Cons a args')
  then have "lazy_loop op f args' = lazy_loop op' g args'" by simp
  with Cons.prems show ?case by (simp cong: decision.case_cong)
qed simp

lemma cond_loop_cong [fundef_cong]:
  "cl = cl' \<Longrightarrow> (\<And>c. c \<in> set cl' \<Longrightarrow> f (fst c) = g (fst c)) \<Longrightarrow> (\<And>c. c \<in> set cl' \<Longrightarrow> f (snd c) = g (snd c))
    \<Longrightarrow> cond_loop f cl = cond_loop g cl'"
proof (induction cl' arbitrary: cl)
  case (Cons c cl')
  then have "cond_loop f cl' = cond_loop g cl'" by simp
  with Cons.prems show ?case by (simp cong: option.case_cong bool.case_cong)
qed simp

fun eval_expr :: "op_table \<Rightarrow> expr \<Rightarrow> data_value list \<Rightarrow> expr_error + data_value" where
  "eval_expr table (Binding var tuple_pos) row =
     (case tuple_pos of
        Unresolved \<Rightarrow> Inl (UnboundVariable (sym_name var) (sym_span var))
      | Resolved i \<Rightarrow>
          if i < length row then Inr (row ! i)
          else Inl (TupleTooShort (sym_name var) i (length row) (sym_span var)))"
| "eval_expr table (Const val _) row = Inr val"
| "eval_expr table (Apply op args sp) row =
     rbind (collect_results (\<lambda>a. eval_expr table a row) args) (\<lambda>vals.
     rbind (map_err UnknownBuiltin (bound_of table op)) (\<lambda>b.
       map_err (EvalRaised sp) (bound_apply b vals)))"
| "eval_expr table (Cond clauses _) row = cond_loop (\<lambda>e. eval_expr table e row) clauses"
| "eval_expr table (Lazy op args _) row = lazy_loop op (\<lambda>e. eval_expr table e row) args"
| "eval_expr table (UnboundApply op _ sp) row = Inl (NoImplementation sp op)"

definition eval_pred :: "op_table \<Rightarrow> expr \<Rightarrow> data_value list \<Rightarrow> expr_error + bool" where
  "eval_pred table e row =
     rbind (eval_expr table e row) (\<lambda>v.
       case get_bool v of Some b \<Rightarrow> Inr b | None \<Rightarrow> Inl (PredicateType (expr_span e) v))"

section \<open>Batches, selections and the least error\<close>

record column_batch =
  cb_cols :: "data_value list list"
  cb_height :: nat

datatype batch_error = ColumnBatchWidthMismatch nat nat | BatchRowU32Overflow nat

primrec push_rows :: "nat \<Rightarrow> data_value list list \<Rightarrow> data_value list list \<Rightarrow> batch_error + data_value list list" where
  "push_rows width cols [] = Inr cols"
| "push_rows width cols (row # rows) =
     (if length row \<noteq> width then Inl (ColumnBatchWidthMismatch width (length row))
      else push_rows width (map2 (\<lambda>col v. col @ [v]) cols row) rows)"

definition from_rows :: "data_value list list \<Rightarrow> nat \<Rightarrow> batch_error + column_batch" where
  "from_rows rows width =
     rbind (push_rows width (replicate width []) rows) (\<lambda>cols. Inr \<lparr>cb_cols = cols, cb_height = length rows\<rparr>)"

definition cb_width :: "column_batch \<Rightarrow> nat" where
  "cb_width batch = length (cb_cols batch)"

definition selection_all :: "nat \<Rightarrow> batch_error + nat list" where
  "selection_all n = (if n < 2 ^ 32 then Inr [0..<n] else Inl (BatchRowU32Overflow n))"

type_synonym error_min = "(nat \<times> nat \<times> expr_error) option"

definition offer :: "error_min \<Rightarrow> nat \<times> nat \<times> expr_error \<Rightarrow> error_min" where
  "offer best o' =
     (case best of
        None \<Rightarrow> Some o'
      | Some b \<Rightarrow>
          if fst o' < fst b \<or> (fst o' = fst b \<and> fst (snd o') < fst (snd b)) then Some o' else best)"

record batch_state =
  bs_next :: nat
  bs_errors :: error_min

section \<open>A batch\<close>

definition claim_node :: "batch_state \<Rightarrow> batch_state" where
  "claim_node st = st\<lparr>bs_next := bs_next st + 1\<rparr>"

definition offer_at :: "nat \<Rightarrow> nat \<Rightarrow> expr_error \<Rightarrow> batch_state \<Rightarrow> batch_state" where
  "offer_at row node err st = st\<lparr>bs_errors := offer (bs_errors st) (row, node, err)\<rparr>"

type_synonym node_eval = "nat list \<Rightarrow> batch_state \<Rightarrow> expr_error + data_value list \<times> batch_state"

primrec eval_columns :: "(expr \<Rightarrow> node_eval) \<Rightarrow> nat list \<Rightarrow> expr list \<Rightarrow> batch_state \<Rightarrow> expr_error + data_value list list \<times> batch_state" where
  "eval_columns f sel [] st = Inr ([], st)"
| "eval_columns f sel (arg # args) st =
     rbind (f arg sel st) (\<lambda>(col, st).
     rbind (eval_columns f sel args st) (\<lambda>(cols, st). Inr (col # cols, st)))"

text \<open>The generic kernel: gather the arguments of a row, apply, store.\<close>

primrec apply_rows :: "(data_value list \<Rightarrow> op_refusal + data_value) \<Rightarrow> source_span \<Rightarrow> nat \<Rightarrow> data_value list list
    \<Rightarrow> (nat \<times> nat) list \<Rightarrow> batch_state \<Rightarrow> data_value list \<times> batch_state" where
  "apply_rows krn sp node cols [] st = ([], st)"
| "apply_rows krn sp node cols (r # rs) st =
     (case krn (map (\<lambda>c. c ! fst r) cols) of
        Inr v \<Rightarrow> (let (out, st) = apply_rows krn sp node cols rs st in (v # out, st))
      | Inl err \<Rightarrow>
          (let (out, st) = apply_rows krn sp node cols rs (offer_at (snd r) node (EvalRaised sp err) st)
           in (DNull # out, st)))"

definition op_kernel :: "op_table \<Rightarrow> op_decl \<Rightarrow> data_value list \<Rightarrow> op_refusal + data_value" where
  "op_kernel table op args = rbind (map_err RUnknown (bound_of table op)) (\<lambda>b. bound_apply b args)"

text \<open>The live rows of a connective that stay live, are decided or are refused after an argument.\<close>

primrec lazy_rows :: "lazy_op \<Rightarrow> source_span \<Rightarrow> nat \<Rightarrow> data_value list \<Rightarrow> (nat \<times> nat) list \<Rightarrow> batch_state
    \<Rightarrow> nat list \<times> (nat \<times> data_value) list \<times> batch_state" where
  "lazy_rows op sp node vals [] st = ([], [], st)"
| "lazy_rows op sp node vals (r # rs) st =
     (case lazy_decide op (vals ! fst r) of
        Continue \<Rightarrow> (let (still, dec, st) = lazy_rows op sp node vals rs st in (snd r # still, dec, st))
      | Decided v \<Rightarrow> (let (still, dec, st) = lazy_rows op sp node vals rs st in (still, (snd r, v) # dec, st))
      | Refused \<Rightarrow>
          (let (still, dec, st) =
             lazy_rows op sp node vals rs (offer_at (snd r) node (PredicateType sp (vals ! fst r)) st)
           in (still, (snd r, DNull) # dec, st)))"

primrec lazy_columns :: "lazy_op \<Rightarrow> (expr \<Rightarrow> node_eval) \<Rightarrow> expr list \<Rightarrow> nat list \<Rightarrow> (nat \<times> data_value) list \<Rightarrow> batch_state
    \<Rightarrow> expr_error + nat list \<times> (nat \<times> data_value) list \<times> batch_state" where
  "lazy_columns op f [] live decided st = Inr (live, decided, st)"
| "lazy_columns op f (arg # args) live decided st =
     (if live = [] then Inr (live, decided, st)
      else rbind (f arg live st) (\<lambda>(vals, st).
        let (still, dec, st) = lazy_rows op (expr_span arg) (bs_next st) vals (enumerate 0 live) (claim_node st)
        in lazy_columns op f args still (decided @ dec) st))"

text \<open>The live rows of a conditional that take the clause, pass it, or are refused.\<close>

primrec cond_rows :: "source_span \<Rightarrow> nat \<Rightarrow> data_value list \<Rightarrow> (nat \<times> nat) list \<Rightarrow> batch_state
    \<Rightarrow> nat list \<times> nat list \<times> (nat \<times> data_value) list \<times> batch_state" where
  "cond_rows sp node vals [] st = ([], [], [], st)"
| "cond_rows sp node vals (r # rs) st =
     (case get_bool (vals ! fst r) of
        Some True \<Rightarrow> (let (taken, passed, dec, st) = cond_rows sp node vals rs st in (snd r # taken, passed, dec, st))
      | Some False \<Rightarrow> (let (taken, passed, dec, st) = cond_rows sp node vals rs st in (taken, snd r # passed, dec, st))
      | None \<Rightarrow>
          (let (taken, passed, dec, st) =
             cond_rows sp node vals rs (offer_at (snd r) node (PredicateType sp (vals ! fst r)) st)
           in (taken, passed, (snd r, DNull) # dec, st)))"

primrec cond_columns :: "(expr \<Rightarrow> node_eval) \<Rightarrow> (expr \<times> expr) list \<Rightarrow> nat list \<Rightarrow> (nat \<times> data_value) list \<Rightarrow> batch_state
    \<Rightarrow> expr_error + nat list \<times> (nat \<times> data_value) list \<times> batch_state" where
  "cond_columns f [] live decided st = Inr (live, decided, st)"
| "cond_columns f (clause # clauses) live decided st =
     (if live = [] then Inr (live, decided, st)
      else rbind (f (fst clause) live st) (\<lambda>(vals, st).
        let (taken, passed, dec, st) =
              cond_rows (expr_span (fst clause)) (bs_next st) vals (enumerate 0 live) (claim_node st)
        in if taken = [] then cond_columns f clauses passed (decided @ dec) st
           else rbind (f (snd clause) taken st) (\<lambda>(arm, st).
             cond_columns f clauses passed (decided @ dec @ zip taken arm) st)))"

text \<open>Stitching the decided rows back in row order.\<close>

definition stitch :: "data_value \<Rightarrow> nat list \<Rightarrow> (nat \<times> data_value) list \<Rightarrow> data_value list" where
  "stitch rest live decided = map snd (sort_key fst (decided @ map (\<lambda>row. (row, rest)) live))"

lemma eval_columns_cong [fundef_cong]:
  "args = args' \<Longrightarrow> sel = sel' \<Longrightarrow> st = st' \<Longrightarrow> (\<And>a l s. a \<in> set args' \<Longrightarrow> f a l s = g a l s)
    \<Longrightarrow> eval_columns f sel args st = eval_columns g sel' args' st'"
proof (induction args' arbitrary: args st st')
  case (Cons a args')
  then have "eval_columns f sel' args' = eval_columns g sel' args'" by (simp add: fun_eq_iff)
  with Cons.prems show ?case by simp
qed simp

lemma lazy_columns_cong [fundef_cong]:
  "op = op' \<Longrightarrow> args = args' \<Longrightarrow> live = live' \<Longrightarrow> dec = dec' \<Longrightarrow> st = st' \<Longrightarrow> (\<And>a l s. a \<in> set args' \<Longrightarrow> f a l s = g a l s)
    \<Longrightarrow> lazy_columns op f args live dec st = lazy_columns op' g args' live' dec' st'"
proof (induction args' arbitrary: args live live' dec dec' st st')
  case (Cons a args')
  then have "lazy_columns op' f args' = lazy_columns op' g args'" by (simp add: fun_eq_iff)
  with Cons.prems show ?case by simp
qed simp

lemma cond_columns_cong [fundef_cong]:
  "cl = cl' \<Longrightarrow> live = live' \<Longrightarrow> dec = dec' \<Longrightarrow> st = st' \<Longrightarrow> (\<And>c l s. c \<in> set cl' \<Longrightarrow> f (fst c) l s = g (fst c) l s)
    \<Longrightarrow> (\<And>c l s. c \<in> set cl' \<Longrightarrow> f (snd c) l s = g (snd c) l s) \<Longrightarrow> cond_columns f cl live dec st = cond_columns g cl' live' dec' st'"
proof (induction cl' arbitrary: cl live live' dec dec' st st')
  case (Cons c cl')
  then have "cond_columns f cl' = cond_columns g cl'" "f (fst c) = g (fst c)" "f (snd c) = g (snd c)" by (simp_all add: fun_eq_iff)
  with Cons.prems(1-4) show ?case by (simp cong: if_cong)
qed simp

fun eval_node :: "op_table \<Rightarrow> column_batch \<Rightarrow> expr \<Rightarrow> node_eval" where
  "eval_node table batch (Binding var tuple_pos) sel st =
     (case tuple_pos of
        Unresolved \<Rightarrow> Inl (UnboundVariable (sym_name var) (sym_span var))
      | Resolved i \<Rightarrow>
          if cb_width batch \<le> i then Inl (TupleTooShort (sym_name var) i (cb_width batch) (sym_span var))
          else Inr (map (\<lambda>r. cb_cols batch ! i ! r) sel, claim_node st))"
| "eval_node table batch (Const val _) sel st = Inr (replicate (length sel) val, claim_node st)"
| "eval_node table batch (Apply op args sp) sel st =
     rbind (eval_columns (eval_node table batch) sel args (claim_node st)) (\<lambda>(cols, st).
       Inr (apply_rows (op_kernel table op) sp (bs_next st) cols (enumerate 0 sel) (claim_node st)))"
| "eval_node table batch (Lazy op args _) sel st =
     rbind (lazy_columns op (eval_node table batch) args sel [] (claim_node st)) (\<lambda>(live, decided, st).
       Inr (stitch (lazy_identity op) live decided, st))"
| "eval_node table batch (Cond clauses _) sel st =
     rbind (cond_columns (eval_node table batch) clauses sel [] (claim_node st)) (\<lambda>(live, decided, st).
       Inr (stitch DNull live decided, st))"
| "eval_node table batch (UnboundApply op _ sp) sel st = Inl (NoImplementation sp op)"

definition eval_expr_batched :: "op_table \<Rightarrow> expr \<Rightarrow> column_batch \<Rightarrow> nat list \<Rightarrow> expr_error + data_value list" where
  "eval_expr_batched table e batch sel =
     rbind (eval_node table batch e sel \<lparr>bs_next = 0, bs_errors = None\<rparr>) (\<lambda>(out, st).
       case bs_errors st of Some best \<Rightarrow> Inl (snd (snd best)) | None \<Rightarrow> Inr out)"

primrec keep_rows :: "expr \<Rightarrow> (data_value \<times> nat) list \<Rightarrow> expr_error + nat list" where
  "keep_rows e [] = Inr []"
| "keep_rows e (p # ps) =
     (case get_bool (fst p) of
        Some True \<Rightarrow> rbind (keep_rows e ps) (\<lambda>keep. Inr (snd p # keep))
      | Some False \<Rightarrow> keep_rows e ps
      | None \<Rightarrow> Inl (PredicateType (expr_span e) (fst p)))"

definition eval_pred_batched :: "op_table \<Rightarrow> expr \<Rightarrow> column_batch \<Rightarrow> nat list \<Rightarrow> expr_error + nat list" where
  "eval_pred_batched table e batch sel =
     rbind (eval_expr_batched table e batch sel) (\<lambda>values. keep_rows e (zip values sel))"

end
