(* ===== verification/Expr_Batch_Laws.thy ===== *)
theory Expr_Batch_Laws
  imports Expr_Eval
begin

text \<open>
  The columnar evaluator computes what the row evaluator computes, errors included: the invariant of a
  node lists the errors it offered, in the order of their node ids, and the first one offered for a row is
  the error the row evaluator raises there.
\<close>

section \<open>Offers\<close>

type_synonym offers = "(nat \<times> nat \<times> expr_error) list"

definition first_for :: "nat \<Rightarrow> offers \<Rightarrow> expr_error option" where
  "first_for r os = map_option (snd \<circ> snd) (find (\<lambda>o'. fst o' = r) os)"

lemma first_for_simps [simp]:
  "first_for r [] = None" "first_for r (o' # os) = (if fst o' = r then Some (snd (snd o')) else first_for r os)"
  by (simp_all add: first_for_def)

lemma first_for_append: "first_for r (os @ os') = (case first_for r os of None \<Rightarrow> first_for r os' | Some e \<Rightarrow> Some e)"
  by (induction os) auto

lemma first_for_None: "first_for r os = None \<longleftrightarrow> (\<forall>o' \<in> set os. fst o' \<noteq> r)"
  by (induction os) auto

definition offers_in :: "nat \<Rightarrow> nat \<Rightarrow> offers \<Rightarrow> bool" where
  "offers_in a b os \<longleftrightarrow> sorted (map (fst \<circ> snd) os) \<and> (\<forall>o' \<in> set os. a \<le> fst (snd o') \<and> fst (snd o') < b)"

lemma offers_in_Nil [simp]: "offers_in a b []"
  by (simp add: offers_in_def)

lemma offers_in_append:
  "offers_in a b os \<Longrightarrow> offers_in b c os' \<Longrightarrow> a \<le> b \<Longrightarrow> b \<le> c \<Longrightarrow> offers_in a c (os @ os')"
  by (fastforce simp: offers_in_def sorted_append)

lemma offers_in_weaken: "offers_in a b os \<Longrightarrow> a' \<le> a \<Longrightarrow> b \<le> b' \<Longrightarrow> offers_in a' b' os"
  by (fastforce simp: offers_in_def)

lemma least_offer:
  "sorted (map (fst \<circ> snd) (b # os)) \<Longrightarrow>
    \<exists>b'. foldl offer (Some b) os = Some b' \<and> (\<forall>o' \<in> set (b # os). fst b' \<le> fst o') \<and> b' \<in> set (b # os)
       \<and> first_for (fst b') (b # os) = Some (snd (snd b'))"
proof (induction os arbitrary: b)
  case (Cons p os)
  show ?case
  proof (cases "fst p < fst b")
    case True
    from Cons.IH[of p] Cons.prems obtain b' where b': "foldl offer (Some p) os = Some b'" "\<forall>o' \<in> set (p # os). fst b' \<le> fst o'"
      "b' \<in> set (p # os)" "first_for (fst b') (p # os) = Some (snd (snd b'))" by auto
    then have "fst b' < fst b" using True by auto
    moreover have "offer (Some b) p = Some p" using True by (simp add: offer_def)
    ultimately show ?thesis using b' by (intro exI[of _ b']) auto
  next
    case False
    have "offer (Some b) p = Some b" using False Cons.prems by (auto simp: offer_def)
    moreover obtain b' where "foldl offer (Some b) os = Some b'" "\<forall>o' \<in> set (b # os). fst b' \<le> fst o'"
      "b' \<in> set (b # os)" "first_for (fst b') (b # os) = Some (snd (snd b'))"
      using Cons.IH[of b] Cons.prems by auto
    ultimately show ?thesis using False by (intro exI[of _ b']) (auto split: if_splits)
  qed
qed simp

section \<open>What a node computes\<close>

definition row_ok :: "expr_error + data_value \<Rightarrow> nat \<Rightarrow> data_value \<Rightarrow> offers \<Rightarrow> bool" where
  "row_ok res r v os \<longleftrightarrow> (case res of Inr x \<Rightarrow> v = x \<and> first_for r os = None | Inl e \<Rightarrow> first_for r os = Some e)"

definition column_ok :: "(nat \<Rightarrow> expr_error + data_value) \<Rightarrow> nat list \<Rightarrow> data_value list \<Rightarrow> offers \<Rightarrow> bool" where
  "column_ok rv sel vals os \<longleftrightarrow>
     length vals = length sel \<and> (\<forall>o' \<in> set os. fst o' \<in> set sel) \<and> (\<forall>i < length sel. row_ok (rv (sel ! i)) (sel ! i) (vals ! i) os)"

definition node_ok :: "nat \<Rightarrow> node_eval \<Rightarrow> (nat \<Rightarrow> expr_error + data_value) \<Rightarrow> bool" where
  "node_ok height f rv \<longleftrightarrow>
     (\<forall>sel st. sorted_wrt (<) sel \<longrightarrow> set sel \<subseteq> {..<height} \<longrightarrow>
        (\<exists>vals os n. f sel st = Inr (vals, \<lparr>bs_next = n, bs_errors = foldl offer (bs_errors st) os\<rparr>)
           \<and> bs_next st \<le> n \<and> offers_in (bs_next st) n os \<and> column_ok rv sel vals os))"

lemma node_okE:
  assumes "node_ok height f rv" "sorted_wrt (<) sel" "set sel \<subseteq> {..<height}"
  obtains vals os n where "f sel st = Inr (vals, \<lparr>bs_next = n, bs_errors = foldl offer (bs_errors st) os\<rparr>)"
    "bs_next st \<le> n" "offers_in (bs_next st) n os" "column_ok rv sel vals os"
  using assms unfolding node_ok_def by blast

lemma column_okD:
  assumes "column_ok rv sel vals os"
  shows "length vals = length sel" "\<And>o'. o' \<in> set os \<Longrightarrow> fst o' \<in> set sel"
    "\<And>i. i < length sel \<Longrightarrow> row_ok (rv (sel ! i)) (sel ! i) (vals ! i) os"
  using assms by (auto simp: column_ok_def)

lemma column_ok_first:
  assumes "column_ok rv sel vals os" "i < length sel"
  shows "rv (sel ! i) = Inl e \<Longrightarrow> first_for (sel ! i) os = Some e"
    and "rv (sel ! i) = Inr v \<Longrightarrow> vals ! i = v \<and> first_for (sel ! i) os = None"
  using column_okD(3)[OF assms] by (simp_all add: row_ok_def)

section \<open>Rows of one node\<close>

lemma first_for_concat:
  assumes "distinct (map snd ps)" "\<And>p o'. p \<in> set ps \<Longrightarrow> o' \<in> set (g p) \<Longrightarrow> fst o' = snd p"
  shows "p \<in> set ps \<Longrightarrow> first_for (snd p) (concat (map g ps)) = first_for (snd p) (g p)"
  using assms
proof (induction ps)
  case (Cons q ps)
  have tail: "first_for (snd p) (concat (map g ps)) = None" if "snd p \<notin> snd ` set ps" for p
    unfolding first_for_None
  proof
    fix o' assume "o' \<in> set (concat (map g ps))"
    then obtain x where "x \<in> set ps" "o' \<in> set (g x)" by auto
    with Cons.prems(3)[of x o'] that show "fst o' \<noteq> snd p" by (metis image_eqI list.set_intros(2))
  qed
  show ?case
  proof (cases "p = q")
    case True
    then show ?thesis using tail[of q] Cons.prems(2) by (simp add: first_for_append split: option.splits)
  next
    case False
    then have "p \<in> set ps" using Cons.prems(1) by simp
    moreover from this have "snd p \<in> snd ` set ps" by (rule imageI)
    moreover have "snd q \<notin> snd ` set ps" using Cons.prems(2) by simp
    ultimately have p: "p \<in> set ps" "snd p \<noteq> snd q" by metis+
    then have "first_for (snd p) (g q) = None" using Cons.prems(3)[of q] by (auto simp: first_for_None)
    then show ?thesis using Cons.IH[OF p(1)] Cons.prems(2,3) by (simp add: first_for_append)
  qed
qed simp

lemma enumerate_nth_mem: "i < length sel \<Longrightarrow> (i, sel ! i) \<in> set (enumerate 0 sel)"
  by (simp add: in_set_enumerate_eq)

lemma offers_same_node:
  assumes "\<And>p o'. p \<in> set ps \<Longrightarrow> o' \<in> set (g p) \<Longrightarrow> fst (snd o') = n"
  shows "offers_in n (Suc n) (concat (map g ps))"
proof -
  have "\<forall>o' \<in> set (concat (map g ps)). fst (snd o') = n" using assms by auto
  then have "map (fst \<circ> snd) (concat (map g ps)) = replicate (length (concat (map g ps))) n"
    by (intro replicate_eqI) auto
  then have "sorted (map (fst \<circ> snd) (concat (map g ps)))" by (metis sorted_replicate)
  with \<open>\<forall>o' \<in> set (concat (map g ps)). fst (snd o') = n\<close> show ?thesis by (auto simp: offers_in_def)
qed

definition apply_offers :: "(data_value list \<Rightarrow> op_refusal + data_value) \<Rightarrow> source_span \<Rightarrow> nat \<Rightarrow> data_value list list \<Rightarrow> nat \<times> nat \<Rightarrow> offers" where
  "apply_offers krn sp node cols r =
     (case krn (map (\<lambda>c. c ! fst r) cols) of Inl err \<Rightarrow> [(snd r, node, EvalRaised sp err)] | Inr _ \<Rightarrow> [])"

lemma apply_rows_eq:
  "apply_rows krn sp node cols rs st
    = (map (\<lambda>r. case krn (map (\<lambda>c. c ! fst r) cols) of Inr v \<Rightarrow> v | Inl _ \<Rightarrow> DNull) rs,
       st\<lparr>bs_errors := foldl offer (bs_errors st) (concat (map (apply_offers krn sp node cols) rs))\<rparr>)"
  by (induction rs arbitrary: st) (simp_all add: apply_offers_def offer_at_def Let_def split: sum.splits)

definition lazy_offers :: "lazy_op \<Rightarrow> source_span \<Rightarrow> nat \<Rightarrow> data_value list \<Rightarrow> nat \<times> nat \<Rightarrow> offers" where
  "lazy_offers op sp node vals r =
     (if lazy_decide op (vals ! fst r) = Refused then [(snd r, node, PredicateType sp (vals ! fst r))] else [])"

lemma lazy_rows_eq:
  "lazy_rows op sp node vals rs st
    = (map snd (filter (\<lambda>r. lazy_decide op (vals ! fst r) = Continue) rs),
       map (\<lambda>r. (snd r, case lazy_decide op (vals ! fst r) of Decided v \<Rightarrow> v | _ \<Rightarrow> DNull))
         (filter (\<lambda>r. lazy_decide op (vals ! fst r) \<noteq> Continue) rs),
       st\<lparr>bs_errors := foldl offer (bs_errors st) (concat (map (lazy_offers op sp node vals) rs))\<rparr>)"
  by (induction rs arbitrary: st) (simp_all add: lazy_offers_def offer_at_def Let_def split: decision.splits)

definition cond_offers :: "source_span \<Rightarrow> nat \<Rightarrow> data_value list \<Rightarrow> nat \<times> nat \<Rightarrow> offers" where
  "cond_offers sp node vals r =
     (if get_bool (vals ! fst r) = None then [(snd r, node, PredicateType sp (vals ! fst r))] else [])"

lemma cond_rows_eq:
  "cond_rows sp node vals rs st
    = (map snd (filter (\<lambda>r. get_bool (vals ! fst r) = Some True) rs),
       map snd (filter (\<lambda>r. get_bool (vals ! fst r) = Some False) rs),
       map (\<lambda>r. (snd r, DNull)) (filter (\<lambda>r. get_bool (vals ! fst r) = None) rs),
       st\<lparr>bs_errors := foldl offer (bs_errors st) (concat (map (cond_offers sp node vals) rs))\<rparr>)"
  by (induction rs arbitrary: st) (simp_all add: cond_offers_def offer_at_def Let_def split: option.splits bool.splits)

lemma claim_node_simps [simp]:
  "bs_next (claim_node st) = Suc (bs_next st)" "bs_errors (claim_node st) = bs_errors st"
  "claim_node \<lparr>bs_next = n, bs_errors = e\<rparr> = \<lparr>bs_next = Suc n, bs_errors = e\<rparr>"
  by (simp_all add: claim_node_def)

section \<open>Applications\<close>

lemma eval_columns_ok:
  assumes "\<And>a. a \<in> set args \<Longrightarrow> node_ok height (f a) (rv a)" "sorted_wrt (<) sel" "set sel \<subseteq> {..<height}"
  shows "\<exists>cols os n. eval_columns f sel args st = Inr (cols, \<lparr>bs_next = n, bs_errors = foldl offer (bs_errors st) os\<rparr>)
    \<and> bs_next st \<le> n \<and> offers_in (bs_next st) n os \<and> (\<forall>o' \<in> set os. fst o' \<in> set sel)
    \<and> (\<forall>i < length sel. case collect_results (\<lambda>a. rv a (sel ! i)) args of
          Inr vs \<Rightarrow> map (\<lambda>c. c ! i) cols = vs \<and> first_for (sel ! i) os = None
        | Inl e \<Rightarrow> first_for (sel ! i) os = Some e)"
  using assms(1)
proof (induction args arbitrary: st)
  case Nil
  show ?case by (rule exI[of _ "[]"], rule exI[of _ "[]"], rule exI[of _ "bs_next st"]) simp
next
  case (Cons a args)
  obtain vals os n where a: "f a sel st = Inr (vals, \<lparr>bs_next = n, bs_errors = foldl offer (bs_errors st) os\<rparr>)"
    "bs_next st \<le> n" "offers_in (bs_next st) n os" "column_ok (rv a) sel vals os"
    by (rule node_okE[OF Cons.prems[OF list.set_intros(1)] assms(2,3)])
  from Cons.IH[of "\<lparr>bs_next = n, bs_errors = foldl offer (bs_errors st) os\<rparr>"] Cons.prems
  obtain cols os' n' where r: "eval_columns f sel args \<lparr>bs_next = n, bs_errors = foldl offer (bs_errors st) os\<rparr>
      = Inr (cols, \<lparr>bs_next = n', bs_errors = foldl offer (foldl offer (bs_errors st) os) os'\<rparr>)"
    "n \<le> n'" "offers_in n n' os'" "\<forall>o' \<in> set os'. fst o' \<in> set sel"
    "\<forall>i < length sel. case collect_results (\<lambda>a. rv a (sel ! i)) args of
          Inr vs \<Rightarrow> map (\<lambda>c. c ! i) cols = vs \<and> first_for (sel ! i) os' = None
        | Inl e \<Rightarrow> first_for (sel ! i) os' = Some e" by auto
  have row: "case collect_results (\<lambda>a. rv a (sel ! i)) (a # args) of
          Inr vs \<Rightarrow> map (\<lambda>c. c ! i) (vals # cols) = vs \<and> first_for (sel ! i) (os @ os') = None
        | Inl e \<Rightarrow> first_for (sel ! i) (os @ os') = Some e" if i: "i < length sel" for i
  proof (cases "rv a (sel ! i)")
    case (Inl e)
    with column_ok_first(1)[OF a(4) i] show ?thesis by (simp add: first_for_append)
  next
    case (Inr v)
    with column_ok_first(2)[OF a(4) i] r(5) i show ?thesis
      by (cases "collect_results (\<lambda>a. rv a (sel ! i)) args") (auto simp: first_for_append)
  qed
  show ?case
    using a(1,2) r(1-4) row offers_in_append[OF a(3) r(3) a(2) r(2)] column_okD(2)[OF a(4)]
    by (intro exI[of _ "vals # cols"] exI[of _ "os @ os'"] exI[of _ n']) auto
qed

lemma distinct_enumerate: "sorted_wrt (<) (sel :: nat list) \<Longrightarrow> distinct (map snd (enumerate 0 sel))"
  by (simp add: strict_sorted_iff)

lemma first_for_rows:
  assumes "sorted_wrt (<) sel" "i < length sel" "\<And>p o'. o' \<in> set (g p) \<Longrightarrow> fst o' = snd p"
  shows "first_for (sel ! i) (concat (map g (enumerate 0 sel))) = first_for (sel ! i) (g (i, sel ! i))"
  using first_for_concat[OF distinct_enumerate[OF assms(1)] assms(3) enumerate_nth_mem[OF assms(2)]] by simp

lemma offers_of_row:
  "o' \<in> set (apply_offers krn sp node cols p) \<Longrightarrow> fst o' = snd p \<and> fst (snd o') = node"
  "o' \<in> set (lazy_offers op sp node vals p) \<Longrightarrow> fst o' = snd p \<and> fst (snd o') = node"
  "o' \<in> set (cond_offers sp node vals p) \<Longrightarrow> fst o' = snd p \<and> fst (snd o') = node"
  by (auto simp: apply_offers_def lazy_offers_def cond_offers_def split: sum.splits if_splits)

lemma rows_of_offers:
  assumes "\<And>p o'. o' \<in> set (g p) \<Longrightarrow> fst o' = snd p" "o' \<in> set (concat (map g (enumerate 0 sel)))"
  shows "fst o' \<in> set sel"
proof -
  from assms(2) obtain p where "p \<in> set (enumerate 0 sel)" "o' \<in> set (g p)" by auto
  moreover from this(1) have "snd p \<in> set sel" by (auto simp: in_set_enumerate_eq dest: nth_mem)
  ultimately show ?thesis using assms(1)[of o' p] by simp
qed

lemma apply_ok:
  assumes args: "\<And>a. a \<in> set args \<Longrightarrow> node_ok height (eval_node table batch a) (\<lambda>r. eval_expr table a (row r))"
    and op: "bound_of table op = Inr b"
  shows "node_ok height (eval_node table batch (Apply op args sp)) (\<lambda>r. eval_expr table (Apply op args sp) (row r))"
  unfolding node_ok_def
proof (intro allI impI)
  fix sel st assume sel: "sorted_wrt (<) sel" "set sel \<subseteq> {..<height}"
  define krn where "krn = op_kernel table op"
  have krn: "krn vs = bound_apply b vs" for vs by (simp add: krn_def op_kernel_def op)
  from eval_columns_ok[where f = "eval_node table batch" and rv = "\<lambda>a r. eval_expr table a (row r)" and args = args
      and st = "claim_node st", OF args sel] obtain cols os n where
    c: "eval_columns (eval_node table batch) sel args (claim_node st) = Inr (cols, \<lparr>bs_next = n, bs_errors = foldl offer (bs_errors st) os\<rparr>)"
    "Suc (bs_next st) \<le> n" "offers_in (Suc (bs_next st)) n os" "\<forall>o' \<in> set os. fst o' \<in> set sel"
    "\<forall>i < length sel. case collect_results (\<lambda>a. eval_expr table a (row (sel ! i))) args of
          Inr vs \<Rightarrow> map (\<lambda>c. c ! i) cols = vs \<and> first_for (sel ! i) os = None
        | Inl e \<Rightarrow> first_for (sel ! i) os = Some e" by auto
  define os' where "os' = concat (map (apply_offers krn sp n cols) (enumerate 0 sel))"
  define out where "out = map (\<lambda>r. case krn (map (\<lambda>c. c ! fst r) cols) of Inr v \<Rightarrow> v | Inl _ \<Rightarrow> DNull) (enumerate 0 sel)"
  have ev: "eval_node table batch (Apply op args sp) sel st = Inr (out, \<lparr>bs_next = Suc n, bs_errors = foldl offer (bs_errors st) (os @ os')\<rparr>)"
    by (simp add: c(1) apply_rows_eq out_def os'_def krn_def)
  have "offers_in n (Suc n) os'"
    unfolding os'_def by (rule offers_same_node) (use offers_of_row(1) in blast)
  then have off: "offers_in (bs_next st) (Suc n) (os @ os')"
    using offers_in_weaken[OF c(3), of "bs_next st" n] c(2) by (intro offers_in_append[of _ n]) auto
  have "column_ok (\<lambda>r. eval_expr table (Apply op args sp) (row r)) sel out (os @ os')"
    unfolding column_ok_def
  proof (intro conjI allI impI ballI)
    show "length out = length sel" by (simp add: out_def)
    show "fst o' \<in> set sel" if "o' \<in> set (os @ os')" for o'
    proof (cases "o' \<in> set os'")
      case True
      then show ?thesis unfolding os'_def by (rule rows_of_offers[rotated]) (simp add: offers_of_row(1))
    qed (use that c(4) in auto)
    fix i assume i: "i < length sel"
    have out: "out ! i = (case krn (map (\<lambda>c. c ! i) cols) of Inr v \<Rightarrow> v | Inl _ \<Rightarrow> DNull)"
      using i by (simp add: out_def nth_enumerate_eq)
    have first: "first_for (sel ! i) os' = (case krn (map (\<lambda>c. c ! i) cols) of Inl e \<Rightarrow> Some (EvalRaised sp e) | Inr _ \<Rightarrow> None)"
      using first_for_rows[OF sel(1) i, of "apply_offers krn sp n cols"] offers_of_row(1)[of _ krn sp n cols]
      by (auto simp: os'_def apply_offers_def split: sum.splits)
    show "row_ok (eval_expr table (Apply op args sp) (row (sel ! i))) (sel ! i) (out ! i) (os @ os')"
    proof (cases "collect_results (\<lambda>a. eval_expr table a (row (sel ! i))) args")
      case (Inl e)
      then show ?thesis using c(5) i by (auto simp: row_ok_def first_for_append)
    next
      case (Inr vs)
      then have "map (\<lambda>c. c ! i) cols = vs" "first_for (sel ! i) os = None" using c(5) i by auto
      with Inr out first op show ?thesis
        by (cases "bound_apply b vs") (auto simp: row_ok_def first_for_append krn)
    qed
  qed
  with ev off c(2) show "\<exists>vals os n. eval_node table batch (Apply op args sp) sel st = Inr (vals, \<lparr>bs_next = n, bs_errors = foldl offer (bs_errors st) os\<rparr>)
      \<and> bs_next st \<le> n \<and> offers_in (bs_next st) n os \<and> column_ok (\<lambda>r. eval_expr table (Apply op args sp) (row r)) sel vals os"
    by (intro exI[of _ out] exI[of _ "os @ os'"] exI[of _ "Suc n"]) simp
qed

section \<open>Stitching\<close>

lemma stitch_nth:
  assumes sel: "sorted_wrt (<) (sel :: nat list)" and d: "distinct (live @ map fst dec)" and st: "set (live @ map fst dec) = set sel"
    and i: "i < length sel" and v: "(sel ! i, v) \<in> set dec \<or> sel ! i \<in> set live \<and> v = rest"
  shows "stitch rest live dec ! i = v"
proof -
  define all where "all = dec @ map (\<lambda>row. (row, rest)) live"
  have fst: "map fst all = map fst dec @ live" by (simp add: all_def comp_def)
  have d': "distinct (map fst all)" using d unfolding fst by auto
  have srt: "sorted (map fst (sort_key fst all))" by simp
  have "distinct (map fst (sort_key fst all))" using d' by (simp add: distinct_map distinct_sort)
  moreover have "set (map fst (sort_key fst all)) = set sel" using st fst by (metis Un_commute set_append set_map set_sort)
  ultimately have eq: "map fst (sort_key fst all) = sel"
    using srt sel by (intro sorted_distinct_set_unique) (auto simp: strict_sorted_iff)
  have len: "length (sort_key fst all) = length sel" using arg_cong[OF eq, of length] by simp
  have "(sel ! i, v) \<in> set all" using v by (auto simp: all_def)
  moreover have "sort_key fst all ! i \<in> set all" using i len by (metis nth_mem set_sort)
  moreover have "fst (sort_key fst all ! i) = sel ! i" using eq i len by (metis nth_map)
  ultimately have "sort_key fst all ! i = (sel ! i, v)" using d' by (metis distinct_map fst_conv inj_onD)
  then show ?thesis using i len by (simp add: stitch_def all_def)
qed

lemma length_stitch: "length (stitch rest live dec) = length dec + length live"
  by (simp add: stitch_def)

end
