(* ===== verification/Expr_Identity.thy ===== *)
theory Expr_Identity
  imports Expr_Batch_Laws
begin

text \<open>
  Short-circuiting by partition: the connectives and conditionals of a batch decide each row as the row
  evaluator does. With it the columnar evaluator equals the row evaluator on every expression whose
  names are resolved and whose operators are bound.
\<close>

section \<open>Connectives\<close>

definition decided_ok :: "(nat \<Rightarrow> expr_error + data_value) \<Rightarrow> data_value \<Rightarrow> nat list \<Rightarrow> nat list \<Rightarrow> (nat \<times> data_value) list \<Rightarrow> offers \<Rightarrow> bool" where
  "decided_ok rv rest live live' dec os \<longleftrightarrow>
     sorted_wrt (<) live' \<and> distinct (live' @ map fst dec) \<and> set (live' @ map fst dec) = set live \<and> (\<forall>o' \<in> set os. fst o' \<in> set live)
     \<and> (\<forall>r \<in> set live. case rv r of
          Inl e \<Rightarrow> first_for r os = Some e
        | Inr v \<Rightarrow> first_for r os = None \<and> ((r, v) \<in> set dec \<or> r \<in> set live' \<and> v = rest))"

lemma decided_okD:
  assumes "decided_ok rv rest live live' dec os"
  shows "sorted_wrt (<) live'" "distinct (live' @ map fst dec)" "set (live' @ map fst dec) = set live" "\<And>o'. o' \<in> set os \<Longrightarrow> fst o' \<in> set live"
    "\<And>r e. r \<in> set live \<Longrightarrow> rv r = Inl e \<Longrightarrow> first_for r os = Some e"
    "\<And>r v. r \<in> set live \<Longrightarrow> rv r = Inr v \<Longrightarrow> first_for r os = None \<and> ((r, v) \<in> set dec \<or> r \<in> set live' \<and> v = rest)"
  using assms by (fastforce simp: decided_ok_def split: sum.splits)+

lemma decided_column:
  assumes "decided_ok rv rest sel live' dec os" "sorted_wrt (<) sel"
  shows "column_ok rv sel (stitch rest live' dec) os"
  unfolding column_ok_def
proof (intro conjI allI impI ballI)
  note d = decided_okD[OF assms(1)]
  have "distinct sel" using assms(2) by (simp add: strict_sorted_iff)
  then have "length (live' @ map fst dec) = length sel" using d(2,3) by (metis distinct_card)
  then show "length (stitch rest live' dec) = length sel" by (simp add: length_stitch)
  show "fst o' \<in> set sel" if "o' \<in> set os" for o' using d(4) that .
  fix i assume i: "i < length sel"
  then show "row_ok (rv (sel ! i)) (sel ! i) (stitch rest live' dec ! i) os"
    using d(5,6)[of "sel ! i"] stitch_nth[OF assms(2) d(2,3) i] by (auto simp: row_ok_def split: sum.splits)
qed

lemma enumerate_filter_rows:
  assumes "sorted_wrt (<) (live :: nat list)"
  shows "sorted_wrt (<) (map snd (filter P (enumerate 0 live)))"
    "i < length live \<Longrightarrow> live ! i \<in> set (map snd (filter P (enumerate 0 live))) \<longleftrightarrow> P (i, live ! i)"
    "set (map snd (filter P (enumerate 0 live))) \<subseteq> set live"
proof -
  have "sorted_wrt (\<lambda>p q. snd p < snd q) (enumerate 0 live)" using assms by (simp flip: sorted_wrt_map)
  then have "sorted_wrt (\<lambda>p q. snd p < snd q) (filter P (enumerate 0 live))" by (rule sorted_wrt_filter)
  then show "sorted_wrt (<) (map snd (filter P (enumerate 0 live)))" by (simp add: sorted_wrt_map)
  have "distinct live" using assms by (simp add: strict_sorted_iff)
  then show "live ! i \<in> set (map snd (filter P (enumerate 0 live))) \<longleftrightarrow> P (i, live ! i)" if "i < length live"
    using that by (auto simp: in_set_enumerate_eq nth_eq_iff_index_eq image_iff)
  show "set (map snd (filter P (enumerate 0 live))) \<subseteq> set live" by (auto simp: in_set_enumerate_eq dest: nth_mem)
qed

lemma partition_distinct:
  assumes "sorted_wrt (<) (live :: nat list)"
  shows "distinct (map snd (filter P (enumerate 0 live)) @ map snd (filter (\<lambda>p. \<not> P p) (enumerate 0 live)))"
    "set (map snd (filter P (enumerate 0 live)) @ map snd (filter (\<lambda>p. \<not> P p) (enumerate 0 live))) = set live"
proof -
  note f = enumerate_filter_rows[OF assms]
  have d: "distinct (map snd (filter Q (enumerate 0 live)))" for Q using f(1) by (simp add: strict_sorted_iff)
  have m: "live ! i \<in> set (map snd (filter Q (enumerate 0 live))) \<longleftrightarrow> Q (i, live ! i)" if "i < length live" for i Q using f(2) that by blast
  have "x \<notin> set (map snd (filter (\<lambda>p. \<not> P p) (enumerate 0 live)))" if "x \<in> set (map snd (filter P (enumerate 0 live)))" for x
  proof -
    from that f(3) obtain i where "i < length live" "x = live ! i" by (metis in_set_conv_nth subsetD)
    with that m[of i P] m[of i "\<lambda>p. \<not> P p"] show ?thesis by blast
  qed
  then show "distinct (map snd (filter P (enumerate 0 live)) @ map snd (filter (\<lambda>p. \<not> P p) (enumerate 0 live)))"
    using d by (simp only: distinct_append) blast
  have "set live \<subseteq> set (map snd (filter P (enumerate 0 live))) \<union> set (map snd (filter (\<lambda>p. \<not> P p) (enumerate 0 live)))"
  proof
    fix x assume "x \<in> set live"
    then obtain i where "i < length live" "x = live ! i" by (metis in_set_conv_nth)
    with m[of i P] m[of i "\<lambda>p. \<not> P p"] show "x \<in> set (map snd (filter P (enumerate 0 live))) \<union> set (map snd (filter (\<lambda>p. \<not> P p) (enumerate 0 live)))"
      by blast
  qed
  then show "set (map snd (filter P (enumerate 0 live)) @ map snd (filter (\<lambda>p. \<not> P p) (enumerate 0 live))) = set live"
    using f(3) by (simp only: set_append) blast
qed

text \<open>One argument of a connective: the rows that go on, those that are decided, and the refusals.\<close>

lemma lazy_step_ok:
  assumes live: "sorted_wrt (<) live" and a: "column_ok rv live vals os"
    and rows: "lazy_rows op sp n vals (enumerate 0 live) st = (still, dec, st')"
  obtains os2 where "st' = st\<lparr>bs_errors := foldl offer (bs_errors st) os2\<rparr>" "offers_in n (Suc n) os2"
    "decided_ok (\<lambda>r. rbind (rv r) (\<lambda>v. case lazy_decide op v of Decided d \<Rightarrow> Inr d | Continue \<Rightarrow> Inr rest | Refused \<Rightarrow> Inl (PredicateType sp v)))
       rest live still dec (os @ os2)"
    "\<And>r v. r \<in> set live \<Longrightarrow> rv r = Inr v \<Longrightarrow> r \<in> set still \<longleftrightarrow> lazy_decide op v = Continue"
proof -
  define os2 where "os2 = concat (map (lazy_offers op sp n vals) (enumerate 0 live))"
  let ?C = "\<lambda>p. lazy_decide op (vals ! fst p) = Continue"
  have eqs: "still = map snd (filter ?C (enumerate 0 live))"
    "dec = map (\<lambda>r. (snd r, case lazy_decide op (vals ! fst r) of Decided v \<Rightarrow> v | _ \<Rightarrow> DNull)) (filter (\<lambda>p. \<not> ?C p) (enumerate 0 live))"
    "st' = st\<lparr>bs_errors := foldl offer (bs_errors st) os2\<rparr>"
    using rows by (simp_all add: lazy_rows_eq os2_def)
  have fdec: "map fst dec = map snd (filter (\<lambda>p. \<not> ?C p) (enumerate 0 live))" by (simp add: eqs(2))
  have first2: "first_for (live ! i) os2 = (if lazy_decide op (vals ! i) = Refused then Some (PredicateType sp (vals ! i)) else None)"
    if "i < length live" for i
    using first_for_rows[OF live that, of "lazy_offers op sp n vals"] offers_of_row(2) by (auto simp: os2_def lazy_offers_def)
  have still: "live ! i \<in> set still \<longleftrightarrow> lazy_decide op (vals ! i) = Continue" if "i < length live" for i
    unfolding eqs(1) using enumerate_filter_rows(2)[OF live that, of ?C] by simp
  have decm: "(live ! i, d) \<in> set dec" if "i < length live" "lazy_decide op (vals ! i) = Decided d" for i d
    unfolding eqs(2) using that enumerate_nth_mem[OF that(1)] by (force simp: image_iff)
  have idx: "\<exists>i < length live. r = live ! i" if "r \<in> set live" for r using that by (metis in_set_conv_nth)
  show thesis
  proof (rule that)
    show "st' = st\<lparr>bs_errors := foldl offer (bs_errors st) os2\<rparr>" by (rule eqs(3))
    show "offers_in n (Suc n) os2" unfolding os2_def by (rule offers_same_node) (use offers_of_row(2) in blast)
    show "r \<in> set still \<longleftrightarrow> lazy_decide op v = Continue" if "r \<in> set live" "rv r = Inr v" for r v
    proof -
      from idx[OF that(1)] obtain i where i: "i < length live" "r = live ! i" by blast
      with column_ok_first(2)[OF a i(1)] that(2) still[OF i(1)] show ?thesis by auto
    qed
    show "decided_ok (\<lambda>r. rbind (rv r) (\<lambda>v. case lazy_decide op v of Decided d \<Rightarrow> Inr d | Continue \<Rightarrow> Inr rest | Refused \<Rightarrow> Inl (PredicateType sp v)))
       rest live still dec (os @ os2)"
      unfolding decided_ok_def
    proof (intro conjI ballI)
      show "sorted_wrt (<) still" unfolding eqs(1) by (rule enumerate_filter_rows(1)[OF live])
      show "distinct (still @ map fst dec)" "set (still @ map fst dec) = set live"
        unfolding fdec eqs(1) using partition_distinct[OF live, of ?C] by blast+
      show "fst o' \<in> set live" if "o' \<in> set (os @ os2)" for o'
      proof (cases "o' \<in> set os2")
        case True
        then show ?thesis unfolding os2_def by (rule rows_of_offers[rotated]) (simp add: offers_of_row(2))
      qed (use that column_okD(2)[OF a] in auto)
      fix r assume "r \<in> set live"
      with idx obtain i where i: "i < length live" "r = live ! i" by blast
      show "case rbind (rv r) (\<lambda>v. case lazy_decide op v of Decided d \<Rightarrow> Inr d | Continue \<Rightarrow> Inr rest | Refused \<Rightarrow> Inl (PredicateType sp v)) of
          Inl e \<Rightarrow> first_for r (os @ os2) = Some e
        | Inr v \<Rightarrow> first_for r (os @ os2) = None \<and> ((r, v) \<in> set dec \<or> r \<in> set still \<and> v = rest)"
      proof (cases "rv r")
        case (Inl e)
        with column_ok_first(1)[OF a i(1)] i(2) show ?thesis by (simp add: first_for_append)
      next
        case (Inr v)
        with column_ok_first(2)[OF a i(1)] i(2) first2[OF i(1)] still[OF i(1)] decm[OF i(1)] show ?thesis
          by (cases "lazy_decide op v") (auto simp: first_for_append)
      qed
    qed
  qed
qed

lemma decided_chain:
  assumes one: "decided_ok rv1 rest live still dec os1" and two: "decided_ok rv2 rest still live' dec' os2"
    and fwd: "\<And>r. r \<in> set live \<Longrightarrow> rv r = (if r \<in> set still \<and> (\<exists>v. rv1 r = Inr v) then rv2 r else rv1 r)"
  shows "decided_ok rv rest live live' (dec @ dec') (os1 @ os2)"
  unfolding decided_ok_def
proof (intro conjI ballI)
  note d1 = decided_okD[OF one] and d2 = decided_okD[OF two]
  show "sorted_wrt (<) live'" by (rule d2(1))
  have sub: "set live' \<union> fst ` set dec' = set still" using d2(3) by simp
  show "distinct (live' @ map fst (dec @ dec'))" using d1(2) d2(2) sub by auto
  show "set (live' @ map fst (dec @ dec')) = set live" using d1(3) sub by auto
  show "fst o' \<in> set live" if "o' \<in> set (os1 @ os2)" for o'
  proof -
    from that consider "o' \<in> set os1" | "o' \<in> set os2" by (simp only: set_append) blast
    then show ?thesis using d1(3) d1(4)[of o'] d2(4)[of o'] by cases auto
  qed
  fix r assume r: "r \<in> set live"
  have late: "first_for r os2 = None" if "r \<notin> set still" using that d2(4) unfolding first_for_None by blast
  show "case rv r of Inl e \<Rightarrow> first_for r (os1 @ os2) = Some e
      | Inr v \<Rightarrow> first_for r (os1 @ os2) = None \<and> ((r, v) \<in> set (dec @ dec') \<or> r \<in> set live' \<and> v = rest)"
  proof (cases "rv1 r")
    case (Inl e)
    with d1(5)[OF r] fwd[OF r] show ?thesis by (simp add: first_for_append)
  next
    case (Inr v)
    with d1(6)[OF r] fwd[OF r] d2(5,6)[of r] late show ?thesis
      by (cases "r \<in> set still"; cases "rv2 r") (auto simp: first_for_append)
  qed
qed

lemma decided_none: "sorted_wrt (<) live \<Longrightarrow> (\<And>r. r \<in> set live \<Longrightarrow> rv r = Inr rest) \<Longrightarrow> decided_ok rv rest live live [] []"
  by (auto simp: decided_ok_def strict_sorted_iff)

lemma lazy_columns_ok:
  assumes "\<And>a. a \<in> set args \<Longrightarrow> node_ok height (f a) (rv a)" "sorted_wrt (<) live" "set live \<subseteq> {..<height}"
  shows "\<exists>live' dec os n. lazy_columns op f args live decided st
      = Inr (live', decided @ dec, \<lparr>bs_next = n, bs_errors = foldl offer (bs_errors st) os\<rparr>)
    \<and> bs_next st \<le> n \<and> offers_in (bs_next st) n os
    \<and> decided_ok (\<lambda>r. lazy_loop op (\<lambda>a. rv a r) args) (lazy_identity op) live live' dec os"
  using assms
proof (induction args arbitrary: live decided st)
  case Nil
  then show ?case using decided_none[of live]
    by (intro exI[of _ live] exI[of _ "[]"] exI[of _ "bs_next st"]) auto
next
  case (Cons a args)
  show ?case
  proof (cases "live = []")
    case True
    then show ?thesis by (intro exI[of _ "[]"] exI[of _ "bs_next st"]) (auto simp: decided_ok_def)
  next
    case False
    let ?rest = "lazy_identity op"
    obtain vals os n where a: "f a live st = Inr (vals, \<lparr>bs_next = n, bs_errors = foldl offer (bs_errors st) os\<rparr>)"
      "bs_next st \<le> n" "offers_in (bs_next st) n os" "column_ok (rv a) live vals os"
      by (rule node_okE[OF Cons.prems(1)[OF list.set_intros(1)] Cons.prems(2,3)])
    define st1 where "st1 = \<lparr>bs_next = Suc n, bs_errors = foldl offer (bs_errors st) os\<rparr>"
    obtain still dec st2 where rows: "lazy_rows op (expr_span a) n vals (enumerate 0 live) st1 = (still, dec, st2)"
      by (cases "lazy_rows op (expr_span a) n vals (enumerate 0 live) st1") auto
    obtain os2 where s: "st2 = st1\<lparr>bs_errors := foldl offer (bs_errors st1) os2\<rparr>" "offers_in n (Suc n) os2"
      "decided_ok (\<lambda>r. rbind (rv a r) (\<lambda>v. case lazy_decide op v of Decided d \<Rightarrow> Inr d | Continue \<Rightarrow> Inr ?rest | Refused \<Rightarrow> Inl (PredicateType (expr_span a) v)))
         ?rest live still dec (os @ os2)"
      "\<And>r v. r \<in> set live \<Longrightarrow> rv a r = Inr v \<Longrightarrow> r \<in> set still \<longleftrightarrow> lazy_decide op v = Continue"
      by (rule lazy_step_ok[OF Cons.prems(2) a(4) rows, of ?rest]) blast
    have st2: "bs_next st2 = Suc n" "bs_errors st2 = foldl offer (bs_errors st) (os @ os2)" by (simp_all add: s(1) st1_def)
    have still: "sorted_wrt (<) still" "set still \<subseteq> {..<height}" using decided_okD(1,3)[OF s(3)] Cons.prems(3) by auto
    obtain live' dec' os' n' where r: "lazy_columns op f args still (decided @ dec) st2
        = Inr (live', (decided @ dec) @ dec', \<lparr>bs_next = n', bs_errors = foldl offer (bs_errors st2) os'\<rparr>)"
      "bs_next st2 \<le> n'" "offers_in (bs_next st2) n' os'" "decided_ok (\<lambda>r. lazy_loop op (\<lambda>a. rv a r) args) ?rest still live' dec' os'"
      using Cons.IH[OF Cons.prems(1) still, where decided = "decided @ dec" and st = st2] by auto
    have "decided_ok (\<lambda>r. lazy_loop op (\<lambda>a. rv a r) (a # args)) ?rest live live' (dec @ dec') ((os @ os2) @ os')"
    proof (rule decided_chain[OF s(3) r(4)], goal_cases)
      case (1 r)
      show ?case using s(4)[OF 1] by (cases "rv a r") (auto split: decision.splits)
    qed
    moreover have "lazy_columns op f (a # args) live decided st
        = Inr (live', decided @ dec @ dec', \<lparr>bs_next = n', bs_errors = foldl offer (bs_errors st) ((os @ os2) @ os')\<rparr>)"
      using False a(1) rows r(1) st2(2) by (simp add: st1_def[symmetric])
    moreover have "offers_in (bs_next st) n' ((os @ os2) @ os')"
      using offers_in_append[OF offers_in_append[OF a(3) s(2) a(2)], of n' os'] a(2) r(2,3) st2(1) by simp
    ultimately show ?thesis using a(2) r(2) st2(1)
      by (intro exI[of _ live'] exI[of _ "dec @ dec'"] exI[of _ "(os @ os2) @ os'"] exI[of _ n']) simp
  qed
qed

section \<open>Conditionals\<close>

lemma cond_rows_facts:
  assumes live: "sorted_wrt (<) live" and a: "column_ok rv live vals os"
    and rows: "cond_rows sp n vals (enumerate 0 live) st = (taken, passed, dec, st')"
  obtains os2 where "st' = st\<lparr>bs_errors := foldl offer (bs_errors st) os2\<rparr>" "offers_in n (Suc n) os2"
    "sorted_wrt (<) taken" "sorted_wrt (<) passed" "set taken \<subseteq> set live"
    "distinct (passed @ map fst dec @ taken)" "set (passed @ map fst dec @ taken) = set live"
    "\<forall>o' \<in> set (os @ os2). fst o' \<in> set live"
    "\<forall>r \<in> set live. case rv r of Inl e \<Rightarrow> first_for r os = Some e
       | Inr v \<Rightarrow> first_for r os = None \<and> (case get_bool v of
            None \<Rightarrow> first_for r os2 = Some (PredicateType sp v)
          | Some True \<Rightarrow> first_for r os2 = None \<and> r \<in> set taken
          | Some False \<Rightarrow> first_for r os2 = None \<and> r \<in> set passed)"
proof -
  define os2 where "os2 = concat (map (cond_offers sp n vals) (enumerate 0 live))"
  let ?T = "\<lambda>p. get_bool (vals ! fst p) = Some True" and ?F = "\<lambda>p. get_bool (vals ! fst p) = Some False" and ?N = "\<lambda>p. get_bool (vals ! fst p) = None"
  have eqs: "taken = map snd (filter ?T (enumerate 0 live))" "passed = map snd (filter ?F (enumerate 0 live))"
    "dec = map (\<lambda>r. (snd r, DNull)) (filter ?N (enumerate 0 live))" "st' = st\<lparr>bs_errors := foldl offer (bs_errors st) os2\<rparr>"
    using rows by (simp_all add: cond_rows_eq os2_def)
  have fdec: "map fst dec = map snd (filter ?N (enumerate 0 live))" by (simp add: eqs(3))
  note mem = enumerate_filter_rows(2)[OF live]
  have m: "live ! i \<in> set taken \<longleftrightarrow> get_bool (vals ! i) = Some True" "live ! i \<in> set passed \<longleftrightarrow> get_bool (vals ! i) = Some False"
    "live ! i \<in> set (map fst dec) \<longleftrightarrow> get_bool (vals ! i) = None" if "i < length live" for i
    unfolding fdec eqs(1,2) using mem[OF that, of ?T] mem[OF that, of ?F] mem[OF that, of ?N] by simp_all
  have sub: "set taken \<subseteq> set live" "set passed \<subseteq> set live" "set (map fst dec) \<subseteq> set live"
    unfolding fdec eqs(1,2) by (rule enumerate_filter_rows(3)[OF live])+
  have srt: "sorted_wrt (<) taken" "sorted_wrt (<) passed" "sorted_wrt (<) (map fst dec)"
    unfolding fdec eqs(1,2) by (rule enumerate_filter_rows(1)[OF live])+
  have idx: "\<exists>i < length live. r = live ! i" if "r \<in> set live" for r using that by (metis in_set_conv_nth)
  have first2: "first_for (live ! i) os2 = (if get_bool (vals ! i) = None then Some (PredicateType sp (vals ! i)) else None)"
    if "i < length live" for i
    using first_for_rows[OF live that, of "cond_offers sp n vals"] offers_of_row(3) by (auto simp: os2_def cond_offers_def)
  have part: "r \<in> set passed \<union> set (map fst dec) \<union> set taken" "\<not> (r \<in> set passed \<and> r \<in> set (map fst dec))"
    "\<not> (r \<in> set passed \<and> r \<in> set taken)" "\<not> (r \<in> set (map fst dec) \<and> r \<in> set taken)" if "r \<in> set live" for r
  proof -
    from idx[OF that] obtain i where "i < length live" "r = live ! i" by blast
    with m[of i] show "r \<in> set passed \<union> set (map fst dec) \<union> set taken" "\<not> (r \<in> set passed \<and> r \<in> set (map fst dec))"
      "\<not> (r \<in> set passed \<and> r \<in> set taken)" "\<not> (r \<in> set (map fst dec) \<and> r \<in> set taken)"
      by (cases "get_bool (vals ! i)"; fastforce)+
  qed
  show thesis
  proof (rule that[OF eqs(4)])
    show "offers_in n (Suc n) os2" unfolding os2_def by (rule offers_same_node) (use offers_of_row(3) in blast)
    show "sorted_wrt (<) taken" "sorted_wrt (<) passed" "set taken \<subseteq> set live" by (fact srt sub)+
    have "distinct passed" "distinct (map fst dec)" "distinct taken" using srt by (simp_all add: strict_sorted_iff)
    moreover have "set passed \<inter> set (map fst dec) = {}" "set passed \<inter> set taken = {}" "set (map fst dec) \<inter> set taken = {}"
      using part(2-4) sub by blast+
    ultimately show "distinct (passed @ map fst dec @ taken)" by (simp only: distinct_append set_append) blast
    show "set (passed @ map fst dec @ taken) = set live" using sub part(1) by (simp only: set_append) blast
    show "\<forall>o' \<in> set (os @ os2). fst o' \<in> set live"
    proof
      fix o' assume o': "o' \<in> set (os @ os2)"
      show "fst o' \<in> set live"
      proof (cases "o' \<in> set os2")
        case True
        then show ?thesis unfolding os2_def by (rule rows_of_offers[rotated]) (simp add: offers_of_row(3))
      qed (use o' column_okD(2)[OF a] in auto)
    qed
    show "\<forall>r \<in> set live. case rv r of Inl e \<Rightarrow> first_for r os = Some e
       | Inr v \<Rightarrow> first_for r os = None \<and> (case get_bool v of
            None \<Rightarrow> first_for r os2 = Some (PredicateType sp v)
          | Some True \<Rightarrow> first_for r os2 = None \<and> r \<in> set taken
          | Some False \<Rightarrow> first_for r os2 = None \<and> r \<in> set passed)"
    proof
      fix r assume "r \<in> set live"
      with idx obtain i where i: "i < length live" "r = live ! i" by blast
      show "case rv r of Inl e \<Rightarrow> first_for r os = Some e
       | Inr v \<Rightarrow> first_for r os = None \<and> (case get_bool v of
            None \<Rightarrow> first_for r os2 = Some (PredicateType sp v)
          | Some True \<Rightarrow> first_for r os2 = None \<and> r \<in> set taken
          | Some False \<Rightarrow> first_for r os2 = None \<and> r \<in> set passed)"
        using column_ok_first[OF a i(1)] i(2) m[OF i(1)] first2[OF i(1)]
        by (cases "rv r") (auto split: option.splits bool.splits)
    qed
  qed
qed

text \<open>One clause: its condition decides which rows run its arm, and the arm runs on those rows only.\<close>

lemma cond_step_ok:
  assumes f: "sorted_wrt (<) taken" "sorted_wrt (<) passed" "set taken \<subseteq> set live"
      "distinct (passed @ map fst dec @ taken)" "set (passed @ map fst dec @ taken) = set live"
      "\<forall>o' \<in> set (os @ os2). fst o' \<in> set live"
      "\<forall>r \<in> set live. case rv r of Inl e \<Rightarrow> first_for r os = Some e
         | Inr v \<Rightarrow> first_for r os = None \<and> (case get_bool v of
              None \<Rightarrow> first_for r os2 = Some (PredicateType sp v)
            | Some True \<Rightarrow> first_for r os2 = None \<and> r \<in> set taken
            | Some False \<Rightarrow> first_for r os2 = None \<and> r \<in> set passed)"
    and arm: "column_ok rva taken arm os3"
  shows "decided_ok (\<lambda>r. rbind (rv r) (\<lambda>v. case get_bool v of
       None \<Rightarrow> Inl (PredicateType sp v) | Some True \<Rightarrow> rva r | Some False \<Rightarrow> Inr DNull))
     DNull live passed (dec @ zip taken arm) ((os @ os2) @ os3)"
  unfolding decided_ok_def
proof (intro conjI ballI)
  note z = column_okD[OF arm]
  have fz: "map fst (zip taken arm) = taken" using z(1) by simp
  show "sorted_wrt (<) passed" by (rule f(2))
  show "distinct (passed @ map fst (dec @ zip taken arm))" "set (passed @ map fst (dec @ zip taken arm)) = set live"
    using f(4,5) fz by (simp_all only: map_append)
  show "fst o' \<in> set live" if "o' \<in> set ((os @ os2) @ os3)" for o'
  proof (cases "o' \<in> set os3")
    case True
    then show ?thesis using z(2)[of o'] f(3) by blast
  qed (use that f(6) in auto)
  fix r assume r: "r \<in> set live"
  have out: "first_for r os3 = None" if "r \<notin> set taken" using that z(2) unfolding first_for_None by blast
  have pt: "r \<in> set passed \<Longrightarrow> r \<notin> set taken" using f(4) by auto
  have run: "case rva r of Inl e \<Rightarrow> first_for r os3 = Some e | Inr v \<Rightarrow> first_for r os3 = None \<and> (r, v) \<in> set (zip taken arm)" if t: "r \<in> set taken"
  proof -
    from t obtain i where i: "i < length taken" "taken ! i = r" by (metis in_set_conv_nth)
    with column_ok_first[OF arm i(1)] z(1) show ?thesis by (cases "rva r") (auto simp: set_zip)
  qed
  show "case rbind (rv r) (\<lambda>v. case get_bool v of None \<Rightarrow> Inl (PredicateType sp v) | Some True \<Rightarrow> rva r | Some False \<Rightarrow> Inr DNull) of
      Inl e \<Rightarrow> first_for r ((os @ os2) @ os3) = Some e
    | Inr v \<Rightarrow> first_for r ((os @ os2) @ os3) = None \<and> ((r, v) \<in> set (dec @ zip taken arm) \<or> r \<in> set passed \<and> v = DNull)"
    using bspec[OF f(7) r] run out pt
    by (cases "rv r"; cases "rva r") (auto simp: first_for_append split: option.splits bool.splits)
qed

lemma cond_columns_ok:
  assumes "\<And>c. c \<in> set clauses \<Longrightarrow> node_ok height (f (fst c)) (rv (fst c)) \<and> node_ok height (f (snd c)) (rv (snd c))"
    "sorted_wrt (<) live" "set live \<subseteq> {..<height}"
  shows "\<exists>live' dec os n. cond_columns f clauses live decided st
      = Inr (live', decided @ dec, \<lparr>bs_next = n, bs_errors = foldl offer (bs_errors st) os\<rparr>)
    \<and> bs_next st \<le> n \<and> offers_in (bs_next st) n os
    \<and> decided_ok (\<lambda>r. cond_loop (\<lambda>a. rv a r) clauses) DNull live live' dec os"
  using assms
proof (induction clauses arbitrary: live decided st)
  case Nil
  then show ?case using decided_none[of live]
    by (intro exI[of _ live] exI[of _ "[]"] exI[of _ "bs_next st"]) auto
next
  case (Cons c clauses)
  show ?case
  proof (cases "live = []")
    case True
    then show ?thesis by (intro exI[of _ "[]"] exI[of _ "bs_next st"]) (auto simp: decided_ok_def)
  next
    case False
    have nodes: "node_ok height (f (fst c)) (rv (fst c))" "node_ok height (f (snd c)) (rv (snd c))" using Cons.prems(1) by auto
    obtain vals os n where a: "f (fst c) live st = Inr (vals, \<lparr>bs_next = n, bs_errors = foldl offer (bs_errors st) os\<rparr>)"
      "bs_next st \<le> n" "offers_in (bs_next st) n os" "column_ok (rv (fst c)) live vals os"
      by (rule node_okE[OF nodes(1) Cons.prems(2,3)])
    define st1 where "st1 = \<lparr>bs_next = Suc n, bs_errors = foldl offer (bs_errors st) os\<rparr>"
    obtain taken passed dec st2 where rows: "cond_rows (expr_span (fst c)) n vals (enumerate 0 live) st1 = (taken, passed, dec, st2)"
      by (cases "cond_rows (expr_span (fst c)) n vals (enumerate 0 live) st1") auto
    obtain os2 where s: "st2 = st1\<lparr>bs_errors := foldl offer (bs_errors st1) os2\<rparr>" "offers_in n (Suc n) os2"
      and f: "sorted_wrt (<) taken" "sorted_wrt (<) passed" "set taken \<subseteq> set live"
        "distinct (passed @ map fst dec @ taken)" "set (passed @ map fst dec @ taken) = set live"
        "\<forall>o' \<in> set (os @ os2). fst o' \<in> set live"
        "\<forall>r \<in> set live. case rv (fst c) r of Inl e \<Rightarrow> first_for r os = Some e
         | Inr v \<Rightarrow> first_for r os = None \<and> (case get_bool v of
              None \<Rightarrow> first_for r os2 = Some (PredicateType (expr_span (fst c)) v)
            | Some True \<Rightarrow> first_for r os2 = None \<and> r \<in> set taken
            | Some False \<Rightarrow> first_for r os2 = None \<and> r \<in> set passed)"
      by (rule cond_rows_facts[OF Cons.prems(2) a(4) rows])
    have st2: "bs_next st2 = Suc n" "bs_errors st2 = foldl offer (bs_errors st) (os @ os2)" by (simp_all add: s(1) st1_def)
    have tk: "set taken \<subseteq> {..<height}" using f(3) Cons.prems(3) by blast
    obtain arm os3 n3 where arm: "(if taken = [] then Inr ([], st2) else f (snd c) taken st2)
        = Inr (arm, \<lparr>bs_next = n3, bs_errors = foldl offer (bs_errors st2) os3\<rparr>)"
      "bs_next st2 \<le> n3" "offers_in (bs_next st2) n3 os3" "column_ok (rv (snd c)) taken arm os3"
    proof (cases "taken = []")
      case True
      then show thesis by (intro that[of "[]" "bs_next st2" "[]"]) (simp_all add: column_ok_def)
    next
      case False
      show thesis by (rule node_okE[OF nodes(2) f(1) tk, of st2]) (use that False in auto)
    qed
    define st3 where "st3 = \<lparr>bs_next = n3, bs_errors = foldl offer (bs_errors st2) os3\<rparr>"
    note one = cond_step_ok[OF f arm(4)]
    have ps: "set passed \<subseteq> {..<height}" using f(5) Cons.prems(3) by auto
    obtain live' dec' os' n' where r: "cond_columns f clauses passed (decided @ dec @ zip taken arm) st3
        = Inr (live', (decided @ dec @ zip taken arm) @ dec', \<lparr>bs_next = n', bs_errors = foldl offer (bs_errors st3) os'\<rparr>)"
      "bs_next st3 \<le> n'" "offers_in (bs_next st3) n' os'" "decided_ok (\<lambda>r. cond_loop (\<lambda>a. rv a r) clauses) DNull passed live' dec' os'"
      using Cons.IH[OF Cons.prems(1) f(2) ps, where decided = "decided @ dec @ zip taken arm" and st = st3] by auto
    have pt: "r \<in> set passed \<Longrightarrow> r \<notin> set taken" for r using f(4) by auto
    have "decided_ok (\<lambda>r. cond_loop (\<lambda>a. rv a r) (c # clauses)) DNull live live' ((dec @ zip taken arm) @ dec') (((os @ os2) @ os3) @ os')"
    proof (rule decided_chain[OF one r(4)], goal_cases)
      case (1 r)
      show ?case using bspec[OF f(7) 1] pt[of r] by (cases "rv (fst c) r") (auto split: option.splits bool.splits)
    qed
    moreover have "cond_columns f (c # clauses) live decided st
        = Inr (live', decided @ (dec @ zip taken arm) @ dec', \<lparr>bs_next = n', bs_errors = foldl offer (bs_errors st) (((os @ os2) @ os3) @ os')\<rparr>)"
      using False a(1) rows r(1) st2(2) arm(1) by (cases "taken = []") (simp_all add: st1_def[symmetric] st3_def)
    moreover have "offers_in (bs_next st) n' (((os @ os2) @ os3) @ os')"
      using offers_in_append[OF offers_in_append[OF offers_in_append[OF a(3) s(2) a(2)], of n3 os3], of n' os'] a(2) r(2,3) arm(2,3) st2(1)
      by (simp add: st3_def)
    ultimately show ?thesis using a(2) r(2) arm(2) st2(1)
      by (intro exI[of _ live'] exI[of _ "(dec @ zip taken arm) @ dec'"] exI[of _ "((os @ os2) @ os3) @ os'"] exI[of _ n']) (simp add: st3_def)
  qed
qed

section \<open>Resolved expressions\<close>

fun resolved :: "op_table \<Rightarrow> nat \<Rightarrow> expr \<Rightarrow> bool" where
  "resolved table width (Binding var tuple_pos) = (case tuple_pos of Unresolved \<Rightarrow> False | Resolved i \<Rightarrow> i < width)"
| "resolved table width (Const val sp) = True"
| "resolved table width (Apply op args sp) = (table (display_name op) \<noteq> None \<and> list_all (resolved table width) args)"
| "resolved table width (Cond clauses sp) = list_all (\<lambda>c. resolved table width (fst c) \<and> resolved table width (snd c)) clauses"
| "resolved table width (Lazy op args sp) = list_all (resolved table width) args"
| "resolved table width (UnboundApply op args sp) = False"

definition batch_of :: "data_value list list \<Rightarrow> nat \<Rightarrow> column_batch \<Rightarrow> bool" where
  "batch_of rows width batch \<longleftrightarrow>
     cb_width batch = width \<and> cb_height batch = length rows \<and> list_all (\<lambda>row. length row = width) rows
     \<and> (\<forall>i < width. \<forall>r < length rows. cb_cols batch ! i ! r = rows ! r ! i)"

lemma push_rows_pivot:
  "push_rows width cols rows = Inr cols' \<Longrightarrow> length cols = width \<Longrightarrow>
    length cols' = width \<and> list_all (\<lambda>row. length row = width) rows
    \<and> (\<forall>i < width. cols' ! i = cols ! i @ map (\<lambda>row. row ! i) rows)"
proof (induction rows arbitrary: cols)
  case (Cons row rows)
  from Cons.prems have w: "length row = width" "push_rows width (map2 (\<lambda>col v. col @ [v]) cols row) rows = Inr cols'"
    by (auto split: if_splits)
  from Cons.IH[OF w(2)] Cons.prems(2) w(1) show ?case by auto
qed simp

lemma from_rows_pivot: "from_rows rows width = Inr batch \<Longrightarrow> batch_of rows width batch"
  using push_rows_pivot[of width "replicate width []" rows]
  by (auto simp: from_rows_def batch_of_def cb_width_def rbind_eq_Inr)

lemma node_ok_leaf:
  assumes "\<And>sel st. set sel \<subseteq> {..<height} \<Longrightarrow> f sel st = Inr (vals sel, claim_node st)"
    "\<And>sel. length (vals sel) = length sel" "\<And>sel i. set sel \<subseteq> {..<height} \<Longrightarrow> i < length sel \<Longrightarrow> rv (sel ! i) = Inr (vals sel ! i)"
  shows "node_ok height f rv"
  unfolding node_ok_def
proof (intro allI impI)
  fix sel st assume "set sel \<subseteq> {..<height}"
  with assms show "\<exists>v os n. f sel st = Inr (v, \<lparr>bs_next = n, bs_errors = foldl offer (bs_errors st) os\<rparr>)
      \<and> bs_next st \<le> n \<and> offers_in (bs_next st) n os \<and> column_ok rv sel v os"
    by (intro exI[of _ "vals sel"] exI[of _ "[]"] exI[of _ "Suc (bs_next st)"]) (auto simp: claim_node_def column_ok_def row_ok_def)
qed

lemma node_ok_stitched:
  assumes "\<And>sel st. sorted_wrt (<) sel \<Longrightarrow> set sel \<subseteq> {..<height} \<Longrightarrow>
      \<exists>live' dec os n. g sel (claim_node st) = Inr (live', [] @ dec, \<lparr>bs_next = n, bs_errors = foldl offer (bs_errors (claim_node st)) os\<rparr>)
        \<and> bs_next (claim_node st) \<le> n \<and> offers_in (bs_next (claim_node st)) n os \<and> decided_ok rv rest sel live' dec os"
    "\<And>sel st. f sel st = rbind (g sel (claim_node st)) (\<lambda>(live, decided, st). Inr (stitch rest live decided, st))"
  shows "node_ok height f rv"
  unfolding node_ok_def
proof (intro allI impI)
  fix sel st assume sel: "sorted_wrt (<) sel" "set sel \<subseteq> {..<height}"
  from assms(1)[OF this, of st] obtain live' dec os n where
    g: "g sel (claim_node st) = Inr (live', dec, \<lparr>bs_next = n, bs_errors = foldl offer (bs_errors st) os\<rparr>)"
    "Suc (bs_next st) \<le> n" "offers_in (Suc (bs_next st)) n os" "decided_ok rv rest sel live' dec os" by auto
  from g(1,2) assms(2)[of sel st] offers_in_weaken[OF g(3), of "bs_next st" n] decided_column[OF g(4) sel(1)]
  show "\<exists>v os n. f sel st = Inr (v, \<lparr>bs_next = n, bs_errors = foldl offer (bs_errors st) os\<rparr>)
      \<and> bs_next st \<le> n \<and> offers_in (bs_next st) n os \<and> column_ok rv sel v os"
    by (intro exI[of _ "stitch rest live' dec"] exI[of _ os] exI[of _ n]) auto
qed

lemma eval_node_ok:
  "resolved table width e \<Longrightarrow> batch_of rows width batch \<Longrightarrow>
    node_ok (length rows) (eval_node table batch e) (\<lambda>r. eval_expr table e (rows ! r))"
proof (induction table width e rule: resolved.induct)
  case (1 table width var tuple_pos)
  then obtain i where i: "tuple_pos = Resolved i" "i < width" by (cases tuple_pos) auto
  have w: "cb_width batch = width" "\<And>r. r < length rows \<Longrightarrow> length (rows ! r) = width \<and> cb_cols batch ! i ! r = rows ! r ! i"
    using 1(2) i(2) by (auto simp: batch_of_def list_all_length)
  show ?case
  proof (rule node_ok_leaf[where vals = "\<lambda>sel. map (\<lambda>r. cb_cols batch ! i ! r) sel"], goal_cases)
    case (3 sel j)
    then have "sel ! j < length rows" by (metis lessThan_iff nth_mem subsetD)
    with w i 3 show ?case by simp
  qed (use i w(1) in auto)
next
  case (2 table width val sp)
  show ?case by (rule node_ok_leaf[where vals = "\<lambda>sel. replicate (length sel) val"]) auto
next
  case (3 table width op args sp)
  from 3(2) obtain b where "bound_of table op = Inr b" by (auto simp: bound_of_def)
  moreover have "\<And>a. a \<in> set args \<Longrightarrow> node_ok (length rows) (eval_node table batch a) (\<lambda>r. eval_expr table a (rows ! r))"
    using 3 by (auto simp: list_all_iff)
  ultimately show ?case by (intro apply_ok)
next
  case (4 table width clauses sp)
  then have "\<And>c. c \<in> set clauses \<Longrightarrow> node_ok (length rows) (eval_node table batch (fst c)) (\<lambda>r. eval_expr table (fst c) (rows ! r))
      \<and> node_ok (length rows) (eval_node table batch (snd c)) (\<lambda>r. eval_expr table (snd c) (rows ! r))"
    by (simp add: list_all_iff)
  note ok = cond_columns_ok[where f = "eval_node table batch" and rv = "\<lambda>e r. eval_expr table e (rows ! r)", OF this]
  show ?case unfolding eval_expr.simps by (rule node_ok_stitched, rule ok) auto
next
  case (5 table width op args sp)
  then have "\<And>a. a \<in> set args \<Longrightarrow> node_ok (length rows) (eval_node table batch a) (\<lambda>r. eval_expr table a (rows ! r))"
    by (simp add: list_all_iff)
  note ok = lazy_columns_ok[where f = "eval_node table batch" and rv = "\<lambda>e r. eval_expr table e (rows ! r)", OF this]
  show ?case unfolding eval_expr.simps by (rule node_ok_stitched, rule ok) auto
qed simp

section \<open>The two evaluators\<close>

lemma collect_results_nth:
  "length vals = length xs \<Longrightarrow> \<forall>i < length xs. f (xs ! i) = Inr (vals ! i) \<Longrightarrow> collect_results f xs = Inr vals"
proof (induction xs arbitrary: vals)
  case (Cons x xs)
  then obtain v vs where "vals = v # vs" "length vs = length xs" by (cases vals) auto
  with Cons show ?case by (simp add: All_less_Suc2)
qed simp

lemma collect_results_first:
  "i < length xs \<Longrightarrow> f (xs ! i) = Inl e \<Longrightarrow> \<forall>j < i. \<exists>v. f (xs ! j) = Inr v \<Longrightarrow> collect_results f xs = Inl e"
proof (induction xs arbitrary: i)
  case (Cons x xs)
  then show ?case by (cases i) (auto simp: All_less_Suc2)
qed simp

lemma column_collects:
  assumes "sorted_wrt (<) sel" "column_ok rv sel vals os" "sorted (map (fst \<circ> snd) os)"
  shows "collect_results rv sel = (case foldl offer None os of Some best \<Rightarrow> Inl (snd (snd best)) | None \<Rightarrow> Inr vals)"
proof (cases os)
  case Nil
  have "rv (sel ! i) = Inr (vals ! i)" if "i < length sel" for i
    using column_okD(3)[OF assms(2) that] Nil by (cases "rv (sel ! i)") (simp_all add: row_ok_def)
  with Nil column_okD(1)[OF assms(2)] show ?thesis by (simp add: collect_results_nth)
next
  case (Cons o1 os')
  from assms(3) least_offer[of o1 os'] Cons obtain b where b: "foldl offer None os = Some b" "\<forall>o' \<in> set os. fst b \<le> fst o'"
    "b \<in> set os" "first_for (fst b) os = Some (snd (snd b))" by (auto simp: offer_def)
  from column_okD(2)[OF assms(2) b(3)] obtain i where i: "i < length sel" "sel ! i = fst b" by (metis in_set_conv_nth)
  have "rv (sel ! i) = Inl (snd (snd b))" using column_okD(3)[OF assms(2) i(1)] b(4) i(2) by (auto simp: row_ok_def split: sum.splits)
  moreover have "\<forall>j < i. \<exists>v. rv (sel ! j) = Inr v"
  proof (intro allI impI)
    fix j assume j: "j < i"
    then have "sel ! j < fst b" using sorted_wrt_nth_less[OF assms(1)] i by metis
    then have "first_for (sel ! j) os = None" using b(2) unfolding first_for_None by (auto dest!: bspec)
    then show "\<exists>v. rv (sel ! j) = Inr v" using column_okD(3)[OF assms(2), of j] j i(1) by (auto simp: row_ok_def split: sum.splits)
  qed
  ultimately show ?thesis using collect_results_first[OF i(1)] b(1) by simp
qed

lemma batched_is_rowwise:
  assumes "from_rows rows width = Inr batch" "resolved table width e" "sorted_wrt (<) sel" "set sel \<subseteq> {..<length rows}"
  shows "eval_expr_batched table e batch sel = collect_results (\<lambda>r. eval_expr table e (rows ! r)) sel"
proof -
  define st where "st = \<lparr>bs_next = 0, bs_errors = None\<rparr>"
  obtain vals os n where n: "eval_node table batch e sel st = Inr (vals, \<lparr>bs_next = n, bs_errors = foldl offer (bs_errors st) os\<rparr>)"
    "bs_next st \<le> n" "offers_in (bs_next st) n os" "column_ok (\<lambda>r. eval_expr table e (rows ! r)) sel vals os"
    by (rule node_okE[OF eval_node_ok[OF assms(2) from_rows_pivot[OF assms(1)]] assms(3,4)])
  show ?thesis using n(1,3) column_collects[OF assms(3) n(4)]
    by (simp add: eval_expr_batched_def st_def[symmetric] offers_in_def) (simp add: st_def)
qed

section \<open>Filters\<close>

lemma keep_rows_spec:
  "rbind (collect_results f sel) (\<lambda>vals. keep_rows e (zip vals sel)) = Inr keep \<longleftrightarrow>
    (\<exists>bs. collect_results (\<lambda>r. rbind (f r) (\<lambda>v. case get_bool v of Some b \<Rightarrow> Inr b | None \<Rightarrow> Inl (PredicateType (expr_span e) v))) sel = Inr bs
       \<and> keep = map fst (filter snd (zip sel bs)))"
proof (induction sel arbitrary: keep)
  case (Cons r sel)
  show ?case
  proof (cases "f r")
    case (Inr v)
    show ?thesis
    proof (cases "get_bool v")
      case None
      with Inr show ?thesis by (cases "collect_results f sel") simp_all
    next
      case (Some b)
      with Inr Cons.IH[of "if b then tl keep else keep"] show ?thesis
        by (cases "collect_results f sel"; cases keep; cases b) (auto simp: rbind_eq_Inr)
    qed
  qed simp
qed auto

end
