(* ===== verification/Expr_Names.thy ===== *)
theory Expr_Names
  imports Expr_Identity
begin

text \<open>
  What \<open>fill_binding_indices\<close> promises the evaluators: an expression it accepts reads only positions of the
  tuple, so neither evaluator meets a dangling name, and it evaluates as the expression with names did.
\<close>

section \<open>Evaluation under names\<close>

text \<open>The specification: names are looked up in an environment and nothing refers to positions.\<close>

fun eval_named :: "op_table \<Rightarrow> (string \<Rightarrow> data_value) \<Rightarrow> expr \<Rightarrow> expr_error + data_value" where
  "eval_named table env (Binding var _) = Inr (env (sym_name var))"
| "eval_named table env (Const val _) = Inr val"
| "eval_named table env (Apply op args sp) =
     rbind (collect_results (eval_named table env) args) (\<lambda>vals.
     rbind (map_err UnknownBuiltin (bound_of table op)) (\<lambda>b. map_err (EvalRaised sp) (bound_apply b vals)))"
| "eval_named table env (Cond clauses _) = cond_loop (eval_named table env) clauses"
| "eval_named table env (Lazy op args _) = lazy_loop op (eval_named table env) args"
| "eval_named table env (UnboundApply op _ sp) = Inl (NoImplementation sp op)"

fun ops_bound :: "op_table \<Rightarrow> expr \<Rightarrow> bool" where
  "ops_bound table (Apply op args _) = (table (display_name op) \<noteq> None \<and> list_all (ops_bound table) args)"
| "ops_bound table (Cond clauses _) = list_all (\<lambda>c. ops_bound table (fst c) \<and> ops_bound table (snd c)) clauses"
| "ops_bound table (Lazy _ args _) = list_all (ops_bound table) args"
| "ops_bound table _ = True"

fun reads :: "expr \<Rightarrow> string set" where
  "reads (Binding var _) = {sym_name var}"
| "reads (Const _ _) = {}"
| "reads (Apply _ args _) = \<Union> (reads ` set args)"
| "reads (Cond clauses _) = (\<Union>c \<in> set clauses. reads (fst c) \<union> reads (snd c))"
| "reads (Lazy _ args _) = \<Union> (reads ` set args)"
| "reads (UnboundApply _ args _) = \<Union> (reads ` set args)"

fun all_implemented :: "expr \<Rightarrow> bool" where
  "all_implemented (Apply _ args _) = list_all all_implemented args"
| "all_implemented (Cond clauses _) = list_all (\<lambda>c. all_implemented (fst c) \<and> all_implemented (snd c)) clauses"
| "all_implemented (Lazy _ args _) = list_all all_implemented args"
| "all_implemented (UnboundApply _ _ _) = False"
| "all_implemented _ = True"

section \<open>Lists of results\<close>

lemma collect_results_Inr_iff:
  "collect_results f xs = Inr ys \<longleftrightarrow> list_all2 (\<lambda>x y. f x = Inr y) xs ys"
  by (induction xs arbitrary: ys) (auto simp: rbind_eq_Inr list_all2_Cons1)

lemma collect_results_ok_iff: "(\<exists>ys. collect_results f xs = Inr ys) \<longleftrightarrow> (\<forall>x \<in> set xs. \<exists>y. f x = Inr y)"
  by (induction xs) (auto simp: rbind_eq_Inr)

lemma collect_results_mapped:
  "list_all2 (\<lambda>x y. f y = g x) xs ys \<Longrightarrow> collect_results f ys = collect_results g xs"
  by (induction rule: list_all2_induct) simp_all

lemma lazy_loop_mapped:
  "list_all2 (\<lambda>x y. f y = g x \<and> expr_span y = expr_span x) xs ys \<Longrightarrow> lazy_loop op f ys = lazy_loop op g xs"
  by (induction rule: list_all2_induct) (simp_all cong: decision.case_cong)

lemma cond_loop_mapped:
  "list_all2 (\<lambda>x y. f (fst y) = g (fst x) \<and> f (snd y) = g (snd x) \<and> expr_span (fst y) = expr_span (fst x)) xs ys
    \<Longrightarrow> cond_loop f ys = cond_loop g xs"
  by (induction rule: list_all2_induct) (simp_all cong: option.case_cong bool.case_cong)


section \<open>Filling positions\<close>

lemma fill_ok_iff:
  "(\<exists>e'. fill_binding_indices m e = Inr e') \<longleftrightarrow> all_implemented e \<and> (\<forall>x \<in> reads e. bt_get m x \<noteq> None)"
proof (induction m e rule: fill_binding_indices.induct)
  case (1 m var uu)
  then show ?case by (auto split: option.splits)
next
  case (3 m op args sp)
  have "(\<exists>e'. fill_binding_indices m (Apply op args sp) = Inr e') \<longleftrightarrow> (\<exists>ys. collect_results (fill_binding_indices m) args = Inr ys)"
    by (auto simp: rbind_eq_Inr)
  also have "\<dots> \<longleftrightarrow> (\<forall>a \<in> set args. all_implemented a \<and> (\<forall>x \<in> reads a. bt_get m x \<noteq> None))"
    unfolding collect_results_ok_iff using 3 by blast
  finally show ?case by (auto simp: list_all_iff)
next
  case (4 m op args sp)
  have "(\<exists>e'. fill_binding_indices m (Lazy op args sp) = Inr e') \<longleftrightarrow> (\<exists>ys. collect_results (fill_binding_indices m) args = Inr ys)"
    by (auto simp: rbind_eq_Inr)
  also have "\<dots> \<longleftrightarrow> (\<forall>a \<in> set args. all_implemented a \<and> (\<forall>x \<in> reads a. bt_get m x \<noteq> None))"
    unfolding collect_results_ok_iff using 4 by blast
  finally show ?case by (auto simp: list_all_iff)
next
  case (5 m clauses sp)
  let ?f = "\<lambda>(cond, val). rbind (fill_binding_indices m cond) (\<lambda>cond. rbind (fill_binding_indices m val) (\<lambda>val. Inr (cond, val)))"
  have "(\<exists>e'. fill_binding_indices m (Cond clauses sp) = Inr e') \<longleftrightarrow> (\<exists>ys. collect_results ?f clauses = Inr ys)"
    by (auto simp: rbind_eq_Inr)
  also have "\<dots> \<longleftrightarrow> (\<forall>c \<in> set clauses. (\<exists>x. fill_binding_indices m (fst c) = Inr x) \<and> (\<exists>x. fill_binding_indices m (snd c) = Inr x))"
    unfolding collect_results_ok_iff by (auto simp: rbind_eq_Inr split: prod.splits)
  finally show ?case using 5 by (fastforce simp: list_all_iff)
qed auto

lemma fill_span: "fill_binding_indices m e = Inr e' \<Longrightarrow> expr_span e' = expr_span e"
  by (cases e) (auto simp: rbind_eq_Inr split: option.splits)

lemma fill_args:
  assumes "collect_results (fill_binding_indices m) args = Inr args'"
    "\<And>a a'. a \<in> set args \<Longrightarrow> fill_binding_indices m a = Inr a' \<Longrightarrow> P a a'"
  shows "list_all2 (\<lambda>a a'. P a a' \<and> expr_span a' = expr_span a) args args'"
  using assms(1) unfolding collect_results_Inr_iff
  by (rule list.rel_mono_strong) (use assms(2) fill_span in blast)

lemma fill_clauses:
  assumes "collect_results (\<lambda>(cond, val). rbind (fill_binding_indices m cond) (\<lambda>cond. rbind (fill_binding_indices m val) (\<lambda>val. Inr (cond, val)))) clauses = Inr clauses'"
    "\<And>c a'. c \<in> set clauses \<Longrightarrow> fill_binding_indices m (fst c) = Inr a' \<Longrightarrow> P (fst c) a'"
    "\<And>c a'. c \<in> set clauses \<Longrightarrow> fill_binding_indices m (snd c) = Inr a' \<Longrightarrow> P (snd c) a'"
  shows "list_all2 (\<lambda>c c'. P (fst c) (fst c') \<and> P (snd c) (snd c') \<and> expr_span (fst c') = expr_span (fst c)) clauses clauses'"
  using assms(1) unfolding collect_results_Inr_iff
  by (rule list.rel_mono_strong) (use assms(2,3) fill_span in \<open>fastforce simp: rbind_eq_Inr split: prod.splits\<close>)

lemma list_all2_right: "list_all2 (\<lambda>x y. P y \<and> Q x y) xs ys \<Longrightarrow> list_all P ys"
  by (induction rule: list_all2_induct) simp_all

lemma fill_resolved:
  assumes "\<forall>x i. bt_get m x = Some i \<longrightarrow> i < width"
  shows "fill_binding_indices m e = Inr e' \<Longrightarrow> ops_bound table e \<Longrightarrow> resolved table width e'"
proof (induction e arbitrary: e' rule: reads.induct)
  case (1 var uu)
  then show ?case using assms by (auto split: option.splits)
next
  case (3 op args sp)
  then obtain args' where a: "collect_results (fill_binding_indices m) args = Inr args'" "e' = Apply op args' sp" by (auto simp: rbind_eq_Inr)
  have "list_all2 (\<lambda>a a'. resolved table width a' \<and> expr_span a' = expr_span a) args args'"
    by (rule fill_args[OF a(1), where P = "\<lambda>_. resolved table width"]) (use 3 in \<open>simp add: list_all_iff\<close>)
  then show ?case using a(2) 3(3) list_all2_right by auto
next
  case (4 clauses sp)
  let ?f = "\<lambda>(cond, val). rbind (fill_binding_indices m cond) (\<lambda>cond. rbind (fill_binding_indices m val) (\<lambda>val. Inr (cond, val)))"
  from 4(3) obtain clauses' where a: "collect_results ?f clauses = Inr clauses'" "e' = Cond clauses' sp" by (auto simp: rbind_eq_Inr)
  have "list_all2 (\<lambda>c c'. resolved table width (fst c') \<and> resolved table width (snd c') \<and> expr_span (fst c') = expr_span (fst c)) clauses clauses'"
    by (rule fill_clauses[OF a(1), where P = "\<lambda>_. resolved table width"]) (use 4 in \<open>simp_all add: list_all_iff\<close>)
  then have "list_all2 (\<lambda>c c'. (resolved table width (fst c') \<and> resolved table width (snd c')) \<and> True) clauses clauses'"
    by (rule list_all2_mono) blast
  from list_all2_right[OF this] show ?case using a(2) by simp
next
  case (5 op args sp)
  then obtain args' where a: "collect_results (fill_binding_indices m) args = Inr args'" "e' = Lazy op args' sp" by (auto simp: rbind_eq_Inr)
  have "list_all2 (\<lambda>a a'. resolved table width a' \<and> expr_span a' = expr_span a) args args'"
    by (rule fill_args[OF a(1), where P = "\<lambda>_. resolved table width"]) (use 5 in \<open>simp add: list_all_iff\<close>)
  then show ?case using a(2) list_all2_right by auto
qed auto

lemma fill_eval:
  "fill_binding_indices m e = Inr e' \<Longrightarrow> \<forall>x \<in> reads e. the (bt_get m x) < length row \<Longrightarrow>
    eval_expr table e' row = eval_named table (\<lambda>x. row ! the (bt_get m x)) e"
proof (induction e arbitrary: e' rule: reads.induct)
  case (1 var uu)
  then show ?case by (auto split: option.splits)
next
  case (3 op args sp)
  let ?P = "\<lambda>a a'. eval_expr table a' row = eval_named table (\<lambda>x. row ! the (bt_get m x)) a"
  from 3(2) obtain args' where a: "collect_results (fill_binding_indices m) args = Inr args'" "e' = Apply op args' sp" by (auto simp: rbind_eq_Inr)
  have "list_all2 (\<lambda>a a'. ?P a a' \<and> expr_span a' = expr_span a) args args'"
    by (rule fill_args[OF a(1), where P = ?P]) (use 3 in simp)
  then have "collect_results (\<lambda>a. eval_expr table a row) args' = collect_results (eval_named table (\<lambda>x. row ! the (bt_get m x))) args"
    by (intro collect_results_mapped) (auto elim: list_all2_mono)
  then show ?case using a(2) by simp
next
  case (4 clauses sp)
  let ?P = "\<lambda>a a'. eval_expr table a' row = eval_named table (\<lambda>x. row ! the (bt_get m x)) a"
  let ?f = "\<lambda>(cond, val). rbind (fill_binding_indices m cond) (\<lambda>cond. rbind (fill_binding_indices m val) (\<lambda>val. Inr (cond, val)))"
  from 4(3) obtain clauses' where a: "collect_results ?f clauses = Inr clauses'" "e' = Cond clauses' sp" by (auto simp: rbind_eq_Inr)
  have "list_all2 (\<lambda>c c'. ?P (fst c) (fst c') \<and> ?P (snd c) (snd c') \<and> expr_span (fst c') = expr_span (fst c)) clauses clauses'"
    by (rule fill_clauses[OF a(1), where P = ?P]) (use 4 in simp_all)
  then show ?case using a(2) cond_loop_mapped[of "\<lambda>e. eval_expr table e row"] by simp
next
  case (5 op args sp)
  let ?P = "\<lambda>a a'. eval_expr table a' row = eval_named table (\<lambda>x. row ! the (bt_get m x)) a"
  from 5(2) obtain args' where a: "collect_results (fill_binding_indices m) args = Inr args'" "e' = Lazy op args' sp" by (auto simp: rbind_eq_Inr)
  have "list_all2 (\<lambda>a a'. ?P a a' \<and> expr_span a' = expr_span a) args args'"
    by (rule fill_args[OF a(1), where P = ?P]) (use 5 in simp)
  then show ?case using a(2) lazy_loop_mapped[of "\<lambda>e. eval_expr table e row"] by simp
qed auto

section \<open>Resolved expressions do not go wrong\<close>

definition row_fault :: "expr_error \<Rightarrow> bool" where
  "row_fault err = (case err of EvalRaised _ _ \<Rightarrow> True | PredicateType _ _ \<Rightarrow> True | _ \<Rightarrow> False)"

lemma collect_results_Inl: "collect_results f xs = Inl e \<Longrightarrow> \<exists>x \<in> set xs. f x = Inl e"
  by (induction xs) (auto simp: rbind_eq_Inl)

lemma lazy_loop_Inl: "lazy_loop op f args = Inl err \<Longrightarrow> (\<exists>a \<in> set args. f a = Inl err) \<or> row_fault err"
proof (induction args)
  case (Cons a args)
  show ?case
  proof (cases "f a")
    case (Inr v)
    with Cons show ?thesis by (cases "lazy_decide op v") (auto simp: row_fault_def)
  qed (use Cons in simp)
qed simp

lemma cond_loop_Inl:
  "cond_loop f clauses = Inl err \<Longrightarrow> (\<exists>c \<in> set clauses. f (fst c) = Inl err \<or> f (snd c) = Inl err) \<or> row_fault err"
proof (induction clauses)
  case (Cons c clauses)
  show ?case
  proof (cases "f (fst c)")
    case (Inr v)
    with Cons show ?thesis by (cases "get_bool v") (auto simp: row_fault_def split: bool.splits)
  qed (use Cons in simp)
qed simp

lemma resolved_faults: "resolved table width e \<Longrightarrow> length row = width \<Longrightarrow> eval_expr table e row = Inl err \<Longrightarrow> row_fault err"
proof (induction e rule: reads.induct)
  case (1 var pos)
  then show ?case by (cases pos) auto
next
  case (3 op args sp)
  from 3(2) obtain b where b: "bound_of table op = Inr b" by (auto simp: bound_of_def)
  show ?case
  proof (cases "collect_results (\<lambda>a. eval_expr table a row) args")
    case (Inl e)
    with 3(4) have "e = err" by simp
    with collect_results_Inl[OF Inl] 3(1,2,3) show ?thesis by (auto simp: list_all_iff)
  next
    case (Inr vals)
    with 3(4) b show ?thesis by (cases "bound_apply b vals") (auto simp: row_fault_def map_err_def)
  qed
next
  case (4 clauses sp)
  from 4(5) have "cond_loop (\<lambda>e. eval_expr table e row) clauses = Inl err" by simp
  from cond_loop_Inl[OF this] show ?case
  proof
    assume "\<exists>c \<in> set clauses. eval_expr table (fst c) row = Inl err \<or> eval_expr table (snd c) row = Inl err"
    then obtain c where c: "c \<in> set clauses" "eval_expr table (fst c) row = Inl err \<or> eval_expr table (snd c) row = Inl err" by blast
    with 4(3) have "resolved table width (fst c)" "resolved table width (snd c)" by (simp_all add: list_all_iff)
    with c 4(1)[OF c(1)] 4(2)[OF c(1)] 4(4) show ?thesis by blast
  qed
next
  case (5 op args sp)
  from 5(4) have "lazy_loop op (\<lambda>e. eval_expr table e row) args = Inl err" by simp
  from lazy_loop_Inl[OF this] show ?case
  proof
    assume "\<exists>a \<in> set args. eval_expr table a row = Inl err"
    then obtain a where a: "a \<in> set args" "eval_expr table a row = Inl err" by blast
    with 5(2) have "resolved table width a" by (simp add: list_all_iff)
    with a 5(1)[OF a(1)] 5(3) show ?thesis by blast
  qed
qed auto

end
