(* ===== verification/Stdlib_Compare.thy ===== *)
theory Stdlib_Compare
  imports Expr_Eval Num_Numeric
begin

text \<open>
  The comparison and type-test operators, \<open>crates/kyzo-core/src/exec/stdlib/compare.rs\<close>, with the
  boolean negation of \<open>numeric.rs\<close> and the prefix test of \<open>text.rs\<close>. A body indexes its arguments; the index
  past their end panics, here the refusal \<open>out_of_bounds\<close>, which the arity gate of \<open>BoundOp::apply\<close> keeps
  from being reached. A refusal carries the fixed part of the source's message.
\<close>

section \<open>Arguments\<close>

definition out_of_bounds :: string where
  "out_of_bounds = ''index out of bounds''"

definition arg_at :: "data_value list \<Rightarrow> nat \<Rightarrow> string + data_value" where
  "arg_at args i = (if i < length args then Inr (args ! i) else Inl out_of_bounds)"

definition test1 :: "(data_value \<Rightarrow> bool) \<Rightarrow> data_value list \<Rightarrow> string + data_value" where
  "test1 p args = rbind (arg_at args 0) (\<lambda>v. Inr (DBool (p v)))"

definition test2 :: "(data_value \<Rightarrow> data_value \<Rightarrow> bool) \<Rightarrow> data_value list \<Rightarrow> string + data_value" where
  "test2 p args = rbind (arg_at args 0) (\<lambda>a. rbind (arg_at args 1) (\<lambda>b. Inr (DBool (p a b))))"

lemma test_simps [simp]:
  "test1 p [a] = Inr (DBool (p a))" "test2 q [a, b] = Inr (DBool (q a b))"
  by (simp_all add: test1_def test2_def arg_at_def)

section \<open>Equality and order\<close>

text \<open>Numbers compare by their numeric value, every other kind by identity and by the order of values.\<close>

fun value_same :: "data_value \<Rightarrow> data_value \<Rightarrow> bool" where
  "value_same (DNum a) (DNum b) = (numeric_cmp a b = Equal)"
| "value_same a b = (a = b)"

fun value_ord :: "data_value \<Rightarrow> data_value \<Rightarrow> ordering" where
  "value_ord (DNum a) (DNum b) = numeric_cmp a b"
| "value_ord a b = dv_cmp a b"

definition ensure_same_value_type :: "data_value \<Rightarrow> data_value \<Rightarrow> string + unit" where
  "ensure_same_value_type a b =
     (case (a, b) of
        (DNull, DNull) \<Rightarrow> Inr ()
      | (DBool _, DBool _) \<Rightarrow> Inr ()
      | (DNum _, DNum _) \<Rightarrow> Inr ()
      | (DStr _, DStr _) \<Rightarrow> Inr ()
      | (DBytes _, DBytes _) \<Rightarrow> Inr ()
      | (DRegex _, DRegex _) \<Rightarrow> Inr ()
      | (DList _, DList _) \<Rightarrow> Inr ()
      | (DSet _, DSet _) \<Rightarrow> Inr ()
      | _ \<Rightarrow> Inl ''CrossTypeCompare'')"

definition same_type2 :: "(data_value \<Rightarrow> data_value \<Rightarrow> bool) \<Rightarrow> data_value list \<Rightarrow> string + data_value" where
  "same_type2 p args =
     rbind (arg_at args 0) (\<lambda>a. rbind (arg_at args 1) (\<lambda>b.
     rbind (ensure_same_value_type a b) (\<lambda>_. Inr (DBool (p a b)))))"

definition op_assert :: "data_value list \<Rightarrow> string + data_value" where
  "op_assert args =
     rbind (arg_at args 0) (\<lambda>v. if v = DBool True then Inr (DBool True) else Inl ''assertion failed'')"

definition op_eq :: "data_value list \<Rightarrow> string + data_value" where
  "op_eq = test2 value_same"

definition op_neq :: "data_value list \<Rightarrow> string + data_value" where
  "op_neq = test2 (\<lambda>a b. \<not> value_same a b)"

definition op_ge :: "data_value list \<Rightarrow> string + data_value" where
  "op_ge = same_type2 (\<lambda>a b. value_ord a b \<noteq> Less)"

definition op_gt :: "data_value list \<Rightarrow> string + data_value" where
  "op_gt = same_type2 (\<lambda>a b. value_ord a b = Greater)"

definition op_le :: "data_value list \<Rightarrow> string + data_value" where
  "op_le = same_type2 (\<lambda>a b. value_ord a b \<noteq> Greater)"

definition op_lt :: "data_value list \<Rightarrow> string + data_value" where
  "op_lt = same_type2 (\<lambda>a b. value_ord a b = Less)"

section \<open>Type tests\<close>

definition op_is_bytes :: "data_value list \<Rightarrow> string + data_value" where
  "op_is_bytes = test1 (\<lambda>v. case v of DBytes _ \<Rightarrow> True | _ \<Rightarrow> False)"

definition op_is_finite :: "data_value list \<Rightarrow> string + data_value" where
  "op_is_finite = test1 (\<lambda>v. case v of DNum (NInt _) \<Rightarrow> True | DNum (NFloat f) \<Rightarrow> f64_is_finite f | _ \<Rightarrow> False)"

definition op_is_float :: "data_value list \<Rightarrow> string + data_value" where
  "op_is_float = test1 (\<lambda>v. case v of DNum (NFloat _) \<Rightarrow> True | _ \<Rightarrow> False)"

definition op_is_in :: "data_value list \<Rightarrow> string + data_value" where
  "op_is_in args =
     rbind (arg_at args 0) (\<lambda>left. rbind (arg_at args 1) (\<lambda>right.
       case right of
         DList xs \<Rightarrow> Inr (DBool (List.member xs left))
       | _ \<Rightarrow> Inl ''right hand side of is_in must be a list''))"

definition op_is_infinite :: "data_value list \<Rightarrow> string + data_value" where
  "op_is_infinite = test1 (\<lambda>v. case v of DNum (NFloat f) \<Rightarrow> f64_is_infinite f | _ \<Rightarrow> False)"

definition op_is_int :: "data_value list \<Rightarrow> string + data_value" where
  "op_is_int = test1 (\<lambda>v. case v of DNum (NInt _) \<Rightarrow> True | _ \<Rightarrow> False)"

definition op_is_json :: "data_value list \<Rightarrow> string + data_value" where
  "op_is_json = test1 (\<lambda>v. case v of DJson _ \<Rightarrow> True | _ \<Rightarrow> False)"

definition op_is_list :: "data_value list \<Rightarrow> string + data_value" where
  "op_is_list = test1 (\<lambda>v. case v of DList _ \<Rightarrow> True | DSet _ \<Rightarrow> True | _ \<Rightarrow> False)"

definition op_is_nan :: "data_value list \<Rightarrow> string + data_value" where
  "op_is_nan = test1 (\<lambda>v. case v of DNum (NFloat f) \<Rightarrow> f64_is_nan f | _ \<Rightarrow> False)"

definition op_is_null :: "data_value list \<Rightarrow> string + data_value" where
  "op_is_null = test1 (\<lambda>v. v = DNull)"

definition op_is_num :: "data_value list \<Rightarrow> string + data_value" where
  "op_is_num = test1 (\<lambda>v. case v of DNum _ \<Rightarrow> True | _ \<Rightarrow> False)"

definition op_is_string :: "data_value list \<Rightarrow> string + data_value" where
  "op_is_string = test1 (\<lambda>v. case v of DStr _ \<Rightarrow> True | _ \<Rightarrow> False)"

definition op_is_uuid :: "data_value list \<Rightarrow> string + data_value" where
  "op_is_uuid = test1 (\<lambda>v. case v of DUuid _ \<Rightarrow> True | _ \<Rightarrow> False)"

definition op_is_vec :: "data_value list \<Rightarrow> string + data_value" where
  "op_is_vec = test1 (\<lambda>v. case v of DVector _ \<Rightarrow> True | _ \<Rightarrow> False)"

section \<open>Negation and prefixes\<close>

definition op_negate :: "data_value list \<Rightarrow> string + data_value" where
  "op_negate args =
     rbind (arg_at args 0) (\<lambda>v. case v of DBool b \<Rightarrow> Inr (DBool (\<not> b)) | _ \<Rightarrow> Inl ''negate requires booleans'')"

definition starts_with :: "bytes \<Rightarrow> bytes \<Rightarrow> bool" where
  "starts_with l r \<longleftrightarrow> take (length r) l = r"

definition op_starts_with :: "data_value list \<Rightarrow> string + data_value" where
  "op_starts_with args =
     rbind (arg_at args 0) (\<lambda>a. rbind (arg_at args 1) (\<lambda>b.
       case (a, b) of
         (DStr l, DStr r) \<Rightarrow> Inr (DBool (starts_with l r))
       | (DBytes l, DBytes r) \<Rightarrow> Inr (DBool (starts_with l r))
       | _ \<Rightarrow> Inl ''starts_with requires strings or bytes''))"

section \<open>The table of these operators\<close>

definition mint :: "op_decl \<Rightarrow> (data_value list \<Rightarrow> string + data_value) \<Rightarrow> bound_op" where
  "mint decl body = \<lparr>bo_decl = decl, bo_body = body\<rparr>"

definition op_new :: "string \<Rightarrow> nat \<Rightarrow> bool \<Rightarrow> op_decl" where
  "op_new name arity va = \<lparr>op_name = name, min_arity = arity, vararg = va, deterministic = True\<rparr>"

definition op_key :: "string \<Rightarrow> string" where
  "op_key name = map ascii_lower (if take 3 name = ''OP_'' then drop 3 name else name)"

text \<open>The rows of \<open>resolve_op\<close> of \<open>bind.rs\<close> for the operators above; the other operators are not modelled.\<close>

definition comparison_table :: op_table where
  "comparison_table name = map_of
     [(''assert'', mint (op_new ''OP_ASSERT'' 1 True) op_assert),
      (''eq'', mint (op_new ''OP_EQ'' 2 False) op_eq),
      (''ge'', mint (op_new ''OP_GE'' 2 False) op_ge),
      (''gt'', mint (op_new ''OP_GT'' 2 False) op_gt),
      (''is_bytes'', mint (op_new ''OP_IS_BYTES'' 1 False) op_is_bytes),
      (''is_finite'', mint (op_new ''OP_IS_FINITE'' 1 False) op_is_finite),
      (''is_float'', mint (op_new ''OP_IS_FLOAT'' 1 False) op_is_float),
      (''is_in'', mint (op_new ''OP_IS_IN'' 2 False) op_is_in),
      (''is_infinite'', mint (op_new ''OP_IS_INFINITE'' 1 False) op_is_infinite),
      (''is_int'', mint (op_new ''OP_IS_INT'' 1 False) op_is_int),
      (''is_json'', mint (op_new ''OP_IS_JSON'' 1 False) op_is_json),
      (''is_list'', mint (op_new ''OP_IS_LIST'' 1 False) op_is_list),
      (''is_nan'', mint (op_new ''OP_IS_NAN'' 1 False) op_is_nan),
      (''is_null'', mint (op_new ''OP_IS_NULL'' 1 False) op_is_null),
      (''is_num'', mint (op_new ''OP_IS_NUM'' 1 False) op_is_num),
      (''is_string'', mint (op_new ''OP_IS_STRING'' 1 False) op_is_string),
      (''is_uuid'', mint (op_new ''OP_IS_UUID'' 1 False) op_is_uuid),
      (''is_vec'', mint (op_new ''OP_IS_VEC'' 1 False) op_is_vec),
      (''le'', mint (op_new ''OP_LE'' 2 False) op_le),
      (''lt'', mint (op_new ''OP_LT'' 2 False) op_lt),
      (''negate'', mint (op_new ''OP_NEGATE'' 1 False) op_negate),
      (''neq'', mint (op_new ''OP_NEQ'' 2 False) op_neq),
      (''starts_with'', mint (op_new ''OP_STARTS_WITH'' 2 False) op_starts_with)] (op_key name)"

text \<open>What the development asks of the whole table: these operators resolve to their bodies.\<close>

definition resolves_comparisons :: "op_table \<Rightarrow> bool" where
  "resolves_comparisons table \<longleftrightarrow>
     table ''negate'' = Some (mint OP_NEGATE op_negate) \<and> table ''eq'' = Some (mint OP_EQ op_eq)
     \<and> table ''ge'' = Some (mint OP_GE op_ge) \<and> table ''gt'' = Some (mint OP_GT op_gt)
     \<and> table ''le'' = Some (mint OP_LE op_le) \<and> table ''lt'' = Some (mint OP_LT op_lt)
     \<and> table ''starts_with'' = Some (mint OP_STARTS_WITH op_starts_with)"

lemma comparison_table_resolves: "resolves_comparisons comparison_table"
proof -
  have keys: "op_key ''negate'' = ''negate''" "op_key ''eq'' = ''eq''" "op_key ''ge'' = ''ge''" "op_key ''gt'' = ''gt''"
    "op_key ''le'' = ''le''" "op_key ''lt'' = ''lt''" "op_key ''starts_with'' = ''starts_with''"
    by (code_simp)+
  show ?thesis
    unfolding resolves_comparisons_def comparison_table_def keys
    by (simp add: op_new_def OP_NEGATE_def OP_EQ_def OP_GE_def OP_GT_def OP_LE_def OP_LT_def OP_STARTS_WITH_def)
qed

end
