(* ===== verification/Expr_Fold.thy ===== *)
theory Expr_Fold
  imports Expr_Names Stdlib_Compare
begin

text \<open>
  Compile-time folding: \<open>partial_eval\<close> of \<open>crates/kyzo-model/src/program/expr.rs\<close> and the two
  \<open>eval_to_const\<close>, of \<open>expr.rs\<close> and of \<open>crates/kyzo-core/src/exec/expr/eval.rs\<close>. Folding a doubled negation
  indexes the arguments of the inner one; the panic on an inner negation without arguments is \<open>None\<close>.
  Folding returns no error, so its result here is the rewritten expression.
\<close>

section \<open>Folding\<close>

text \<open>The arguments of a connective from the left: the value that folds it, or the arguments left.\<close>

primrec fold_lazy :: "lazy_op \<Rightarrow> (expr \<Rightarrow> expr option) \<Rightarrow> expr list \<Rightarrow> (data_value + expr list) option" where
  "fold_lazy op f [] = Some (Inl (lazy_identity op))"
| "fold_lazy op f (arg # args) =
     Option.bind (f arg) (\<lambda>a.
       case get_const a of
         None \<Rightarrow> Some (Inr (a # args))
       | Some val \<Rightarrow>
           (case lazy_decide op val of
              Decided v \<Rightarrow> Some (Inl v)
            | Refused \<Rightarrow> Some (Inr (a # args))
            | Continue \<Rightarrow> map_option (map_sum id ((#) a)) (fold_lazy op f args)))"

primrec fold_args :: "(expr \<Rightarrow> expr option) \<Rightarrow> expr list \<Rightarrow> expr list option" where
  "fold_args f [] = Some []"
| "fold_args f (arg # args) = Option.bind (f arg) (\<lambda>a. map_option ((#) a) (fold_args f args))"

definition is_negate :: "op_decl \<Rightarrow> bool" where
  "is_negate op \<longleftrightarrow> op_name op = op_name OP_NEGATE"

definition cancel_negation :: "op_decl \<Rightarrow> expr list \<Rightarrow> source_span \<Rightarrow> expr option" where
  "cancel_negation op1 arg1 sp =
     (case arg1 of
        Apply op2 arg2 _ # _ \<Rightarrow>
          if is_negate op1 \<and> is_negate op2 then (case arg2 of [] \<Rightarrow> None | e # _ \<Rightarrow> Some e)
          else Some (Apply op1 arg1 sp)
      | _ \<Rightarrow> Some (Apply op1 arg1 sp))"

lemma fold_lazy_cong [fundef_cong]:
  "op = op' \<Longrightarrow> args = args' \<Longrightarrow> (\<And>a. a \<in> set args' \<Longrightarrow> f a = g a) \<Longrightarrow> fold_lazy op f args = fold_lazy op' g args'"
proof (induction args' arbitrary: args)
  case (Cons a args')
  then have "fold_lazy op' f args' = fold_lazy op' g args'" by simp
  with Cons.prems show ?case by (simp cong: option.case_cong decision.case_cong)
qed simp

lemma fold_args_cong [fundef_cong]:
  "args = args' \<Longrightarrow> (\<And>a. a \<in> set args' \<Longrightarrow> f a = g a) \<Longrightarrow> fold_args f args = fold_args g args'"
  by (induction args' arbitrary: args) auto

fun partial_eval :: "expr \<Rightarrow> expr option" where
  "partial_eval (Lazy op args sp) =
     map_option (\<lambda>r. case r of Inl v \<Rightarrow> Const v sp | Inr args \<Rightarrow> Lazy op args sp) (fold_lazy op partial_eval args)"
| "partial_eval (Apply op args sp) =
     Option.bind (fold_args partial_eval args) (\<lambda>args. cancel_negation op args sp)"
| "partial_eval e = Some e"

datatype const_error = NotConst source_span | ConstFault expr_error

definition model_eval_to_const :: "expr \<Rightarrow> (const_error + data_value) option" where
  "model_eval_to_const e =
     map_option (\<lambda>e'. case get_const e' of Some val \<Rightarrow> Inr val | None \<Rightarrow> Inl (NotConst (expr_span e))) (partial_eval e)"

definition eval_to_const :: "op_table \<Rightarrow> expr \<Rightarrow> (const_error + data_value) option" where
  "eval_to_const table e =
     map_option (\<lambda>e'. case get_const e' of
         Some val \<Rightarrow> Inr val
       | None \<Rightarrow> rbind (map_err ConstFault (bindings e')) (\<lambda>names.
           if names = [] then map_err ConstFault (eval_expr table e' [])
           else Inl (NotConst (expr_span e')))) (partial_eval e)"

section \<open>Folding preserves values\<close>

lemma fold_args_iff: "fold_args f xs = Some ys \<longleftrightarrow> list_all2 (\<lambda>x y. f x = Some y) xs ys"
  by (induction xs arbitrary: ys) (auto simp: bind_eq_Some_conv list_all2_Cons1)

lemma get_const_Some: "get_const e = Some v \<longleftrightarrow> (\<exists>sp. e = Const v sp)"
  by (cases e) auto

lemma fold_lazy_value:
  assumes "\<And>a a' v. a \<in> set args \<Longrightarrow> f a = Some a' \<Longrightarrow> ev a = Inr v \<Longrightarrow> ev a' = Inr v"
    "\<And>v sp. ev (Const v sp) = Inr v"
  shows "fold_lazy op f args = Some r \<Longrightarrow> lazy_loop op ev args = Inr v \<Longrightarrow>
    (case r of Inl w \<Rightarrow> w = v | Inr args' \<Rightarrow> lazy_loop op ev args' = Inr v)"
  using assms(1)
proof (induction args arbitrary: r)
  case (Cons a args)
  from Cons.prems(1) obtain a' where a': "f a = Some a'" by (auto simp: bind_eq_Some_conv)
  from Cons.prems(2) obtain w where w: "ev a = Inr w" by (auto simp: rbind_eq_Inr)
  have ev: "ev a' = Inr w" using Cons.prems(3)[OF _ a' w] by simp
  show ?case
  proof (cases "get_const a'")
    case None
    with Cons.prems(1,2) a' ev w show ?thesis by (cases "lazy_decide op w") auto
  next
    case (Some c)
    with ev assms(2) have c: "c = w" by (auto simp: get_const_Some)
    show ?thesis
    proof (cases "lazy_decide op w")
      case Continue
      with Cons.prems(1) a' Some c obtain r' where r': "fold_lazy op f args = Some r'" "r = map_sum id ((#) a') r'" by auto
      have "case r' of Inl w \<Rightarrow> w = v | Inr args' \<Rightarrow> lazy_loop op ev args' = Inr v"
        by (rule Cons.IH[OF r'(1)]) (use Cons.prems w Continue in auto)
      with r'(2) ev Continue show ?thesis by (cases r') simp_all
    qed (use Cons.prems(1,2) a' ev w Some c in auto)
  qed
qed auto

lemma display_negate: assumes "is_negate op" shows "display_name op = ''negate''"
proof -
  have "display_name op = display_name OP_NEGATE" using assms by (simp add: is_negate_def display_name_def)
  also have "\<dots> = ''negate''" by code_simp
  finally show ?thesis .
qed

text \<open>What folding relies on of an evaluator; evaluation by position and by name both provide it.\<close>

locale evaluator =
  fixes table :: op_table and ev :: "expr \<Rightarrow> expr_error + data_value"
  assumes ev_const: "ev (Const v sp) = Inr v"
    and ev_apply: "ev (Apply op args sp) =
      rbind (collect_results ev args) (\<lambda>vals.
      rbind (map_err UnknownBuiltin (bound_of table op)) (\<lambda>b. map_err (EvalRaised sp) (bound_apply b vals)))"
    and ev_lazy: "ev (Lazy lop args sp) = lazy_loop lop ev args"
begin

lemma negation_value:
  assumes "table ''negate'' = Some (mint OP_NEGATE op_negate)" "is_negate op" "ev (Apply op args sp) = Inr v"
  obtains a b where "args = [a]" "ev a = Inr (DBool b)" "v = DBool (\<not> b)"
proof -
  from assms obtain vals where vals: "collect_results ev args = Inr vals"
    "map_err (EvalRaised sp) (bound_apply (mint OP_NEGATE op_negate) vals) = Inr v"
    by (auto simp: ev_apply rbind_eq_Inr bound_of_def display_negate map_err_def)
  then have "bound_apply (mint OP_NEGATE op_negate) vals = Inr v"
    by (cases "bound_apply (mint OP_NEGATE op_negate) vals") (simp_all add: map_err_def)
  then have len: "length vals = 1" "op_negate vals = Inr v"
    by (auto simp: bound_apply_def mint_def OP_NEGATE_def arity_matches_def rbind_eq_Inr map_err_def split: if_splits)
      (cases "op_negate vals"; simp)
  then obtain w where w: "vals = [w]" by (cases vals) auto
  with vals(1) obtain a where a: "args = [a]" "ev a = Inr w"
    by (cases args) (auto simp: rbind_eq_Inr collect_results_Inr_iff)
  from len(2) w obtain b where "w = DBool b" "v = DBool (\<not> b)"
    by (auto simp: op_negate_def arg_at_def split: data_value.splits)
  with a that show thesis by blast
qed

lemma negate_bool:
  assumes "table ''negate'' = Some (mint OP_NEGATE op_negate)" "ev e = Inr (DBool b)"
  shows "ev (negate e sp) = Inr (DBool (\<not> b))"
proof -
  have d: "display_name OP_NEGATE = ''negate''" by (rule display_negate) (simp add: is_negate_def)
  have b: "bound_of table OP_NEGATE = Inr (mint OP_NEGATE op_negate)" by (simp add: bound_of_def d assms(1))
  have "bound_apply (mint OP_NEGATE op_negate) [DBool b] = Inr (DBool (\<not> b))"
    by (simp add: bound_apply_def mint_def OP_NEGATE_def arity_matches_def op_negate_def arg_at_def map_err_def result_has_nan_def)
  with b assms(2) show ?thesis by (simp add: negate_def ev_apply map_err_def)
qed

lemma folded_value:
  assumes "table ''negate'' = Some (mint OP_NEGATE op_negate)"
  shows "partial_eval e = Some e' \<Longrightarrow> ev e = Inr v \<Longrightarrow> ev e' = Inr v"
proof (induction e arbitrary: e' v rule: partial_eval.induct)
  case (1 op args sp)
  from 1(2) obtain r where r: "fold_lazy op partial_eval args = Some r"
    "e' = (case r of Inl v \<Rightarrow> Const v sp | Inr args \<Rightarrow> Lazy op args sp)" by auto
  have "case r of Inl w \<Rightarrow> w = v | Inr args' \<Rightarrow> lazy_loop op ev args' = Inr v"
    by (rule fold_lazy_value[OF _ _ r(1), where ev = ev]) (use 1 in \<open>auto simp: ev_const ev_lazy\<close>)
  with r(2) show ?case by (cases r) (simp_all add: ev_const ev_lazy)
next
  case (2 op args sp)
  from 2(2) obtain args' where a: "fold_args partial_eval args = Some args'" "cancel_negation op args' sp = Some e'"
    by (auto simp: bind_eq_Some_conv)
  from 2(3) obtain vals where vals: "collect_results ev args = Inr vals" by (auto simp: ev_apply rbind_eq_Inr)
  have "list_all2 (\<lambda>a a'. \<forall>w. ev a = Inr w \<longrightarrow> ev a' = Inr w) args args'"
    using a(1) unfolding fold_args_iff by (rule list.rel_mono_strong) (use 2(1) in blast)
  then have "collect_results ev args' = Inr vals"
    using vals by (induction arbitrary: vals rule: list_all2_induct) (auto simp: rbind_eq_Inr)
  with vals 2(3) have ev: "ev (Apply op args' sp) = Inr v" by (simp add: ev_apply)
  show ?case
  proof (cases "e' = Apply op args' sp")
    case False
    with a(2) obtain op2 arg2 sp2 rest where c: "args' = Apply op2 arg2 sp2 # rest" "is_negate op" "is_negate op2" "\<exists>more. arg2 = e' # more"
      by (auto simp: cancel_negation_def split: list.splits expr.splits if_splits)
    obtain b1 where b1: "ev (Apply op2 arg2 sp2) = Inr (DBool b1)" "v = DBool (\<not> b1)"
      by (rule negation_value[OF assms c(2) ev]) (use c(1) in auto)
    obtain a b2 where "arg2 = [a]" "ev a = Inr (DBool b2)" "DBool b1 = DBool (\<not> b2)"
      by (rule negation_value[OF assms c(3) b1(1)])
    with c(4) b1(2) show ?thesis by auto
  qed (use ev in simp)
qed auto

end

interpretation by_position: evaluator table "\<lambda>e. eval_expr table e row" for table row
  by unfold_locales simp_all

interpretation by_name: evaluator table "eval_named table env" for table env
  by unfold_locales simp_all

lemma model_const_value:
  assumes "table ''negate'' = Some (mint OP_NEGATE op_negate)" "model_eval_to_const e = Some (Inr c)" "eval_expr table e row = Inr v"
  shows "v = c"
proof -
  from assms(2) obtain e' where "partial_eval e = Some e'" "get_const e' = Some c"
    by (auto simp: model_eval_to_const_def split: option.splits)
  with by_position.folded_value[OF assms(1) _ assms(3)] show ?thesis by (auto simp: get_const_Some)
qed

end
