(* ===== verification/Num_Cast.thy ===== *)
theory Num_Cast
  imports Num_Numeric
begin

text \<open>
  The cast \<open>i as f64\<close> of the standard library: the nearest float, and on a tie the one with an even
  significand. It is exact up to \<open>2 ^ 53\<close>.
\<close>

section \<open>Casting an integer to a float\<close>

definition round_half_even :: "nat \<Rightarrow> nat \<Rightarrow> nat" where
  "round_half_even m k =
     (let q = m div 2 ^ k; r = m mod 2 ^ k
      in if 2 ^ k < 2 * r \<or> 2 ^ k = 2 * r \<and> odd q then q + 1 else q)"

definition i64_as_f64 :: "i64 \<Rightarrow> f64" where
  "i64_as_f64 v =
     (let m = nat \<bar>sint v\<bar>; l = bit_length m in
      if m = 0 then 0
      else
        let q = (if l \<le> 53 then m * 2 ^ (53 - l) else round_half_even m (l - 53))
        in f64_signed (sint v < 0) (of_nat ((l + 1021) * 2 ^ 52 + q)))"

section \<open>Exactness\<close>

lemma f64_of_significand:
  fixes neg :: bool
  assumes "0 < e" "e \<le> 2046" "2 ^ 52 \<le> q" "q < 2 ^ 53"
  defines "w \<equiv> f64_signed neg (of_nat ((e - 1) * 2 ^ 52 + q))"
  shows "f64_is_finite w" "num_real (NFloat w) = (if neg then - 1 else 1) * (real q * 2 powi (int e - 1075))"
proof -
  let ?n = "(e - 1) * 2 ^ 52 + q"
  have n: "?n = e * 2 ^ 52 + (q - 2 ^ 52)" using assms(1,3) by (cases e) simp_all
  have "?n < 2 ^ 63" using assms(2,4) unfolding n by simp
  moreover have "k < 2 ^ 63 \<Longrightarrow> unat (of_nat k :: f64) = k" for k by (simp add: unat_of_nat take_bit_nat_eq_self)
  ultimately have u: "unat (of_nat ?n :: f64) = ?n" by blast
  with \<open>?n < 2 ^ 63\<close> have small: "unat (of_nat ?n :: f64) < 2 ^ 63" by (simp only:)
  have abs: "f64_abs w = of_nat ?n" "bit w 63 \<longleftrightarrow> neg" unfolding w_def by (rule f64_signed_facts[OF small])+
  have ef: "f64_expo w = e" "f64_fraction w = q - 2 ^ 52"
    unfolding f64_expo_def f64_fraction_def abs(1) u unfolding n
    by (use assms(3,4) in simp) (use assms(3,4) in \<open>subst mod_mult_self3, simp\<close>)
  then show fin: "f64_is_finite w" using assms(2) by (simp add: f64_finite_expo)
  have "num_sig (NFloat w) = q" "num_ulp (NFloat w) = int e - 1075" using ef assms(1,3) by simp_all
  then show "num_real (NFloat w) = (if neg then - 1 else 1) * (real q * 2 powi (int e - 1075))"
    unfolding num_real_float[OF fin] abs(2) by simp
qed

lemma i64_as_f64_exact:
  assumes "\<bar>sint v\<bar> \<le> 2 ^ 53"
  shows "f64_is_finite (i64_as_f64 v) \<and> num_real (NFloat (i64_as_f64 v)) = real_of_int (sint v)"
proof (cases "\<bar>sint v\<bar> = 2 ^ 53")
  case True
  moreover have "\<bar>x\<bar> = c \<Longrightarrow> x = c \<or> x = - c" for x c :: int by linarith
  ultimately have "sint v = 2 ^ 53 \<or> sint v = - (2 ^ 53)" by blast
  then show ?thesis
  proof
    assume "sint v = 2 ^ 53"
    moreover have "bit_length 9007199254740992 = 54" by (rule trans[OF bit_length_unique[of 53]]) simp_all
    ultimately have "i64_as_f64 v = f64_signed False (of_nat ((1076 - 1) * 2 ^ 52 + 2 ^ 52))"
      by (simp add: i64_as_f64_def round_half_even_def)
    with f64_of_significand[of 1076 "2 ^ 52" False] \<open>sint v = 2 ^ 53\<close> show ?thesis by simp
  next
    assume "sint v = - (2 ^ 53)"
    moreover have "bit_length 9007199254740992 = 54" by (rule trans[OF bit_length_unique[of 53]]) simp_all
    ultimately have "i64_as_f64 v = f64_signed True (of_nat ((1076 - 1) * 2 ^ 52 + 2 ^ 52))"
      by (simp add: i64_as_f64_def round_half_even_def)
    with f64_of_significand[of 1076 "2 ^ 52" True] \<open>sint v = - (2 ^ 53)\<close> show ?thesis by simp
  qed
next
  case False
  define m where "m = nat \<bar>sint v\<bar>"
  show ?thesis
  proof (cases "m = 0")
    case True
    then have "sint v = 0" by (simp add: m_def)
    then show ?thesis by (simp add: i64_as_f64_def num_real_def f64_is_finite_def f64_abs_def f64_fraction_def f64_expo_def)
  next
    case nz: False
    define l where "l = bit_length m"
    have m: "m < 2 ^ 53" using assms False by (simp add: m_def nat_less_iff)
    then have l: "0 < l" "l \<le> 53" using nz bit_length_le_iff[of m 53] by (simp_all add: l_def bit_length_pos)
    define q where "q = m * 2 ^ (53 - l)"
    have "m < 2 ^ l" "2 ^ (l - 1) \<le> m" using bit_length_less[of m] bit_length_ge[of m] nz by (simp_all add: l_def)
    then have q: "2 ^ 52 \<le> q" "q < 2 ^ 53"
    proof -
      have "2 ^ 52 = (2 ^ (l - 1) :: nat) * 2 ^ (53 - l)" using l by (simp flip: power_add)
      also have "\<dots> \<le> q" unfolding q_def using \<open>2 ^ (l - 1) \<le> m\<close> by (rule mult_right_mono) simp
      finally show "2 ^ 52 \<le> q" .
      have "q < 2 ^ l * 2 ^ (53 - l)" unfolding q_def using \<open>m < 2 ^ l\<close> by (rule mult_strict_right_mono) simp
      also have "\<dots> = 2 ^ 53" using l by (simp flip: power_add)
      finally show "q < 2 ^ 53" .
    qed
    have eq: "i64_as_f64 v = f64_signed (sint v < 0) (of_nat ((l + 1022 - 1) * 2 ^ 52 + q))"
      using nz l by (simp add: i64_as_f64_def m_def[symmetric] l_def[symmetric] q_def Let_def algebra_simps)
    have "real q * 2 powi (int (l + 1022) - 1075) = real m"
    proof -
      have "int (l + 1022) - 1075 = - int (53 - l)" using l(2) by (simp add: of_nat_diff)
      then have "(2 :: real) powi (int (l + 1022) - 1075) = inverse (2 ^ (53 - l))" by (simp only: power_int_minus power_int_of_nat)
      moreover have "real q = real m * 2 ^ (53 - l)" by (simp add: q_def)
      ultimately show ?thesis by (simp only: mult.assoc) simp
    qed
    moreover have "(if sint v < 0 then - 1 else 1) * real m = real_of_int (sint v)"
      by (cases "sint v < 0") (simp_all add: m_def del: of_int_sint)
    moreover note f64_of_significand[of "l + 1022" q "sint v < 0", OF _ _ q, folded eq]
    ultimately show ?thesis using l by (simp only:)
  qed
qed

end
