(* ===== verification/Value_Range.thy ===== *)
theory Value_Range
  imports Expr_Fold Num_Cast Row_Key
begin

text \<open>
  Pushing filters into scans: \<open>extract_bound\<close>, \<open>ValueRange\<close> and \<open>compute_bounds\<close> of
  \<open>crates/kyzo-model/src/program/expr.rs\<close>, which turn the filters of a scan into a range of each column.
  Reading an argument past the end panics, here \<open>None\<close>.
\<close>

section \<open>Ranges\<close>

record value_range =
  vr_lower :: scan_bound
  vr_upper :: scan_bound

definition sb_max :: "scan_bound \<Rightarrow> scan_bound \<Rightarrow> scan_bound" where
  "sb_max a b = (if scan_bound_cmp a b = Greater then a else b)"

definition sb_min :: "scan_bound \<Rightarrow> scan_bound \<Rightarrow> scan_bound" where
  "sb_min a b = (if scan_bound_cmp a b = Greater then b else a)"

definition vr_null :: value_range where
  "vr_null = \<lparr>vr_lower = Greatest, vr_upper = Least\<rparr>"

definition vr_default :: value_range where
  "vr_default = \<lparr>vr_lower = Least, vr_upper = Greatest\<rparr>"

definition vr_merge :: "value_range \<Rightarrow> value_range \<Rightarrow> value_range" where
  "vr_merge a b =
     (let lower = sb_max (vr_lower a) (vr_lower b); upper = sb_min (vr_upper a) (vr_upper b)
      in if scan_bound_cmp lower upper = Greater then vr_null else \<lparr>vr_lower = lower, vr_upper = upper\<rparr>)"

definition vr_lower_bound :: "data_value \<Rightarrow> value_range" where
  "vr_lower_bound val = \<lparr>vr_lower = BoundValue val, vr_upper = Greatest\<rparr>"

definition vr_upper_bound :: "data_value \<Rightarrow> value_range" where
  "vr_upper_bound val = \<lparr>vr_lower = Least, vr_upper = BoundValue val\<rparr>"

section \<open>The range of one filter\<close>

fun get_int :: "data_value \<Rightarrow> i64 option" where
  "get_int (DNum n) = to_int_coerced n"
| "get_int _ = None"

fun get_float :: "data_value \<Rightarrow> f64 option" where
  "get_float (DNum (NFloat f)) = Some f"
| "get_float (DNum (NInt i)) = Some (i64_as_f64 i)"
| "get_float _ = None"

fun get_str :: "data_value \<Rightarrow> bytes option" where
  "get_str (DStr s) = Some s"
| "get_str _ = None"

definition int_bound :: "data_value \<Rightarrow> data_value" where
  "int_bound val = (case get_int val of Some i \<Rightarrow> DNum (num_int i) | None \<Rightarrow> val)"

definition float_bound :: "data_value \<Rightarrow> data_value" where
  "float_bound val = (case get_float val of Some f \<Rightarrow> DNum (num_float f) | None \<Rightarrow> val)"

definition LARGEST_UTF_CHAR :: bytes where
  "LARGEST_UTF_CHAR = [0xF4, 0x8F, 0xBF, 0xBF]"

text \<open>The constant an argument pair compares the target with, when it has the shape \<open>target op constant\<close>.\<close>

definition compared_const :: "string \<Rightarrow> expr \<Rightarrow> expr \<Rightarrow> data_value option" where
  "compared_const target a b =
     (case get_binding a of
        Some symb \<Rightarrow> (case get_const b of Some val \<Rightarrow> if target = sym_name symb then Some val else None | None \<Rightarrow> None)
      | None \<Rightarrow> None)"

definition bound_ge :: "string \<Rightarrow> expr \<Rightarrow> expr \<Rightarrow> value_range" where
  "bound_ge target a b =
     (case compared_const target a b of
        Some val \<Rightarrow> vr_lower_bound (int_bound val)
      | None \<Rightarrow> (case compared_const target b a of Some val \<Rightarrow> vr_upper_bound (float_bound val) | None \<Rightarrow> vr_default))"

definition bound_le :: "string \<Rightarrow> expr \<Rightarrow> expr \<Rightarrow> value_range" where
  "bound_le target a b =
     (case compared_const target a b of
        Some val \<Rightarrow> vr_upper_bound (float_bound val)
      | None \<Rightarrow> (case compared_const target b a of Some val \<Rightarrow> vr_lower_bound (int_bound val) | None \<Rightarrow> vr_default))"

definition bound_starts_with :: "string \<Rightarrow> expr \<Rightarrow> expr \<Rightarrow> expr_error + value_range" where
  "bound_starts_with target a b =
     (case compared_const target a b of
        None \<Rightarrow> Inr vr_default
      | Some val \<Rightarrow>
          (case get_str val of
             None \<Rightarrow> Inl (StrRangeScan val (expr_span a))
           | Some s \<Rightarrow> Inr \<lparr>vr_lower = BoundValue (DStr s), vr_upper = BoundValue (DStr (s @ LARGEST_UTF_CHAR))\<rparr>))"

definition extract_bound :: "expr \<Rightarrow> string \<Rightarrow> (expr_error + value_range) option" where
  "extract_bound e target =
     (case e of
        Apply op args _ \<Rightarrow>
          if op_name op = op_name OP_GE \<or> op_name op = op_name OP_GT then
            (case args of a # b # _ \<Rightarrow> Some (Inr (bound_ge target a b)) | _ \<Rightarrow> None)
          else if op_name op = op_name OP_LE \<or> op_name op = op_name OP_LT then
            (case args of a # b # _ \<Rightarrow> Some (Inr (bound_le target a b)) | _ \<Rightarrow> None)
          else if op_name op = op_name OP_STARTS_WITH then
            (case args of
               a # b # _ \<Rightarrow> Some (bound_starts_with target a b)
             | [a] \<Rightarrow> if get_binding a = None then Some (Inr vr_default) else None
             | [] \<Rightarrow> None)
          else Some (Inr vr_default)
      | UnboundApply op _ sp \<Rightarrow> Some (Inl (NoImplementation sp op))
      | _ \<Rightarrow> Some (Inr vr_default))"

section \<open>The ranges of a scan\<close>

fun merge_bounds :: "expr list \<Rightarrow> string \<Rightarrow> value_range \<Rightarrow> (expr_error + value_range) option" where
  "merge_bounds [] current cur = Some (Inr cur)"
| "merge_bounds (f # filters) current cur =
     (case extract_bound f current of
        None \<Rightarrow> None
      | Some (Inl err) \<Rightarrow> Some (Inl err)
      | Some (Inr nxt) \<Rightarrow> merge_bounds filters current (vr_merge cur nxt))"

fun compute_bounds :: "expr list \<Rightarrow> symbol list \<Rightarrow> (expr_error + scan_bound list \<times> scan_bound list) option" where
  "compute_bounds filters [] = Some (Inr ([], []))"
| "compute_bounds filters (current # symbols) =
     (case merge_bounds filters (sym_name current) vr_default of
        None \<Rightarrow> None
      | Some (Inl err) \<Rightarrow> Some (Inl err)
      | Some (Inr r) \<Rightarrow>
          map_option (\<lambda>rest. rbind rest (\<lambda>(lowers, uppers). Inr (vr_lower r # lowers, vr_upper r # uppers)))
            (compute_bounds filters symbols))"

section \<open>Bounds in order\<close>

definition in_range :: "value_range \<Rightarrow> data_value \<Rightarrow> bool" where
  "in_range r v \<longleftrightarrow> scan_bound_cmp (vr_lower r) (BoundValue v) \<noteq> Greater \<and> scan_bound_cmp (BoundValue v) (vr_upper r) \<noteq> Greater"

lemma dv_cmp_le_trans: "dv_wf a \<Longrightarrow> dv_wf b \<Longrightarrow> dv_wf c \<Longrightarrow> dv_cmp a b \<noteq> Greater \<Longrightarrow> dv_cmp b c \<noteq> Greater \<Longrightarrow> dv_cmp a c \<noteq> Greater"
  using order.trans[of "encode_ref a" "encode_ref b" "encode_ref c"] by (simp only: dv_cmp_bytes le_ocmp(1) simp_thms)

lemma scan_bound_le_trans:
  assumes "bound_wf a" "bound_wf b" "bound_wf c" "scan_bound_cmp a b \<noteq> Greater" "scan_bound_cmp b c \<noteq> Greater"
  shows "scan_bound_cmp a c \<noteq> Greater"
proof -
  consider "a = Least" | "c = Greatest" | "a = Greatest" "b = Greatest" | "b = Least" "c = Least" "a = Least"
    | x y z where "a = BoundValue x" "b = BoundValue y" "c = BoundValue z"
    using assms(4,5) by (cases a; cases b; cases c) auto
  then show ?thesis
  proof cases
    case (5 x y z)
    with assms dv_cmp_le_trans[of x y z] show ?thesis by simp
  qed (use assms(5) in \<open>cases c; cases a; simp\<close>)+
qed

lemma merge_in_range:
  assumes "in_range a v" "in_range b v" "dv_wf v"
    "bound_wf (vr_lower a)" "bound_wf (vr_upper a)" "bound_wf (vr_lower b)" "bound_wf (vr_upper b)"
  shows "in_range (vr_merge a b) v \<and> bound_wf (vr_lower (vr_merge a b)) \<and> bound_wf (vr_upper (vr_merge a b))"
proof -
  define l where "l = sb_max (vr_lower a) (vr_lower b)"
  define u where "u = sb_min (vr_upper a) (vr_upper b)"
  have l: "scan_bound_cmp l (BoundValue v) \<noteq> Greater" "bound_wf l" using assms by (simp_all add: l_def sb_max_def in_range_def)
  have u: "scan_bound_cmp (BoundValue v) u \<noteq> Greater" "bound_wf u" using assms by (simp_all add: u_def sb_min_def in_range_def)
  have "scan_bound_cmp l u \<noteq> Greater" by (rule scan_bound_le_trans[OF l(2) _ u(2) l(1) u(1)]) (simp add: assms(3))
  with l u show ?thesis by (simp add: vr_merge_def l_def[symmetric] u_def[symmetric] in_range_def Let_def)
qed

section \<open>Bounds of numbers\<close>

lemma num_spec_cmp_same:
  "num_level a = num_level b \<Longrightarrow> num_real a = num_real b \<Longrightarrow> num_spec_cmp x a = num_spec_cmp x b \<and> num_spec_cmp a x = num_spec_cmp b x"
  by (simp add: num_spec_cmp_def)

lemma num_spec_cmp_reverse: "num_spec_cmp b a = ord_reverse (num_spec_cmp a b)"
  by (auto simp: num_spec_cmp_def ocmp_def)

lemma num_level_one: "num_level n = Suc 0 \<longleftrightarrow> num_finite n"
  using num_level_float_iff by (cases n) simp_all

lemma int_bound_below:
  assumes "num_wf x" "num_wf c" "num_spec_cmp x c \<noteq> Less"
  shows "dv_cmp (int_bound (DNum c)) (DNum x) \<noteq> Greater \<and> dv_wf (int_bound (DNum c))"
proof (cases "to_int_coerced c")
  case (Some i)
  then have c: "num_level c = num_level (NInt i)" "num_real c = num_real (NInt i)"
    using to_int_coerced_iff[of c i] by (simp_all add: num_real_int num_level_finite del: of_int_sint)
  have "num_spec_cmp x (NInt i) \<noteq> Less" using assms(3) num_spec_cmp_same[OF c] by simp
  then have "num_spec_cmp (NInt i) x \<noteq> Greater" by (subst num_spec_cmp_reverse) (cases "num_spec_cmp x (NInt i)"; simp)
  then have "num_cmp (NInt i) x \<noteq> Greater"
    using num_cmp_spec[of "NInt i" x] assms(1) by (cases "num_spec_cmp (NInt i) x"; cases x) (simp_all add: REPR_INT_def REPR_FLOAT_def ocmp_def)
  with Some show ?thesis by (simp add: int_bound_def num_int_def dv_cmp.simps)
next
  case None
  have "num_cmp c x \<noteq> Greater"
  proof (cases "num_spec_cmp c x = Equal")
    case True
    have "repr_byte x = REPR_FLOAT"
    proof (cases x)
      case (NInt i)
      with True have "num_finite c \<and> num_real c = real_of_int (sint i)"
        by (auto simp: num_spec_cmp_def num_level_one num_real_int simp del: of_int_sint)
      with None to_int_coerced_iff[of c i] show ?thesis by simp
    qed simp
    then show ?thesis using num_cmp_spec[OF assms(2,1)] True by (cases c) (auto simp: REPR_INT_def REPR_FLOAT_def ocmp_def)
  next
    case False
    with assms(3) have "num_spec_cmp c x = Less" by (subst num_spec_cmp_reverse) (cases "num_spec_cmp x c"; simp add: num_spec_cmp_reverse[of c x])
    then show ?thesis using num_cmp_spec[OF assms(2,1)] by simp
  qed
  with None assms(2) show ?thesis by (simp add: int_bound_def dv_cmp.simps)
qed

fun exact_const :: "data_value \<Rightarrow> bool" where
  "exact_const (DNum (NInt i)) \<longleftrightarrow> \<bar>sint i\<bar> \<le> 2 ^ 53"
| "exact_const _ \<longleftrightarrow> True"

lemma num_real_num_float: "f64_is_finite f \<Longrightarrow> num_finite (num_float f) \<and> num_real (num_float f) = num_real (NFloat f)"
  using f64_finite_not[of f] num_sig_zero_iff(2)[of f] num_sig_zero_iff(2)[of 0]
  by (auto simp: num_float_def num_real_def f64_is_finite_def f64_eq_zero_def f64_abs_def simp del: num_sig.simps num_ulp.simps)

lemma float_bound_num:
  assumes "num_wf c" "exact_const (DNum c)"
  obtains d where "float_bound (DNum c) = DNum d" "num_wf d" "repr_byte d = REPR_FLOAT" "num_level d = num_level c" "num_real d = num_real c"
proof (cases c)
  case (NFloat f)
  with assms(1) have "float_bound (DNum c) = DNum c" by (simp add: float_bound_def num_float_wf)
  with that[of c] assms(1) NFloat show thesis by simp
next
  case (NInt i)
  with assms(2) have f: "f64_is_finite (i64_as_f64 i)" "num_real (NFloat (i64_as_f64 i)) = num_real c"
    using i64_as_f64_exact[of i] by (simp_all add: num_real_int del: of_int_sint)
  show thesis
  proof (rule that)
    show "float_bound (DNum c) = DNum (num_float (i64_as_f64 i))" by (simp add: float_bound_def NInt)
    show "num_wf (num_float (i64_as_f64 i))" by (rule num_wf_constructors)
    show "repr_byte (num_float (i64_as_f64 i)) = REPR_FLOAT" by (simp add: num_float_def)
    show "num_level (num_float (i64_as_f64 i)) = num_level c" "num_real (num_float (i64_as_f64 i)) = num_real c"
      using num_real_num_float[OF f(1)] f(2) NInt num_level_finite by simp_all
  qed
qed

lemma float_bound_above:
  assumes "num_wf x" "num_wf c" "num_spec_cmp x c \<noteq> Greater" "exact_const (DNum c)"
  shows "dv_cmp (DNum x) (float_bound (DNum c)) \<noteq> Greater \<and> dv_wf (float_bound (DNum c))"
proof -
  obtain d where d: "float_bound (DNum c) = DNum d" "num_wf d" "repr_byte d = REPR_FLOAT" "num_level d = num_level c" "num_real d = num_real c"
    by (rule float_bound_num[OF assms(2,4)])
  have "num_spec_cmp x d \<noteq> Greater" using num_spec_cmp_same[OF d(4,5), of x] assms(3) by simp
  then have "num_cmp x d \<noteq> Greater"
    using num_cmp_spec[OF assms(1) d(2)] d(3) by (cases "num_spec_cmp x d"; cases x) (simp_all add: REPR_INT_def REPR_FLOAT_def ocmp_def)
  with d(1,2) show ?thesis by (simp add: dv_cmp.simps)
qed

section \<open>Bounds of strings\<close>

lemma utf8_valid_Cons: "a \<le> 0x7F \<Longrightarrow> utf8_valid (a # r) = utf8_valid r"
  by (cases r rule: utf8_valid.cases) simp_all

lemma byte_classes:
  "0xC2 \<le> a \<Longrightarrow> \<not> a \<le> 0x7F" "0xE0 \<le> a \<Longrightarrow> \<not> a \<le> 0x7F \<and> \<not> a \<le> 0xDF" for a :: u8
proof -
  have "0x7F < (0xC2 :: u8)" "0x7F < (0xE0 :: u8)" "0xDF < (0xE0 :: u8)" by simp_all
  then show "0xC2 \<le> a \<Longrightarrow> \<not> a \<le> 0x7F" "0xE0 \<le> a \<Longrightarrow> \<not> a \<le> 0x7F \<and> \<not> a \<le> 0xDF"
    using order.strict_trans2 not_le by blast+
qed

lemma utf8_valid_Cons2: "0xC2 \<le> a \<Longrightarrow> a \<le> 0xDF \<Longrightarrow> utf8_cont b \<Longrightarrow> utf8_valid (a # b # r) = utf8_valid r"
  by (cases r rule: utf8_valid.cases) (simp_all add: byte_classes)

lemma utf8_valid_Cons3:
  "0xE0 \<le> a \<Longrightarrow> a \<le> 0xEF \<Longrightarrow> utf8_cont b \<Longrightarrow> utf8_cont c \<Longrightarrow> (a = 0xE0 \<longrightarrow> 0xA0 \<le> b) \<Longrightarrow> (a = 0xED \<longrightarrow> b \<le> 0x9F)
    \<Longrightarrow> utf8_valid (a # b # c # r) = utf8_valid r"
  by (cases r rule: utf8_valid.cases) (simp_all add: byte_classes)

lemma utf8_valid_append: "utf8_valid s \<Longrightarrow> utf8_valid (s @ r) = utf8_valid r"
proof (induction s rule: utf8_valid.induct)
  case (3 a b)
  then show ?case by (auto simp: utf8_valid_Cons utf8_valid_Cons2 split: if_splits)
next
  case (4 a b c)
  then show ?case by (auto simp: utf8_valid_Cons utf8_valid_Cons2 utf8_valid_Cons3 split: if_splits)
next
  case (5 a b c d r')
  then show ?case by (auto split: if_splits)
qed (auto simp: utf8_valid_Cons)

lemma byte_below_top: "a \<le> 0x7F \<or> a \<le> 0xDF \<or> a \<le> 0xEF \<Longrightarrow> a < 0xF4" for a :: u8
proof -
  have "0x7F < (0xF4 :: u8)" "0xDF < (0xF4 :: u8)" "0xEF < (0xF4 :: u8)" by simp_all
  then show "a \<le> 0x7F \<or> a \<le> 0xDF \<or> a \<le> 0xEF \<Longrightarrow> a < 0xF4" using order.strict_trans1 by blast
qed

lemma below_largest:
  assumes "utf8_valid r" "starts_with r LARGEST_UTF_CHAR \<longrightarrow> r = LARGEST_UTF_CHAR"
  shows "r \<le> LARGEST_UTF_CHAR"
proof (cases "\<exists>a r'. r = a # r' \<and> 0xF4 \<le> a")
  case False
  then show ?thesis by (cases r) (auto simp: LARGEST_UTF_CHAR_def not_le)
next
  case True
  then obtain a r' where a: "r = a # r'" "\<not> a < 0xF4" by (auto simp: not_less)
  then have na: "\<not> (a \<le> 0x7F \<or> a \<le> 0xDF \<or> a \<le> 0xEF)" using byte_below_top by blast
  then obtain b c d t where r: "r = a # b # c # d # t"
    using assms(1) a(1) by (cases r rule: utf8_valid.cases) (auto split: if_splits)
  have v: "a \<le> 0xF4" "a = 0xF4 \<Longrightarrow> b \<le> 0x8F" "c \<le> 0xBF" "d \<le> 0xBF"
    using assms(1) na unfolding r by (auto simp: utf8_cont_def split: if_splits)
  have "a = 0xF4" using v(1) a(2) by simp
  show ?thesis
  proof (cases "b = 0x8F \<and> c = 0xBF \<and> d = 0xBF")
    case True
    then have "starts_with r LARGEST_UTF_CHAR" by (simp add: starts_with_def LARGEST_UTF_CHAR_def r \<open>a = 0xF4\<close>)
    with assms(2) show ?thesis by simp
  next
    case False
    then show ?thesis using v \<open>a = 0xF4\<close> unfolding r LARGEST_UTF_CHAR_def by (auto simp: order.order_iff_strict)
  qed
qed

lemma starts_with_split: "starts_with l s \<longleftrightarrow> (\<exists>r. l = s @ r)"
  by (metis append_eq_conv_conj append_take_drop_id starts_with_def)

lemma prefix_bounds_hold:
  assumes "utf8_valid l" "utf8_valid s" "starts_with l s" "starts_with l (s @ LARGEST_UTF_CHAR) \<longrightarrow> l = s @ LARGEST_UTF_CHAR"
  shows "ocmp s l \<noteq> Greater \<and> ocmp l (s @ LARGEST_UTF_CHAR) \<noteq> Greater \<and> utf8_valid (s @ LARGEST_UTF_CHAR)"
proof -
  from assms(3) obtain r where r: "l = s @ r" by (auto simp: starts_with_split)
  have "utf8_valid r" using assms(1,2) utf8_valid_append r by blast
  moreover have "starts_with r LARGEST_UTF_CHAR \<longrightarrow> r = LARGEST_UTF_CHAR" using assms(4) r by (simp add: starts_with_def)
  ultimately have "r \<le> LARGEST_UTF_CHAR" by (rule below_largest)
  moreover have "ocmp s l \<noteq> Greater" using ocmp_append_same[of s "[]" r] r by (cases r) simp_all
  moreover have "utf8_valid LARGEST_UTF_CHAR" by (simp add: LARGEST_UTF_CHAR_def utf8_cont_def)
  ultimately show ?thesis using utf8_valid_append[OF assms(2)] by (simp add: r le_ocmp(1))
qed

section \<open>A filter that holds keeps its column in range\<close>

fun holds_top :: "bytes \<Rightarrow> bool" where
  "holds_top [] = False"
| "holds_top (b # bs) = (starts_with (b # bs) LARGEST_UTF_CHAR \<or> holds_top bs)"

fun top_free :: "data_value \<Rightarrow> bool" where
  "top_free (DStr l) \<longleftrightarrow> \<not> holds_top l"
| "top_free _ \<longleftrightarrow> True"

definition filter_exact :: "expr \<Rightarrow> bool" where
  "filter_exact f =
     (case f of
        Apply _ args _ \<Rightarrow> list_all (\<lambda>a. case get_const a of Some c \<Rightarrow> dv_wf c \<and> exact_const c | None \<Rightarrow> True) args
      | _ \<Rightarrow> True)"

lemma holds_top_append: "starts_with l (s @ LARGEST_UTF_CHAR) \<Longrightarrow> holds_top l"
proof (induction s arbitrary: l)
  case Nil
  then show ?case by (cases l) (auto simp: starts_with_def LARGEST_UTF_CHAR_def)
next
  case (Cons b s)
  then obtain l' where "l = b # l'" "starts_with l' (s @ LARGEST_UTF_CHAR)" by (auto simp: starts_with_split)
  with Cons.IH show ?case by simp
qed

lemma apply2_value:
  assumes "table (display_name op) = Some (mint decl body)" "min_arity decl = 2" "\<not> vararg decl"
    "eval_named table env (Apply op args sp) = Inr v"
  obtains a b x y where "args = [a, b]" "eval_named table env a = Inr x" "eval_named table env b = Inr y" "body [x, y] = Inr v"
proof -
  from assms obtain vals where vals: "collect_results (eval_named table env) args = Inr vals"
    "map_err (EvalRaised sp) (bound_apply (mint decl body) vals) = Inr v"
    by (auto simp: rbind_eq_Inr bound_of_def map_err_def)
  then have ok: "bound_apply (mint decl body) vals = Inr v"
    by (cases "bound_apply (mint decl body) vals") (simp_all add: map_err_def)
  then have len: "length vals = 2" using assms(2,3) by (auto simp: bound_apply_def mint_def arity_matches_def split: if_splits)
  with ok assms(2,3) have "body vals = Inr v"
    by (cases "body vals") (auto simp: bound_apply_def mint_def arity_matches_def map_err_def split: if_splits)
  moreover from len obtain x y where "vals = [x, y]" by (auto simp: numeral_2_eq_2 length_Suc_conv)
  ultimately show thesis using vals(1) that by (auto simp: collect_results_Inr_iff list_all2_Cons2)
qed

lemma comparison_names:
  "op_name op = op_name OP_GE \<Longrightarrow> display_name op = ''ge''" "op_name op = op_name OP_GT \<Longrightarrow> display_name op = ''gt''"
  "op_name op = op_name OP_LE \<Longrightarrow> display_name op = ''le''" "op_name op = op_name OP_LT \<Longrightarrow> display_name op = ''lt''"
  "op_name op = op_name OP_STARTS_WITH \<Longrightarrow> display_name op = ''starts_with''"
proof -
  have "op_name op = op_name d \<Longrightarrow> display_name op = display_name d" for d by (simp add: display_name_def)
  moreover have "display_name OP_GE = ''ge''" "display_name OP_GT = ''gt''" "display_name OP_LE = ''le''" "display_name OP_LT = ''lt''"
    "display_name OP_STARTS_WITH = ''starts_with''" by code_simp+
  ultimately show "op_name op = op_name OP_GE \<Longrightarrow> display_name op = ''ge''" "op_name op = op_name OP_GT \<Longrightarrow> display_name op = ''gt''"
    "op_name op = op_name OP_LE \<Longrightarrow> display_name op = ''le''" "op_name op = op_name OP_LT \<Longrightarrow> display_name op = ''lt''"
    "op_name op = op_name OP_STARTS_WITH \<Longrightarrow> display_name op = ''starts_with''" by metis+
qed

definition comparable :: "data_value \<Rightarrow> data_value \<Rightarrow> bool" where
  "comparable a b \<longleftrightarrow> ensure_same_value_type a b = Inr ()"

lemma same_type2_true: "same_type2 p [a, b] = Inr (DBool True) \<Longrightarrow> comparable a b \<and> p a b"
  by (auto simp: same_type2_def arg_at_def rbind_eq_Inr comparable_def)

lemma comparable_cases:
  assumes "comparable a b"
  obtains x y where "a = DNum x" "b = DNum y" | "value_ord a b = dv_cmp a b" "value_ord b a = dv_cmp b a" "\<And>n. a \<noteq> DNum n" "\<And>n. b \<noteq> DNum n"
  using assms by (cases a; cases b) (auto simp: comparable_def ensure_same_value_type_def)

lemma comparable_sym: "comparable a b \<longleftrightarrow> comparable b a"
  by (cases a; cases b) (simp_all add: comparable_def ensure_same_value_type_def)

lemma value_ord_reverse:
  assumes "comparable a b" "dv_wf a" "dv_wf b"
  shows "value_ord b a = ord_reverse (value_ord a b)"
proof (rule comparable_cases[OF assms(1)])
  fix x y assume "a = DNum x" "b = DNum y"
  with assms(2,3) show ?thesis using numeric_cmp_spec[of x y] numeric_cmp_spec[of y x] num_spec_cmp_reverse[of y x] by simp
next
  assume "value_ord a b = dv_cmp a b" "value_ord b a = dv_cmp b a"
  with dv_cmp_reverse[OF assms(2,3)] show ?thesis by simp
qed

lemma ge_in_range:
  assumes "comparable v c" "dv_wf v" "dv_wf c" "value_ord v c \<noteq> Less"
  shows "in_range (vr_lower_bound (int_bound c)) v \<and> bound_wf (BoundValue (int_bound c))"
proof (rule comparable_cases[OF assms(1)])
  fix x y assume "v = DNum x" "c = DNum y"
  with assms numeric_cmp_spec[of x y] int_bound_below[of x y] show ?thesis by (simp add: in_range_def vr_lower_bound_def)
next
  assume "value_ord v c = dv_cmp v c" "\<And>n. c \<noteq> DNum n"
  moreover from this(2) have "int_bound c = c" by (cases c) (auto simp: int_bound_def)
  ultimately show ?thesis using assms(2-4) dv_cmp_reverse[of v c] by (simp add: in_range_def vr_lower_bound_def)
qed

lemma le_in_range:
  assumes "comparable v c" "dv_wf v" "dv_wf c" "value_ord v c \<noteq> Greater" "exact_const c"
  shows "in_range (vr_upper_bound (float_bound c)) v \<and> bound_wf (BoundValue (float_bound c))"
proof (rule comparable_cases[OF assms(1)])
  fix x y assume "v = DNum x" "c = DNum y"
  with assms numeric_cmp_spec[of x y] float_bound_above[of x y] show ?thesis by (simp add: in_range_def vr_upper_bound_def)
next
  assume "value_ord v c = dv_cmp v c" "\<And>n. c \<noteq> DNum n"
  moreover from this(2) have "float_bound c = c" by (cases c) (auto simp: float_bound_def)
  ultimately show ?thesis using assms(2-4) by (simp add: in_range_def vr_upper_bound_def)
qed

lemma compared_const_Some:
  "compared_const target a b = Some c \<Longrightarrow> \<exists>symb p sp. a = Binding symb p \<and> sym_name symb = target \<and> b = Const c sp"
  by (cases a; cases b) (auto simp: compared_const_def split: if_splits)

lemma range_of_default: "in_range vr_default v" "bound_wf (vr_lower vr_default)" "bound_wf (vr_upper vr_default)"
  by (simp_all add: in_range_def vr_default_def)

definition range_holds :: "value_range \<Rightarrow> data_value \<Rightarrow> bool" where
  "range_holds r v \<longleftrightarrow> in_range r v \<and> bound_wf (vr_lower r) \<and> bound_wf (vr_upper r)"

lemma range_holds_simps [simp]:
  "range_holds vr_default v"
  "range_holds (vr_lower_bound c) v \<longleftrightarrow> in_range (vr_lower_bound c) v \<and> bound_wf (BoundValue c)"
  "range_holds (vr_upper_bound c) v \<longleftrightarrow> in_range (vr_upper_bound c) v \<and> bound_wf (BoundValue c)"
  by (simp_all add: range_holds_def range_of_default vr_lower_bound_def vr_upper_bound_def)

lemma bound_ge_holds:
  assumes "eval_named table env a = Inr x" "eval_named table env b = Inr y" "comparable x y" "dv_wf x \<Longrightarrow> dv_wf y \<Longrightarrow> value_ord x y \<noteq> Less"
    "dv_wf (env target)" "\<forall>e \<in> {a, b}. \<forall>c. get_const e = Some c \<longrightarrow> dv_wf c \<and> exact_const c"
  shows "range_holds (bound_ge target a b) (env target)"
proof (cases "compared_const target a b")
  case (Some c)
  with compared_const_Some[OF Some] assms ge_in_range[of x y] show ?thesis by (auto simp: bound_ge_def)
next
  case None
  show ?thesis
  proof (cases "compared_const target b a")
    case (Some c)
    with None compared_const_Some[OF Some] assms have c: "y = env target" "x = c" "dv_wf c" "exact_const c"
      "bound_ge target a b = vr_upper_bound (float_bound c)" by (auto simp: bound_ge_def)
    have cmp: "comparable y x" using assms(3) by (simp add: comparable_sym)
    have "value_ord y x \<noteq> Greater" using value_ord_reverse[OF assms(3)] assms(4,5) c by (cases "value_ord x y") auto
    with le_in_range[of y x] cmp assms(5) c show ?thesis by simp
  qed (use None in \<open>simp add: bound_ge_def\<close>)
qed

lemma bound_le_flip: "bound_le target a b = bound_ge target b a"
  using compared_const_Some[of target a b] compared_const_Some[of target b a]
  by (auto simp: bound_le_def bound_ge_def split: option.splits)

lemma bound_starts_with_holds:
  assumes "eval_named table env a = Inr x" "eval_named table env b = Inr y" "op_starts_with [x, y] = Inr (DBool True)"
    "dv_wf (env target)" "top_free (env target)" "\<forall>c. get_const b = Some c \<longrightarrow> dv_wf c" "bound_starts_with target a b = Inr r"
  shows "range_holds r (env target)"
proof (cases "compared_const target a b")
  case (Some c)
  with compared_const_Some[OF Some] assms(1,2,6) have c: "x = env target" "y = c" "dv_wf c" by auto
  from assms(7) Some obtain s where s: "c = DStr s" "r = \<lparr>vr_lower = BoundValue (DStr s), vr_upper = BoundValue (DStr (s @ LARGEST_UTF_CHAR))\<rparr>"
    by (cases c) (auto simp: bound_starts_with_def)
  from assms(3) c s(1) obtain l where l: "env target = DStr l" "starts_with l s"
    by (cases "env target") (auto simp: op_starts_with_def arg_at_def)
  have "ocmp s l \<noteq> Greater \<and> ocmp l (s @ LARGEST_UTF_CHAR) \<noteq> Greater \<and> utf8_valid (s @ LARGEST_UTF_CHAR)"
    by (rule prefix_bounds_hold) (use assms(4,5) c s l holds_top_append in auto)
  then show ?thesis using c(3) by (simp add: range_holds_def in_range_def s l dv_cmp.simps)
qed (use assms(7) in \<open>simp add: bound_starts_with_def\<close>)

lemma comparison_true:
  assumes "resolves_comparisons table" "eval_named table env (Apply op args sp) = Inr (DBool True)"
  obtains (ge) a b x y where "args = [a, b]" "eval_named table env a = Inr x" "eval_named table env b = Inr y" "comparable x y" "value_ord x y \<noteq> Less"
      "op_name op = op_name OP_GE \<or> op_name op = op_name OP_GT"
    | (le) a b x y where "args = [a, b]" "eval_named table env a = Inr x" "eval_named table env b = Inr y" "comparable x y" "value_ord x y \<noteq> Greater"
      "op_name op = op_name OP_LE \<or> op_name op = op_name OP_LT"
    | (prefix) a b x y where "args = [a, b]" "eval_named table env a = Inr x" "eval_named table env b = Inr y" "op_starts_with [x, y] = Inr (DBool True)"
      "op_name op = op_name OP_STARTS_WITH"
    | (other) "op_name op \<notin> op_name ` {OP_GE, OP_GT, OP_LE, OP_LT, OP_STARTS_WITH}"
proof -
  note t = assms(1)[unfolded resolves_comparisons_def]
  consider "op_name op = op_name OP_GE" | "op_name op = op_name OP_GT" | "op_name op = op_name OP_LE" | "op_name op = op_name OP_LT"
    | "op_name op = op_name OP_STARTS_WITH" | "op_name op \<notin> op_name ` {OP_GE, OP_GT, OP_LE, OP_LT, OP_STARTS_WITH}" by blast
  then show thesis
  proof cases
    case 1
    show thesis
      by (rule apply2_value[where decl = OP_GE and body = op_ge, OF _ _ _ assms(2)])
        (use t 1 comparison_names(1)[OF 1] in \<open>auto simp: OP_GE_def op_ge_def dest!: same_type2_true intro: ge\<close>)
  next
    case 2
    show thesis
      by (rule apply2_value[where decl = OP_GT and body = op_gt, OF _ _ _ assms(2)])
        (use t 2 comparison_names(2)[OF 2] in \<open>auto simp: OP_GT_def op_gt_def dest!: same_type2_true intro: ge\<close>)
  next
    case 3
    show thesis
      by (rule apply2_value[where decl = OP_LE and body = op_le, OF _ _ _ assms(2)])
        (use t 3 comparison_names(3)[OF 3] in \<open>auto simp: OP_LE_def op_le_def dest!: same_type2_true intro: le\<close>)
  next
    case 4
    show thesis
      by (rule apply2_value[where decl = OP_LT and body = op_lt, OF _ _ _ assms(2)])
        (use t 4 comparison_names(4)[OF 4] in \<open>auto simp: OP_LT_def op_lt_def dest!: same_type2_true intro: le\<close>)
  next
    case 5
    show thesis
      by (rule apply2_value[where decl = OP_STARTS_WITH and body = op_starts_with, OF _ _ _ assms(2)])
        (use t 5 comparison_names(5)[OF 5] in \<open>auto simp: OP_STARTS_WITH_def intro: prefix\<close>)
  qed (rule other)
qed

lemma extract_bound_holds:
  assumes "resolves_comparisons table" "eval_named table env f = Inr (DBool True)" "filter_exact f"
    "dv_wf (env target)" "top_free (env target)" "extract_bound f target = Some (Inr r)"
  shows "range_holds r (env target)"
proof (cases f)
  case (Apply op args sp)
  from assms(3) have ex: "\<forall>e \<in> set args. \<forall>c. get_const e = Some c \<longrightarrow> dv_wf c \<and> exact_const c"
    by (auto simp: filter_exact_def Apply list_all_iff split: option.splits)
  have names: "op_name OP_GE \<noteq> op_name OP_LE" "op_name OP_GE \<noteq> op_name OP_LT" "op_name OP_GT \<noteq> op_name OP_LE" "op_name OP_GT \<noteq> op_name OP_LT"
    "op_name OP_STARTS_WITH \<notin> op_name ` {OP_GE, OP_GT, OP_LE, OP_LT}"
    by (simp_all add: OP_GE_def OP_GT_def OP_LE_def OP_LT_def OP_STARTS_WITH_def)
  from assms(1) assms(2)[unfolded Apply] show ?thesis
  proof (cases rule: comparison_true)
    case (ge a b x y)
    then have "r = bound_ge target a b" using assms(6) by (auto simp: extract_bound_def Apply)
    moreover have "range_holds (bound_ge target a b) (env target)" by (rule bound_ge_holds[OF ge(2-5) assms(4)]) (use ex ge(1) in simp_all)
    ultimately show ?thesis by simp
  next
    case (le a b x y)
    then have "r = bound_ge target b a" using assms(6) names by (auto simp: extract_bound_def Apply bound_le_flip)
    moreover have "range_holds (bound_ge target b a) (env target)"
    proof (rule bound_ge_holds[OF le(3,2) _ _ assms(4)])
      show "comparable y x" using le(4) by (simp add: comparable_sym)
      show "value_ord y x \<noteq> Less" if "dv_wf y" "dv_wf x"
        using value_ord_reverse[OF le(4) that(2,1)] le(5) by (cases "value_ord x y") auto
    qed (use ex le(1) in simp)
    ultimately show ?thesis by simp
  next
    case (prefix a b x y)
    then have "bound_starts_with target a b = Inr r" using assms(6) names by (auto simp: extract_bound_def Apply)
    then show ?thesis by (rule bound_starts_with_holds[OF prefix(2-4) assms(4,5), rotated]) (use ex prefix(1) in simp)
  qed (use assms(6) in \<open>auto simp: extract_bound_def Apply\<close>)
qed (use assms(6) in \<open>auto simp: extract_bound_def\<close>)

section \<open>All filters, all columns\<close>

lemma merge_bounds_hold:
  assumes "resolves_comparisons table" "dv_wf (env target)" "top_free (env target)"
    "\<forall>f \<in> set filters. filter_exact f \<and> eval_named table env f = Inr (DBool True)"
  shows "range_holds cur (env target) \<Longrightarrow> merge_bounds filters target cur = Some (Inr r) \<Longrightarrow> range_holds r (env target)"
  using assms(4)
proof (induction filters arbitrary: cur)
  case (Cons f filters)
  from Cons.prems(2) obtain nxt where nxt: "extract_bound f target = Some (Inr nxt)" "merge_bounds filters target (vr_merge cur nxt) = Some (Inr r)"
    by (auto split: option.splits sum.splits)
  have "range_holds nxt (env target)" by (rule extract_bound_holds[where env = env and target = target, OF assms(1) _ _ assms(2,3) nxt(1)]) (use Cons.prems(3) in simp_all)
  with Cons.prems(1) merge_in_range[of cur "env target" nxt] assms(2) have "range_holds (vr_merge cur nxt) (env target)"
    by (simp add: range_holds_def)
  with Cons.IH nxt(2) Cons.prems(3) show ?case by simp
qed simp

lemma compute_bounds_hold:
  assumes "resolves_comparisons table" "\<forall>s \<in> set symbols. dv_wf (env (sym_name s)) \<and> top_free (env (sym_name s))"
    "\<forall>f \<in> set filters. filter_exact f \<and> eval_named table env f = Inr (DBool True)"
    "compute_bounds filters symbols = Some (Inr (lowers, uppers))"
  shows "length lowers = length symbols \<and> length uppers = length symbols \<and>
    (\<forall>i < length symbols. range_holds \<lparr>vr_lower = lowers ! i, vr_upper = uppers ! i\<rparr> (env (sym_name (symbols ! i))))"
  using assms(2,4)
proof (induction symbols arbitrary: lowers uppers)
  case (Cons s symbols)
  from Cons.prems(2) obtain r ls us where r: "merge_bounds filters (sym_name s) vr_default = Some (Inr r)"
    "compute_bounds filters symbols = Some (Inr (ls, us))" "lowers = vr_lower r # ls" "uppers = vr_upper r # us"
    by (auto simp: rbind_eq_Inr split: option.splits sum.splits prod.splits)
  have "range_holds r (env (sym_name s))"
    by (rule merge_bounds_hold[where env = env and target = "sym_name s", OF assms(1) _ _ assms(3) _ r(1)]) (use Cons.prems(1) in simp_all)
  with Cons.IH[OF _ r(2)] Cons.prems(1) show ?case by (cases r) (simp add: r(3,4) All_less_Suc2)
qed simp

lemma scan_bound_reverse: "bound_wf a \<Longrightarrow> bound_wf b \<Longrightarrow> scan_bound_cmp b a = ord_reverse (scan_bound_cmp a b)"
proof (cases a)
  case (BoundValue x)
  show "bound_wf a \<Longrightarrow> bound_wf b \<Longrightarrow> scan_bound_cmp b a = ord_reverse (scan_bound_cmp a b)"
  proof (cases b)
    case (BoundValue y)
    with \<open>a = BoundValue x\<close> show "bound_wf a \<Longrightarrow> bound_wf b \<Longrightarrow> scan_bound_cmp b a = ord_reverse (scan_bound_cmp a b)"
      using dv_cmp_reverse[of x y] by simp
  qed (simp_all add: BoundValue)
qed (cases b; simp)+

lemma columnwise_bounds:
  assumes "\<forall>i < length bounds. bound_wf (bounds ! i) \<and> P (scan_bound_cmp (BoundValue (row ! i)) (bounds ! i))"
    "length bounds \<le> length row" "\<And>a b. P a \<Longrightarrow> P b \<Longrightarrow> P (ord_then a b)" "P Equal"
  shows "P (bounds_cmp row bounds)"
  using assms(1,2)
proof (induction bounds arbitrary: row)
  case (Cons b bounds)
  then obtain v row' where "row = v # row'" by (cases row) auto
  with Cons show ?case by (auto simp: All_less_Suc2 intro!: assms(3))
qed (simp add: assms(4))

lemma bounds_cmp_prefix: "row_wf pre \<Longrightarrow> bounds_cmp (pre @ rest) (map BoundValue pre @ bounds) = bounds_cmp rest bounds"
  by (induction pre) (simp_all add: row_wf_def dv_cmp_bytes)

lemma ranges_in_scan:
  assumes "row_wf (pre @ rest)" "length lowers = length uppers" "length lowers \<le> length rest"
    "\<forall>i < length lowers. range_holds \<lparr>vr_lower = lowers ! i, vr_upper = uppers ! i\<rparr> (rest ! i)"
  shows "scan_key_lower rel pre lowers \<le> encode_as_key rel (pre @ rest) \<and> encode_as_key rel (pre @ rest) \<le> scan_key_upper rel pre uppers"
proof -
  have wf: "row_wf pre" "\<And>i. i < length rest \<Longrightarrow> dv_wf (rest ! i)" using assms(1) by (auto simp: row_wf_def)
  have b: "list_all bound_wf lowers" "list_all bound_wf uppers" using assms(2,4) by (auto simp: list_all_length range_holds_def)
  have "bounds_cmp rest lowers \<noteq> Less"
  proof (rule columnwise_bounds[where P = "\<lambda>c. c \<noteq> Less"], intro allI impI)
    fix i assume i: "i < length lowers"
    with assms(4) have "bound_wf (lowers ! i)" "scan_bound_cmp (lowers ! i) (BoundValue (rest ! i)) \<noteq> Greater"
      by (auto simp: range_holds_def in_range_def)
    with scan_bound_reverse[of "lowers ! i" "BoundValue (rest ! i)"] wf(2)[of i] i assms(3)
    show "bound_wf (lowers ! i) \<and> scan_bound_cmp (BoundValue (rest ! i)) (lowers ! i) \<noteq> Less" by simp
  qed (use assms(3) in \<open>auto simp: ord_then_eq_Less\<close>)
  moreover have "bounds_cmp rest uppers \<noteq> Greater"
    by (rule columnwise_bounds[where P = "\<lambda>c. c \<noteq> Greater"]) (use assms(2-4) in \<open>auto simp: range_holds_def in_range_def ord_then_eq_Greater\<close>)
  ultimately show ?thesis using scan_lower_iff[OF assms(1) wf(1) b(1)] scan_upper_iff[OF assms(1) wf(1) b(2)] assms(2,3) bounds_cmp_prefix[OF wf(1)]
    by simp
qed

end
