(* ===== verification/Expr_Properties.thy ===== *)
theory Expr_Properties
  imports Value_Range
begin

text \<open>
  The properties of expressions: the columnar evaluator against the row evaluator, names against
  positions, folding against evaluation, and the scan ranges filters are pushed into. The witnesses use the
  rows of the operator table that \<open>Stdlib_Compare\<close> models.
\<close>

section \<open>Samples\<close>

definition sample_var :: "string \<Rightarrow> symbol" where
  "sample_var name = \<lparr>sym_name = name, sym_span = (0, 1)\<rparr>"

text \<open>The expression \<open>x && not y\<close> over the columns \<open>x\<close> and \<open>y\<close>.\<close>

definition sample_expr :: "binding_pos \<Rightarrow> binding_pos \<Rightarrow> expr" where
  "sample_expr p q = Lazy LAnd [Binding (sample_var ''x'') p, Apply OP_NEGATE [Binding (sample_var ''y'') q] (2, 3)] (0, 5)"

definition sample_rows :: "data_value list list" where
  "sample_rows = [[DBool True, DBool False], [DBool False, DNull], [DBool True, DNull]]"

definition sample_cols :: column_batch where
  "sample_cols = \<lparr>cb_cols = [[DBool True, DBool False, DBool True], [DBool False, DNull, DNull]], cb_height = 3\<rparr>"

section \<open>Evaluation\<close>

text \<open>
  C4: On a batch pivoted from rows, the columnar evaluator returns, for every ascending selection of rows,
  exactly what the row evaluator returns row by row: all the values, or the very error of the first failing
  row, for every expression whose names are resolved and whose operators are bound.
\<close>
theorem columnar_equals_rowwise:
  assumes "from_rows rows width = Inr batch" "resolved table width e" "sorted_wrt (<) sel" "set sel \<subseteq> {..<length rows}"
  shows "eval_expr_batched table e batch sel = collect_results (\<lambda>r. eval_expr table e (rows ! r)) sel"
  using assms by (rule batched_is_rowwise)

theorem columnar_equals_rowwise_witness:
  "eval_expr_batched comparison_table (sample_expr (Resolved 0) (Resolved 1)) sample_cols [0, 1]
    = collect_results (\<lambda>r. eval_expr comparison_table (sample_expr (Resolved 0) (Resolved 1)) (sample_rows ! r)) [0, 1]
   \<and> eval_expr_batched comparison_table (sample_expr (Resolved 0) (Resolved 1)) sample_cols [0, 2]
    = Inl (EvalRaised (2, 3) (RBody ''negate requires booleans''))"
proof -
  let ?e = "sample_expr (Resolved 0) (Resolved 1)"
  have "from_rows sample_rows 2 = Inr sample_cols" "resolved comparison_table 2 ?e" by code_simp+
  moreover have "set [0, 1] \<subseteq> {..<length sample_rows}" by (simp add: sample_rows_def)
  moreover have "eval_expr_batched comparison_table ?e sample_cols [0, 2] = Inl (EvalRaised (2, 3) (RBody ''negate requires booleans''))"
    by code_simp
  ultimately show ?thesis using columnar_equals_rowwise[of sample_rows 2 sample_cols comparison_table ?e "[0, 1]"] by simp
qed

text \<open>
  C38: The columnar filter succeeds exactly when the row filter succeeds on every selected row, and then
  keeps, in order, exactly the rows on which the predicate is true.
\<close>
theorem columnar_filter_keeps_matching_rows:
  assumes "from_rows rows width = Inr batch" "resolved table width e" "sorted_wrt (<) sel" "set sel \<subseteq> {..<length rows}"
  shows "eval_pred_batched table e batch sel = Inr keep \<longleftrightarrow>
    (\<exists>bs. collect_results (\<lambda>r. eval_pred table e (rows ! r)) sel = Inr bs \<and> keep = map fst (filter snd (zip sel bs)))"
  unfolding eval_pred_batched_def eval_pred_def batched_is_rowwise[OF assms] by (rule keep_rows_spec)

theorem columnar_filter_keeps_matching_rows_witness:
  "eval_pred_batched comparison_table (sample_expr (Resolved 0) (Resolved 1)) sample_cols [0, 1] = Inr [0]"
proof -
  let ?e = "sample_expr (Resolved 0) (Resolved 1)"
  have "from_rows sample_rows 2 = Inr sample_cols" "resolved comparison_table 2 ?e"
    "collect_results (\<lambda>r. eval_pred comparison_table ?e (sample_rows ! r)) [0, 1] = Inr [True, False]" by code_simp+
  moreover have "set [0, 1] \<subseteq> {..<length sample_rows}" by (simp add: sample_rows_def)
  ultimately show ?thesis
    using columnar_filter_keeps_matching_rows[of sample_rows 2 sample_cols comparison_table ?e "[0, 1]" "[0]"] by simp
qed

text \<open>
  C20: Resolving names is a type discipline: when every index of the map is within the tuple and every
  operator is bound, an expression that \<open>fill_binding_indices\<close> accepts evaluates, on every tuple of that
  width, to a value or to a fault of the row's data, never to a dangling name, a short tuple or a missing
  operator.
\<close>
theorem resolved_names_do_not_dangle:
  assumes "fill_binding_indices m e = Inr e'" "ops_bound table e" "\<forall>x i. bt_get m x = Some i \<longrightarrow> i < width" "length row = width"
  shows "resolved table width e' \<and> (\<forall>err. eval_expr table e' row = Inl err \<longrightarrow> row_fault err)"
  using fill_resolved[OF assms(3,1,2)] resolved_faults[OF _ assms(4)] by blast

theorem resolved_names_do_not_dangle_witness:
  "resolved comparison_table 2 (sample_expr (Resolved 0) (Resolved 1))
   \<and> row_fault (EvalRaised (2, 3) (RBody ''negate requires booleans''))"
proof -
  let ?m = "[(''x'', 0), (''y'', 1)] :: (string, nat) entries" and ?row = "[DBool True, DNull]"
  have "fill_binding_indices ?m (sample_expr Unresolved Unresolved) = Inr (sample_expr (Resolved 0) (Resolved 1))"
    "ops_bound comparison_table (sample_expr Unresolved Unresolved)"
    "eval_expr comparison_table (sample_expr (Resolved 0) (Resolved 1)) ?row = Inl (EvalRaised (2, 3) (RBody ''negate requires booleans''))"
    by code_simp+
  moreover have "\<forall>x i. bt_get ?m x = Some i \<longrightarrow> i < 2" by (auto simp: bt_get_def)
  ultimately show ?thesis
    using resolved_names_do_not_dangle[of ?m "sample_expr Unresolved Unresolved" "sample_expr (Resolved 0) (Resolved 1)" comparison_table 2 ?row]
    by simp
qed

text \<open>
  C39: \<open>fill_binding_indices\<close> accepts exactly the expressions whose operators are implemented and whose
  names the map knows, and the positions it fills in evaluate as the names did.
\<close>
theorem positions_stand_for_names:
  assumes "\<forall>x \<in> reads e. the (bt_get m x) < length row"
  shows "(\<exists>e'. fill_binding_indices m e = Inr e') = (all_implemented e \<and> (\<forall>x \<in> reads e. bt_get m x \<noteq> None))
    \<and> (\<forall>e'. fill_binding_indices m e = Inr e' \<longrightarrow> eval_expr table e' row = eval_named table (\<lambda>x. row ! the (bt_get m x)) e)"
  using fill_ok_iff fill_eval[OF _ assms] by blast

theorem positions_stand_for_names_witness:
  "eval_expr comparison_table (sample_expr (Resolved 1) (Resolved 0)) [DBool False, DBool True]
    = eval_named comparison_table (\<lambda>x. [DBool False, DBool True] ! the (bt_get [(''x'', 1), (''y'', 0)] x)) (sample_expr Unresolved Unresolved)"
proof -
  let ?m = "[(''x'', 1), (''y'', 0)] :: (string, nat) entries"
  have "fill_binding_indices ?m (sample_expr Unresolved Unresolved) = Inr (sample_expr (Resolved 1) (Resolved 0))" by code_simp
  moreover have "\<forall>x \<in> reads (sample_expr Unresolved Unresolved). the (bt_get ?m x) < length [DBool False, DBool True]"
    by (simp add: sample_expr_def sample_var_def bt_get_def)
  ultimately show ?thesis using positions_stand_for_names by blast
qed

text \<open>
  C40: Folding at compile time keeps values: where an expression evaluates to a value, what
  \<open>partial_eval\<close> leaves of it evaluates to the same value, whatever connectives and doubled negations it folded.
\<close>
theorem folding_preserves_values:
  assumes "resolves_comparisons table" "partial_eval e = Some e'" "eval_expr table e row = Inr v"
  shows "eval_expr table e' row = Inr v"
  using by_position.folded_value[OF _ assms(2,3)] assms(1) by (simp add: resolves_comparisons_def)

theorem folding_preserves_values_witness:
  "eval_expr comparison_table (Lazy LOr [Const (DBool False) (0, 1), Binding (sample_var ''x'') (Resolved 0)] (0, 9)) [DBool True] = Inr (DBool True)"
proof -
  let ?x = "Binding (sample_var ''x'') (Resolved 0)"
  let ?e = "Lazy LOr [Const (DBool False) (0, 1), Apply OP_NEGATE [Apply OP_NEGATE [?x] (3, 1)] (2, 1)] (0, 9)"
  have "partial_eval ?e = Some (Lazy LOr [Const (DBool False) (0, 1), ?x] (0, 9))"
    "eval_expr comparison_table ?e [DBool True] = Inr (DBool True)" by code_simp+
  with folding_preserves_values[OF comparison_table_resolves, of ?e] show ?thesis by blast
qed

section \<open>Filters as scan ranges\<close>

text \<open>
  C18: A bounded scan misses no row its filters accept: when the ranges of the columns come from
  \<open>compute_bounds\<close> and a stored row passes every filter, the row's key lies between the scan's lower and
  upper keys. The constants compared with are lawful and their integers within \<open>2 ^ 53\<close>, and no string
  column holds the character \<open>U+10FFFF\<close>.
\<close>
theorem filters_stay_in_scan_range:
  assumes "resolves_comparisons table" "compute_bounds filters symbols = Some (Inr (lowers, uppers))"
    "\<forall>f \<in> set filters. fill_binding_indices m f = Inr f \<and> filter_exact f
       \<and> (\<forall>x \<in> reads f. the (bt_get m x) < length tup) \<and> eval_pred table f tup = Inr True"
    "row_wf (pre @ rest)" "length symbols \<le> length rest"
    "\<forall>i < length symbols. tup ! the (bt_get m (sym_name (symbols ! i))) = rest ! i \<and> top_free (rest ! i)"
  shows "scan_key_lower rel pre lowers \<le> encode_as_key rel (pre @ rest) \<and> encode_as_key rel (pre @ rest) \<le> scan_key_upper rel pre uppers"
proof -
  define env where "env = (\<lambda>x. tup ! the (bt_get m x))"
  have holds: "\<forall>f \<in> set filters. filter_exact f \<and> eval_named table env f = Inr (DBool True)"
  proof
    fix f assume f: "f \<in> set filters"
    with assms(3) have "eval_pred table f tup = Inr True" "eval_expr table f tup = eval_named table env f" "filter_exact f"
      using fill_eval[of m f f tup table] by (simp_all add: env_def)
    then show "filter_exact f \<and> eval_named table env f = Inr (DBool True)"
      by (auto simp: eval_pred_def rbind_eq_Inr elim: get_bool.elims split: option.splits)
  qed
  have at: "env (sym_name (symbols ! i)) = rest ! i" "dv_wf (rest ! i)" "top_free (rest ! i)" if "i < length symbols" for i
    using assms(4-6) that by (auto simp: env_def row_wf_def)
  have wf: "\<forall>s \<in> set symbols. dv_wf (env (sym_name s)) \<and> top_free (env (sym_name s))"
    using at by (auto simp: in_set_conv_nth)
  note r = compute_bounds_hold[OF assms(1) wf holds assms(2)]
  show ?thesis by (rule ranges_in_scan[OF assms(4)]) (use r at(1) assms(5) in auto)
qed

text \<open>The filter \<open>x <= c\<close> on the first column.\<close>

definition sample_le :: "data_value \<Rightarrow> expr" where
  "sample_le c = Apply OP_LE [Binding (sample_var ''x'') (Resolved 0), Const c (5, 1)] (0, 6)"

lemma sample_le_bounds: "compute_bounds [sample_le c] [sample_var ''x''] = Some (Inr ([Least], [BoundValue (float_bound c)]))"
  by (simp add: sample_le_def sample_var_def extract_bound_def bound_le_def compared_const_def vr_merge_def vr_default_def
      vr_upper_bound_def sb_max_def sb_min_def OP_LE_def OP_GE_def OP_GT_def)

theorem filters_stay_in_scan_range_witness:
  "scan_key_lower 7 [] [Least] \<le> encode_as_key 7 [DNum (NInt 1)] \<and> encode_as_key 7 [DNum (NInt 1)] \<le> scan_key_upper 7 [] [BoundValue (float_bound (DNum (NInt 2)))]"
proof -
  let ?f = "sample_le (DNum (NInt 2))" and ?m = "[(''x'', 0)] :: (string, nat) entries" and ?row = "[DNum (NInt 1)]"
  have "fill_binding_indices ?m ?f = Inr ?f" "eval_pred comparison_table ?f ?row = Inr True" by code_simp+
  moreover have "filter_exact ?f" "\<forall>x \<in> reads ?f. the (bt_get ?m x) < length ?row"
    by (simp_all add: filter_exact_def sample_le_def sample_var_def bt_get_def)
  moreover have "row_wf ([] @ ?row)" "\<forall>i < length [sample_var ''x'']. ?row ! the (bt_get ?m (sym_name ([sample_var ''x''] ! i))) = ?row ! i \<and> top_free (?row ! i)"
    by (simp_all add: row_wf_def sample_var_def bt_get_def)
  ultimately show ?thesis
    using filters_stay_in_scan_range[OF comparison_table_resolves sample_le_bounds, of "DNum (NInt 2)" ?m ?row "[]" ?row 7] by simp
qed

text \<open>Where the ranges are not exact: \<open>2 ^ 53 + 1\<close> rounds down, and \<open>U+10FFFF\<close> has strings after it.\<close>

lemma large_cast_rounds: "i64_as_f64 9007199254740993 = i64_as_f64 9007199254740992"
proof -
  have "bit_length 9007199254740993 = 54" "bit_length 9007199254740992 = 54"
    by (rule trans[OF bit_length_unique[of 53]], simp_all)+
  then show ?thesis by (simp add: i64_as_f64_def round_half_even_def)
qed

lemma large_int_above_bound: "dv_cmp (DNum (NInt 9007199254740993)) (float_bound (DNum (NInt 9007199254740993))) = Greater"
proof -
  let ?f = "i64_as_f64 9007199254740992"
  have f: "f64_is_finite ?f" "num_real (NFloat ?f) = 9007199254740992"
    using i64_as_f64_exact[of 9007199254740992] by simp_all
  then have n: "num_finite (num_float ?f)" "num_real (num_float ?f) = 9007199254740992" using num_real_num_float[OF f(1)] by simp_all
  have "num_real (NInt 9007199254740993) = 9007199254740993" by (simp add: num_real_int)
  then have "num_spec_cmp (NInt 9007199254740993) (num_float ?f) = Greater"
    using n num_level_finite[OF n(1)] by (simp add: num_spec_cmp_def ocmp_def)
  then have "num_cmp (NInt 9007199254740993) (num_float ?f) = Greater"
    using num_cmp_spec[of "NInt 9007199254740993" "num_float ?f"] num_wf_constructors(2)[of ?f] by simp
  then show ?thesis by (simp add: float_bound_def large_cast_rounds dv_cmp.simps)
qed

text \<open>
  C19: Beyond those limits a bounded scan loses rows. The filter \<open>x <= 9007199254740993\<close> accepts that very
  integer, but its upper bound is the float \<open>2 ^ 53\<close>, below it; the filter \<open>starts_with(x, "a")\<close> accepts the
  string \<open>a\<close>, \<open>U+10FFFF\<close>, \<open>a\<close>, which lies above the upper bound of the prefix.
\<close>
theorem range_bounds_lose_rows:
  "(let c = DNum (NInt 9007199254740993); f = sample_le c in
      eval_pred comparison_table f [c] = Inr True
      \<and> compute_bounds [f] [sample_var ''x''] = Some (Inr ([Least], [BoundValue (float_bound c)]))
      \<and> \<not> encode_as_key rel [c] \<le> scan_key_upper rel [] [BoundValue (float_bound c)])
   \<and> (let v = DStr ([0x61] @ LARGEST_UTF_CHAR @ [0x61]); f = Apply OP_STARTS_WITH [Binding (sample_var ''x'') (Resolved 0), Const (DStr [0x61]) (5, 1)] (0, 6) in
      eval_pred comparison_table f [v] = Inr True
      \<and> compute_bounds [f] [sample_var ''x''] = Some (Inr ([BoundValue (DStr [0x61])], [BoundValue (DStr ([0x61] @ LARGEST_UTF_CHAR))]))
      \<and> \<not> encode_as_key rel [v] \<le> scan_key_upper rel [] [BoundValue (DStr ([0x61] @ LARGEST_UTF_CHAR))])"
proof -
  let ?c = "DNum (NInt 9007199254740993)" and ?v = "DStr ([0x61] @ LARGEST_UTF_CHAR @ [0x61])"
  let ?p = "Apply OP_STARTS_WITH [Binding (sample_var ''x'') (Resolved 0), Const (DStr [0x61]) (5, 1)] (0, 6)"
  have "numeric_cmp (NInt 9007199254740993) (NInt 9007199254740993) = Equal"
    by (simp add: numeric_cmp_spec num_spec_cmp_def)
  then have "eval_pred comparison_table (sample_le ?c) [?c] = Inr True"
    using comparison_table_resolves comparison_names(3)[of OP_LE]
    by (simp add: eval_pred_def sample_le_def resolves_comparisons_def bound_of_def mint_def bound_apply_def arity_matches_def OP_LE_def
        op_le_def same_type2_def arg_at_def ensure_same_value_type_def result_has_nan_def map_err_def)
  moreover have "\<not> encode_as_key rel [?c] \<le> scan_key_upper rel [] [BoundValue (float_bound ?c)]"
    using scan_upper_iff[of "[?c]" "[]" "[BoundValue (float_bound ?c)]" rel] large_int_above_bound float_bound_def
    by (simp add: row_wf_def float_bound_def num_wf_constructors)
  moreover have "eval_pred comparison_table ?p [?v] = Inr True" by code_simp
  moreover have "compute_bounds [?p] [sample_var ''x''] = Some (Inr ([BoundValue (DStr [0x61])], [BoundValue (DStr ([0x61] @ LARGEST_UTF_CHAR))]))"
    by code_simp
  moreover have "\<not> encode_as_key rel [?v] \<le> scan_key_upper rel [] [BoundValue (DStr ([0x61] @ LARGEST_UTF_CHAR))]"
    using scan_upper_iff[of "[?v]" "[]" "[BoundValue (DStr ([0x61] @ LARGEST_UTF_CHAR))]" rel]
    by (simp add: row_wf_def LARGEST_UTF_CHAR_def utf8_cont_def dv_cmp.simps)
  ultimately show ?thesis by (simp only: Let_def sample_le_bounds simp_thms)
qed

end
