(* ===== verification/Well_Order.thy ===== *)
theory Well_Order
  imports Program_Tiers
begin

text \<open>
  The binding-safety ordering of a rule body, \<open>convert_to_well_ordered_rule\<close> of
  \<open>crates/kyzo-core/src/exec/plan/normalize.rs\<close>. Its first pass collects the atoms that bind, its second places the
  pending ones behind the collected atom that binds their inputs, and what is left must be a negation with a bound
  argument. \<open>AtomUnbound\<close> is the source's \<open>UnboundVariable\<close>.
\<close>

datatype norm_error =
  UnsafeNegation source_span
| AtomUnbound source_span
| NonBindingCollected
| PositivePending
| NegationNotNormal
| NegatedSearchUnsupported source_span
| EmptyConjunction
| NamedFieldNotFound string string source_span
| RelationUnknown string
| SearchRefused source_span
| BindingFault expr_error

definition extend_seen :: "symbol list \<Rightarrow> string list \<Rightarrow> string list" where
  "extend_seen args seen = fold (\<lambda>a. set_insert (sym_name a)) args seen"

definition is_subset :: "string list \<Rightarrow> string list \<Rightarrow> bool" where
  "is_subset vars seen = list_all (\<lambda>x. x \<in> set seen) vars"

definition relation_seen :: "nf_relation_apply \<Rightarrow> string list \<Rightarrow> string list" where
  "relation_seen v seen =
     (let seen = extend_seen (rl_args v) seen
      in case Option.bind (rl_validity v) extra_var of Some extra \<Rightarrow> set_insert (sym_name extra) seen | None \<Rightarrow> seen)"

section \<open>First pass\<close>

text \<open>The atoms collected and the atoms left pending.\<close>

fun round_1 :: "'c nf_atom list \<Rightarrow> string list \<Rightarrow> norm_error + 'c nf_atom list \<times> 'c nf_atom list" where
  "round_1 [] seen = Inr ([], [])"
| "round_1 (atom # atoms) seen =
     (let keep = (\<lambda>seen. rbind (round_1 atoms seen) (\<lambda>(collected, pending). Inr (atom # collected, pending)));
          wait = rbind (round_1 atoms seen) (\<lambda>(collected, pending). Inr (collected, atom # pending))
      in case atom of
           NUnification u \<Rightarrow>
             if un_is_const u then keep (set_insert (sym_name (un_binding u)) seen)
             else rbind (map_err BindingFault (bindings_in_expr u)) (\<lambda>unif_vars.
               if is_subset unif_vars seen then keep (set_insert (sym_name (un_binding u)) seen) else wait)
         | NRule r \<Rightarrow> keep (extend_seen (ra_args r) seen)
         | NRelation v \<Rightarrow> keep (relation_seen v seen)
         | NSearch sa \<Rightarrow>
             rbind (map_err BindingFault (collect_bindings (sa_query sa) [])) (\<lambda>needed.
               if is_subset needed seen then keep (extend_seen (sa_own_bindings sa) seen) else wait)
         | NNegatedRule _ \<Rightarrow> wait
         | NNegatedRelation _ \<Rightarrow> wait
         | NPredicate _ \<Rightarrow> wait)"

section \<open>Second pass\<close>

text \<open>One sweep over the pending atoms: those placed, those still pending, and the names seen.\<close>

fun place_pending :: "'c nf_atom list \<Rightarrow> string list
    \<Rightarrow> norm_error + 'c nf_atom list \<times> 'c nf_atom list \<times> string list" where
  "place_pending [] seen = Inr ([], [], seen)"
| "place_pending (atom # atoms) seen =
     (let place = (\<lambda>seen. rbind (place_pending atoms seen) (\<lambda>(collected, pending, seen). Inr (atom # collected, pending, seen)));
          wait = rbind (place_pending atoms seen) (\<lambda>(collected, pending, seen). Inr (collected, atom # pending, seen))
      in case atom of
           NRule _ \<Rightarrow> Inl PositivePending
         | NRelation _ \<Rightarrow> Inl PositivePending
         | NNegatedRule r \<Rightarrow> if list_all (\<lambda>a. sym_name a \<in> set seen) (ra_args r) then place seen else wait
         | NNegatedRelation v \<Rightarrow> if list_all (\<lambda>a. sym_name a \<in> set seen) (rl_args v) then place seen else wait
         | NPredicate p \<Rightarrow> rbind (map_err BindingFault (bindings p)) (\<lambda>vars. if is_subset vars seen then place seen else wait)
         | NUnification u \<Rightarrow>
             rbind (map_err BindingFault (bindings_in_expr u)) (\<lambda>vars. if is_subset vars seen then place seen else wait)
         | NSearch sa \<Rightarrow>
             rbind (map_err BindingFault (collect_bindings (sa_query sa) [])) (\<lambda>needed.
               if is_subset needed seen then place (extend_seen (sa_own_bindings sa) seen) else wait))"

definition bind_atom :: "'c nf_atom \<Rightarrow> string list \<Rightarrow> norm_error + string list" where
  "bind_atom atom seen =
     (case atom of
        NRule r \<Rightarrow> Inr (extend_seen (ra_args r) seen)
      | NRelation v \<Rightarrow> Inr (relation_seen v seen)
      | NUnification u \<Rightarrow> Inr (set_insert (sym_name (un_binding u)) seen)
      | NSearch sa \<Rightarrow> Inr (extend_seen (sa_own_bindings sa) seen)
      | _ \<Rightarrow> Inl NonBindingCollected)"

fun round_2 :: "'c nf_atom list \<Rightarrow> string list \<Rightarrow> 'c nf_atom list
    \<Rightarrow> norm_error + 'c nf_atom list \<times> 'c nf_atom list \<times> string list" where
  "round_2 [] seen pending = Inr ([], pending, seen)"
| "round_2 (atom # atoms) seen pending =
     rbind (bind_atom atom seen) (\<lambda>seen.
     rbind (place_pending pending seen) (\<lambda>(placed, pending, seen).
     rbind (round_2 atoms seen pending) (\<lambda>(collected, pending, seen).
       Inr (atom # placed @ collected, pending, seen))))"

section \<open>What is left\<close>

fun place_rest :: "'c nf_atom list \<Rightarrow> string list \<Rightarrow> norm_error + 'c nf_atom list" where
  "place_rest [] seen = Inr []"
| "place_rest (atom # atoms) seen =
     (case atom of
        NNegatedRule r \<Rightarrow>
          if list_ex (\<lambda>a. sym_name a \<in> set seen) (ra_args r)
          then rbind (place_rest atoms seen) (\<lambda>rest. Inr (atom # rest)) else Inl (UnsafeNegation (ra_span r))
      | NNegatedRelation v \<Rightarrow>
          if list_ex (\<lambda>a. sym_name a \<in> set seen) (rl_args v)
          then rbind (place_rest atoms seen) (\<lambda>rest. Inr (atom # rest)) else Inl (UnsafeNegation (rl_span v))
      | NPredicate p \<Rightarrow> Inl (AtomUnbound (expr_span p))
      | NUnification u \<Rightarrow> Inl (AtomUnbound (un_span u))
      | NSearch sa \<Rightarrow> Inl (AtomUnbound (sa_span sa))
      | NRule _ \<Rightarrow> Inl PositivePending
      | NRelation _ \<Rightarrow> Inl PositivePending)"

definition convert_to_well_ordered_rule :: "'c nf_rule \<Rightarrow> norm_error + 'c nf_rule" where
  "convert_to_well_ordered_rule rule =
     rbind (round_1 (nr_body rule) []) (\<lambda>(round_1_collected, pending).
     rbind (round_2 round_1_collected [] pending) (\<lambda>(collected, pending, seen).
     rbind (place_rest pending seen) (\<lambda>rest.
       Inr \<lparr>nr_head = nr_head rule, nr_aggr = nr_aggr rule, nr_body = collected @ rest\<rparr>)))"

end
