(* ===== verification/Normalize.thy ===== *)
theory Normalize
  imports Well_Order Expr_Fold
begin

text \<open>
  Normalisation of rule bodies: negation and disjunctive normal form of
  \<open>crates/kyzo-core/src/exec/plan/normalize.rs\<close>, the session's composition of them in
  \<open>crates/kyzo-core/src/session/normalize.rs\<close> and the rule sets and programs of
  \<open>crates/kyzo-core/src/exec/plan/program.rs\<close>. The catalog lookups are parameters. An outer \<open>None\<close> is a panic,
  which only the folding of a predicate can raise.
\<close>

section \<open>Generated names\<close>

text \<open>The counter is a \<open>u32\<close> and wraps.\<close>

fun dec_text :: "nat \<Rightarrow> string" where
  "dec_text n = (if n < 10 then [char_of (48 + n)] else dec_text (n div 10) @ [char_of (48 + n mod 10)])"

declare dec_text.simps [simp del]

type_synonym temp_symb_gen = "32 word"

definition symb_next :: "source_span \<Rightarrow> temp_symb_gen \<Rightarrow> symbol \<times> temp_symb_gen" where
  "symb_next sp last_id = (let last_id = last_id + 1 in (\<lparr>sym_name = ''*'' @ dec_text (unat last_id), sym_span = sp\<rparr>, last_id))"

definition symb_next_ignored :: "source_span \<Rightarrow> temp_symb_gen \<Rightarrow> symbol \<times> temp_symb_gen" where
  "symb_next_ignored sp last_id = (let last_id = last_id + 1 in (\<lparr>sym_name = ''~'' @ dec_text (unat last_id), sym_span = sp\<rparr>, last_id))"

section \<open>Input atoms\<close>

record input_rule_apply =
  ir_name :: symbol
  ir_args :: "expr list"
  ir_span :: source_span

record input_named_relation =
  in_name :: symbol
  in_args :: "(string, expr) entries"
  in_validity :: "validity_clause option"
  in_span :: source_span

record input_relation_apply =
  il_name :: symbol
  il_args :: "expr list"
  il_validity :: "validity_clause option"
  il_span :: source_span

datatype search_filter = Unfiltered | Pred expr

record search_input =
  si_relation :: symbol
  si_index :: symbol
  si_bindings :: "(string, expr) entries"
  si_query :: expr
  si_filter :: search_filter
  si_modality :: "(string, expr) entries"
  si_span :: source_span

datatype input_atom =
  ARule input_rule_apply
| ANamedFieldRelation input_named_relation
| ARelation input_relation_apply
| APredicate expr
| ANegation input_atom source_span
| AConjunction "input_atom list" source_span
| ADisjunction "input_atom list" source_span
| AUnification unification
| ASearch search_input

fun atom_span :: "input_atom \<Rightarrow> source_span" where
  "atom_span (ANegation _ sp) = sp"
| "atom_span (AConjunction _ sp) = sp"
| "atom_span (ADisjunction _ sp) = sp"
| "atom_span (ARule r) = ir_span r"
| "atom_span (ANamedFieldRelation r) = in_span r"
| "atom_span (ARelation r) = il_span r"
| "atom_span (APredicate p) = expr_span p"
| "atom_span (AUnification u) = un_span u"
| "atom_span (ASearch s) = si_span s"

section \<open>Negation normal form\<close>

fun negation_normal_form :: "input_atom \<Rightarrow> norm_error + input_atom" where
  "negation_normal_form (AConjunction inner sp) =
     rbind (collect_results negation_normal_form inner) (\<lambda>inner. Inr (AConjunction inner sp))"
| "negation_normal_form (ADisjunction inner sp) =
     rbind (collect_results negation_normal_form inner) (\<lambda>inner. Inr (ADisjunction inner sp))"
| "negation_normal_form (ANegation (APredicate p) sp) = Inr (APredicate (negate p sp))"
| "negation_normal_form (ANegation (ANegation inner _) _) = negation_normal_form inner"
| "negation_normal_form (ANegation (AConjunction inner sp) _) =
     rbind (collect_results (\<lambda>a. negation_normal_form (ANegation a (atom_span a))) inner) (\<lambda>inner. Inr (ADisjunction inner sp))"
| "negation_normal_form (ANegation (ADisjunction inner sp) _) =
     rbind (collect_results (\<lambda>a. negation_normal_form (ANegation a (atom_span a))) inner) (\<lambda>inner. Inr (AConjunction inner sp))"
| "negation_normal_form (ANegation (AUnification u) _) = Inl (UnsafeNegation (un_span u))"
| "negation_normal_form (ANegation (ASearch s) _) = Inl (NegatedSearchUnsupported (si_span s))"
| "negation_normal_form a = Inr a"

section \<open>Disjunctive normal form\<close>

definition conjunct_disjunctions :: "'c nf_atom list list \<Rightarrow> 'c nf_atom list list \<Rightarrow> 'c nf_atom list list" where
  "conjunct_disjunctions left right = concat (map (\<lambda>l. map (\<lambda>r. l @ r) right) left)"

text \<open>The column names of a stored relation; normalisation reads nothing else of its metadata.\<close>

record stored_relation_metadata =
  md_keys :: "string list"
  md_non_keys :: "string list"

fun named_args :: "string list \<Rightarrow> (string, expr) entries \<Rightarrow> source_span \<Rightarrow> temp_symb_gen \<Rightarrow> expr list \<times> temp_symb_gen" where
  "named_args [] args sp g = ([], g)"
| "named_args (col # cols) args sp g =
     (case bt_get args col of
        Some arg \<Rightarrow> let (rest, g) = named_args cols (bt_remove col args) sp g in (arg # rest, g)
      | None \<Rightarrow>
          let (var, g) = symb_next_ignored sp g; (rest, g) = named_args cols args sp g
          in (Binding var Unresolved # rest, g))"

definition convert_named_field_relation :: "(string \<Rightarrow> norm_error + stored_relation_metadata) \<Rightarrow> input_named_relation
    \<Rightarrow> temp_symb_gen \<Rightarrow> norm_error + input_relation_apply \<times> temp_symb_gen" where
  "convert_named_field_relation schema_of r g =
     rbind (schema_of (sym_name (in_name r))) (\<lambda>metadata.
       let cols = md_keys metadata @ md_non_keys metadata
       in case List.find (\<lambda>k. k \<notin> set cols) (map fst (in_args r)) of
            Some k \<Rightarrow> Inl (NamedFieldNotFound (sym_name (in_name r)) k (in_span r))
          | None \<Rightarrow>
              let (new_args, g) = named_args cols (in_args r) (in_span r) g
              in Inr (\<lparr>il_name = in_name r, il_args = new_args, il_validity = in_validity r, il_span = in_span r\<rparr>, g))"

definition is_ignored :: "symbol \<Rightarrow> bool" where
  "is_ignored var = (symbol_kind_of (sym_name var) = Ignored \<or> symbol_kind_of (sym_name var) = GeneratedIgnored)"

text \<open>The argument symbols, the unifications they need, and the counter.\<close>

fun normalize_args :: "expr list \<Rightarrow> string list \<Rightarrow> temp_symb_gen \<Rightarrow> symbol list \<times> unification list \<times> temp_symb_gen" where
  "normalize_args [] seen_variables g = ([], [], g)"
| "normalize_args (arg # args) seen_variables g =
     (case arg of
        Binding var _ \<Rightarrow>
          if is_ignored var then
            let (kw, g) = symb_next_ignored (sym_span var) g; (out, unifs, g) = normalize_args args seen_variables g
            in (kw # out, unifs, g)
          else if sym_name var \<notin> set seen_variables then
            let (out, unifs, g) = normalize_args args (set_insert (sym_name var) seen_variables) g in (var # out, unifs, g)
          else
            let (dup, g) = symb_next (sym_span var) g; (out, unifs, g) = normalize_args args seen_variables g
            in (dup # out, \<lparr>un_binding = dup, un_expr = Binding var Unresolved, un_one_many = False, un_span = sym_span dup\<rparr> # unifs, g)
      | _ \<Rightarrow>
          let (kw, g) = symb_next (expr_span arg) g; (out, unifs, g) = normalize_args args seen_variables g
          in (kw # out, \<lparr>un_binding = kw, un_expr = arg, un_one_many = False, un_span = expr_span arg\<rparr> # unifs, g))"

definition normalize_rule_apply :: "input_rule_apply \<Rightarrow> bool \<Rightarrow> temp_symb_gen \<Rightarrow> 'c nf_atom list list \<times> temp_symb_gen" where
  "normalize_rule_apply atom is_negated g =
     (let (args, unifs, g) = normalize_args (ir_args atom) [] g;
          apply = \<lparr>ra_name = ir_name atom, ra_args = args, ra_span = ir_span atom\<rparr>
      in ([map NUnification unifs @ [if is_negated then NNegatedRule apply else NRule apply]], g))"

definition normalize_relation_apply :: "input_relation_apply \<Rightarrow> bool \<Rightarrow> temp_symb_gen \<Rightarrow> 'c nf_atom list list \<times> temp_symb_gen" where
  "normalize_relation_apply atom is_negated g =
     (let (args, unifs, g) = normalize_args (il_args atom) [] g;
          apply = \<lparr>rl_name = il_name atom, rl_args = args, rl_validity = il_validity atom, rl_span = il_span atom\<rparr>
      in ([map NUnification unifs @ [if is_negated then NNegatedRelation apply else NRelation apply]], g))"

text \<open>Sequencing of a panic, an error or a result with the counter.\<close>

type_synonym 'a normed = "(norm_error + 'a \<times> temp_symb_gen) option"

definition nbind :: "'a normed \<Rightarrow> ('a \<Rightarrow> temp_symb_gen \<Rightarrow> 'b normed) \<Rightarrow> 'b normed" where
  "nbind r f = (case r of None \<Rightarrow> None | Some (Inl e) \<Rightarrow> Some (Inl e) | Some (Inr (a, g)) \<Rightarrow> f a g)"

lemma nbind_cong [fundef_cong]:
  "r = r' \<Longrightarrow> (\<And>a g. r' = Some (Inr (a, g)) \<Longrightarrow> f a g = f' a g) \<Longrightarrow> nbind r f = nbind r' f'"
  by (auto simp: nbind_def split: option.split sum.split)

type_synonym schema_lookup = "string \<Rightarrow> norm_error + stored_relation_metadata"
type_synonym 'c search_resolver = "search_input \<Rightarrow> temp_symb_gen \<Rightarrow> norm_error + 'c search_atom \<times> temp_symb_gen"

fun do_disjunctive_normal_form :: "schema_lookup \<Rightarrow> 'c search_resolver \<Rightarrow> input_atom \<Rightarrow> temp_symb_gen \<Rightarrow> 'c nf_atom list list normed"
and dnf_args :: "schema_lookup \<Rightarrow> 'c search_resolver \<Rightarrow> input_atom list \<Rightarrow> temp_symb_gen \<Rightarrow> 'c nf_atom list list list normed" where
  "do_disjunctive_normal_form schema_of resolve_search (ADisjunction inner _) g =
     nbind (dnf_args schema_of resolve_search inner g) (\<lambda>args g. Some (Inr (concat args, g)))"
| "do_disjunctive_normal_form schema_of resolve_search (AConjunction inner _) g =
     nbind (dnf_args schema_of resolve_search inner g) (\<lambda>args g.
       case args of [] \<Rightarrow> Some (Inl EmptyConjunction) | result # args \<Rightarrow> Some (Inr (foldl conjunct_disjunctions result args, g)))"
| "do_disjunctive_normal_form schema_of resolve_search (ARule r) g = Some (Inr (normalize_rule_apply r False g))"
| "do_disjunctive_normal_form schema_of resolve_search (ANamedFieldRelation r) g =
     nbind (Some (convert_named_field_relation schema_of r g)) (\<lambda>r g. Some (Inr (normalize_relation_apply r False g)))"
| "do_disjunctive_normal_form schema_of resolve_search (ARelation r) g = Some (Inr (normalize_relation_apply r False g))"
| "do_disjunctive_normal_form schema_of resolve_search (APredicate p) g =
     map_option (\<lambda>p. Inr ([[NPredicate p]], g)) (partial_eval p)"
| "do_disjunctive_normal_form schema_of resolve_search (ANegation inner _) g =
     (case inner of
        ARule r \<Rightarrow> Some (Inr (normalize_rule_apply r True g))
      | ARelation r \<Rightarrow> Some (Inr (normalize_relation_apply r True g))
      | ANamedFieldRelation r \<Rightarrow>
          nbind (Some (convert_named_field_relation schema_of r g)) (\<lambda>r g. Some (Inr (normalize_relation_apply r True g)))
      | _ \<Rightarrow> Some (Inl NegationNotNormal))"
| "do_disjunctive_normal_form schema_of resolve_search (AUnification u) g = Some (Inr ([[NUnification u]], g))"
| "do_disjunctive_normal_form schema_of resolve_search (ASearch s) g =
     nbind (Some (resolve_search s g)) (\<lambda>sa g. Some (Inr ([[NSearch sa]], g)))"
| "dnf_args schema_of resolve_search [] g = Some (Inr ([], g))"
| "dnf_args schema_of resolve_search (a # as) g =
     nbind (do_disjunctive_normal_form schema_of resolve_search a g) (\<lambda>d g.
     nbind (dnf_args schema_of resolve_search as g) (\<lambda>ds g. Some (Inr (d # ds, g))))"

definition disjunctive_normal_form :: "schema_lookup \<Rightarrow> 'c search_resolver \<Rightarrow> input_atom \<Rightarrow> temp_symb_gen \<Rightarrow> 'c nf_atom list list normed" where
  "disjunctive_normal_form schema_of resolve_search body g =
     (case negation_normal_form body of
        Inl e \<Rightarrow> Some (Inl e)
      | Inr nnf \<Rightarrow> do_disjunctive_normal_form schema_of resolve_search nnf g)"

section \<open>Rule sets\<close>

record input_inline_rule =
  ii_head :: "symbol list"
  ii_aggr :: "head_aggr_slot list"
  ii_body :: "input_atom list"
  ii_span :: source_span

datatype input_ruleset = IRules "input_inline_rule list" | IFixed fixed_rule_apply

text \<open>A repeated head name becomes a fresh one; the map keeps the first symbol of a name and its fresh copies.\<close>

fun dedup_head :: "symbol list \<Rightarrow> nat \<Rightarrow> (string, symbol \<times> symbol list) entries
    \<Rightarrow> symbol list \<times> (string, symbol \<times> symbol list) entries" where
  "dedup_head [] dup_counter seen = ([], seen)"
| "dedup_head (symb # symbs) dup_counter seen =
     (case bt_get seen (sym_name symb) of
        None \<Rightarrow>
          let (head, seen) = dedup_head symbs dup_counter (bt_insert (sym_name symb) (symb, []) seen) in (symb # head, seen)
      | Some (old, dups) \<Rightarrow>
          let new_symb = \<lparr>sym_name = ''***'' @ dec_text dup_counter, sym_span = sym_span symb\<rparr>;
              (head, seen) = dedup_head symbs (Suc dup_counter) (bt_insert (sym_name symb) (old, dups @ [new_symb]) seen)
          in (new_symb # head, seen))"

definition dup_unifications :: "(string, symbol \<times> symbol list) entries \<Rightarrow> 'c nf_atom list" where
  "dup_unifications seen = concat (map (\<lambda>(_, old_symb, new_symbs). map (\<lambda>new_symb.
     NUnification \<lparr>un_binding = new_symb, un_expr = Binding old_symb Unresolved, un_one_many = False, un_span = sym_span new_symb\<rparr>)
       new_symbs) seen)"

definition normalize_rule :: "schema_lookup \<Rightarrow> 'c search_resolver \<Rightarrow> input_inline_rule \<Rightarrow> temp_symb_gen \<Rightarrow> 'c nf_rule list normed" where
  "normalize_rule schema_of resolve_search rule g =
     nbind (disjunctive_normal_form schema_of resolve_search (AConjunction (ii_body rule) (ii_span rule)) g) (\<lambda>normalized_body g.
       let (new_head, seen) = dedup_head (ii_head rule) 0 []
       in Some (rbind (collect_results (\<lambda>body. convert_to_well_ordered_rule
              \<lparr>nr_head = new_head, nr_aggr = ii_aggr rule, nr_body = body @ dup_unifications seen\<rparr>) normalized_body)
            (\<lambda>rules. Inr (rules, g))))"

fun normalize_rules :: "schema_lookup \<Rightarrow> 'c search_resolver \<Rightarrow> input_inline_rule list \<Rightarrow> temp_symb_gen \<Rightarrow> 'c nf_rule list normed" where
  "normalize_rules schema_of resolve_search [] g = Some (Inr ([], g))"
| "normalize_rules schema_of resolve_search (rule # rules) g =
     nbind (normalize_rule schema_of resolve_search rule g) (\<lambda>first g.
     nbind (normalize_rules schema_of resolve_search rules g) (\<lambda>rest g. Some (Inr (first @ rest, g))))"

definition normalize_ruleset :: "schema_lookup \<Rightarrow> 'c search_resolver \<Rightarrow> input_ruleset \<Rightarrow> temp_symb_gen \<Rightarrow> 'c nf_ruleset normed" where
  "normalize_ruleset schema_of resolve_search ruleset g =
     (case ruleset of
        IRules rules \<Rightarrow> nbind (normalize_rules schema_of resolve_search rules g) (\<lambda>rules g. Some (Inr (NRules rules, g)))
      | IFixed fixed \<Rightarrow> Some (Inr (NFixed fixed, g)))"

section \<open>Programs\<close>

record 'o input_program =
  ip_entry_name :: string
  ip_entry :: input_ruleset
  ip_rules :: "(string, input_ruleset) entries"
  ip_out_opts :: 'o
  ip_disable_magic :: bool

text \<open>The spans the two errors carry are those of the table's keys, which are names here.\<close>

datatype program_error = EmptyRuleSet string | MissingEntry

definition input_program_new :: "(string, input_ruleset) entries \<Rightarrow> 'o \<Rightarrow> bool \<Rightarrow> program_error + 'o input_program" where
  "input_program_new prog out_opts disable_magic =
     (case List.find (\<lambda>e. case snd e of IRules rules \<Rightarrow> List.null rules | IFixed _ \<Rightarrow> False) prog of
        Some e \<Rightarrow> Inl (EmptyRuleSet (fst e))
      | None \<Rightarrow>
          (case bt_get prog PROG_ENTRY of
             None \<Rightarrow> Inl MissingEntry
           | Some entry \<Rightarrow> Inr \<lparr>ip_entry_name = PROG_ENTRY, ip_entry = entry, ip_rules = bt_remove PROG_ENTRY prog,
               ip_out_opts = out_opts, ip_disable_magic = disable_magic\<rparr>))"

fun normalize_all :: "schema_lookup \<Rightarrow> 'c search_resolver \<Rightarrow> (string \<times> input_ruleset) list \<Rightarrow> (string, 'c nf_ruleset) entries
    \<Rightarrow> temp_symb_gen \<Rightarrow> (string, 'c nf_ruleset) entries normed" where
  "normalize_all schema_of resolve_search [] rules g = Some (Inr (rules, g))"
| "normalize_all schema_of resolve_search ((k, ruleset) # rest) rules g =
     nbind (normalize_ruleset schema_of resolve_search ruleset g) (\<lambda>normalized g.
       normalize_all schema_of resolve_search rest (bt_insert k normalized rules) g)"

definition into_normalized_program :: "schema_lookup \<Rightarrow> 'c search_resolver \<Rightarrow> 'o input_program \<Rightarrow> ('c nf_program \<times> 'o) normed" where
  "into_normalized_program schema_of resolve_search prog =
     nbind (normalize_ruleset schema_of resolve_search (ip_entry prog) 0) (\<lambda>entry g.
     nbind (normalize_all schema_of resolve_search (ip_rules prog) [] g) (\<lambda>rules g.
       Some (Inr ((\<lparr>np_entry_name = ip_entry_name prog, np_entry = entry, np_rules = rules,
         np_disable_magic = ip_disable_magic prog\<rparr>, ip_out_opts prog), g))))"

end
