(* ===== verification/Well_Order_Laws.thy ===== *)
theory Well_Order_Laws
  imports Well_Order Expr_Names "HOL-Library.Multiset"
begin

text \<open>
  The ordering of a rule body keeps its atoms and puts every atom behind the atoms that bind its inputs.
\<close>

section \<open>Names of an expression\<close>

lemma collect_over_reads:
  assumes "\<And>x c c'. x \<in> set xs \<Longrightarrow> f x c = Inr c' \<Longrightarrow> set c' = set c \<union> R x"
  shows "collect_over f xs c = Inr c' \<Longrightarrow> set c' = set c \<union> \<Union> (R ` set xs)"
  using assms
proof (induction xs arbitrary: c)
  case (Cons x xs)
  from Cons.prems(1) obtain d where d: "f x c = Inr d" "collect_over f xs d = Inr c'" by (auto simp: rbind_eq_Inr)
  have "set d = set c \<union> R x" using Cons.prems(2)[OF _ d(1)] by simp
  moreover have "set c' = set d \<union> \<Union> (R ` set xs)" by (rule Cons.IH[OF d(2)]) (use Cons.prems(2) in auto)
  ultimately show ?case by auto
qed simp

lemma collect_bindings_reads: "collect_bindings e c = Inr c' \<Longrightarrow> set c' = set c \<union> reads e"
proof (induction e c arbitrary: c' rule: collect_bindings.induct)
  case (3 op args sp coll)
  have "set c' = set coll \<union> \<Union> (reads ` set args)"
    by (rule collect_over_reads[of args collect_bindings]) (use 3 in auto)
  then show ?case by simp
next
  case (4 op args sp coll)
  have "set c' = set coll \<union> \<Union> (reads ` set args)"
    by (rule collect_over_reads[of args collect_bindings]) (use 4 in auto)
  then show ?case by simp
next
  case (5 clauses sp coll)
  let ?f = "\<lambda>(cond, val) coll. rbind (collect_bindings cond coll) (collect_bindings val)"
  have "set c' = set coll \<union> \<Union> ((\<lambda>cl. reads (fst cl) \<union> reads (snd cl)) ` set clauses)"
  proof (rule collect_over_reads[of clauses ?f])
    show "collect_over ?f clauses coll = Inr c'" using 5(3) by simp
    fix x c d assume x: "x \<in> set clauses" "?f x c = Inr d"
    obtain p v where pv: "x = (p, v)" by fastforce
    then obtain m where m: "collect_bindings p c = Inr m" "collect_bindings v m = Inr d" using x(2) by (auto simp: rbind_eq_Inr)
    have "set m = set c \<union> reads p" by (rule 5(1)[OF x(1) pv[symmetric] m(1)])
    moreover have "set d = set m \<union> reads v" by (rule 5(2)[OF x(1) pv[symmetric] m])
    ultimately show "set d = set c \<union> (reads (fst x) \<union> reads (snd x))" by (auto simp: pv)
  qed
  then show ?case by simp
qed auto

section \<open>Safe bodies\<close>

definition names :: "symbol list \<Rightarrow> string set" where
  "names args = sym_name ` set args"

fun binds :: "'c nf_atom \<Rightarrow> string set" where
  "binds (NRule r) = names (ra_args r)"
| "binds (NRelation v) = names (rl_args v) \<union> (case Option.bind (rl_validity v) extra_var of Some extra \<Rightarrow> {sym_name extra} | None \<Rightarrow> {})"
| "binds (NUnification u) = {sym_name (un_binding u)}"
| "binds (NSearch sa) = names (sa_own_bindings sa)"
| "binds _ = {}"

abbreviation bound_by :: "'c nf_atom list \<Rightarrow> string set" where
  "bound_by atoms \<equiv> \<Union> (binds ` set atoms)"

text \<open>
  An atom may stand where \<open>bound\<close> is bound and \<open>rest\<close> follows. A negation may have an unbound argument when
  another one is bound and nothing behind it could still bind it.
\<close>

fun ready :: "string set \<Rightarrow> 'c nf_atom list \<Rightarrow> 'c nf_atom \<Rightarrow> bool" where
  "ready bound rest (NPredicate p) = (reads p \<subseteq> bound)"
| "ready bound rest (NUnification u) = (reads (un_expr u) \<subseteq> bound)"
| "ready bound rest (NSearch sa) = (reads (sa_query sa) \<subseteq> bound)"
| "ready bound rest (NNegatedRule r) = (names (ra_args r) \<subseteq> bound \<or> names (ra_args r) \<inter> bound \<noteq> {} \<and> bound_by rest = {})"
| "ready bound rest (NNegatedRelation v) = (names (rl_args v) \<subseteq> bound \<or> names (rl_args v) \<inter> bound \<noteq> {} \<and> bound_by rest = {})"
| "ready bound rest _ = True"

fun safe_from :: "string set \<Rightarrow> 'c nf_atom list \<Rightarrow> bool" where
  "safe_from bound [] = True"
| "safe_from bound (a # as) = (ready bound as a \<and> safe_from (bound \<union> binds a) as)"

section \<open>The passes\<close>

lemma set_extend_seen [simp]: "set (extend_seen args seen) = names args \<union> set seen"
proof (induction args arbitrary: seen)
  case (Cons a args)
  show ?case using Cons[of "set_insert (sym_name a) seen"] by (auto simp: extend_seen_def names_def)
qed (simp add: extend_seen_def names_def)

lemma set_relation_seen [simp]: "set (relation_seen v seen) =
    names (rl_args v) \<union> (case Option.bind (rl_validity v) extra_var of Some extra \<Rightarrow> {sym_name extra} | None \<Rightarrow> {}) \<union> set seen"
  by (auto simp: relation_seen_def Let_def split: option.split)

lemma is_subset_iff [simp]: "is_subset vars seen \<longleftrightarrow> set vars \<subseteq> set seen"
  by (auto simp: is_subset_def list_all_iff)

lemma list_all_names: "list_all (\<lambda>a. sym_name a \<in> B) args \<longleftrightarrow> names args \<subseteq> B"
  by (auto simp: list_all_iff names_def)

lemma list_ex_names: "list_ex (\<lambda>a. sym_name a \<in> B) args \<longleftrightarrow> names args \<inter> B \<noteq> {}"
  by (auto simp: list_ex_iff names_def)

lemma bindings_reads:
  "bindings e = Inr vs \<Longrightarrow> set vs = reads e" "collect_bindings e [] = Inr vs \<Longrightarrow> set vs = reads e"
  "bindings_in_expr u = Inr vs \<Longrightarrow> set vs = reads (un_expr u)"
  using collect_bindings_reads by (fastforce simp: bindings_def bindings_in_expr_def)+

lemma const_reads: "un_is_const u \<Longrightarrow> reads (un_expr u) = {}"
  by (simp add: un_is_const_def split: expr.splits)

text \<open>The first pass keeps an atom exactly when its inputs are bound by the atoms kept before it.\<close>

lemma round_1_step:
  assumes "round_1 (atom # atoms) seen = Inr (c, p)"
  obtains (keep) c' seen' where "round_1 atoms seen' = Inr (c', p)" "c = atom # c'" "set seen' = binds atom \<union> set seen"
      "\<And>rest. ready (set seen) rest atom" "\<And>seen. \<exists>s. bind_atom atom seen = Inr s"
  | (wait) p' where "round_1 atoms seen = Inr (c, p')" "p = atom # p'"
  using assms
proof (cases atom)
  case (NUnification u)
  with assms const_reads[of u] bindings_reads(3)[of u] show ?thesis
    by (auto simp: rbind_eq_Inr bind_atom_def split: if_splits intro: keep wait)
next
  case (NRelation v)
  with assms obtain c' where "round_1 atoms (relation_seen v seen) = Inr (c', p)" "c = atom # c'" by (auto simp: rbind_eq_Inr)
  from keep[OF this] NRelation show ?thesis by (simp add: bind_atom_def)
next
  case (NSearch sa)
  with assms bindings_reads(2)[of "sa_query sa"] show ?thesis
    by (auto simp: rbind_eq_Inr bind_atom_def split: if_splits intro: keep wait)
qed (auto simp: rbind_eq_Inr bind_atom_def intro: keep wait)

lemma ready_mono: "ready bound rest atom \<Longrightarrow> bound \<subseteq> bound' \<Longrightarrow> bound_by rest = bound_by rest' \<Longrightarrow> ready bound' rest' atom"
  by (cases atom) auto

lemma safe_from_mono: "safe_from bound atoms \<Longrightarrow> bound \<subseteq> bound' \<Longrightarrow> safe_from bound' atoms"
proof (induction atoms arbitrary: bound bound')
  case (Cons a as)
  have "safe_from (bound' \<union> binds a) as" by (rule Cons.IH[of "bound \<union> binds a"]) (use Cons.prems in auto)
  with Cons.prems ready_mono[of bound as a bound' as] show ?case by simp
qed simp

text \<open>Bodies whose atoms are ready whatever follows them.\<close>

fun safe_always :: "string set \<Rightarrow> 'c nf_atom list \<Rightarrow> bool" where
  "safe_always bound [] = True"
| "safe_always bound (a # as) = ((\<forall>rest. ready bound rest a) \<and> safe_always (bound \<union> binds a) as)"

lemma safe_always_mono: "safe_always bound atoms \<Longrightarrow> bound \<subseteq> bound' \<Longrightarrow> safe_always bound' atoms"
proof (induction atoms arbitrary: bound bound')
  case (Cons a as)
  have "safe_always (bound' \<union> binds a) as" by (rule Cons.IH[of "bound \<union> binds a"]) (use Cons.prems in auto)
  with Cons.prems ready_mono[of bound _ a bound'] show ?case by auto
qed simp

lemma safe_always_append: "safe_always bound (xs @ ys) \<longleftrightarrow> safe_always bound xs \<and> safe_always (bound \<union> bound_by xs) ys"
  by (induction xs arbitrary: bound) (auto simp: Un_assoc)

lemma safe_from_append: "safe_always bound xs \<Longrightarrow> safe_from (bound \<union> bound_by xs) ys \<Longrightarrow> safe_from bound (xs @ ys)"
  by (induction xs arbitrary: bound) (auto simp: Un_assoc)

lemma round_1_spec:
  "round_1 atoms seen = Inr (c, p) \<Longrightarrow> mset c + mset p = mset atoms \<and> safe_always (set seen) c"
proof (induction atoms arbitrary: seen c p)
  case (Cons atom atoms)
  show ?case
  proof (rule round_1_step[OF Cons.prems])
    fix c' seen' assume a: "round_1 atoms seen' = Inr (c', p)" "c = atom # c'" "set seen' = binds atom \<union> set seen"
      "\<And>rest. ready (set seen) rest atom"
    from Cons.IH[OF a(1)] a(2-) show ?thesis by (auto simp: Un_commute)
  next
    fix p' assume "round_1 atoms seen = Inr (c, p')" "p = atom # p'"
    with Cons.IH show ?thesis by auto
  qed
qed simp

text \<open>A sweep places atoms whose inputs are seen.\<close>

lemma place_pending_step:
  assumes "place_pending (atom # atoms) seen = Inr (c, p, s)"
  obtains (place) c' seen' where "place_pending atoms seen' = Inr (c', p, s)" "c = atom # c'"
      "set seen \<subseteq> set seen'" "set seen' \<subseteq> binds atom \<union> set seen" "\<And>rest. ready (set seen) rest atom"
  | (wait) p' where "place_pending atoms seen = Inr (c, p', s)" "p = atom # p'"
  using assms
proof (cases atom)
  case (NUnification u)
  with assms bindings_reads(3)[of u] show ?thesis
    by (auto simp: rbind_eq_Inr split: if_splits intro: place wait)
next
  case (NSearch sa)
  with assms obtain vs where vs: "collect_bindings (sa_query sa) [] = Inr vs" by (auto simp: rbind_eq_Inr)
  with NSearch assms bindings_reads(2)[OF vs] place[of "extend_seen (sa_own_bindings sa) seen"] show ?thesis
    by (auto simp: rbind_eq_Inr split: if_splits intro: wait)
next
  case (NPredicate e)
  with assms bindings_reads(1)[of e] show ?thesis
    by (auto simp: rbind_eq_Inr split: if_splits intro: place wait)
qed (auto simp: rbind_eq_Inr list_all_names split: if_splits intro: place wait)

lemma place_pending_spec:
  "place_pending atoms seen = Inr (c, p, s) \<Longrightarrow> mset c + mset p = mset atoms \<and> safe_always (set seen) c
     \<and> set seen \<subseteq> set s \<and> set s \<subseteq> set seen \<union> bound_by c"
proof (induction atoms arbitrary: seen c p s)
  case (Cons atom atoms)
  show ?case
  proof (rule place_pending_step[OF Cons.prems])
    fix c' seen' assume a: "place_pending atoms seen' = Inr (c', p, s)" "c = atom # c'" "set seen \<subseteq> set seen'"
      "set seen' \<subseteq> binds atom \<union> set seen" "\<And>rest. ready (set seen) rest atom"
    have "safe_always (set seen \<union> binds atom) c'" by (rule safe_always_mono[of "set seen'"]) (use Cons.IH[OF a(1)] a(4) in auto)
    with Cons.IH[OF a(1)] a(2-) show ?thesis by auto
  next
    fix p' assume "place_pending atoms seen = Inr (c, p', s)" "p = atom # p'"
    with Cons.IH show ?thesis by auto
  qed
qed simp

lemma bind_atom_spec: "bind_atom atom seen = Inr s \<Longrightarrow> set s = binds atom \<union> set seen"
  by (cases atom) (auto simp: bind_atom_def)

lemma round_2_spec:
  "round_2 atoms seen pending = Inr (c, p, s) \<Longrightarrow> safe_always R atoms \<Longrightarrow> R \<subseteq> bound \<Longrightarrow> set seen \<subseteq> bound
     \<Longrightarrow> mset c + mset p = mset atoms + mset pending \<and> safe_always bound c \<and> set s \<subseteq> bound \<union> bound_by c"
proof (induction atoms arbitrary: seen pending c R bound)
  case (Cons atom atoms)
  from Cons.prems(1) obtain seen1 placed pend1 seen2 c' where r: "bind_atom atom seen = Inr seen1"
    "place_pending pending seen1 = Inr (placed, pend1, seen2)" "round_2 atoms seen2 pend1 = Inr (c', p, s)" "c = atom # placed @ c'"
    by (auto simp: rbind_eq_Inr)
  note pp = place_pending_spec[OF r(2)] and s1 = bind_atom_spec[OF r(1)]
  let ?b = "bound \<union> binds atom \<union> bound_by placed"
  have "mset c' + mset p = mset atoms + mset pend1 \<and> safe_always ?b c' \<and> set s \<subseteq> ?b \<union> bound_by c'"
    by (rule Cons.IH[OF r(3), of "R \<union> binds atom"]) (use Cons.prems(2-4) pp s1 in auto)
  moreover have "safe_always (bound \<union> binds atom) placed"
    by (rule safe_always_mono[of "set seen1"]) (use pp s1 Cons.prems(4) in auto)
  moreover have "ready bound rest atom" for rest
    by (rule ready_mono[of R rest]) (use Cons.prems(2,3) in auto)
  moreover from calculation(1) pp have "mset c + mset p = mset (atom # atoms) + mset pending"
    by (simp add: r(4)) (metis union_assoc union_commute)
  ultimately show ?case using pp by (auto simp: r(4) safe_always_append Un_assoc)
qed auto

lemma place_rest_spec:
  "place_rest atoms seen = Inr r \<Longrightarrow> set seen \<subseteq> bound \<Longrightarrow> r = atoms \<and> bound_by r = {} \<and> safe_from bound r"
proof (induction atoms arbitrary: r)
  case (Cons atom atoms)
  from Cons.prems(1) obtain r' where r': "place_rest atoms seen = Inr r'" "r = atom # r'"
    by (cases atom) (auto simp: rbind_eq_Inr split: if_splits)
  from Cons.IH[OF r'(1) Cons.prems(2)] have IH: "r' = atoms" "bound_by atoms = {}" "safe_from bound atoms" by auto
  have "ready bound atoms atom \<and> binds atom = {}"
    using Cons.prems IH(2) by (cases atom) (auto simp: list_ex_names split: if_splits)
  with IH r'(2) show ?case by simp
qed simp

theorem well_ordered:
  assumes "convert_to_well_ordered_rule rule = Inr rule'"
  shows "nr_head rule' = nr_head rule" "nr_aggr rule' = nr_aggr rule" "mset (nr_body rule') = mset (nr_body rule)"
    "safe_from {} (nr_body rule')"
proof -
  obtain c1 p1 c2 p2 s rest where r: "round_1 (nr_body rule) [] = Inr (c1, p1)" "round_2 c1 [] p1 = Inr (c2, p2, s)"
    "place_rest p2 s = Inr rest" "rule' = \<lparr>nr_head = nr_head rule, nr_aggr = nr_aggr rule, nr_body = c2 @ rest\<rparr>"
    using assms by (auto simp: convert_to_well_ordered_rule_def rbind_eq_Inr)
  note s1 = round_1_spec[OF r(1)]
  have s2: "mset c2 + mset p2 = mset c1 + mset p1 \<and> safe_always {} c2 \<and> set s \<subseteq> {} \<union> bound_by c2"
    by (rule round_2_spec[OF r(2), of "{}"]) (use s1 in auto)
  have s3: "rest = p2 \<and> bound_by rest = {} \<and> safe_from (bound_by c2) rest"
    by (rule place_rest_spec[OF r(3)]) (use s2 in auto)
  show "nr_head rule' = nr_head rule" "nr_aggr rule' = nr_aggr rule" by (simp_all add: r(4))
  show "mset (nr_body rule') = mset (nr_body rule)" using s1 s2 s3 by (simp add: r(4))
  show "safe_from {} (nr_body rule')" using safe_from_append[of "{}" c2 rest] s2 s3 by (auto simp: r(4))
qed

section \<open>Acceptance\<close>

fun needs :: "'c nf_atom \<Rightarrow> string set" where
  "needs (NNegatedRule r) = names (ra_args r)"
| "needs (NNegatedRelation v) = names (rl_args v)"
| "needs (NPredicate p) = reads p"
| "needs (NUnification u) = reads (un_expr u)"
| "needs (NSearch sa) = reads (sa_query sa)"
| "needs _ = {}"

fun implemented :: "'c nf_atom \<Rightarrow> bool" where
  "implemented (NPredicate p) = all_implemented p"
| "implemented (NUnification u) = all_implemented (un_expr u)"
| "implemented (NSearch sa) = all_implemented (sa_query sa)"
| "implemented _ = True"

fun binding_atom :: "'c nf_atom \<Rightarrow> bool" where
  "binding_atom (NNegatedRule _) = False"
| "binding_atom (NNegatedRelation _) = False"
| "binding_atom (NPredicate _) = False"
| "binding_atom _ = True"

fun negation :: "'c nf_atom \<Rightarrow> bool" where
  "negation (NNegatedRule _) = True"
| "negation (NNegatedRelation _) = True"
| "negation _ = False"

fun is_search :: "'c nf_atom \<Rightarrow> bool" where
  "is_search (NSearch _) = True"
| "is_search _ = False"

text \<open>The binding atoms that stand behind what binds their inputs, and the other atoms.\<close>

fun kept :: "string set \<Rightarrow> 'c nf_atom list \<Rightarrow> 'c nf_atom list" where
  "kept bound [] = []"
| "kept bound (a # as) =
     (if binding_atom a \<and> needs a \<subseteq> bound then a # kept (bound \<union> binds a) as else kept bound as)"

fun late :: "string set \<Rightarrow> 'c nf_atom list \<Rightarrow> 'c nf_atom list" where
  "late bound [] = []"
| "late bound (a # as) =
     (if binding_atom a \<and> needs a \<subseteq> bound then late (bound \<union> binds a) as else a # late bound as)"

lemma kept_binding: "list_all binding_atom (kept bound as)"
  by (induction as arbitrary: bound) simp_all

lemma collect_over_ok:
  "(\<And>x c. x \<in> set xs \<Longrightarrow> \<exists>c'. f x c = Inr c') \<Longrightarrow> \<exists>c'. collect_over f xs c = Inr c'"
proof (induction xs arbitrary: c)
  case (Cons x xs)
  obtain d where "f x c = Inr d" using Cons.prems by fastforce
  with Cons.IH[of d] Cons.prems show ?case by auto
qed simp

lemma collect_bindings_ok: "all_implemented e \<Longrightarrow> \<exists>c'. collect_bindings e c = Inr c'"
proof (induction e c rule: collect_bindings.induct)
  case (5 clauses sp coll)
  have "\<exists>c'. (case x of (cond, val) \<Rightarrow> \<lambda>coll. rbind (collect_bindings cond coll) (collect_bindings val)) c = Inr c'"
    if x: "x \<in> set clauses" for x c
  proof -
    obtain p v where pv: "x = (p, v)" by fastforce
    have i: "all_implemented p" "all_implemented v" using 5(3) x pv by (auto simp: list_all_iff)
    obtain m where m: "collect_bindings p c = Inr m" using 5(1)[OF x pv[symmetric] i(1)] by blast
    obtain d where "collect_bindings v m = Inr d" using 5(2)[OF x pv[symmetric] m i(2)] by blast
    with m show ?thesis by (simp add: pv)
  qed
  then show ?case by (simp add: collect_over_ok)
qed (auto simp: list_all_iff intro!: collect_over_ok)

lemma bindings_ok:
  assumes "all_implemented e"
  shows "\<exists>vs. collect_bindings e [] = Inr vs \<and> bindings e = Inr vs \<and> set vs = reads e"
  using collect_bindings_ok[OF assms, of "[]"] bindings_reads(2)[of e] by (auto simp: bindings_def)

lemma round_1_kept: "list_all implemented atoms \<Longrightarrow> round_1 atoms seen = Inr (kept (set seen) atoms, late (set seen) atoms)"
proof (induction atoms arbitrary: seen)
  case (Cons a as)
  have IH: "round_1 as seen' = Inr (kept (set seen') as, late (set seen') as)" for seen' using Cons by simp
  show ?case
  proof (cases a)
    case (NUnification u)
    with Cons.prems have "all_implemented (un_expr u)" by simp
    from bindings_ok[OF this] obtain vs where "bindings (un_expr u) = Inr vs" "set vs = reads (un_expr u)" by blast
    then show ?thesis using const_reads[of u] by (simp add: NUnification IH bindings_in_expr_def)
  next
    case (NSearch sa)
    with Cons.prems have "all_implemented (sa_query sa)" by simp
    from bindings_ok[OF this] obtain vs where "collect_bindings (sa_query sa) [] = Inr vs" "set vs = reads (sa_query sa)" by blast
    then show ?thesis by (simp add: NSearch IH Un_commute)
  qed (simp_all add: IH Un_commute Un_assoc)
qed simp

text \<open>A sweep over atoms that bind nothing, or whose binding it does not note.\<close>

fun waits :: "'c nf_atom \<Rightarrow> bool" where
  "waits (NRule _) = False"
| "waits (NRelation _) = False"
| "waits (NSearch _) = False"
| "waits a = implemented a"

lemma late_waits: "list_all implemented as \<Longrightarrow> \<forall>a \<in> set (late bound as). \<not> is_search a \<Longrightarrow> list_all waits (late bound as)"
proof (induction as arbitrary: bound)
  case (Cons a as)
  then show ?case by (cases a) (auto split: if_splits)
qed simp

lemma place_pending_waits:
  "list_all waits ps \<Longrightarrow> place_pending ps seen
     = Inr (filter (\<lambda>a. needs a \<subseteq> set seen) ps, filter (\<lambda>a. \<not> needs a \<subseteq> set seen) ps, seen)"
proof (induction ps)
  case (Cons a ps)
  show ?case
  proof (cases a)
    case (NPredicate p)
    with Cons.prems have "all_implemented p" by simp
    from bindings_ok[OF this] obtain vs where "bindings p = Inr vs" "set vs = reads p" by blast
    with Cons NPredicate show ?thesis by simp
  next
    case (NUnification u)
    with Cons.prems have "all_implemented (un_expr u)" by simp
    from bindings_ok[OF this] obtain vs where "bindings (un_expr u) = Inr vs" "set vs = reads (un_expr u)" by blast
    with Cons NUnification show ?thesis by (simp add: bindings_in_expr_def)
  qed (use Cons in \<open>simp_all add: list_all_names\<close>)
qed simp

lemma round_2_waits:
  "list_all binding_atom atoms \<Longrightarrow> list_all waits ps \<Longrightarrow> \<exists>c s. set s = set seen \<union> bound_by atoms
     \<and> round_2 atoms seen ps = Inr (c, if atoms = [] then ps else filter (\<lambda>a. \<not> needs a \<subseteq> set s) ps, s)"
proof (induction atoms arbitrary: seen ps)
  case (Cons a as)
  obtain s1 where s1: "bind_atom a seen = Inr s1" using Cons.prems(1) by (cases a) (auto simp: bind_atom_def)
  have set1: "set s1 = binds a \<union> set seen" by (rule bind_atom_spec[OF s1])
  let ?w = "filter (\<lambda>a. \<not> needs a \<subseteq> set s1) ps"
  have "list_all waits ?w" using Cons.prems(2) by (auto simp: list_all_iff)
  from Cons.IH[OF _ this, of s1] Cons.prems(1) obtain c s where r: "set s = set s1 \<union> bound_by as"
    "round_2 as s1 ?w = Inr (c, if as = [] then ?w else filter (\<lambda>a. \<not> needs a \<subseteq> set s) ?w, s)" by auto
  have "(if as = [] then ?w else filter (\<lambda>a. \<not> needs a \<subseteq> set s) ?w) = filter (\<lambda>a. \<not> needs a \<subseteq> set s) ps"
    using r(1) by (auto intro!: filter_cong)
  then have "round_2 (a # as) seen ps = Inr (a # filter (\<lambda>a. needs a \<subseteq> set s1) ps @ c, filter (\<lambda>a. \<not> needs a \<subseteq> set s) ps, s)"
    by (simp add: s1 place_pending_waits[OF Cons.prems(2)] r(2))
  then show ?case using r(1) set1 by auto
qed auto

lemma place_rest_iff: "(\<exists>r. place_rest p s = Inr r) \<longleftrightarrow> (\<forall>a \<in> set p. negation a \<and> needs a \<inter> set s \<noteq> {})"
proof (induction p)
  case (Cons a p)
  then show ?case by (cases a) (auto simp: list_ex_names rbind_eq_Inr)
qed simp

theorem well_ordering_exact:
  assumes "list_all implemented (nr_body rule)" "\<forall>a \<in> set (late {} (nr_body rule)). \<not> is_search a"
  shows "(\<exists>rule'. convert_to_well_ordered_rule rule = Inr rule')
    \<longleftrightarrow> (\<forall>a \<in> set (late {} (nr_body rule)).
          needs a \<subseteq> bound_by (kept {} (nr_body rule)) \<and> kept {} (nr_body rule) \<noteq> []
          \<or> negation a \<and> needs a \<inter> bound_by (kept {} (nr_body rule)) \<noteq> {})"
proof -
  let ?k = "kept {} (nr_body rule)" and ?l = "late {} (nr_body rule)"
  have r1: "round_1 (nr_body rule) [] = Inr (?k, ?l)" using round_1_kept[OF assms(1), of "[]"] by simp
  obtain c s where r2: "set s = bound_by ?k" "round_2 ?k [] ?l = Inr (c, if ?k = [] then ?l else filter (\<lambda>a. \<not> needs a \<subseteq> set s) ?l, s)"
    using round_2_waits[OF kept_binding[of "{}" "nr_body rule"] late_waits[OF assms], of "[]"] by (auto simp del: split_paired_Ex)
  have "(\<exists>rule'. convert_to_well_ordered_rule rule = Inr rule')
      \<longleftrightarrow> (\<exists>r. place_rest (if ?k = [] then ?l else filter (\<lambda>a. \<not> needs a \<subseteq> set s) ?l) s = Inr r)"
    by (simp add: convert_to_well_ordered_rule_def r1 r2(2) rbind_eq_Inr)
  then show ?thesis unfolding place_rest_iff r2(1) by auto
qed

end
