(* ===== verification/Normalize_Laws.thy ===== *)
theory Normalize_Laws
  imports Normalize Well_Order_Laws
begin

text \<open>
  The meaning of a rule body under an assignment of its names, and the negation normal form: it keeps the meaning,
  leaves negations only on applications, and is refused exactly when a unification or a search is negated.
\<close>

section \<open>Meaning\<close>

text \<open>
  What the body is evaluated against: the operators, the tuples of rules and of stored relations (under a validity
  clause and the value of its extra variable), membership for one-to-many unifications, and the catalog.
\<close>

record meaning =
  mg_table :: op_table
  mg_rule :: "string \<Rightarrow> data_value list \<Rightarrow> bool"
  mg_relation :: "string \<Rightarrow> validity_clause option \<Rightarrow> data_value option \<Rightarrow> data_value list \<Rightarrow> bool"
  mg_member :: "data_value \<Rightarrow> data_value \<Rightarrow> bool"
  mg_schema :: schema_lookup

type_synonym assignment = "string \<Rightarrow> data_value"

definition arg_matches :: "meaning \<Rightarrow> assignment \<Rightarrow> expr \<Rightarrow> data_value \<Rightarrow> bool" where
  "arg_matches M env e v = (case e of
     Binding var _ \<Rightarrow> is_ignored var \<or> v = env (sym_name var)
   | _ \<Rightarrow> eval_named (mg_table M) env e = Inr v)"

definition sym_matches :: "assignment \<Rightarrow> symbol \<Rightarrow> data_value \<Rightarrow> bool" where
  "sym_matches env a v \<longleftrightarrow> is_ignored a \<or> v = env (sym_name a)"

definition unif_holds :: "meaning \<Rightarrow> assignment \<Rightarrow> unification \<Rightarrow> bool" where
  "unif_holds M env u = (case eval_named (mg_table M) env (un_expr u) of
     Inl _ \<Rightarrow> False
   | Inr v \<Rightarrow> if un_one_many u then mg_member M (env (sym_name (un_binding u))) v else env (sym_name (un_binding u)) = v)"

definition relation_holds :: "meaning \<Rightarrow> assignment \<Rightarrow> symbol \<Rightarrow> validity_clause option \<Rightarrow> data_value list \<Rightarrow> bool" where
  "relation_holds M env name validity vals =
     mg_relation M (sym_name name) validity (map_option (\<lambda>x. env (sym_name x)) (Option.bind validity extra_var)) vals"

definition named_matches :: "meaning \<Rightarrow> assignment \<Rightarrow> (string, expr) entries \<Rightarrow> string \<Rightarrow> data_value \<Rightarrow> bool" where
  "named_matches M env args col v = (case bt_get args col of None \<Rightarrow> True | Some e \<Rightarrow> arg_matches M env e v)"

fun leaf_holds :: "meaning \<Rightarrow> assignment \<Rightarrow> input_atom \<Rightarrow> bool" where
  "leaf_holds M env (ARule r) = (\<exists>vals. list_all2 (arg_matches M env) (ir_args r) vals \<and> mg_rule M (sym_name (ir_name r)) vals)"
| "leaf_holds M env (ARelation r) =
     (\<exists>vals. list_all2 (arg_matches M env) (il_args r) vals \<and> relation_holds M env (il_name r) (il_validity r) vals)"
| "leaf_holds M env (ANamedFieldRelation r) =
     (case mg_schema M (sym_name (in_name r)) of
        Inl _ \<Rightarrow> False
      | Inr md \<Rightarrow> \<exists>vals. list_all2 (named_matches M env (in_args r)) (md_keys md @ md_non_keys md) vals
          \<and> relation_holds M env (in_name r) (in_validity r) vals)"
| "leaf_holds M env (APredicate p) = (eval_named (mg_table M) env p = Inr (DBool True))"
| "leaf_holds M env (AUnification u) = unif_holds M env u"
| "leaf_holds M env _ = False"

fun atom_holds :: "meaning \<Rightarrow> assignment \<Rightarrow> input_atom \<Rightarrow> bool" where
  "atom_holds M env (AConjunction inner _) = list_all (atom_holds M env) inner"
| "atom_holds M env (ADisjunction inner _) = list_ex (atom_holds M env) inner"
| "atom_holds M env (ANegation a _) = (\<not> atom_holds M env a)"
| "atom_holds M env a = leaf_holds M env a"

fun nf_holds :: "meaning \<Rightarrow> assignment \<Rightarrow> 'c nf_atom \<Rightarrow> bool" where
  "nf_holds M env (NRule r) = (\<exists>vals. list_all2 (sym_matches env) (ra_args r) vals \<and> mg_rule M (sym_name (ra_name r)) vals)"
| "nf_holds M env (NNegatedRule r) = (\<not> (\<exists>vals. list_all2 (sym_matches env) (ra_args r) vals \<and> mg_rule M (sym_name (ra_name r)) vals))"
| "nf_holds M env (NRelation r) =
     (\<exists>vals. list_all2 (sym_matches env) (rl_args r) vals \<and> relation_holds M env (rl_name r) (rl_validity r) vals)"
| "nf_holds M env (NNegatedRelation r) =
     (\<not> (\<exists>vals. list_all2 (sym_matches env) (rl_args r) vals \<and> relation_holds M env (rl_name r) (rl_validity r) vals))"
| "nf_holds M env (NPredicate p) = (eval_named (mg_table M) env p = Inr (DBool True))"
| "nf_holds M env (NUnification u) = unif_holds M env u"
| "nf_holds M env (NSearch _) = False"

section \<open>Negation normal form\<close>

fun leaves :: "input_atom \<Rightarrow> input_atom list" where
  "leaves (AConjunction inner _) = concat (map leaves inner)"
| "leaves (ADisjunction inner _) = concat (map leaves inner)"
| "leaves (ANegation a _) = leaves a"
| "leaves a = [a]"

fun in_nnf :: "input_atom \<Rightarrow> bool" where
  "in_nnf (AConjunction inner _) = list_all in_nnf inner"
| "in_nnf (ADisjunction inner _) = list_all in_nnf inner"
| "in_nnf (ANegation (ARule _) _) = True"
| "in_nnf (ANegation (ANamedFieldRelation _) _) = True"
| "in_nnf (ANegation (ARelation _) _) = True"
| "in_nnf (ANegation _ _) = False"
| "in_nnf _ = True"

text \<open>Whether a unification or a search stands under an odd number of negations.\<close>

fun refused :: "bool \<Rightarrow> input_atom \<Rightarrow> bool" where
  "refused neg (AConjunction inner _) = list_ex (refused neg) inner"
| "refused neg (ADisjunction inner _) = list_ex (refused neg) inner"
| "refused neg (ANegation a _) = refused (\<not> neg) a"
| "refused neg (AUnification _) = neg"
| "refused neg (ASearch _) = neg"
| "refused neg _ = False"

definition decided :: "meaning \<Rightarrow> assignment \<Rightarrow> input_atom \<Rightarrow> bool" where
  "decided M env a \<longleftrightarrow> (\<forall>p. APredicate p \<in> set (leaves a) \<longrightarrow> (\<exists>b. eval_named (mg_table M) env p = Inr (DBool b)))"

definition negates :: "meaning \<Rightarrow> bool" where
  "negates M \<longleftrightarrow> mg_table M ''negate'' = Some (mint OP_NEGATE op_negate)"

definition leaf_kept :: "input_atom \<Rightarrow> input_atom \<Rightarrow> bool" where
  "leaf_kept l l' \<longleftrightarrow> l' = l \<or> (\<exists>p sp. l = APredicate p \<and> l' = APredicate (negate p sp))"

lemma collect_all2: "collect_results f xs = Inr ys \<Longrightarrow> (\<And>x y. x \<in> set xs \<Longrightarrow> f x = Inr y \<Longrightarrow> P x y) \<Longrightarrow> list_all2 P xs ys"
  unfolding collect_results_Inr_iff by (erule list.rel_mono_strong) blast

lemma all2_list_all: "list_all2 (\<lambda>x y. P y = Q x) xs ys \<Longrightarrow> list_all P ys = list_all Q xs"
  by (induction rule: list_all2_induct) auto

lemma all2_list_ex: "list_all2 (\<lambda>x y. P y = Q x) xs ys \<Longrightarrow> list_ex P ys = list_ex Q xs"
  by (induction rule: list_all2_induct) auto

lemma all2_concat: "list_all2 (\<lambda>x y. list_all2 R (f x) (g y)) xs ys \<Longrightarrow> list_all2 R (concat (map f xs)) (concat (map g ys))"
  by (induction rule: list_all2_induct) (auto intro: list_all2_appendI)

lemma all2_True: "list_all2 (\<lambda>x y. P y) xs ys \<Longrightarrow> list_all P ys"
  by (induction rule: list_all2_induct) auto

text \<open>All of it at once, per atom.\<close>

definition nnf_of :: "meaning \<Rightarrow> assignment \<Rightarrow> bool \<Rightarrow> input_atom \<Rightarrow> input_atom \<Rightarrow> bool" where
  "nnf_of M env neg a b \<longleftrightarrow> in_nnf b \<and> list_all2 leaf_kept (leaves a) (leaves b)
     \<and> (decided M env a \<longrightarrow> atom_holds M env b = (atom_holds M env a \<noteq> neg))"

lemma decided_simps [simp]:
  "decided M env (AConjunction inner sp) \<longleftrightarrow> (\<forall>a \<in> set inner. decided M env a)"
  "decided M env (ADisjunction inner sp) \<longleftrightarrow> (\<forall>a \<in> set inner. decided M env a)"
  "decided M env (ANegation a sp) \<longleftrightarrow> decided M env a"
  by (auto simp: decided_def)

lemma nnf_of_conj:
  assumes "list_all2 (nnf_of M env neg) inner inner'"
  shows "if neg then nnf_of M env neg (AConjunction inner sp) (ADisjunction inner' sp') \<and> nnf_of M env neg (ADisjunction inner sp) (AConjunction inner' sp')
    else nnf_of M env neg (AConjunction inner sp) (AConjunction inner' sp') \<and> nnf_of M env neg (ADisjunction inner sp) (ADisjunction inner' sp')"
proof -
  have "list_all2 leaf_kept (concat (map leaves inner)) (concat (map leaves inner'))"
    by (rule all2_concat, rule list_all2_mono[OF assms]) (simp add: nnf_of_def)
  moreover have "list_all in_nnf inner'"
    by (rule all2_True[of in_nnf inner], rule list_all2_mono[OF assms]) (simp add: nnf_of_def)
  moreover have "list_all2 (\<lambda>x y. atom_holds M env y = (atom_holds M env x \<noteq> neg)) inner inner'" if "\<forall>a \<in> set inner. decided M env a"
    using assms by (rule list.rel_mono_strong) (use that in \<open>auto simp: nnf_of_def\<close>)
  moreover have "list_all (\<lambda>x. \<not> P x) xs \<longleftrightarrow> \<not> list_ex P xs" "list_ex (\<lambda>x. \<not> P x) xs \<longleftrightarrow> \<not> list_all P xs" for P and xs :: "input_atom list"
    by (auto simp: list_all_iff list_ex_iff)
  ultimately show ?thesis
    using all2_list_all[of "atom_holds M env" "\<lambda>a. atom_holds M env a \<noteq> neg" inner inner']
      all2_list_ex[of "atom_holds M env" "\<lambda>a. atom_holds M env a \<noteq> neg" inner inner']
    by (cases neg) (simp_all add: nnf_of_def)
qed

lemma nnf_of_negation: "nnf_of M env False (ANegation a sp) b \<longleftrightarrow> nnf_of M env True a b"
  by (auto simp: nnf_of_def)

lemma nnf_of_leaf: "leaves a = [a] \<Longrightarrow> in_nnf a \<Longrightarrow> nnf_of M env False a a"
  by (simp add: nnf_of_def leaf_kept_def)

lemma negation_normal_form_spec:
  assumes "negates M"
  shows "negation_normal_form a = Inr b \<Longrightarrow> nnf_of M env False a b"
proof (induction a arbitrary: b rule: negation_normal_form.induct)
  case (1 inner sp)
  then obtain inner' where i: "collect_results negation_normal_form inner = Inr inner'" "b = AConjunction inner' sp" by (auto simp: rbind_eq_Inr)
  have "list_all2 (nnf_of M env False) inner inner'" by (rule collect_all2[OF i(1)]) (rule 1(1))
  from nnf_of_conj[OF this] i(2) show ?case by simp
next
  case (2 inner sp)
  then obtain inner' where i: "collect_results negation_normal_form inner = Inr inner'" "b = ADisjunction inner' sp" by (auto simp: rbind_eq_Inr)
  have "list_all2 (nnf_of M env False) inner inner'" by (rule collect_all2[OF i(1)]) (rule 2(1))
  from nnf_of_conj[OF this] i(2) show ?case by simp
next
  case (3 p sp)
  have "eval_named (mg_table M) env (negate p sp) = Inr (DBool (\<not> v))" if "eval_named (mg_table M) env p = Inr (DBool v)" for v
    using by_name.negate_bool[OF _ that] assms by (simp add: negates_def)
  moreover have "leaf_kept (APredicate p) (APredicate (negate p sp))" unfolding leaf_kept_def by blast
  ultimately show ?case using 3 by (auto simp: nnf_of_def decided_def)
next
  case (4 inner sp sp')
  from 4(1)[of b] 4(2) show ?case by (simp add: nnf_of_def)
next
  case (5 inner sp sp')
  then obtain inner' where i: "collect_results (\<lambda>a. negation_normal_form (ANegation a (atom_span a))) inner = Inr inner'" "b = ADisjunction inner' sp"
    by (auto simp: rbind_eq_Inr)
  have "list_all2 (nnf_of M env True) inner inner'"
    by (rule collect_all2[OF i(1)]) (use 5(1) in \<open>simp add: nnf_of_negation\<close>)
  from nnf_of_conj[OF this] i(2) show ?case by (simp add: nnf_of_negation)
next
  case (6 inner sp sp')
  then obtain inner' where i: "collect_results (\<lambda>a. negation_normal_form (ANegation a (atom_span a))) inner = Inr inner'" "b = AConjunction inner' sp"
    by (auto simp: rbind_eq_Inr)
  have "list_all2 (nnf_of M env True) inner inner'"
    by (rule collect_all2[OF i(1)]) (use 6(1) in \<open>simp add: nnf_of_negation\<close>)
  from nnf_of_conj[OF this] i(2) show ?case by (simp add: nnf_of_negation)
qed (auto simp: nnf_of_def leaf_kept_def)

lemma collect_ok_list: "(\<exists>ys. collect_results f xs = Inr ys) \<longleftrightarrow> list_all (\<lambda>x. \<exists>y. f x = Inr y) xs"
  by (simp add: collect_results_ok_iff list_all_iff)

lemma negation_normal_form_ok: "(\<exists>b. negation_normal_form a = Inr b) \<longleftrightarrow> \<not> refused False a"
proof (induction a rule: negation_normal_form.induct)
  case (1 inner sp)
  then show ?case using collect_ok_list[of negation_normal_form inner] by (auto simp: rbind_eq_Inr list_all_iff list_ex_iff)
next
  case (2 inner sp)
  then show ?case using collect_ok_list[of negation_normal_form inner] by (auto simp: rbind_eq_Inr list_all_iff list_ex_iff)
next
  case (5 inner sp sp')
  then show ?case using collect_ok_list[of "\<lambda>a. negation_normal_form (ANegation a (atom_span a))" inner]
    by (auto simp: rbind_eq_Inr list_all_iff list_ex_iff)
next
  case (6 inner sp sp')
  then show ?case using collect_ok_list[of "\<lambda>a. negation_normal_form (ANegation a (atom_span a))" inner]
    by (auto simp: rbind_eq_Inr list_all_iff list_ex_iff)
qed auto

end
