(* ===== verification/Normalize_Meaning.thy ===== *)
theory Normalize_Meaning
  imports Normalize_Laws
begin

text \<open>
  Normalisation keeps the meaning of a body: an assignment of the user's names satisfies it exactly when some
  assignment of the generated names makes one of the normal-form conjunctions true.
\<close>

section \<open>Generated names\<close>

definition text_value :: "string \<Rightarrow> nat" where
  "text_value cs = foldl (\<lambda>acc c. acc * 10 + (of_char c - 48)) 0 cs"

lemma text_value_dec: "text_value (dec_text n) = n"
proof (induction n rule: dec_text.induct)
  case (1 n)
  have digit: "of_char (char_of (48 + d) :: char) - (48 :: nat) = d" if "d < 10" for d using that by simp
  show ?case
  proof (cases "n < 10")
    case True
    then show ?thesis using digit[of n] by (subst dec_text.simps) (simp add: text_value_def)
  next
    case False
    have "text_value (dec_text n) = text_value (dec_text (n div 10)) * 10 + n mod 10"
      using False digit[of "n mod 10"] by (subst dec_text.simps) (simp add: text_value_def)
    with 1[OF False] show ?thesis by simp
  qed
qed

lemma dec_text_inj: "dec_text m = dec_text n \<longleftrightarrow> m = n"
  by (metis text_value_dec)

definition generated :: "string \<Rightarrow> bool" where
  "generated x \<longleftrightarrow> take 1 x = ''*''"

definition fresh_names :: "nat \<Rightarrow> nat \<Rightarrow> string set" where
  "fresh_names lo hi = (\<lambda>n. ''*'' @ dec_text n) ` {lo<..hi}"

lemma fresh_generated: "x \<in> fresh_names lo hi \<Longrightarrow> generated x"
  by (auto simp: fresh_names_def generated_def)

lemma fresh_self [simp]: "fresh_names n n = {}"
  by (auto simp: fresh_names_def)

lemma fresh_join: "lo \<le> m \<Longrightarrow> m \<le> hi \<Longrightarrow> fresh_names lo hi = fresh_names lo m \<union> fresh_names m hi"
  unfolding fresh_names_def image_Un[symmetric] by (simp add: ivl_disj_un_two(6))

lemma fresh_disjoint: "fresh_names lo m \<inter> fresh_names m hi = {}"
  by (auto simp: fresh_names_def dec_text_inj)

section \<open>Names an evaluation depends on\<close>

definition user_expr :: "expr \<Rightarrow> bool" where
  "user_expr e \<longleftrightarrow> (\<forall>x \<in> reads e. \<not> generated x)"

lemma collect_results_eq: "(\<And>x. x \<in> set xs \<Longrightarrow> f x = g x) \<Longrightarrow> collect_results f xs = collect_results g xs"
  by (induction xs) simp_all

lemma lazy_loop_eq: "(\<And>x. x \<in> set xs \<Longrightarrow> f x = g x) \<Longrightarrow> lazy_loop op f xs = lazy_loop op g xs"
  by (rule lazy_loop_cong) simp_all

lemma eval_named_reads: "(\<And>x. x \<in> reads e \<Longrightarrow> env x = env' x) \<Longrightarrow> eval_named table env e = eval_named table env' e"
proof (induction e rule: reads.induct)
  case (3 op args sp)
  have "collect_results (eval_named table env) args = collect_results (eval_named table env') args"
    by (rule collect_results_eq) (use 3 in auto)
  then show ?case by simp
next
  case (4 clauses sp)
  have in_clause: "env x = env' x" if "c \<in> set clauses" "x \<in> reads (fst c) \<union> reads (snd c)" for c x
    using 4(3)[of x] that by auto
  have "cond_loop (eval_named table env) clauses = cond_loop (eval_named table env') clauses"
    by (rule cond_loop_cong[OF refl]) (use 4(1,2) in_clause in blast)+
  then show ?case by simp
next
  case (5 op args sp)
  have "lazy_loop op (eval_named table env) args = lazy_loop op (eval_named table env') args"
    by (rule lazy_loop_eq) (use 5 in auto)
  then show ?case by simp
qed auto

section \<open>Conjunctions over generated names\<close>

definition agrees_off :: "string set \<Rightarrow> assignment \<Rightarrow> assignment \<Rightarrow> bool" where
  "agrees_off L env env' \<longleftrightarrow> (\<forall>x. x \<notin> L \<longrightarrow> env' x = env x)"

definition conj_holds :: "meaning \<Rightarrow> assignment \<Rightarrow> 'c nf_atom list \<Rightarrow> bool" where
  "conj_holds M env cj \<longleftrightarrow> list_all (nf_holds M env) cj"

text \<open>The conjunction depends on user names and on the generated names in \<open>L\<close> only.\<close>

definition conj_local :: "meaning \<Rightarrow> string set \<Rightarrow> 'c nf_atom list \<Rightarrow> bool" where
  "conj_local M L cj \<longleftrightarrow> (\<forall>env env'. (\<forall>x. \<not> generated x \<or> x \<in> L \<longrightarrow> env' x = env x)
     \<longrightarrow> conj_holds M env' cj = conj_holds M env cj)"

definition denotes :: "meaning \<Rightarrow> assignment \<Rightarrow> string set \<Rightarrow> 'c nf_atom list list \<Rightarrow> bool \<Rightarrow> bool" where
  "denotes M env L D P \<longleftrightarrow> (\<forall>x \<in> L. generated x) \<and> (\<forall>cj \<in> set D. conj_local M L cj)
     \<and> (P \<longleftrightarrow> (\<exists>cj \<in> set D. \<exists>env'. agrees_off L env env' \<and> conj_holds M env' cj))"

lemma conj_localD:
  "conj_local M L cj \<Longrightarrow> (\<And>x. \<not> generated x \<or> x \<in> L \<Longrightarrow> env' x = env x) \<Longrightarrow> conj_holds M env' cj = conj_holds M env cj"
  unfolding conj_local_def by simp

lemma conj_localI:
  assumes "\<And>env env'. (\<And>x. \<not> generated x \<or> x \<in> L \<Longrightarrow> env' x = env x) \<Longrightarrow> conj_holds M env' cj = conj_holds M env cj"
  shows "conj_local M L cj"
  unfolding conj_local_def
proof (intro allI impI)
  fix env env' :: assignment assume "\<forall>x. \<not> generated x \<or> x \<in> L \<longrightarrow> env' x = env x"
  then show "conj_holds M env' cj = conj_holds M env cj" by (intro assms) blast
qed

lemma conj_local_mono: "conj_local M L cj \<Longrightarrow> L \<subseteq> L' \<Longrightarrow> conj_local M L' cj"
  by (rule conj_localI, erule conj_localD) blast

text \<open>Assignments of more generated names make no difference.\<close>

lemma restrict_assignment:
  assumes "conj_local M L cj" "\<forall>x \<in> L'. generated x" "agrees_off L' env env'" "conj_holds M env' cj"
  shows "agrees_off L env (\<lambda>x. if x \<in> L then env' x else env x) \<and> conj_holds M (\<lambda>x. if x \<in> L then env' x else env x) cj"
proof -
  have "conj_holds M (\<lambda>x. if x \<in> L then env' x else env x) cj = conj_holds M env' cj"
    by (rule conj_localD[OF assms(1)]) (use assms(2,3) in \<open>auto simp: agrees_off_def\<close>)
  with assms(4) have "conj_holds M (\<lambda>x. if x \<in> L then env' x else env x) cj" by simp
  then show ?thesis by (simp add: agrees_off_def)
qed

lemma denotes_mono:
  assumes "denotes M env L D P" "L \<subseteq> L'" "\<forall>x \<in> L'. generated x"
  shows "denotes M env L' D P"
proof -
  have loc: "conj_local M L cj" if "cj \<in> set D" for cj using assms(1) that by (simp add: denotes_def)
  have "(\<exists>env'. agrees_off L env env' \<and> conj_holds M env' cj) \<longleftrightarrow> (\<exists>env'. agrees_off L' env env' \<and> conj_holds M env' cj)"
    if "cj \<in> set D" for cj
  proof
    assume "\<exists>env'. agrees_off L env env' \<and> conj_holds M env' cj"
    then show "\<exists>env'. agrees_off L' env env' \<and> conj_holds M env' cj" using assms(2) unfolding agrees_off_def by (meson subsetD)
  next
    assume "\<exists>env'. agrees_off L' env env' \<and> conj_holds M env' cj"
    then show "\<exists>env'. agrees_off L env env' \<and> conj_holds M env' cj" using restrict_assignment[OF loc[OF that] assms(3)] by blast
  qed
  moreover have "conj_local M L' cj" if "cj \<in> set D" for cj by (rule conj_local_mono[OF loc[OF that] assms(2)])
  ultimately show ?thesis using assms by (simp add: denotes_def)
qed

lemma denotes_append:
  "denotes M env L D P \<Longrightarrow> denotes M env L E Q \<Longrightarrow> denotes M env L (D @ E) (P \<or> Q)"
  by (auto simp: denotes_def)

lemma denotes_Nil: "(\<forall>x \<in> L. generated x) \<Longrightarrow> denotes M env L [] False"
  by (simp add: denotes_def)

lemma denotes_unit: "denotes M env {} [[]] True"
  by (auto simp: denotes_def conj_local_def conj_holds_def agrees_off_def)

lemma merge_assignments:
  assumes "conj_local M L l" "conj_local M L' r" "L \<inter> L' = {}" "\<forall>x \<in> L \<union> L'. generated x"
    "agrees_off L env e1" "conj_holds M e1 l" "agrees_off L' env e2" "conj_holds M e2 r"
  shows "\<exists>env'. agrees_off (L \<union> L') env env' \<and> conj_holds M env' (l @ r)"
proof -
  define e where "e x = (if x \<in> L then e1 x else if x \<in> L' then e2 x else env x)" for x
  have "conj_holds M e l = conj_holds M e1 l"
    by (rule conj_localD[OF assms(1)]) (use assms(3,4,5) in \<open>auto simp: e_def agrees_off_def\<close>)
  moreover have "conj_holds M e r = conj_holds M e2 r"
    by (rule conj_localD[OF assms(2)]) (use assms(3,4,7) in \<open>auto simp: e_def agrees_off_def\<close>)
  ultimately have "conj_holds M e l" "conj_holds M e r" using assms(6,8) by simp_all
  then show ?thesis by (intro exI[of _ e]) (simp add: e_def agrees_off_def conj_holds_def)
qed

lemma denotes_conjunct:
  assumes "denotes M env L D P" "denotes M env L' E Q" "L \<inter> L' = {}"
  shows "denotes M env (L \<union> L') (conjunct_disjunctions D E) (P \<and> Q)"
proof -
  have gen: "\<forall>x \<in> L \<union> L'. generated x" using assms(1,2) by (auto simp: denotes_def)
  have loc: "conj_local M L l" "conj_local M L' r" if "l \<in> set D" "r \<in> set E" for l r using assms(1,2) that by (simp_all add: denotes_def)
  have mem: "cj \<in> set (conjunct_disjunctions D E) \<longleftrightarrow> (\<exists>l \<in> set D. \<exists>r \<in> set E. cj = l @ r)" for cj
    by (auto simp: conjunct_disjunctions_def)
  have app: "conj_holds M e (l @ r) \<longleftrightarrow> conj_holds M e l \<and> conj_holds M e r" for e l r by (simp add: conj_holds_def)
  have "P \<and> Q \<longleftrightarrow> (\<exists>l \<in> set D. \<exists>r \<in> set E. \<exists>env'. agrees_off (L \<union> L') env env' \<and> conj_holds M env' (l @ r))"
  proof
    assume "P \<and> Q"
    then obtain l e1 r e2 where "l \<in> set D" "r \<in> set E" "agrees_off L env e1" "conj_holds M e1 l" "agrees_off L' env e2" "conj_holds M e2 r"
      using assms(1,2) unfolding denotes_def by blast
    with merge_assignments[OF loc(1) loc(2) assms(3) gen] show "\<exists>l \<in> set D. \<exists>r \<in> set E. \<exists>env'. agrees_off (L \<union> L') env env' \<and> conj_holds M env' (l @ r)"
      by blast
  next
    assume "\<exists>l \<in> set D. \<exists>r \<in> set E. \<exists>env'. agrees_off (L \<union> L') env env' \<and> conj_holds M env' (l @ r)"
    then obtain l r e where lr: "l \<in> set D" "r \<in> set E" "agrees_off (L \<union> L') env e" "conj_holds M e l" "conj_holds M e r" by (auto simp: app)
    from restrict_assignment[OF loc(1)[OF lr(1,2)] gen lr(3,4)] restrict_assignment[OF loc(2)[OF lr(1,2)] gen lr(3,5)] lr(1,2)
    show "P \<and> Q" using assms(1,2) unfolding denotes_def by blast
  qed
  moreover have "conj_local M (L \<union> L') (l @ r)" if "l \<in> set D" "r \<in> set E" for l r
  proof (rule conj_localI)
    fix e e' :: assignment assume a: "\<And>x. \<not> generated x \<or> x \<in> L \<union> L' \<Longrightarrow> e' x = e x"
    have "conj_holds M e' l = conj_holds M e l" by (rule conj_localD[OF loc(1)[OF that]]) (use a in blast)
    moreover have "conj_holds M e' r = conj_holds M e r" by (rule conj_localD[OF loc(2)[OF that]]) (use a in blast)
    ultimately show "conj_holds M e' (l @ r) = conj_holds M e (l @ r)" by (simp add: app)
  qed
  ultimately show ?thesis unfolding denotes_def Ball_def Bex_def mem using gen by blast
qed

section \<open>Arguments\<close>

lemma unif_holds_cong:
  assumes "\<And>x. x \<in> reads (un_expr u) \<Longrightarrow> env' x = env x" "env' (sym_name (un_binding u)) = env (sym_name (un_binding u))"
  shows "unif_holds M env' u = unif_holds M env u"
  using eval_named_reads[of "un_expr u" env' env "mg_table M"] assms by (simp add: unif_holds_def split: sum.split)

lemma fresh_step: "fresh_names (Suc lo) hi \<subseteq> fresh_names lo hi" "Suc lo \<le> hi \<Longrightarrow> ''*'' @ dec_text (Suc lo) \<in> fresh_names lo hi"
  "''*'' @ dec_text (Suc lo) \<notin> fresh_names (Suc lo) hi"
  by (auto simp: fresh_names_def dec_text_inj)

text \<open>
  What the rewriting of an argument list gives: the unifications bind fresh names, the symbols match as the
  arguments did once the unifications hold, and these can be made to hold when the arguments have values.
\<close>

definition unifs_fresh :: "unification list \<Rightarrow> nat \<Rightarrow> nat \<Rightarrow> bool" where
  "unifs_fresh unifs lo hi \<longleftrightarrow> (\<forall>u \<in> set unifs. user_expr (un_expr u) \<and> sym_name (un_binding u) \<in> fresh_names lo hi)"

definition syms_known :: "symbol list \<Rightarrow> nat \<Rightarrow> nat \<Rightarrow> bool" where
  "syms_known out lo hi \<longleftrightarrow> (\<forall>a \<in> set out. is_ignored a \<or> \<not> generated (sym_name a) \<or> sym_name a \<in> fresh_names lo hi)"

definition args_match :: "meaning \<Rightarrow> expr list \<Rightarrow> symbol list \<Rightarrow> unification list \<Rightarrow> bool" where
  "args_match M args out unifs \<longleftrightarrow> (\<forall>env vals. (\<forall>u \<in> set unifs. unif_holds M env u)
     \<longrightarrow> list_all2 (sym_matches env) out vals = list_all2 (arg_matches M env) args vals)"

definition args_solvable :: "meaning \<Rightarrow> expr list \<Rightarrow> unification list \<Rightarrow> nat \<Rightarrow> nat \<Rightarrow> bool" where
  "args_solvable M args unifs lo hi \<longleftrightarrow> (\<forall>env. (\<forall>e \<in> set args. \<exists>v. eval_named (mg_table M) env e = Inr v)
     \<longrightarrow> (\<exists>env'. agrees_off (fresh_names lo hi) env env' \<and> (\<forall>u \<in> set unifs. unif_holds M env' u)))"

definition args_normal :: "meaning \<Rightarrow> expr list \<Rightarrow> symbol list \<Rightarrow> unification list \<Rightarrow> nat \<Rightarrow> nat \<Rightarrow> bool" where
  "args_normal M args out unifs lo hi \<longleftrightarrow> lo \<le> hi \<and> hi \<le> lo + length args
     \<and> unifs_fresh unifs lo hi \<and> syms_known out lo hi \<and> args_match M args out unifs \<and> args_solvable M args unifs lo hi"

lemma args_match_Cons:
  assumes "args_match M args out unifs"
    "\<And>env v. (\<forall>u \<in> set us. unif_holds M env u) \<Longrightarrow> sym_matches env a v = arg_matches M env arg v"
  shows "args_match M (arg # args) (a # out) (us @ unifs)"
  unfolding args_match_def
proof (intro allI impI)
  fix env vals assume u: "\<forall>u \<in> set (us @ unifs). unif_holds M env u"
  then have "list_all2 (sym_matches env) out vs = list_all2 (arg_matches M env) args vs" for vs
    using assms(1) by (simp add: args_match_def)
  moreover have "sym_matches env a v = arg_matches M env arg v" for v using assms(2) u by simp
  ultimately show "list_all2 (sym_matches env) (a # out) vals = list_all2 (arg_matches M env) (arg # args) vals"
    by (cases vals) simp_all
qed

lemma agrees_off_mono: "agrees_off L env env' \<Longrightarrow> L \<subseteq> L' \<Longrightarrow> agrees_off L' env env'"
  by (auto simp: agrees_off_def)

lemma args_normal_plain:
  assumes "args_normal M args out unifs lo hi" "\<not> is_ignored var" "\<not> generated (sym_name var)"
  shows "args_normal M (Binding var pos # args) (var # out) unifs lo hi"
proof -
  have "args_match M (Binding var pos # args) (var # out) ([] @ unifs)"
    by (rule args_match_Cons) (use assms in \<open>auto simp: args_normal_def sym_matches_def arg_matches_def\<close>)
  then show ?thesis using assms by (auto simp: args_normal_def syms_known_def args_solvable_def)
qed

lemma args_normal_ignored:
  assumes "args_normal M args out unifs (Suc lo) hi" "is_ignored var" "is_ignored kw"
  shows "args_normal M (Binding var pos # args) (kw # out) unifs lo hi"
proof -
  have "args_match M (Binding var pos # args) (kw # out) ([] @ unifs)"
    by (rule args_match_Cons) (use assms in \<open>auto simp: args_normal_def sym_matches_def arg_matches_def\<close>)
  moreover have "unifs_fresh unifs lo hi" "syms_known (kw # out) lo hi"
    using assms fresh_step(1)[of lo hi] by (auto simp: args_normal_def unifs_fresh_def syms_known_def)
  moreover have "args_solvable M (Binding var pos # args) unifs lo hi"
    using assms(1) agrees_off_mono[OF _ fresh_step(1)] unfolding args_normal_def args_solvable_def by fastforce
  ultimately show ?thesis using assms(1) by (simp add: args_normal_def)
qed

lemma args_solvable_fresh:
  assumes sol: "args_solvable M args unifs (Suc lo) hi" and fr: "unifs_fresh unifs (Suc lo) hi" and e: "user_expr e" and lt: "Suc lo \<le> hi"
    and kw: "sym_name kw = ''*'' @ dec_text (Suc lo)" and u: "un_binding u = kw" "un_expr u = e" "\<not> un_one_many u"
    and arg: "\<And>env. eval_named (mg_table M) env arg = eval_named (mg_table M) env e"
  shows "args_solvable M (arg # args) (u # unifs) lo hi"
  unfolding args_solvable_def
proof (intro allI impI)
  fix env assume d: "\<forall>e \<in> set (arg # args). \<exists>v. eval_named (mg_table M) env e = Inr v"
  then obtain w where w: "eval_named (mg_table M) env e = Inr w" using arg[of env] by auto
  have "\<exists>env'. agrees_off (fresh_names (Suc lo) hi) env env' \<and> (\<forall>u \<in> set unifs. unif_holds M env' u)"
    using sol d by (simp add: args_solvable_def)
  then obtain env' where e': "agrees_off (fresh_names (Suc lo) hi) env env'" "\<forall>u \<in> set unifs. unif_holds M env' u" by blast
  let ?e = "env'(sym_name kw := w)"
  have user: "?e x = env x" if "\<not> generated x" for x
    using that e'(1) fresh_generated[of x] by (auto simp: agrees_off_def kw generated_def)
  have "eval_named (mg_table M) ?e e = Inr w"
    using eval_named_reads[of e ?e env "mg_table M"] e user w by (simp add: user_expr_def)
  then have "unif_holds M ?e u" by (simp add: unif_holds_def u)
  moreover have "unif_holds M ?e v" if v: "v \<in> set unifs" for v
  proof -
    have f: "user_expr (un_expr v)" "sym_name (un_binding v) \<in> fresh_names (Suc lo) hi"
      using fr v by (auto simp: unifs_fresh_def)
    have "unif_holds M ?e v = unif_holds M env' v"
    proof (rule unif_holds_cong)
      show "?e x = env' x" if "x \<in> reads (un_expr v)" for x using f(1) that by (auto simp: user_expr_def kw generated_def)
      show "?e (sym_name (un_binding v)) = env' (sym_name (un_binding v))" using f(2) fresh_step(3)[of lo hi] by (auto simp: kw)
    qed
    with e'(2) v show ?thesis by simp
  qed
  moreover have "agrees_off (fresh_names lo hi) env ?e"
    using e'(1) fresh_step(1)[of lo hi] fresh_step(2)[OF lt] by (auto simp: agrees_off_def kw)
  ultimately show "\<exists>env'. agrees_off (fresh_names lo hi) env env' \<and> (\<forall>u \<in> set (u # unifs). unif_holds M env' u)"
    by (intro exI[of _ ?e]) simp
qed

lemma args_normal_fresh:
  assumes "args_normal M args out unifs (Suc lo) hi" "user_expr e"
    and kw: "sym_name kw = ''*'' @ dec_text (Suc lo)" and u: "un_binding u = kw" "un_expr u = e" "\<not> un_one_many u"
    and arg: "\<And>env v. arg_matches M env arg v \<longleftrightarrow> eval_named (mg_table M) env e = Inr v"
      "\<And>env. eval_named (mg_table M) env arg = eval_named (mg_table M) env e"
  shows "args_normal M (arg # args) (kw # out) (u # unifs) lo hi"
proof -
  have bounds: "Suc lo \<le> hi" "hi \<le> Suc lo + length args" using assms(1) by (simp_all add: args_normal_def)
  have ni: "\<not> is_ignored kw" by (simp add: is_ignored_def kw symbol_kind_of_def PROG_ENTRY_def)
  have "args_match M (arg # args) (kw # out) ([u] @ unifs)"
    by (rule args_match_Cons) (use assms(1) ni u arg(1) in \<open>auto simp: args_normal_def sym_matches_def unif_holds_def split: sum.splits\<close>)
  moreover have "unifs_fresh (u # unifs) lo hi" "syms_known (kw # out) lo hi"
    using assms fresh_step(1)[of lo hi] fresh_step(2)[OF bounds(1)] by (auto simp: args_normal_def unifs_fresh_def syms_known_def)
  moreover have "args_solvable M (arg # args) (u # unifs) lo hi"
    by (rule args_solvable_fresh) (use assms(1-2) kw u arg(2) bounds(1) in \<open>simp_all add: args_normal_def\<close>)
  ultimately show ?thesis using bounds by (simp add: args_normal_def)
qed

lemma unat_next: "unat (g :: temp_symb_gen) + n < 2 ^ 32 \<Longrightarrow> 0 < n \<Longrightarrow> unat (g + 1) = Suc (unat g)"
  by (simp add: unat_word_ariths(1))

lemma symb_next_eq:
  "unat g + n < 2 ^ 32 \<Longrightarrow> 0 < n \<Longrightarrow> symb_next sp g = (\<lparr>sym_name = ''*'' @ dec_text (Suc (unat g)), sym_span = sp\<rparr>, g + 1)"
  by (simp add: symb_next_def Let_def unat_next)

lemma ignored_generated: "is_ignored \<lparr>sym_name = ''~'' @ t, sym_span = sp\<rparr>"
  by (simp add: is_ignored_def symbol_kind_of_def PROG_ENTRY_def)

lemma normalize_args_spec:
  "normalize_args args seen g = (out, unifs, g') \<Longrightarrow> unat g + length args < 2 ^ 32 \<Longrightarrow> \<forall>e \<in> set args. user_expr e
     \<Longrightarrow> args_normal M args out unifs (unat g) (unat g')"
proof (induction args arbitrary: seen g out unifs)
  case Nil
  then show ?case by (auto simp: args_normal_def unifs_fresh_def syms_known_def args_match_def args_solvable_def agrees_off_def)
next
  case (Cons arg args)
  have nxt: "unat (g + 1) = Suc (unat g)" using Cons.prems(2) by (intro unat_next[of g "length (arg # args)"]) simp_all
  note next_eq = symb_next_eq[of g "length (arg # args)", OF Cons.prems(2)]
  have IH: "args_normal M args out' unifs' (Suc (unat g)) (unat g')" if "normalize_args args seen' (g + 1) = (out', unifs', g')" for seen' out' unifs'
    using Cons.IH[OF that] Cons.prems(2,3) nxt by simp
  show ?case
  proof (cases "\<exists>var pos. arg = Binding var pos")
    case True
    then obtain var pos where arg: "arg = Binding var pos" by blast
    have user: "\<not> generated (sym_name var)" using Cons.prems(3) by (simp add: arg user_expr_def)
    consider (ig) "is_ignored var" | (plain) "\<not> is_ignored var" "sym_name var \<notin> set seen" | (dup) "\<not> is_ignored var" "sym_name var \<in> set seen" by blast
    then show ?thesis
    proof cases
      case ig
      then obtain out' where o: "normalize_args args seen (g + 1) = (out', unifs, g')"
        "out = \<lparr>sym_name = ''~'' @ dec_text (unat (g + 1)), sym_span = sym_span var\<rparr> # out'"
        using Cons.prems(1) by (auto simp: arg symb_next_ignored_def Let_def split: prod.splits)
      show ?thesis unfolding o(2) arg by (rule args_normal_ignored[OF IH[OF o(1)] ig ignored_generated])
    next
      case plain
      obtain out' where o: "normalize_args args (set_insert (sym_name var) seen) g = (out', unifs, g')" "out = var # out'"
        using Cons.prems(1) plain by (auto simp: arg split: prod.splits)
      from Cons.IH[OF o(1)] Cons.prems(2,3) have "args_normal M args out' unifs (unat g) (unat g')" by simp
      from args_normal_plain[OF this plain(1) user] o(2) show ?thesis by (simp add: arg)
    next
      case dup
      obtain out' unifs' where o: "normalize_args args seen (g + 1) = (out', unifs', g')"
        "out = fst (symb_next (sym_span var) g) # out'"
        "unifs = \<lparr>un_binding = fst (symb_next (sym_span var) g), un_expr = Binding var Unresolved, un_one_many = False, un_span = sym_span var\<rparr> # unifs'"
        using Cons.prems(1) dup by (auto simp: arg next_eq split: prod.splits)
      show ?thesis unfolding o(2,3) arg
        by (rule args_normal_fresh[OF IH[OF o(1)], where e = "Binding var Unresolved"])
          (use user dup in \<open>auto simp: user_expr_def next_eq arg_matches_def\<close>)
    qed
  next
    case False
    obtain out' unifs' where o: "normalize_args args seen (g + 1) = (out', unifs', g')"
      "out = fst (symb_next (expr_span arg) g) # out'"
      "unifs = \<lparr>un_binding = fst (symb_next (expr_span arg) g), un_expr = arg, un_one_many = False, un_span = expr_span arg\<rparr> # unifs'"
      using Cons.prems(1) False by (cases arg) (auto simp: next_eq split: prod.splits)
    show ?thesis unfolding o(2,3)
      by (rule args_normal_fresh[OF IH[OF o(1)], where e = arg])
        (use Cons.prems(3) False in \<open>auto simp: next_eq arg_matches_def split: expr.split\<close>)
  qed
qed

end
