(* ===== verification/Normalize_Dnf.thy ===== *)
theory Normalize_Dnf
  imports Normalize_Meaning
begin

text \<open>
  The disjunctive normal form of a body denotes what the body does.
\<close>

section \<open>Folded predicates\<close>

lemma fold_lazy_Cons:
  assumes "fold_lazy op f (a # args) = Some (Inr args')"
  obtains a' r where "f a = Some a'" "args' = a' # r" "r = args \<or> fold_lazy op f args = Some (Inr r)"
proof -
  from assms obtain a' where a': "f a = Some a'" by (auto simp: bind_eq_Some_conv)
  show ?thesis
  proof (cases "get_const a'")
    case None
    with assms a' that[of a' args] show ?thesis by simp
  next
    case (Some c)
    show ?thesis
    proof (cases "lazy_decide op c")
      case Continue
      with assms a' Some obtain s where s: "fold_lazy op f args = Some s" "map_sum id ((#) a') s = Inr args'" by auto
      then show ?thesis using that[OF a'] by (cases s) auto
    qed (use assms a' Some that[of a' args] in auto)
  qed
qed

lemma fold_lazy_reads:
  assumes "\<And>a a'. a \<in> set args \<Longrightarrow> f a = Some a' \<Longrightarrow> reads a' \<subseteq> reads a"
  shows "fold_lazy op f args = Some (Inr args') \<Longrightarrow> \<Union> (reads ` set args') \<subseteq> \<Union> (reads ` set args)"
  using assms
proof (induction args arbitrary: args')
  case (Cons a args)
  obtain a' r where r: "f a = Some a'" "args' = a' # r" "r = args \<or> fold_lazy op f args = Some (Inr r)"
    by (rule fold_lazy_Cons[OF Cons.prems(1)])
  have "reads a' \<subseteq> reads a" using Cons.prems(2)[OF _ r(1)] by simp
  moreover have "\<Union> (reads ` set r) \<subseteq> \<Union> (reads ` set args)" using r(3) Cons.IH[of r] Cons.prems(2) by auto
  ultimately show ?case using r(2) by auto
qed simp

lemma partial_eval_reads: "partial_eval e = Some e' \<Longrightarrow> reads e' \<subseteq> reads e"
proof (induction e arbitrary: e' rule: partial_eval.induct)
  case (1 op args sp)
  from 1(2) obtain r where r: "fold_lazy op partial_eval args = Some r"
    "e' = (case r of Inl v \<Rightarrow> Const v sp | Inr args \<Rightarrow> Lazy op args sp)" by auto
  then show ?case using fold_lazy_reads[of args partial_eval op] 1(1) by (cases r) fastforce+
next
  case (2 op args sp)
  from 2(2) obtain args' where a: "fold_args partial_eval args = Some args'" "cancel_negation op args' sp = Some e'"
    by (auto simp: bind_eq_Some_conv)
  have "list_all2 (\<lambda>a a'. reads a' \<subseteq> reads a) args args'"
    using a(1) unfolding fold_args_iff by (rule list.rel_mono_strong) (use 2(1) in blast)
  then have "\<Union> (reads ` set args') \<subseteq> \<Union> (reads ` set args)" by (induction rule: list_all2_induct) auto
  moreover have "reads e' \<subseteq> \<Union> (reads ` set args')"
    using a(2) by (auto simp: cancel_negation_def split: list.splits expr.splits if_splits)
  ultimately show ?case by auto
qed auto

section \<open>Leaves\<close>

definition arg_ok :: "meaning \<Rightarrow> assignment \<Rightarrow> expr \<Rightarrow> bool" where
  "arg_ok M env e \<longleftrightarrow> user_expr e \<and> (\<exists>v. eval_named (mg_table M) env e = Inr v)"

definition extra_user :: "validity_clause option \<Rightarrow> bool" where
  "extra_user validity \<longleftrightarrow> (\<forall>x. Option.bind validity extra_var = Some x \<longrightarrow> \<not> generated (sym_name x))"

fun leaf_ok :: "meaning \<Rightarrow> assignment \<Rightarrow> input_atom \<Rightarrow> bool" where
  "leaf_ok M env (ARule r) = list_all (arg_ok M env) (ir_args r)"
| "leaf_ok M env (ARelation r) = (list_all (arg_ok M env) (il_args r) \<and> extra_user (il_validity r))"
| "leaf_ok M env (ANamedFieldRelation r) =
     (list_all (\<lambda>e. arg_ok M env (snd e)) (in_args r) \<and> extra_user (in_validity r)
      \<and> (case mg_schema M (sym_name (in_name r)) of Inl _ \<Rightarrow> True | Inr md \<Rightarrow> distinct (md_keys md @ md_non_keys md)))"
| "leaf_ok M env (APredicate p) = (user_expr p \<and> (\<exists>b. eval_named (mg_table M) env p = Inr (DBool b)))"
| "leaf_ok M env (AUnification u) = (user_expr (un_expr u) \<and> \<not> generated (sym_name (un_binding u)))"
| "leaf_ok M env (ASearch _) = False"
| "leaf_ok M env _ = True"

text \<open>At most how many names an atom needs generated.\<close>

fun leaf_gens :: "meaning \<Rightarrow> input_atom \<Rightarrow> nat" where
  "leaf_gens M (ARule r) = length (ir_args r)"
| "leaf_gens M (ARelation r) = length (il_args r)"
| "leaf_gens M (ANamedFieldRelation r) =
     (case mg_schema M (sym_name (in_name r)) of Inl _ \<Rightarrow> 0 | Inr md \<Rightarrow> 2 * length (md_keys md @ md_non_keys md))"
| "leaf_gens M _ = 0"

definition gens :: "meaning \<Rightarrow> input_atom \<Rightarrow> nat" where
  "gens M a = sum_list (map (leaf_gens M) (leaves a))"

definition atom_ok :: "meaning \<Rightarrow> assignment \<Rightarrow> input_atom \<Rightarrow> bool" where
  "atom_ok M env a \<longleftrightarrow> list_all (leaf_ok M env) (leaves a)"

text \<open>An application with its arguments rewritten.\<close>

lemma sym_matches_local:
  assumes "syms_known out lo hi" "\<And>x. \<not> generated x \<or> x \<in> fresh_names lo hi \<Longrightarrow> env' x = env x"
  shows "list_all2 (sym_matches env') out vals = list_all2 (sym_matches env) out vals"
proof (rule list.rel_cong[OF refl refl])
  fix a v assume a: "a \<in> set out" "v \<in> set vals"
  then have "is_ignored a \<or> env' (sym_name a) = env (sym_name a)" using assms unfolding syms_known_def by metis
  then show "sym_matches env' a v = sym_matches env a v" by (auto simp: sym_matches_def)
qed

lemma unifs_local:
  assumes "unifs_fresh unifs lo hi" "\<And>x. \<not> generated x \<or> x \<in> fresh_names lo hi \<Longrightarrow> env' x = env x" "u \<in> set unifs"
  shows "unif_holds M env' u = unif_holds M env u"
  using assms by (intro unif_holds_cong) (auto simp: unifs_fresh_def user_expr_def)

lemma arg_matches_user:
  assumes "\<And>x. \<not> generated x \<Longrightarrow> env' x = env x" "user_expr e"
  shows "arg_matches M env' e v = arg_matches M env e v"
proof -
  have "eval_named (mg_table M) env' e = eval_named (mg_table M) env e"
    by (rule eval_named_reads) (use assms in \<open>auto simp: user_expr_def\<close>)
  with assms show ?thesis by (cases e) (auto simp del: eval_named.simps simp: arg_matches_def user_expr_def)
qed

lemma apply_denotes:
  fixes app :: "'c nf_atom"
  assumes norm: "args_normal M args out unifs lo hi" and ok: "\<And>e. e \<in> set args \<Longrightarrow> arg_ok M env e"
    and app: "\<And>e. nf_holds M e app \<longleftrightarrow> (\<exists>vals. list_all2 (sym_matches e) out vals \<and> Q e vals) \<noteq> neg"
    and Q: "\<And>e e' vals. (\<And>x. \<not> generated x \<Longrightarrow> e' x = e x) \<Longrightarrow> Q e' vals = Q e vals"
  shows "denotes M env (fresh_names lo hi) [map NUnification unifs @ [app]]
    ((\<exists>vals. list_all2 (arg_matches M env) args vals \<and> Q env vals) \<noteq> neg)"
proof -
  let ?L = "fresh_names lo hi"
  have ch: "conj_holds M e (map NUnification unifs @ [app]) \<longleftrightarrow> (\<forall>u \<in> set unifs. unif_holds M e u)
      \<and> (\<exists>vals. list_all2 (sym_matches e) out vals \<and> Q e vals) \<noteq> neg" for e
    by (simp add: conj_holds_def app list_all_iff conj_commute)
  have n: "unifs_fresh unifs lo hi" "syms_known out lo hi" "args_match M args out unifs" "args_solvable M args unifs lo hi"
    using norm by (simp_all add: args_normal_def)
  have loc: "conj_local M ?L (map NUnification unifs @ [app])"
  proof (rule conj_localI)
    fix e e' :: assignment assume a: "\<And>x. \<not> generated x \<or> x \<in> ?L \<Longrightarrow> e' x = e x"
    have "(\<forall>u \<in> set unifs. unif_holds M e' u) \<longleftrightarrow> (\<forall>u \<in> set unifs. unif_holds M e u)" using unifs_local[where env' = e' and env = e, OF n(1) a] by blast
    moreover have sm: "list_all2 (sym_matches e') out vals = list_all2 (sym_matches e) out vals" for vals
      by (rule sym_matches_local[OF n(2)]) (rule a)
    moreover have "Q e' vals = Q e vals" for vals by (rule Q[of e' e]) (use a in blast)
    ultimately show "conj_holds M e' (map NUnification unifs @ [app]) = conj_holds M e (map NUnification unifs @ [app])"
      by (simp add: ch sm)
  qed
  have same: "conj_holds M e (map NUnification unifs @ [app])
      \<longleftrightarrow> (\<exists>vals. list_all2 (arg_matches M env) args vals \<and> Q env vals) \<noteq> neg"
    if e: "agrees_off ?L env e" "\<forall>u \<in> set unifs. unif_holds M e u" for e
  proof -
    have user: "\<And>x. \<not> generated x \<Longrightarrow> e x = env x" using e(1) fresh_generated by (auto simp: agrees_off_def)
    have "list_all2 (arg_matches M e) args vals = list_all2 (arg_matches M env) args vals" for vals
      by (rule list.rel_cong[OF refl refl]) (use arg_matches_user[where env' = e and env = env, OF user] ok in \<open>auto simp: arg_ok_def\<close>)
    then have "list_all2 (sym_matches e) out vals = list_all2 (arg_matches M env) args vals" for vals
      using n(3) e(2) by (simp add: args_match_def)
    moreover have "Q e vals = Q env vals" for vals by (rule Q[of e env]) (rule user)
    ultimately show ?thesis using e(2) by (simp add: ch)
  qed
  obtain e0 where "agrees_off ?L env e0" "\<forall>u \<in> set unifs. unif_holds M e0 u"
    using n(4) ok unfolding args_solvable_def arg_ok_def by blast
  with same have "((\<exists>vals. list_all2 (arg_matches M env) args vals \<and> Q env vals) \<noteq> neg)
      \<longleftrightarrow> (\<exists>e. agrees_off ?L env e \<and> conj_holds M e (map NUnification unifs @ [app]))"
    by (metis ch)
  then show ?thesis using loc fresh_generated by (auto simp: denotes_def)
qed

text \<open>A step of the normal form from counter \<open>g\<close> to \<open>g'\<close>.\<close>

definition dnf_step :: "meaning \<Rightarrow> assignment \<Rightarrow> nat \<Rightarrow> temp_symb_gen \<Rightarrow> temp_symb_gen \<Rightarrow> 'c nf_atom list list \<Rightarrow> bool \<Rightarrow> bool" where
  "dnf_step M env n g g' D P \<longleftrightarrow> unat g \<le> unat g' \<and> unat g' \<le> unat g + n \<and> denotes M env (fresh_names (unat g) (unat g')) D P"

lemma relation_holds_user:
  assumes "extra_user validity" "\<And>x. \<not> generated x \<Longrightarrow> e' x = e x"
  shows "relation_holds M e' name validity vals = relation_holds M e name validity vals"
  using assms by (cases "Option.bind validity extra_var") (simp_all add: relation_holds_def extra_user_def)

lemma rule_step:
  assumes "normalize_rule_apply r neg g = (D, g')" "list_all (arg_ok M env) (ir_args r)" "unat g + length (ir_args r) < 2 ^ 32"
  shows "dnf_step M env (length (ir_args r)) g g' D (leaf_holds M env (ARule r) \<noteq> neg)"
proof -
  obtain out unifs where o: "normalize_args (ir_args r) [] g = (out, unifs, g')"
    "D = [map NUnification unifs @ [if neg then NNegatedRule \<lparr>ra_name = ir_name r, ra_args = out, ra_span = ir_span r\<rparr>
        else NRule \<lparr>ra_name = ir_name r, ra_args = out, ra_span = ir_span r\<rparr>]]"
    using assms(1) by (auto simp: normalize_rule_apply_def Let_def split: prod.splits)
  have n: "args_normal M (ir_args r) out unifs (unat g) (unat g')"
    by (rule normalize_args_spec[OF o(1) assms(3)]) (use assms(2) in \<open>auto simp: list_all_iff arg_ok_def\<close>)
  have "denotes M env (fresh_names (unat g) (unat g')) D
    ((\<exists>vals. list_all2 (arg_matches M env) (ir_args r) vals \<and> mg_rule M (sym_name (ir_name r)) vals) \<noteq> neg)"
    unfolding o(2) by (rule apply_denotes[OF n]) (use assms(2) in \<open>auto simp: list_all_iff\<close>)
  then show ?thesis using n by (simp add: dnf_step_def args_normal_def)
qed

lemma relation_step:
  assumes "normalize_relation_apply r neg g = (D, g')" "\<And>e. e \<in> set (il_args r) \<Longrightarrow> arg_ok M env e"
    "unat g + length (il_args r) < 2 ^ 32" "extra_user (il_validity r)"
  shows "dnf_step M env (length (il_args r)) g g' D (leaf_holds M env (ARelation r) \<noteq> neg)"
proof -
  obtain out unifs where o: "normalize_args (il_args r) [] g = (out, unifs, g')"
    "D = [map NUnification unifs @ [if neg then NNegatedRelation \<lparr>rl_name = il_name r, rl_args = out, rl_validity = il_validity r, rl_span = il_span r\<rparr>
        else NRelation \<lparr>rl_name = il_name r, rl_args = out, rl_validity = il_validity r, rl_span = il_span r\<rparr>]]"
    using assms(1) by (auto simp: normalize_relation_apply_def Let_def split: prod.splits)
  have n: "args_normal M (il_args r) out unifs (unat g) (unat g')"
    by (rule normalize_args_spec[OF o(1) assms(3)]) (use assms(2) in \<open>auto simp: arg_ok_def\<close>)
  have "denotes M env (fresh_names (unat g) (unat g')) D
    ((\<exists>vals. list_all2 (arg_matches M env) (il_args r) vals \<and> relation_holds M env (il_name r) (il_validity r) vals) \<noteq> neg)"
    unfolding o(2)
  proof (rule apply_denotes[OF n assms(2)])
    fix e e' :: assignment and vals assume "\<And>x. \<not> generated x \<Longrightarrow> e' x = e x"
    then show "relation_holds M e' (il_name r) (il_validity r) vals = relation_holds M e (il_name r) (il_validity r) vals"
      by (rule relation_holds_user[OF assms(4)])
  qed simp_all
  then show ?thesis using n by (simp add: dnf_step_def args_normal_def)
qed

text \<open>Named fields against the columns of the relation.\<close>

definition column_arg :: "(string, expr) entries \<Rightarrow> string \<Rightarrow> expr \<Rightarrow> bool" where
  "column_arg args col e = (case bt_get args col of
     Some arg \<Rightarrow> e = arg
   | None \<Rightarrow> \<exists>var. e = Binding var Unresolved \<and> is_ignored var \<and> \<not> generated (sym_name var))"

lemma named_args_spec:
  "named_args cols args sp g = (new, g') \<Longrightarrow> distinct cols \<Longrightarrow> unat g + length cols < 2 ^ 32
     \<Longrightarrow> list_all2 (column_arg args) cols new \<and> unat g \<le> unat g' \<and> unat g' \<le> unat g + length cols"
proof (induction cols arbitrary: args g new)
  case (Cons col cols)
  show ?case
  proof (cases "bt_get args col")
    case None
    obtain rest where r: "named_args cols args sp (g + 1) = (rest, g')"
      "new = Binding \<lparr>sym_name = ''~'' @ dec_text (unat (g + 1)), sym_span = sp\<rparr> Unresolved # rest"
      using Cons.prems(1) None by (auto simp: symb_next_ignored_def Let_def split: prod.splits)
    have nxt: "unat (g + 1) = Suc (unat g)" using Cons.prems(3) by (intro unat_next[of g "length (col # cols)"]) simp_all
    from Cons.IH[OF r(1)] Cons.prems(2,3) nxt None r(2) ignored_generated show ?thesis
      by (auto simp: column_arg_def generated_def)
  next
    case (Some arg)
    obtain rest where r: "named_args cols (bt_remove col args) sp g = (rest, g')" "new = arg # rest"
      using Cons.prems(1) Some by (auto split: prod.splits)
    have "list_all2 (column_arg (bt_remove col args)) cols rest = list_all2 (column_arg args) cols rest"
      by (rule list.rel_cong[OF refl refl]) (use Cons.prems(2) in \<open>auto simp: column_arg_def bt_get_remove split: option.splits\<close>)
    moreover have "column_arg args col arg" by (simp add: column_arg_def Some)
    ultimately show ?thesis using Cons.IH[OF r(1)] Cons.prems(2,3) r(2) by simp
  qed
qed simp

lemma column_arg_matches:
  "column_arg args col e \<Longrightarrow> arg_matches M env e v = named_matches M env args col v"
  by (auto simp: column_arg_def named_matches_def arg_matches_def split: option.splits)

lemma column_args_match:
  "list_all2 (column_arg args) cols new \<Longrightarrow> list_all2 (arg_matches M env) new vals = list_all2 (named_matches M env args) cols vals"
proof (induction arbitrary: vals rule: list_all2_induct)
  case (Cons col cols e es)
  then show ?case by (cases vals) (simp_all add: column_arg_matches)
qed simp

lemma column_arg_ok:
  assumes "column_arg args col e" "list_all (\<lambda>e. arg_ok M env (snd e)) args"
  shows "arg_ok M env e"
proof (cases "bt_get args col")
  case None
  with assms(1) show ?thesis by (auto simp: column_arg_def arg_ok_def user_expr_def)
next
  case (Some arg)
  then have "(col, arg) \<in> set args" by (auto simp: bt_get_def dest: map_of_SomeD)
  with assms Some show ?thesis by (auto simp: column_arg_def list_all_iff)
qed

lemma nbind_eq_Inr: "nbind r f = Some (Inr b) \<longleftrightarrow> (\<exists>a g. r = Some (Inr (a, g)) \<and> f a g = Some (Inr b))"
  by (auto simp: nbind_def split: option.splits sum.splits)

lemma named_step:
  assumes "convert_named_field_relation (mg_schema M) r g = Inr (rel, g1)" "normalize_relation_apply rel neg g1 = (D, g')"
    "leaf_ok M env (ANamedFieldRelation r)" "unat g + leaf_gens M (ANamedFieldRelation r) < 2 ^ 32"
  shows "dnf_step M env (leaf_gens M (ANamedFieldRelation r)) g g' D (leaf_holds M env (ANamedFieldRelation r) \<noteq> neg)"
proof -
  obtain md where md: "mg_schema M (sym_name (in_name r)) = Inr md"
    using assms(1) by (auto simp: convert_named_field_relation_def rbind_eq_Inr)
  let ?cols = "md_keys md @ md_non_keys md"
  obtain new where new: "named_args ?cols (in_args r) (in_span r) g = (new, g1)"
    "rel = \<lparr>il_name = in_name r, il_args = new, il_validity = in_validity r, il_span = in_span r\<rparr>"
    using assms(1) md by (auto simp: convert_named_field_relation_def rbind_eq_Inr Let_def split: option.splits prod.splits)
  have ok: "distinct ?cols" "list_all (\<lambda>e. arg_ok M env (snd e)) (in_args r)" "extra_user (in_validity r)" using assms(3) md by simp_all
  have g: "unat g + 2 * length ?cols < 2 ^ 32" using assms(4) md by simp
  from named_args_spec[OF new(1) ok(1)] g have sp: "list_all2 (column_arg (in_args r)) ?cols new" "unat g \<le> unat g1" "unat g1 \<le> unat g + length ?cols"
    by simp_all
  have len: "length new = length ?cols" by (rule list_all2_lengthD[OF sp(1), symmetric])
  have step: "dnf_step M env (length (il_args rel)) g1 g' D (leaf_holds M env (ARelation rel) \<noteq> neg)"
  proof (rule relation_step[OF assms(2)])
    fix e assume "e \<in> set (il_args rel)"
    then obtain col where "column_arg (in_args r) col e" using sp(1) by (auto simp: new(2) list_all2_conv_all_nth in_set_conv_nth)
    then show "arg_ok M env e" by (rule column_arg_ok[OF _ ok(2)])
  qed (use g sp(3) len ok(3) in \<open>simp_all add: new(2)\<close>)
  have holds: "leaf_holds M env (ARelation rel) = leaf_holds M env (ANamedFieldRelation r)"
    using md by (simp add: new(2) column_args_match[OF sp(1)])
  have den: "denotes M env (fresh_names (unat g1) (unat g')) D (leaf_holds M env (ANamedFieldRelation r) \<noteq> neg)"
    using step by (simp only: dnf_step_def holds)
  have "denotes M env (fresh_names (unat g) (unat g')) D (leaf_holds M env (ANamedFieldRelation r) \<noteq> neg)"
  proof (rule denotes_mono[OF den])
    show "fresh_names (unat g1) (unat g') \<subseteq> fresh_names (unat g) (unat g')" using sp(2) by (auto simp: fresh_names_def)
    show "\<forall>x \<in> fresh_names (unat g) (unat g'). generated x" using fresh_generated by blast
  qed
  moreover have "unat g1 \<le> unat g'" "unat g' \<le> unat g1 + length new" using step by (simp_all add: dnf_step_def new(2))
  ultimately show ?thesis using sp(2,3) len md by (simp add: dnf_step_def)
qed

lemma denotes_local:
  assumes "\<And>e e'. (\<And>x. \<not> generated x \<Longrightarrow> e' x = e x) \<Longrightarrow> nf_holds M e' a = nf_holds M e a" "nf_holds M env a \<longleftrightarrow> P"
  shows "denotes M env {} [[a]] P"
proof -
  have "conj_local M {} [a]"
  proof (rule conj_localI)
    fix e e' :: assignment assume same: "\<And>x. \<not> generated x \<or> x \<in> {} \<Longrightarrow> e' x = e x"
    have "nf_holds M e' a = nf_holds M e a" by (rule assms(1)) (rule same, blast)
    then show "conj_holds M e' [a] = conj_holds M e [a]" by (simp add: conj_holds_def)
  qed
  moreover have "agrees_off {} env e \<longleftrightarrow> e = env" for e by (auto simp: agrees_off_def fun_eq_iff)
  ultimately show ?thesis using assms(2) by (auto simp: denotes_def conj_holds_def)
qed

section \<open>Bodies\<close>

lemma gens_simps [simp]:
  "gens M (AConjunction inner sp) = sum_list (map (gens M) inner)" "gens M (ADisjunction inner sp) = sum_list (map (gens M) inner)"
  "gens M (ANegation a sp) = gens M a"
proof -
  have "sum_list (map (leaf_gens M) (concat (map leaves inner))) = sum_list (map (gens M) inner)" for inner
    by (induction inner) (simp_all add: gens_def)
  then show "gens M (AConjunction inner sp) = sum_list (map (gens M) inner)" "gens M (ADisjunction inner sp) = sum_list (map (gens M) inner)"
    by (simp_all add: gens_def)
qed (simp add: gens_def)

lemma atom_ok_simps [simp]:
  "atom_ok M env (AConjunction inner sp) = list_all (atom_ok M env) inner" "atom_ok M env (ADisjunction inner sp) = list_all (atom_ok M env) inner"
  "atom_ok M env (ANegation a sp) = atom_ok M env a"
  by (auto simp: atom_ok_def list_all_iff)

lemma dnf_step_join:
  assumes "unat g \<le> unat g1" "unat g1 \<le> unat g2" "denotes M env (fresh_names (unat g) (unat g1)) D P" "denotes M env (fresh_names (unat g1) (unat g2)) E Q"
  shows "denotes M env (fresh_names (unat g) (unat g2)) (D @ E) (P \<or> Q)"
    "denotes M env (fresh_names (unat g) (unat g2)) (conjunct_disjunctions D E) (P \<and> Q)"
proof -
  have j: "fresh_names (unat g) (unat g2) = fresh_names (unat g) (unat g1) \<union> fresh_names (unat g1) (unat g2)" by (rule fresh_join[OF assms(1,2)])
  have gen: "\<forall>x \<in> fresh_names (unat g) (unat g2). generated x" using fresh_generated by blast
  have "denotes M env (fresh_names (unat g) (unat g2)) D P" by (rule denotes_mono[OF assms(3) _ gen]) (simp add: j)
  moreover have "denotes M env (fresh_names (unat g) (unat g2)) E Q" by (rule denotes_mono[OF assms(4) _ gen]) (simp add: j)
  ultimately show "denotes M env (fresh_names (unat g) (unat g2)) (D @ E) (P \<or> Q)" by (rule denotes_append)
  show "denotes M env (fresh_names (unat g) (unat g2)) (conjunct_disjunctions D E) (P \<and> Q)"
    unfolding j by (rule denotes_conjunct[OF assms(3,4) fresh_disjoint])
qed

definition dnf_spec :: "meaning \<Rightarrow> assignment \<Rightarrow> 'c search_resolver \<Rightarrow> input_atom \<Rightarrow> temp_symb_gen \<Rightarrow> bool" where
  "dnf_spec M env rs a g \<longleftrightarrow> (\<forall>D g'. do_disjunctive_normal_form (mg_schema M) rs a g = Some (Inr (D, g')) \<longrightarrow> in_nnf a \<longrightarrow> atom_ok M env a
     \<longrightarrow> unat g + gens M a < 2 ^ 32 \<longrightarrow> dnf_step M env (gens M a) g g' D (atom_holds M env a))"

text \<open>For a list: its disjunction, and its conjunction after what came before.\<close>

definition dnf_list :: "meaning \<Rightarrow> assignment \<Rightarrow> temp_symb_gen \<Rightarrow> temp_symb_gen \<Rightarrow> 'c nf_atom list list list \<Rightarrow> input_atom list \<Rightarrow> bool" where
  "dnf_list M env g g' Ds as \<longleftrightarrow> unat g \<le> unat g' \<and> unat g' \<le> unat g + sum_list (map (gens M) as)
     \<and> denotes M env (fresh_names (unat g) (unat g')) (concat Ds) (list_ex (atom_holds M env) as)
     \<and> (\<forall>(g0 :: temp_symb_gen) R P. unat g0 \<le> unat g \<longrightarrow> denotes M env (fresh_names (unat g0) (unat g)) R P
          \<longrightarrow> denotes M env (fresh_names (unat g0) (unat g')) (foldl conjunct_disjunctions R Ds) (P \<and> list_all (atom_holds M env) as))"

lemma dnf_list_Cons:
  assumes "dnf_step M env (gens M a) g g1 D (atom_holds M env a)" "dnf_list M env g1 g' Ds as"
  shows "dnf_list M env g g' (D # Ds) (a # as)"
proof -
  have b: "unat g \<le> unat g1" "unat g1 \<le> unat g + gens M a" "denotes M env (fresh_names (unat g) (unat g1)) D (atom_holds M env a)"
    using assms(1) by (simp_all add: dnf_step_def)
  have c: "unat g1 \<le> unat g'" "unat g' \<le> unat g1 + sum_list (map (gens M) as)"
    "denotes M env (fresh_names (unat g1) (unat g')) (concat Ds) (list_ex (atom_holds M env) as)"
    using assms(2) by (simp_all add: dnf_list_def)
  have "denotes M env (fresh_names (unat g0) (unat g')) (foldl conjunct_disjunctions R (D # Ds)) (P \<and> list_all (atom_holds M env) (a # as))"
    if "unat g0 \<le> unat g" "denotes M env (fresh_names (unat g0) (unat g)) R P" for g0 :: temp_symb_gen and R P
  proof -
    have "denotes M env (fresh_names (unat g0) (unat g1)) (conjunct_disjunctions R D) (P \<and> atom_holds M env a)"
      by (rule dnf_step_join(2)[OF that(1) b(1) that(2) b(3)])
    moreover have "unat g0 \<le> unat g1" using that(1) b(1) by simp
    ultimately have "denotes M env (fresh_names (unat g0) (unat g')) (foldl conjunct_disjunctions (conjunct_disjunctions R D) Ds)
        ((P \<and> atom_holds M env a) \<and> list_all (atom_holds M env) as)"
      using assms(2) unfolding dnf_list_def by blast
    then show ?thesis by (simp add: conj_assoc)
  qed
  moreover have "denotes M env (fresh_names (unat g) (unat g')) (concat (D # Ds)) (list_ex (atom_holds M env) (a # as))"
    using dnf_step_join(1)[OF b(1) c(1) b(3) c(3)] by simp
  ultimately show ?thesis using b(1,2) c(1,2) by (simp add: dnf_list_def)
qed

lemma dnf_list_Nil: "dnf_list M env g g [] []"
  by (simp add: dnf_list_def denotes_Nil)

lemma dnf_leaf_step:
  assumes "\<And>e e'. (\<And>x. \<not> generated x \<Longrightarrow> e' x = e x) \<Longrightarrow> nf_holds M e' a = nf_holds M e a" "nf_holds M env a \<longleftrightarrow> P"
  shows "dnf_step M env n g g [[a]] P"
proof -
  have "denotes M env {} [[a]] P" by (rule denotes_local) (fact assms)+
  then show ?thesis by (simp add: dnf_step_def)
qed

lemma predicate_user:
  assumes "user_expr p" "\<And>x. \<not> generated x \<Longrightarrow> e' x = e x"
  shows "eval_named table e' p = eval_named table e p"
  by (rule eval_named_reads) (use assms in \<open>auto simp: user_expr_def\<close>)

lemma predicate_step:
  assumes "partial_eval p = Some p'" "leaf_ok M env (APredicate p)" "negates M"
  shows "dnf_step M env n g g [[NPredicate p']] (leaf_holds M env (APredicate p))"
proof (rule dnf_leaf_step)
  have u: "user_expr p'" using partial_eval_reads[OF assms(1)] assms(2) by (auto simp: user_expr_def)
  fix e e' :: assignment assume same: "\<And>x. \<not> generated x \<Longrightarrow> e' x = e x"
  have "eval_named (mg_table M) e' p' = eval_named (mg_table M) e p'" by (rule predicate_user[OF u]) (rule same)
  then show "nf_holds M e' (NPredicate p') = nf_holds M e (NPredicate p')" by simp
next
  obtain b where b: "eval_named (mg_table M) env p = Inr (DBool b)" using assms(2) by auto
  have "eval_named (mg_table M) env p' = Inr (DBool b)"
    using by_name.folded_value[OF _ assms(1) b] assms(3) by (simp add: negates_def)
  with b show "nf_holds M env (NPredicate p') = leaf_holds M env (APredicate p)" by simp
qed

lemma unification_step:
  assumes "leaf_ok M env (AUnification u)"
  shows "dnf_step M env n g g [[NUnification u]] (unif_holds M env u)"
proof (rule dnf_leaf_step)
  fix e e' :: assignment assume same: "\<And>x. \<not> generated x \<Longrightarrow> e' x = e x"
  have "unif_holds M e' u = unif_holds M e u" by (rule unif_holds_cong) (rule same, use assms in \<open>auto simp: user_expr_def\<close>)+
  then show "nf_holds M e' (NUnification u) = nf_holds M e (NUnification u)" by simp
qed simp

definition dnf_args_spec :: "meaning \<Rightarrow> assignment \<Rightarrow> 'c search_resolver \<Rightarrow> input_atom list \<Rightarrow> temp_symb_gen \<Rightarrow> bool" where
  "dnf_args_spec M env rs as g \<longleftrightarrow> (\<forall>Ds g'. dnf_args (mg_schema M) rs as g = Some (Inr (Ds, g')) \<longrightarrow> list_all in_nnf as
     \<longrightarrow> list_all (atom_ok M env) as \<longrightarrow> unat g + sum_list (map (gens M) as) < 2 ^ 32 \<longrightarrow> dnf_list M env g g' Ds as)"

lemma dnf_args_specD:
  assumes "dnf_args_spec M env rs as g" "dnf_args (mg_schema M) rs as g = Some (Inr (Ds, g'))" "list_all in_nnf as"
    "list_all (atom_ok M env) as" "unat g + sum_list (map (gens M) as) < 2 ^ 32"
  shows "dnf_list M env g g' Ds as"
  using assms unfolding dnf_args_spec_def by blast

lemma conjunct_unit: "conjunct_disjunctions [[]] D = D"
  by (simp add: conjunct_disjunctions_def map_idI)

lemma dnf_disjunction:
  assumes "dnf_args_spec M env rs inner g"
  shows "dnf_spec M env rs (ADisjunction inner sp) g"
  unfolding dnf_spec_def
proof (intro allI impI)
  fix D g' assume a: "do_disjunctive_normal_form (mg_schema M) rs (ADisjunction inner sp) g = Some (Inr (D, g'))"
    "in_nnf (ADisjunction inner sp)" "atom_ok M env (ADisjunction inner sp)" "unat g + gens M (ADisjunction inner sp) < 2 ^ 32"
  from a(1) obtain Ds where d: "dnf_args (mg_schema M) rs inner g = Some (Inr (Ds, g'))" "D = concat Ds" by (auto simp: nbind_eq_Inr)
  from dnf_args_specD[OF assms d(1)] a(2-4) have "dnf_list M env g g' Ds inner" by simp
  then show "dnf_step M env (gens M (ADisjunction inner sp)) g g' D (atom_holds M env (ADisjunction inner sp))"
    by (simp add: dnf_list_def dnf_step_def d(2))
qed

lemma dnf_conjunction:
  assumes "dnf_args_spec M env rs inner g"
  shows "dnf_spec M env rs (AConjunction inner sp) g"
  unfolding dnf_spec_def
proof (intro allI impI)
  fix D g' assume a: "do_disjunctive_normal_form (mg_schema M) rs (AConjunction inner sp) g = Some (Inr (D, g'))"
    "in_nnf (AConjunction inner sp)" "atom_ok M env (AConjunction inner sp)" "unat g + gens M (AConjunction inner sp) < 2 ^ 32"
  from a(1) obtain as g1 where n: "dnf_args (mg_schema M) rs inner g = Some (Inr (as, g1))"
    "(case as of [] \<Rightarrow> Some (Inl EmptyConjunction) | r # ds \<Rightarrow> Some (Inr (foldl conjunct_disjunctions r ds, g1))) = Some (Inr (D, g'))"
    by (auto simp: nbind_eq_Inr)
  then obtain r Ds where d: "dnf_args (mg_schema M) rs inner g = Some (Inr (r # Ds, g'))" "D = foldl conjunct_disjunctions [[]] (r # Ds)"
    by (cases as) (simp_all add: conjunct_unit)
  from dnf_args_specD[OF assms d(1)] a(2-4) have l: "dnf_list M env g g' (r # Ds) inner" by simp
  have "denotes M env (fresh_names (unat g) (unat g)) [[]] True" using denotes_unit by simp
  with l have "denotes M env (fresh_names (unat g) (unat g')) D (True \<and> list_all (atom_holds M env) inner)"
    unfolding dnf_list_def d(2) by blast
  then show "dnf_step M env (gens M (AConjunction inner sp)) g g' D (atom_holds M env (AConjunction inner sp))"
    using l by (simp add: dnf_list_def dnf_step_def)
qed

lemma gens_leaf: "leaves a = [a] \<Longrightarrow> gens M a = leaf_gens M a"
  by (simp add: gens_def)

lemma dnf_named:
  fixes rs :: "'c search_resolver"
  shows "dnf_spec M env rs (ANamedFieldRelation r) g" "dnf_spec M env rs (ANegation (ANamedFieldRelation r) sp) g"
proof -
  have run: "dnf_step M env (leaf_gens M (ANamedFieldRelation r)) g g' D (leaf_holds M env (ANamedFieldRelation r) \<noteq> ng)"
    if "nbind (Some (convert_named_field_relation (mg_schema M) r g)) (\<lambda>r g. Some (Inr (normalize_relation_apply r ng g))) = Some (Inr (D, g'))"
      "leaf_ok M env (ANamedFieldRelation r)" "unat g + leaf_gens M (ANamedFieldRelation r) < 2 ^ 32" for ng g' and D :: "'c nf_atom list list"
  proof -
    from that(1) obtain rel g1 where n: "convert_named_field_relation (mg_schema M) r g = Inr (rel, g1)" "normalize_relation_apply rel ng g1 = (D, g')"
      by (auto simp: nbind_eq_Inr)
    show ?thesis by (rule named_step[OF n that(2,3)])
  qed
  have leaf: "atom_ok M env (ANamedFieldRelation r) = leaf_ok M env (ANamedFieldRelation r)" "gens M (ANamedFieldRelation r) = leaf_gens M (ANamedFieldRelation r)"
    by (simp_all add: atom_ok_def gens_def)
  show "dnf_spec M env rs (ANamedFieldRelation r) g"
    unfolding dnf_spec_def leaf using run[of False] by (simp del: leaf_ok.simps leaf_gens.simps leaf_holds.simps)
  show "dnf_spec M env rs (ANegation (ANamedFieldRelation r) sp) g"
    unfolding dnf_spec_def atom_ok_simps gens_simps leaf using run[of True] by (simp del: leaf_ok.simps leaf_gens.simps leaf_holds.simps)
qed

lemma dnf_application:
  assumes "a \<in> {ARule r, ARelation rl, ANamedFieldRelation rn}"
  shows "dnf_spec M env rs a g \<and> dnf_spec M env rs (ANegation a sp) g"
proof -
  consider "a = ARule r" | "a = ARelation rl" | "a = ANamedFieldRelation rn" using assms by blast
  then show ?thesis
  proof cases
    case 1
    then show ?thesis
      using rule_step[of r False g] rule_step[of r True g] by (auto simp: dnf_spec_def atom_ok_def gens_def)
  next
    case 2
    then show ?thesis
      using relation_step[of rl False g _ _ M env] relation_step[of rl True g _ _ M env]
      by (auto simp: dnf_spec_def atom_ok_def gens_def list_all_iff)
  next
    case 3
    show ?thesis unfolding 3 by (intro conjI dnf_named)
  qed
qed

lemma dnf_predicate:
  assumes "negates M"
  shows "dnf_spec M env rs (APredicate p) g"
  unfolding dnf_spec_def
proof (intro allI impI)
  fix D g' assume a: "do_disjunctive_normal_form (mg_schema M) rs (APredicate p) g = Some (Inr (D, g'))" "atom_ok M env (APredicate p)"
  from a(1) obtain p' where p': "partial_eval p = Some p'" "D = [[NPredicate p']]" "g' = g" by auto
  have "leaf_ok M env (APredicate p)" using a(2) by (simp add: atom_ok_def)
  from predicate_step[OF p'(1) this assms]
  show "dnf_step M env (gens M (APredicate p)) g g' D (atom_holds M env (APredicate p))" unfolding p'(2,3) by simp
qed

theorem dnf_correct:
  assumes neg: "negates M"
  shows "schema = mg_schema M \<Longrightarrow> dnf_spec M env rs a g" "schema = mg_schema M \<Longrightarrow> dnf_args_spec M env rs as g"
proof (induction schema rs a g and schema rs as g rule: do_disjunctive_normal_form_dnf_args.induct)
  case (1 schema rs inner sp g)
  then show ?case by (intro dnf_disjunction) simp
next
  case (2 schema rs inner sp g)
  then show ?case by (intro dnf_conjunction) simp
next
  case (3 schema rs r g)
  then show ?case using dnf_application by blast
next
  case (4 schema rs r g)
  then show ?case using dnf_application by blast
next
  case (5 schema rs r g)
  then show ?case using dnf_application by blast
next
  case (6 schema rs p g)
  show ?case by (rule dnf_predicate[OF neg])
next
  case (7 schema rs inner sp g)
  show ?case
  proof (cases inner)
    case (ARule r)
    then show ?thesis using dnf_application by blast
  next
    case (ARelation r)
    then show ?thesis using dnf_application by blast
  next
    case (ANamedFieldRelation r)
    then show ?thesis using dnf_application by blast
  qed (simp_all add: dnf_spec_def)
next
  case (8 schema rs u g)
  then show ?case using unification_step[of M env u] by (auto simp: dnf_spec_def atom_ok_def gens_def)
next
  case (9 schema rs s g)
  then show ?case by (simp add: dnf_spec_def atom_ok_def)
next
  case (10 schema rs g)
  then show ?case by (simp add: dnf_args_spec_def dnf_list_Nil)
next
  case (11 schema rs a as g)
  show ?case unfolding dnf_args_spec_def
  proof (intro allI impI)
    fix Ds g' assume a: "dnf_args (mg_schema M) rs (a # as) g = Some (Inr (Ds, g'))" "list_all in_nnf (a # as)"
      "list_all (atom_ok M env) (a # as)" "unat g + sum_list (map (gens M) (a # as)) < 2 ^ 32"
    then obtain D g1 Ds' where d: "do_disjunctive_normal_form (mg_schema M) rs a g = Some (Inr (D, g1))"
      "dnf_args (mg_schema M) rs as g1 = Some (Inr (Ds', g'))" "Ds = D # Ds'" by (auto simp: nbind_eq_Inr)
    have st: "dnf_step M env (gens M a) g g1 D (atom_holds M env a)" using 11(1)[OF 11(3)] d(1) a(2-4) by (simp add: dnf_spec_def)
    then have "unat g1 \<le> unat g + gens M a" by (simp add: dnf_step_def)
    then have "dnf_list M env g1 g' Ds' as"
      using 11(2)[OF _ 11(3), of D g1] d(1,2) a(2-4) 11(3) by (intro dnf_args_specD) simp_all
    with st show "dnf_list M env g g' Ds (a # as)" unfolding d(3) by (rule dnf_list_Cons)
  qed
qed

end
