(* ===== verification/Normalize_Rules.thy ===== *)
theory Normalize_Rules
  imports Normalize_Dnf Stratify_Program
begin

text \<open>
  Rules and programs: what the normal rules of an input rule derive is what the rule derives, their heads repeat
  no name and their bodies are safe, and a normalised program is fit for the stratifier.
\<close>

section \<open>Bodies from source to normal form\<close>

lemma reads_negate [simp]: "reads (negate p sp) = reads p"
  by (simp add: negate_def)

lemma leaf_kept_ok:
  assumes "leaf_kept l l'" "leaf_ok M env l" "negates M"
  shows "leaf_ok M env l'" "leaf_gens M l' = leaf_gens M l"
proof -
  show "leaf_ok M env l'"
  proof (cases "l' = l")
    case False
    then obtain p sp where p: "l = APredicate p" "l' = APredicate (negate p sp)" using assms(1) by (auto simp: leaf_kept_def)
    with assms(2) obtain b where b: "eval_named (mg_table M) env p = Inr (DBool b)" "user_expr p" by auto
    have "eval_named (mg_table M) env (negate p sp) = Inr (DBool (\<not> b))" using by_name.negate_bool[OF _ b(1)] assms(3) by (simp add: negates_def)
    with b(2) show ?thesis by (auto simp: p(2) user_expr_def simp del: eval_named.simps)
  qed (use assms(2) in simp)
  show "leaf_gens M l' = leaf_gens M l" using assms(1) by (auto simp: leaf_kept_def)
qed

lemma leaves_kept_ok:
  "list_all2 leaf_kept ls ls' \<Longrightarrow> list_all (leaf_ok M env) ls \<Longrightarrow> negates M
     \<Longrightarrow> list_all (leaf_ok M env) ls' \<and> map (leaf_gens M) ls' = map (leaf_gens M) ls"
  by (induction rule: list_all2_induct) (auto simp: leaf_kept_ok)

theorem disjunctive_normal_form_correct:
  assumes neg: "negates M" and run: "disjunctive_normal_form (mg_schema M) rs body g = Some (Inr (D, g'))"
    and ok: "atom_ok M env body" and few: "unat g + gens M body < 2 ^ 32"
  shows "denotes M env (fresh_names (unat g) (unat g')) D (atom_holds M env body)"
proof -
  obtain b where b: "negation_normal_form body = Inr b" "do_disjunctive_normal_form (mg_schema M) rs b g = Some (Inr (D, g'))"
    using run by (auto simp: disjunctive_normal_form_def split: sum.splits)
  have n: "nnf_of M env False body b" by (rule negation_normal_form_spec[OF neg b(1)])
  then have lv: "list_all2 leaf_kept (leaves body) (leaves b)" "in_nnf b" by (simp_all add: nnf_of_def)
  from leaves_kept_ok[OF lv(1) _ neg] ok have kept: "atom_ok M env b" "gens M b = gens M body" by (simp_all add: atom_ok_def gens_def)
  have "decided M env body" using ok by (auto simp: decided_def atom_ok_def list_all_iff)
  with n have same: "atom_holds M env b = atom_holds M env body" by (simp add: nnf_of_def)
  have "dnf_step M env (gens M b) g g' D (atom_holds M env b)"
    using dnf_correct(1)[OF neg refl, of env rs b g] b(2) lv(2) kept few by (simp add: dnf_spec_def)
  then show ?thesis by (simp add: dnf_step_def same)
qed

section \<open>Heads\<close>

definition dup_names :: "nat \<Rightarrow> nat \<Rightarrow> string set" where
  "dup_names lo hi = (\<lambda>n. ''***'' @ dec_text n) ` {lo..<hi}"

text \<open>The pairs of a repeated head symbol and its copy.\<close>

fun head_dups :: "symbol list \<Rightarrow> nat \<Rightarrow> (string, symbol \<times> symbol list) entries \<Rightarrow> (symbol \<times> symbol) list" where
  "head_dups [] c seen = []"
| "head_dups (symb # symbs) c seen =
     (case bt_get seen (sym_name symb) of
        None \<Rightarrow> head_dups symbs c (bt_insert (sym_name symb) (symb, []) seen)
      | Some (old, dups) \<Rightarrow>
          let copy = \<lparr>sym_name = ''***'' @ dec_text c, sym_span = sym_span symb\<rparr>
          in (old, copy) # head_dups symbs (Suc c) (bt_insert (sym_name symb) (old, dups @ [copy]) seen))"

definition seen_ok :: "(string, symbol \<times> symbol list) entries \<Rightarrow> bool" where
  "seen_ok seen \<longleftrightarrow> bt_wf seen \<and> (\<forall>k old ds. bt_get seen k = Some (old, ds) \<longrightarrow> sym_name old = k \<and> \<not> generated k)"

definition pair_in :: "(string, symbol \<times> symbol list) entries \<Rightarrow> symbol \<Rightarrow> symbol \<Rightarrow> bool" where
  "pair_in seen old copy \<longleftrightarrow> (\<exists>k ds. bt_get seen k = Some (old, ds) \<and> copy \<in> set ds)"

lemma seen_ok_insert:
  "seen_ok seen \<Longrightarrow> sym_name old = k \<Longrightarrow> \<not> generated k \<Longrightarrow> seen_ok (bt_insert k (old, ds) seen)"
  by (auto simp: seen_ok_def bt_insert_wf bt_get_insert)

lemma pair_in_first:
  "bt_wf seen \<Longrightarrow> bt_get seen k = None \<Longrightarrow> pair_in (bt_insert k (old, []) seen) o' c' = pair_in seen o' c'"
  by (auto simp: pair_in_def bt_get_insert) (metis option.distinct(1))

lemma pair_in_again:
  assumes "bt_wf seen" "bt_get seen k = Some (old, ds)"
  shows "pair_in (bt_insert k (old, ds @ [copy]) seen) o' c' \<longleftrightarrow> pair_in seen o' c' \<or> o' = old \<and> c' = copy"
proof -
  have "(\<exists>j es. (if j = k then Some (old, ds @ [copy]) else bt_get seen j) = Some (o', es) \<and> c' \<in> set es)
      \<longleftrightarrow> (\<exists>j es. bt_get seen j = Some (o', es) \<and> c' \<in> set es) \<or> o' = old \<and> c' = copy" (is "?l \<longleftrightarrow> ?r")
  proof
    show "?l \<Longrightarrow> ?r" using assms(2) by (auto split: if_splits)
    assume ?r
    then consider j es where "bt_get seen j = Some (o', es)" "c' \<in> set es" "j \<noteq> k" | "o' = old" "c' \<in> set (ds @ [copy])"
      using assms(2) by fastforce
    then show ?l by cases force+
  qed
  then show ?thesis by (simp add: pair_in_def bt_get_insert[OF assms(1)])
qed

definition copies_agree :: "assignment \<Rightarrow> (symbol \<times> symbol) list \<Rightarrow> bool" where
  "copies_agree env ps \<longleftrightarrow> (\<forall>(old, copy) \<in> set ps. env (sym_name copy) = env (sym_name old))"

definition user_syms :: "symbol list \<Rightarrow> bool" where
  "user_syms xs \<longleftrightarrow> (\<forall>x \<in> set xs. \<not> generated (sym_name x))"

lemma dup_names_step: "dup_names (Suc c) n \<subseteq> dup_names c n" "''***'' @ dec_text c \<notin> dup_names (Suc c) n"
  "c < n \<Longrightarrow> ''***'' @ dec_text c \<in> dup_names c n" "x \<in> dup_names c n \<Longrightarrow> generated x"
  by (auto simp: dup_names_def dec_text_inj generated_def)

lemma dup_name_in [simp]: "CHR ''*'' # CHR ''*'' # CHR ''*'' # dec_text c \<in> dup_names b n \<longleftrightarrow> b \<le> c \<and> c < n"
  by (auto simp: dup_names_def dec_text_inj)

lemma dup_names_more: "dup_names c n \<subseteq> dup_names c (Suc n)"
  by (auto simp: dup_names_def)

lemma head_induct [consumes 2, case_names Nil First Again]:
  assumes "seen_ok seen" "user_syms symbs" "\<And>c seen. seen_ok seen \<Longrightarrow> P [] c seen"
    and first: "\<And>symb symbs c seen. seen_ok seen \<Longrightarrow> \<not> generated (sym_name symb) \<Longrightarrow> bt_get seen (sym_name symb) = None
      \<Longrightarrow> P symbs c (bt_insert (sym_name symb) (symb, []) seen) \<Longrightarrow> P (symb # symbs) c seen"
    and again: "\<And>symb symbs c seen old ds. seen_ok seen \<Longrightarrow> \<not> generated (sym_name symb) \<Longrightarrow> bt_get seen (sym_name symb) = Some (old, ds)
      \<Longrightarrow> sym_name old = sym_name symb \<Longrightarrow> user_syms symbs
      \<Longrightarrow> seen_ok (bt_insert (sym_name symb) (old, ds @ [\<lparr>sym_name = ''***'' @ dec_text c, sym_span = sym_span symb\<rparr>]) seen)
      \<Longrightarrow> P symbs (Suc c) (bt_insert (sym_name symb) (old, ds @ [\<lparr>sym_name = ''***'' @ dec_text c, sym_span = sym_span symb\<rparr>]) seen)
      \<Longrightarrow> P (symb # symbs) c seen"
  shows "P symbs c seen"
  using assms(1,2)
proof (induction symbs arbitrary: c seen)
  case (Cons symb symbs)
  have u: "\<not> generated (sym_name symb)" "user_syms symbs" using Cons.prems(2) by (auto simp: user_syms_def)
  show ?case
  proof (cases "bt_get seen (sym_name symb)")
    case None
    show ?thesis by (rule first[OF Cons.prems(1) u(1) None Cons.IH[OF seen_ok_insert[OF Cons.prems(1) refl u(1)] u(2)]])
  next
    case (Some e)
    obtain old ds where e: "e = (old, ds)" by force
    have nm: "sym_name old = sym_name symb" using Cons.prems(1) Some e by (auto simp: seen_ok_def)
    show ?thesis
      by (rule again[OF Cons.prems(1) u(1) Some[unfolded e] nm u(2) seen_ok_insert[OF Cons.prems(1) nm u(1)] Cons.IH[OF seen_ok_insert[OF Cons.prems(1) nm u(1)] u(2)]])
  qed
qed (use assms(3) in simp)

text \<open>The table the loop ends with holds exactly the pairs of \<^const>\<open>head_dups\<close>.\<close>

lemma dedup_head_pairs:
  assumes "seen_ok seen" "user_syms symbs"
  shows "bt_wf (snd (dedup_head symbs c seen)) \<and> (\<forall>o' c'. pair_in (snd (dedup_head symbs c seen)) o' c'
    \<longleftrightarrow> pair_in seen o' c' \<or> (o', c') \<in> set (head_dups symbs c seen))"
  using assms
proof (induction symbs c seen rule: head_induct)
  case (First symb symbs c seen)
  then show ?case by (auto simp: pair_in_first seen_ok_def split: prod.splits)
next
  case (Again symb symbs c seen old ds)
  then show ?case by (auto simp: pair_in_again seen_ok_def Let_def split: prod.splits)
qed (simp add: seen_ok_def)

lemma dedup_head_values:
  assumes "seen_ok seen" "user_syms symbs" "copies_agree env (head_dups symbs c seen)"
  shows "map (env \<circ> sym_name) (fst (dedup_head symbs c seen)) = map (env \<circ> sym_name) symbs"
  using assms
proof (induction symbs c seen rule: head_induct)
  case (First symb symbs c seen)
  then show ?case by (simp add: case_prod_beta)
next
  case (Again symb symbs c seen old ds)
  then show ?case by (simp add: case_prod_beta Let_def copies_agree_def)
qed simp

lemma head_dups_names:
  assumes "seen_ok seen" "user_syms symbs" "(old, copy) \<in> set (head_dups symbs c seen)"
  shows "\<not> generated (sym_name old) \<and> sym_name copy \<in> dup_names c (c + length symbs)"
  using assms
proof (induction symbs c seen rule: head_induct)
  case (First symb symbs c seen)
  then show ?case by (auto simp: dup_names_def)
next
  case (Again symb symbs c seen old' ds)
  show ?case
  proof (cases "(old, copy) = (old', \<lparr>sym_name = ''***'' @ dec_text c, sym_span = sym_span symb\<rparr>)")
    case True
    then show ?thesis using Again(2,4) by simp
  next
    case False
    then show ?thesis using Again(3,7,8) dup_names_step(1)[of c "Suc (c + length symbs)"] by (auto simp: Let_def)
  qed
qed simp

text \<open>Every assignment extends to the copies.\<close>

lemma copies_solvable:
  assumes "seen_ok seen" "user_syms symbs"
  shows "\<exists>env'. agrees_off (dup_names c (c + length symbs)) env env' \<and> copies_agree env' (head_dups symbs c seen)"
  using assms
proof (induction symbs c seen rule: head_induct)
  case (Nil c seen)
  show ?case by (rule exI[of _ env]) (simp add: agrees_off_def copies_agree_def)
next
  case (First symb symbs c seen)
  then obtain env' where "agrees_off (dup_names c (c + length symbs)) env env'"
    "copies_agree env' (head_dups symbs c (bt_insert (sym_name symb) (symb, []) seen))" by blast
  then show ?case using First(3) by (intro exI[of _ env']) (simp add: agrees_off_mono[OF _ dup_names_more])
next
  case (Again symb symbs c seen old ds)
  let ?n = "''***'' @ dec_text c"
  let ?rest = "head_dups symbs (Suc c) (bt_insert (sym_name symb) (old, ds @ [\<lparr>sym_name = ?n, sym_span = sym_span symb\<rparr>]) seen)"
  obtain env' where e: "agrees_off (dup_names (Suc c) (Suc c + length symbs)) env env'" "copies_agree env' ?rest" using Again(7) by blast
  define e' where "e' = env'(?n := env' (sym_name old))"
  have gen: "generated ?n" by (simp add: generated_def)
  have "sym_name p \<noteq> ?n \<and> sym_name q \<noteq> ?n" if "(p, q) \<in> set ?rest" for p q
    using head_dups_names[OF Again(6,5) that] gen dup_names_step(2)[of c] by metis
  then have "copies_agree e' ?rest" using e(2) by (auto simp: copies_agree_def e'_def)
  moreover have "e' ?n = e' (sym_name old)" by (simp add: e'_def)
  moreover have "agrees_off (dup_names c (c + length (symb # symbs))) env e'"
    unfolding e'_def using e(1) dup_names_step(1)[of c "Suc c + length symbs"] dup_names_step(3)[of c "Suc c + length symbs"] by (auto simp: agrees_off_def)
  ultimately show ?case using Again(3) by (intro exI[of _ e']) (simp add: copies_agree_def Let_def)
qed

text \<open>The new head repeats no name.\<close>

lemma dedup_head_names:
  assumes "seen_ok seen" "user_syms symbs"
  shows "distinct (map sym_name (fst (dedup_head symbs c seen))) \<and> (\<forall>x \<in> set (fst (dedup_head symbs c seen)).
    sym_name x \<in> dup_names c (c + length symbs) \<or> \<not> generated (sym_name x) \<and> bt_get seen (sym_name x) = None)"
  using assms
proof (induction symbs c seen rule: head_induct)
  case (First symb symbs c seen)
  let ?h = "fst (dedup_head symbs c (bt_insert (sym_name symb) (symb, []) seen))"
  have wf: "bt_wf seen" using First(1) by (simp add: seen_ok_def)
  have rest: "sym_name x \<in> dup_names c (c + length (symb # symbs)) \<or> \<not> generated (sym_name x) \<and> bt_get seen (sym_name x) = None"
    "sym_name x \<noteq> sym_name symb" if "x \<in> set ?h" for x
    using First(4) that First(2) dup_names_step(4)[of "sym_name symb" c "c + length symbs"]
    by (fastforce simp: dup_names_def bt_get_insert[OF wf] split: if_splits)+
  have "sym_name symb \<notin> sym_name ` set ?h" using rest(2) by (metis imageE)
  then have "distinct (map sym_name (symb # ?h))" using First(4) by simp
  with rest(1) First(2,3) show ?case by (auto simp: case_prod_beta)
next
  case (Again symb symbs c seen old ds)
  define n where "n = \<lparr>sym_name = ''***'' @ dec_text c, sym_span = sym_span symb\<rparr>"
  define seen' where "seen' = bt_insert (sym_name symb) (old, ds @ [n]) seen"
  define h where "h = fst (dedup_head symbs (Suc c) seen')"
  note IH = Again(7)[folded n_def, folded seen'_def, folded h_def]
  have wf: "bt_wf seen" using Again(1) by (simp add: seen_ok_def)
  have nn: "generated (sym_name n)" "sym_name n \<notin> dup_names (Suc c) (Suc c + length symbs)"
    "sym_name n \<in> dup_names c (c + length (symb # symbs))" by (simp_all add: n_def generated_def)
  have seen': "bt_get seen' k = None \<Longrightarrow> bt_get seen k = None" for k
    by (simp add: seen'_def bt_get_insert[OF wf] split: if_splits)
  have rest: "sym_name x \<in> dup_names (Suc c) (Suc c + length symbs) \<or> \<not> generated (sym_name x) \<and> bt_get seen (sym_name x) = None"
    if "x \<in> set h" for x using bspec[OF conjunct2[OF IH] that] seen' by blast
  have "sym_name n \<notin> sym_name ` set h" using rest nn(1,2) by (metis imageE)
  then have "distinct (map sym_name (n # h))" using IH by simp
  moreover have "sym_name x \<in> dup_names c (c + length (symb # symbs)) \<or> \<not> generated (sym_name x) \<and> bt_get seen (sym_name x) = None"
    if "x \<in> set (n # h)" for x
    using that rest[of x] nn(3) dup_names_step(1)[of c "Suc c + length symbs"] by auto
  moreover have "fst (dedup_head (symb # symbs) c seen) = n # h"
    using Again(3) by (simp add: case_prod_beta Let_def h_def seen'_def n_def)
  ultimately show ?case by simp
qed simp

section \<open>Rules\<close>

lemma seen_ok_Nil [simp]: "seen_ok []"
  by (simp add: seen_ok_def bt_get_def)

lemma holds_dup_unifications:
  assumes "bt_wf seen"
  shows "conj_holds M env (dup_unifications seen) \<longleftrightarrow> (\<forall>old copy. pair_in seen old copy \<longrightarrow> env (sym_name copy) = env (sym_name old))"
proof -
  have "bt_get seen k = Some v \<longleftrightarrow> (k, v) \<in> set seen" for k v
    using map_of_eq_Some_iff[OF bt_wf_distinct[OF assms]] by (simp add: bt_get_def)
  then show ?thesis by (fastforce simp: conj_holds_def dup_unifications_def list_all_iff pair_in_def unif_holds_def)
qed

lemma conj_holds_append [simp]: "conj_holds M env (l @ r) \<longleftrightarrow> conj_holds M env l \<and> conj_holds M env r"
  by (simp add: conj_holds_def)

lemma conj_holds_mset: "mset l = mset r \<Longrightarrow> conj_holds M env l = conj_holds M env r"
  by (metis conj_holds_def list_all_iff mset_eq_setD)

lemma normalize_rule_run:
  assumes "normalize_rule schema rs rule g = Some (Inr (rules, g'))"
  obtains D where "disjunctive_normal_form schema rs (AConjunction (ii_body rule) (ii_span rule)) g = Some (Inr (D, g'))"
    "collect_results (\<lambda>body. convert_to_well_ordered_rule \<lparr>nr_head = fst (dedup_head (ii_head rule) 0 []), nr_aggr = ii_aggr rule,
       nr_body = body @ dup_unifications (snd (dedup_head (ii_head rule) 0 []))\<rparr>) D = Inr rules"
proof -
  obtain D h where d: "disjunctive_normal_form schema rs (AConjunction (ii_body rule) (ii_span rule)) g = Some (Inr (D, h))"
  proof (cases "disjunctive_normal_form schema rs (AConjunction (ii_body rule) (ii_span rule)) g")
    case (Some r)
    then show ?thesis using assms that by (cases r) (auto simp: normalize_rule_def nbind_def)
  qed (use assms in \<open>simp add: normalize_rule_def nbind_def\<close>)
  let ?c = "\<lambda>body. convert_to_well_ordered_rule \<lparr>nr_head = fst (dedup_head (ii_head rule) 0 []), nr_aggr = ii_aggr rule,
       nr_body = body @ dup_unifications (snd (dedup_head (ii_head rule) 0 []))\<rparr>"
  have "normalize_rule schema rs rule g = Some (rbind (collect_results ?c D) (\<lambda>rules. Inr (rules, h)))"
    by (simp only: normalize_rule_def nbind_def d option.case sum.case prod.case case_prod_beta Let_def fst_conv snd_conv)
  with assms have "rbind (collect_results ?c D) (\<lambda>rules. Inr (rules, h)) = Inr (rules, g')" by (simp only: option.inject)
  then have c: "collect_results ?c D = Inr rules" "h = g'" unfolding rbind_eq_Inr by blast+
  show ?thesis by (rule that[OF d[unfolded c(2)] c(1)])
qed

lemma collect_results_member: "collect_results f xs = Inr ys \<Longrightarrow> y \<in> set ys \<Longrightarrow> \<exists>x \<in> set xs. f x = Inr y"
  by (induction xs arbitrary: ys) (auto simp: rbind_eq_Inr)

theorem normalized_rules_wf:
  assumes run: "normalize_rule schema rs rule g = Some (Inr (rules, g'))" and head: "user_syms (ii_head rule)" and r: "r \<in> set rules"
  shows "distinct (map sym_name (nr_head r))" "nr_aggr r = ii_aggr rule" "safe_from {} (nr_body r)"
proof -
  obtain body where "convert_to_well_ordered_rule \<lparr>nr_head = fst (dedup_head (ii_head rule) 0 []), nr_aggr = ii_aggr rule,
       nr_body = body @ dup_unifications (snd (dedup_head (ii_head rule) 0 []))\<rparr> = Inr r"
    by (rule normalize_rule_run[OF run], drule collect_results_member[OF _ r]) blast
  note w = well_ordered[OF this, simplified]
  show "nr_aggr r = ii_aggr rule" "safe_from {} (nr_body r)" by (fact w)+
  show "distinct (map sym_name (nr_head r))" using dedup_head_names[OF seen_ok_Nil head] w(1) by simp
qed

text \<open>A normal rule derives a tuple when its body holds under an assignment its head reads that tuple from.\<close>

definition derives :: "meaning \<Rightarrow> assignment \<Rightarrow> 'c nf_rule \<Rightarrow> data_value list \<Rightarrow> bool" where
  "derives M env r vals \<longleftrightarrow> (\<exists>env'. (\<forall>x. \<not> generated x \<longrightarrow> env' x = env x) \<and> conj_holds M env' (nr_body r)
     \<and> map (env' \<circ> sym_name) (nr_head r) = vals)"

lemma derives_body:
  fixes r :: "'c nf_rule"
  assumes conv: "convert_to_well_ordered_rule \<lparr>nr_head = fst (dedup_head head 0 []), nr_aggr = aggr,
       nr_body = body @ dup_unifications (snd (dedup_head head 0 []))\<rparr> = Inr r"
    and head: "user_syms head" and loc: "conj_local M L body" and L: "\<forall>x \<in> L. generated x" "L \<inter> dup_names 0 (length head) = {}"
  shows "derives M env r (map (env \<circ> sym_name) head) \<longleftrightarrow> (\<exists>env'. agrees_off L env env' \<and> conj_holds M env' body)"
proof -
  let ?ps = "head_dups head 0 []"
  note w = well_ordered[OF conv, simplified]
  note pairs = dedup_head_pairs[OF seen_ok_Nil head, of 0]
  have "conj_holds M e (dup_unifications (snd (dedup_head head 0 [])) :: 'c nf_atom list) = copies_agree e ?ps" for e
    using holds_dup_unifications[OF conjunct1[OF pairs], of M e] pairs by (auto simp: copies_agree_def pair_in_def bt_get_def)
  then have holds: "conj_holds M e (nr_body r) \<longleftrightarrow> conj_holds M e body \<and> copies_agree e ?ps" for e
    using conj_holds_mset[OF well_ordered(3)[OF conv], of M e] by simp
  have vals: "map (e \<circ> sym_name) (nr_head r) = map (env \<circ> sym_name) head"
    if c: "copies_agree e ?ps" and a: "\<forall>x. \<not> generated x \<longrightarrow> e x = env x" for e
    using dedup_head_values[OF seen_ok_Nil head c] a head w(1) by (simp add: user_syms_def)
  show ?thesis
  proof
    assume "derives M env r (map (env \<circ> sym_name) head)"
    then obtain e where e: "\<forall>x. \<not> generated x \<longrightarrow> e x = env x" "conj_holds M e body" by (auto simp: derives_def holds)
    have "agrees_off (Collect generated) env e" using e(1) by (simp add: agrees_off_def)
    from restrict_assignment[OF loc _ this e(2)] show "\<exists>env'. agrees_off L env env' \<and> conj_holds M env' body" by auto
  next
    assume "\<exists>env'. agrees_off L env env' \<and> conj_holds M env' body"
    then obtain e where e: "agrees_off L env e" "conj_holds M e body" by blast
    obtain e' where e': "agrees_off (dup_names 0 (length head)) e e'" "copies_agree e' ?ps"
      using copies_solvable[OF seen_ok_Nil head, of 0 e] by auto
    have same: "e' x = e x" if "\<not> generated x \<or> x \<in> L" for x
      using that e'(1) L(2) dup_names_step(4)[of x 0 "length head"] by (auto simp: agrees_off_def)
    have "conj_holds M e' body = conj_holds M e body" by (rule conj_localD[OF loc]) (rule same)
    then have "conj_holds M e' body" using e(2) by simp
    moreover have a: "\<forall>x. \<not> generated x \<longrightarrow> e' x = env x"
      using e(1) e'(1) L(1) dup_names_step(4)[of _ 0 "length head"] unfolding agrees_off_def by metis
    ultimately show "derives M env r (map (env \<circ> sym_name) head)" using e'(2) vals[OF e'(2) a] by (auto simp: derives_def holds)
  qed
qed

lemma dec_text_hd: "dec_text n \<noteq> CHR ''*'' # cs"
proof (induction n arbitrary: cs rule: dec_text.induct)
  case (1 n)
  have "char_of (48 + n) \<noteq> CHR ''*''" if "n < 10"
  proof
    assume "char_of (48 + n) = CHR ''*''"
    then have "(of_char (char_of (48 + n) :: char) :: nat) = of_char (CHR ''*'')" by simp
    then show False using that by simp
  qed
  moreover have "dec_text (n div 10) \<noteq> []" using dec_text.simps[of "n div 10"] by (auto split: if_splits)
  ultimately show ?case using 1 by (subst dec_text.simps) (auto simp: append_eq_Cons_conv)
qed

lemma dup_not_fresh: "fresh_names lo hi \<inter> dup_names a b = {}"
  by (auto simp: fresh_names_def dup_names_def dec_text_hd)

lemma list_all2_bex: "list_all2 (\<lambda>x y. Q y = P x) xs ys \<Longrightarrow> (\<exists>y \<in> set ys. Q y) = (\<exists>x \<in> set xs. P x)"
  by (induction rule: list_all2_induct) auto

theorem normalized_rule_meaning:
  assumes neg: "negates M" and run: "normalize_rule (mg_schema M) rs rule g = Some (Inr (rules, g'))"
    and ok: "atom_ok M env (AConjunction (ii_body rule) (ii_span rule))" and head: "user_syms (ii_head rule)"
    and few: "unat g + gens M (AConjunction (ii_body rule) (ii_span rule)) < 2 ^ 32"
  shows "(\<exists>r \<in> set rules. derives M env r (map (env \<circ> sym_name) (ii_head rule)))
    \<longleftrightarrow> atom_holds M env (AConjunction (ii_body rule) (ii_span rule))"
proof -
  obtain D where D: "disjunctive_normal_form (mg_schema M) rs (AConjunction (ii_body rule) (ii_span rule)) g = Some (Inr (D, g'))"
    "list_all2 (\<lambda>body r. convert_to_well_ordered_rule \<lparr>nr_head = fst (dedup_head (ii_head rule) 0 []), nr_aggr = ii_aggr rule,
       nr_body = body @ dup_unifications (snd (dedup_head (ii_head rule) 0 []))\<rparr> = Inr r) D rules"
    by (rule normalize_rule_run[OF run], unfold collect_results_Inr_iff) blast
  let ?L = "fresh_names (unat g) (unat g')"
  have den: "denotes M env ?L D (atom_holds M env (AConjunction (ii_body rule) (ii_span rule)))"
    by (rule disjunctive_normal_form_correct[OF neg D(1) ok few])
  have "list_all2 (\<lambda>body r. derives M env r (map (env \<circ> sym_name) (ii_head rule))
      \<longleftrightarrow> (\<exists>env'. agrees_off ?L env env' \<and> conj_holds M env' body)) D rules"
    using D(2)
  proof (rule list.rel_mono_strong)
    fix body r
    assume b: "body \<in> set D" and "convert_to_well_ordered_rule \<lparr>nr_head = fst (dedup_head (ii_head rule) 0 []), nr_aggr = ii_aggr rule,
       nr_body = body @ dup_unifications (snd (dedup_head (ii_head rule) 0 []))\<rparr> = Inr r"
    from this(2) show "derives M env r (map (env \<circ> sym_name) (ii_head rule)) \<longleftrightarrow> (\<exists>env'. agrees_off ?L env env' \<and> conj_holds M env' body)"
      by (rule derives_body[OF _ head]) (use den b dup_not_fresh in \<open>auto simp: denotes_def\<close>)
  qed
  then have "(\<exists>r \<in> set rules. derives M env r (map (env \<circ> sym_name) (ii_head rule)))
      \<longleftrightarrow> (\<exists>body \<in> set D. \<exists>env'. agrees_off ?L env env' \<and> conj_holds M env' body)"
    by (rule list_all2_bex)
  then show ?thesis using den by (simp add: denotes_def)
qed

section \<open>Programs\<close>

lemma normalize_all_keys:
  "normalize_all schema rs es rules g = Some (Inr (rules', g')) \<Longrightarrow> bt_wf rules
     \<Longrightarrow> bt_wf rules' \<and> fst ` set rules' = fst ` set rules \<union> fst ` set es"
proof (induction schema rs es rules g rule: normalize_all.induct)
  case (2 schema rs k ruleset rest rules g)
  then obtain n h where n: "normalize_ruleset schema rs ruleset g = Some (Inr (n, h))"
    "normalize_all schema rs rest (bt_insert k n rules) h = Some (Inr (rules', g'))"
    by (auto simp: nbind_def split: option.splits sum.splits)
  show ?case using 2(1)[OF n(1) n(2) bt_insert_wf[OF 2(3)]] by (auto simp: fst_set_bt_insert)
qed simp

theorem normalized_program_wf:
  assumes "input_program_new prog out_opts disable_magic = Inr ip" "bt_wf prog"
    and run: "into_normalized_program schema rs ip = Some (Inr ((np, opts), g))"
  shows "program_wf np"
proof -
  have ip: "ip_entry_name ip = PROG_ENTRY" "ip_rules ip = bt_remove PROG_ENTRY prog"
    using assms(1) by (auto simp: input_program_new_def split: option.splits)
  obtain rules h h' where n: "normalize_all schema rs (ip_rules ip) [] h = Some (Inr (rules, h'))" "np_rules np = rules" "np_entry_name np = ip_entry_name ip"
    using run by (auto simp: into_normalized_program_def nbind_def split: option.splits sum.splits)
  show ?thesis using normalize_all_keys[OF n(1)] n(2,3) ip by (auto simp: program_wf_def bt_remove_def)
qed

end
