(* ===== verification/Normalize_Properties.thy ===== *)
theory Normalize_Properties
  imports Normalize_Rules
begin

text \<open>
  The properties of normalisation, each with a witness on a rule whose body has a disjunction, a double negation and
  a constant argument, and whose head repeats a name.
\<close>

abbreviation name_at :: "string \<Rightarrow> symbol" where
  "name_at x \<equiv> \<lparr>sym_name = x, sym_span = (0, 0)\<rparr>"

abbreviation var_at :: "string \<Rightarrow> expr" where
  "var_at x \<equiv> Binding (name_at x) Unresolved"

definition calls :: "string \<Rightarrow> expr list \<Rightarrow> input_atom" where
  "calls name args = ARule \<lparr>ir_name = name_at name, ir_args = args, ir_span = (0, 0)\<rparr>"

definition either :: "input_atom list" where
  "either = [ADisjunction [calls ''p'' [var_at ''x''],
     ANegation (ANegation (calls ''q'' [var_at ''x'', Const (DBool True) (0, 0)]) (0, 0)) (0, 0)] (0, 0)]"

definition pair_rule :: input_inline_rule where
  "pair_rule = \<lparr>ii_head = [name_at ''x'', name_at ''x''], ii_aggr = [Plain, Plain], ii_body = either, ii_span = (0, 0)\<rparr>"

definition no_catalog :: schema_lookup where
  "no_catalog name = Inl (RelationUnknown name)"

definition no_search :: "unit search_resolver" where
  "no_search s g = Inl (SearchRefused (si_span s))"

definition pair_rules :: "unit nf_rule list" where
  "pair_rules = (case normalize_rule no_catalog no_search pair_rule 0 of Some (Inr (rules, _)) \<Rightarrow> rules | _ \<Rightarrow> [])"

lemma pair_rule_run: "normalize_rule no_catalog no_search pair_rule 0 = Some (Inr (pair_rules, 1))"
  by code_simp

definition q_only :: meaning where
  "q_only = \<lparr>mg_table = [''negate'' \<mapsto> mint OP_NEGATE op_negate], mg_rule = (\<lambda>name vals. name = ''q'' \<and> vals = [DBool False, DBool True]),
     mg_relation = (\<lambda>_ _ _ _. False), mg_member = (\<lambda>_ _. False), mg_schema = no_catalog\<rparr>"

text \<open>
  C5: The normal rules of an input rule derive a tuple exactly when the body of the input rule holds and its head
  reads that tuple: under an assignment of the rule's own names, some normal rule derives the values of the head, by
  a choice of the generated names, exactly when the conjunction of the source body holds. The body's predicates
  evaluate to a boolean and its arguments evaluate there, the rule uses no generated name and no search, and the
  counter of generated names does not wrap.
\<close>
theorem normal_rules_derive_the_rule:
  assumes "negates M" "normalize_rule (mg_schema M) rs rule g = Some (Inr (rules, g'))"
    and "atom_ok M env (AConjunction (ii_body rule) (ii_span rule))" "user_syms (ii_head rule)"
    and "unat g + gens M (AConjunction (ii_body rule) (ii_span rule)) < 2 ^ 32"
  shows "(\<exists>r \<in> set rules. derives M env r (map (env \<circ> sym_name) (ii_head rule)))
    \<longleftrightarrow> atom_holds M env (AConjunction (ii_body rule) (ii_span rule))"
  by (rule normalized_rule_meaning[OF assms])

theorem normal_rules_derive_the_rule_witness:
  "\<exists>r \<in> set pair_rules. derives q_only (\<lambda>_. DBool False) r [DBool False, DBool False]"
proof -
  let ?body = "AConjunction (ii_body pair_rule) (ii_span pair_rule)"
  have "atom_ok q_only (\<lambda>_. DBool False) ?body"
    by (simp add: atom_ok_def pair_rule_def either_def calls_def arg_ok_def user_expr_def generated_def)
  moreover have "atom_holds q_only (\<lambda>_. DBool False) ?body"
    by (simp add: pair_rule_def either_def calls_def q_only_def arg_matches_def is_ignored_def list_all2_Cons1)
  moreover have "normalize_rule (mg_schema q_only) no_search pair_rule 0 = Some (Inr (pair_rules, 1))"
    using pair_rule_run by (simp add: q_only_def)
  ultimately show ?thesis
    using normal_rules_derive_the_rule[of q_only no_search pair_rule 0 pair_rules 1 "\<lambda>_. DBool False"]
    by (simp add: negates_def q_only_def user_syms_def pair_rule_def generated_def gens_def either_def calls_def)
qed

text \<open>
  C6: Every normal rule of an input rule is safe: its head repeats no name, its aggregations are those of the rule,
  and every atom of its body stands behind the atoms that bind its inputs, a negation with an unbound argument only
  where nothing after it binds.
\<close>
theorem normal_rules_are_safe:
  assumes "normalize_rule schema rs rule g = Some (Inr (rules, g'))" "user_syms (ii_head rule)" "r \<in> set rules"
  shows "distinct (map sym_name (nr_head r)) \<and> nr_aggr r = ii_aggr rule \<and> safe_from {} (nr_body r)"
  using normalized_rules_wf[OF assms] by simp

theorem normal_rules_are_safe_witness:
  "distinct (map sym_name (nr_head (pair_rules ! 1))) \<and> nr_aggr (pair_rules ! 1) = [Plain, Plain] \<and> safe_from {} (nr_body (pair_rules ! 1))"
proof -
  have "length pair_rules = 2" by code_simp
  then have "pair_rules ! 1 \<in> set pair_rules" by simp
  from normal_rules_are_safe[OF pair_rule_run _ this] show ?thesis by (simp add: user_syms_def pair_rule_def generated_def)
qed

text \<open>
  C11: The negation normal form is refused exactly when a unification or a search stands under an odd number of
  negations; otherwise negations stand only on applications, and the result holds exactly when the body does under
  every assignment that gives its predicates a boolean.
\<close>
theorem negation_normal_form_accepts_exactly:
  assumes "negates M"
  shows "if refused False a then \<exists>e. negation_normal_form a = Inl e
    else \<exists>b. negation_normal_form a = Inr b \<and> in_nnf b \<and> (\<forall>env. decided M env a \<longrightarrow> atom_holds M env b = atom_holds M env a)"
proof (cases "refused False a")
  case True
  then have "\<And>b. negation_normal_form a \<noteq> Inr b" using negation_normal_form_ok[of a] by blast
  then show ?thesis using True by (cases "negation_normal_form a") auto
next
  case False
  then obtain b where b: "negation_normal_form a = Inr b" using negation_normal_form_ok[of a] by blast
  have "nnf_of M env False a b" for env by (rule negation_normal_form_spec[OF assms b])
  then show ?thesis using False b by (auto simp: nnf_of_def)
qed

theorem negation_normal_form_accepts_exactly_witness:
  "\<exists>b. negation_normal_form (ANegation (AConjunction either (0, 0)) (0, 0)) = Inr b \<and> in_nnf b
     \<and> atom_holds q_only (\<lambda>_. DBool True) b"
proof -
  let ?a = "ANegation (AConjunction either (0, 0)) (0, 0)"
  have n: "negates q_only" by (simp add: negates_def q_only_def)
  have "\<not> refused False ?a" "decided q_only (\<lambda>_. DBool True) ?a" "atom_holds q_only (\<lambda>_. DBool True) ?a"
    by (auto simp: either_def calls_def decided_def q_only_def arg_matches_def is_ignored_def symbol_kind_of_def PROG_ENTRY_def list_all2_Cons1)
  then show ?thesis using negation_normal_form_accepts_exactly[OF n, of ?a] by auto
qed

definition applies :: "string list \<Rightarrow> nf_rule_apply" where
  "applies xs = \<lparr>ra_name = name_at ''r'', ra_args = map name_at xs, ra_span = (0, 0)\<rparr>"

definition copy_of :: "string \<Rightarrow> string \<Rightarrow> nat \<Rightarrow> unification" where
  "copy_of x y pos = \<lparr>un_binding = name_at x, un_expr = var_at y, un_one_many = False, un_span = (pos, 0)\<rparr>"

definition rule_of :: "unit nf_atom list \<Rightarrow> unit nf_rule" where
  "rule_of body = \<lparr>nr_head = [name_at ''x''], nr_aggr = [Plain], nr_body = body\<rparr>"

text \<open>
  C12: The well-ordering accepts exactly the rules whose late atoms find their inputs. Let the kept atoms be the
  applications, unifications and searches that stand, where they are written, behind kept atoms that bind their
  inputs, and the late atoms the rest. A rule whose expressions are implemented and none of whose searches is late is
  accepted exactly when each late atom either has all its inputs bound by the kept atoms, of which there is at
  least one, or is a negation with some argument bound by them. A late unification binds nothing for another atom.
\<close>
theorem well_ordering_accepts_exactly:
  assumes "list_all implemented (nr_body rule)" "\<forall>a \<in> set (late {} (nr_body rule)). \<not> is_search a"
  shows "(\<exists>rule'. convert_to_well_ordered_rule rule = Inr rule')
    \<longleftrightarrow> (\<forall>a \<in> set (late {} (nr_body rule)).
          needs a \<subseteq> bound_by (kept {} (nr_body rule)) \<and> kept {} (nr_body rule) \<noteq> []
          \<or> negation a \<and> needs a \<inter> bound_by (kept {} (nr_body rule)) \<noteq> {})"
  by (rule well_ordering_exact[OF assms])

text \<open>
  The body \<open>y = x, z = y, r[x]\<close> is refused, because its second unification reads a name that only the first one,
  late itself, binds; behind the application both are kept, and the rule is accepted.
\<close>

theorem well_ordering_accepts_exactly_witness:
  "(\<nexists>rule'. convert_to_well_ordered_rule (rule_of [NUnification (copy_of ''y'' ''x'' 7), NUnification (copy_of ''z'' ''y'' 8), NRule (applies [''x''])]) = Inr rule')
   \<and> (\<exists>rule'. convert_to_well_ordered_rule (rule_of [NRule (applies [''x'']), NUnification (copy_of ''y'' ''x'' 7), NUnification (copy_of ''z'' ''y'' 8)]) = Inr rule')"
  by (subst (1 2) well_ordering_accepts_exactly) (auto simp: rule_of_def applies_def copy_of_def names_def)

text \<open>
  C10: A program that was parsed into a keyed rule table, validated and normalised is one the stratifier decides:
  its rules are keyed and apart from the entry, and stratification returns strata or a refusal and never panics.
\<close>
theorem normalized_programs_are_stratifiable_input:
  assumes "bt_wf prog" "input_program_new prog out_opts disable_magic = Inr ip"
    and "into_normalized_program schema rs ip = Some (Inr ((np, opts), g))"
  shows "program_wf np \<and> opts = out_opts \<and> into_stratified_program np \<noteq> None"
proof -
  have wf: "program_wf np" by (rule normalized_program_wf[OF assms(2,1,3)])
  have "into_stratified_program np \<noteq> None" by (rule stratifier_run[OF wf]) simp
  moreover have "opts = out_opts"
    using assms(2,3) by (auto simp: input_program_new_def into_normalized_program_def nbind_def split: option.splits sum.splits)
  ultimately show ?thesis using wf by simp
qed

definition pair_program :: "(string, input_ruleset) entries" where
  "pair_program = [(''?'', IRules [pair_rule]), (''p'', IRules [pair_rule])]"

definition pair_normal :: "unit nf_program" where
  "pair_normal = (case input_program_new pair_program () False of
     Inr ip \<Rightarrow> (case into_normalized_program no_catalog no_search ip of Some (Inr ((np, _), _)) \<Rightarrow> np))"

theorem normalized_programs_are_stratifiable_input_witness: "program_wf pair_normal \<and> into_stratified_program pair_normal \<noteq> None"
proof -
  obtain ip where ip: "input_program_new pair_program () False = Inr ip"
    by (simp add: input_program_new_def pair_program_def PROG_ENTRY_def bt_get_def)
  have "(case input_program_new pair_program () False of Inl _ \<Rightarrow> None | Inr ip \<Rightarrow> into_normalized_program no_catalog no_search ip)
      = Some (Inr ((pair_normal, ()), 2))" by code_simp
  then have "into_normalized_program no_catalog no_search ip = Some (Inr ((pair_normal, ()), 2))" by (simp add: ip)
  from normalized_programs_are_stratifiable_input[OF _ ip this] show ?thesis by (simp add: pair_program_def)
qed

end
