(* ===== verification/Spec2Isabelle.thy ===== *)
theory Spec2Isabelle
  imports Value_Properties Store_Properties Fixpoint_Properties Plan_Properties Expr_Properties Normalize_Properties
begin

text \<open>
  KyzoDB is an embedded Datalog database in Rust. A program is parsed, normalised, stratified and evaluated bottom
  up to a fixpoint over an ordered key-value store whose keys carry two time axes. This development models the
  layers on which the answers rest. A value is encoded so that byte order is value order; the store keeps encoded
  keys in order and a scan of it resolves the two time axes; the filters of a rule become ranges of such scans and
  are evaluated row by row or in columns; the rules reach the evaluator as normal rules laid out in strata; and the
  tuples of a stratum are kept in a store of epochs.

  \<^bold>\<open>Conventions\<close>. A result is \<open>'e + 'a\<close> with the error on the left; an outer \<open>None\<close> is a panic of the source. A
  \<open>BTreeMap\<close> is the ascending list of its entries and a \<open>BTreeSet\<close> an ascending list; a map keyed by symbols is
  keyed by their names, as the source orders symbols. Machine integers are words where they wrap. A loop that is
  not structural is a \<open>function\<close> with a termination proof, or a partial function in the option type whose end
  is then a theorem. Catalog lookups, search resolution, the operators outside \<open>compare.rs\<close> and the query output
  options are parameters.

  \<^bold>\<open>The value plane\<close> (\<open>crates/kyzo-model/src/value\<close>). \<open>Num_Key\<close> and \<open>Num_Numeric\<close> are \<open>number.rs\<close>: numbers,
  their order-preserving key and the two orders on them; \<open>Num_Cast\<close> is its integer and float coercion.
  \<open>Geometry_Kind\<close>, \<open>Interval_Kind\<close>, \<open>Validity_Kind\<close> and \<open>Json_Kind\<close> are the files of \<open>kind/\<close>. \<open>Data_Value\<close> is
  \<open>mod.rs\<close>, the sum type of values with its storage order, and \<open>tag.rs\<close>. \<open>Byte_Strings\<close>, \<open>Sequence_Walk\<close>,
  \<open>Canonical\<close>, \<open>Payloads\<close>, \<open>Canonical_Laws\<close> and \<open>Canonical_Skip\<close> are \<open>canonical.rs\<close>: the encoder, the decoder
  and the skipping walk, with every refusal as an error value. \<open>Row_Key\<close> is \<open>row.rs\<close>: keys of tuples under a
  relation, scan bounds, stored rows. \<open>Prefix_Compare\<close> is \<open>prefix.rs\<close>. \<open>Value_Properties\<close> states that byte order
  is value order, that decoding accepts exactly the encodings up to the nesting bound, that scans return exactly
  the rows of their range and that the codecs of the kinds round trip.

  \<^bold>\<open>The store\<close> (\<open>crates/kyzo-core/src/store\<close>). \<open>Ordered_Store\<close> is the session-local store of \<open>scratch.rs\<close>.
  \<open>Bitemporal\<close> is the visibility kernel of \<open>time.rs\<close>, \<open>Skip_Walk\<close> the seek-driven scan of \<open>skip_walk.rs\<close>, whose
  loop is a partial function that is then proved to end. \<open>System_Clock\<close> and \<open>Format_Version\<close> are the clock and the
  format stamp of \<open>contract.rs\<close>; the clock's compare-and-swap loop is a step relation, so that the stamps of
  interleaved threads are covered. \<open>Store_Properties\<close> states that the scan resolves a history to the version each
  key shows at an instant, that it ends, and that stamps strictly increase.

  \<^bold>\<open>Expressions\<close> (\<open>crates/kyzo-model/src/program\<close>, \<open>crates/kyzo-core/src/exec/expr\<close>, \<open>exec/stdlib\<close>).
  \<open>Program_Expr\<close> holds symbols, operators, expression trees and name resolution; \<open>Expr_Eval\<close> the row evaluator and
  the columnar evaluator with its least-error rule; \<open>Expr_Fold\<close> constant folding; \<open>Value_Range\<close> the scan ranges
  that filters imply; \<open>Stdlib_Compare\<close> the comparison operators. \<open>Expr_Names\<close>, \<open>Expr_Batch_Laws\<close> and \<open>Expr_Identity\<close> hold their laws.
  \<open>Expr_Properties\<close> states that the columnar evaluator agrees with the row evaluator on values and on the error it
  reports, that resolved names do not dangle, that folding keeps values, that a row passing a filter lies in the
  range computed from it while the constants are exact as floats, and which rows are lost beyond.

  \<^bold>\<open>Normalisation\<close> (\<open>exec/plan/normalize.rs\<close>, \<open>session/normalize.rs\<close>, \<open>into_normalized_program\<close> and
  \<open>normalize_ruleset\<close> of \<open>exec/plan/program.rs\<close>, \<open>InputProgram::new\<close>). \<open>Well_Order\<close> is the binding-safety ordering
  and \<open>Normalize\<close> everything before it: the negation and disjunctive normal forms, the generated names, the
  repeated names of a head. \<open>Normalize_Laws\<close> gives source bodies and normal bodies a meaning under an assignment of
  names; \<open>Normalize_Meaning\<close>, \<open>Normalize_Dnf\<close> and \<open>Normalize_Rules\<close> show that normalisation keeps it, and
  \<open>Well_Order_Laws\<close> that the ordering is a safe permutation. The counter of generated names is a 32-bit word; the
  meaning theorem carries the bound on the names a body needs under which it does not wrap. Search atoms have no
  meaning in the model, so that theorem is about bodies without them; the safety theorem covers them.

  \<^bold>\<open>The stratifier\<close> (\<open>exec/plan/graph.rs\<close>, \<open>exec/plan/stratify.rs\<close>). \<open>Program_Tiers\<close> holds the normal-form and
  stratified tiers. \<open>Plan_Graph\<close> and \<open>Kahn_Laws\<close> are the generalized Kahn sort, \<open>Plan_Scc\<close> with its \<open>Scc\<close> theories
  Tarjan's components and \<open>Reach_Laws\<close> reachability. \<open>Stratify\<close> is the whole of \<open>into_stratified_program\<close>;
  \<open>Dependency_Laws\<close>, \<open>Stratify_Laws\<close>, \<open>Stratify_Correct\<close> and \<open>Stratify_Program\<close> hold its laws. \<open>Plan_Properties\<close>
  states that a program is accepted exactly when no needed rule requires, complete, a rule that depends on it, that
  strata respect dependencies, and that a refusal names such a read. \<open>Normalize_Properties\<close> composes it with
  normalisation: a normalised program is one the stratifier decides.

  \<^bold>\<open>The fixpoint store\<close> (\<open>exec/fixpoint/delta_store.rs\<close>). \<open>Level_Runs\<close>, \<open>Delta_Store\<close> and \<open>Delta_Laws\<close> model the
  levels of a rule's store, their merging scans, compaction and the epoch barrier. \<open>Fixpoint_Properties\<close> states
  that the store is the union of its epochs, that the delta is exactly what the last epoch added, that scans are
  exact and that the stack of levels stays logarithmic. \<open>Witness_Binder\<close> is the sink of \<open>exec/provenance/eval.rs\<close> that
  records the witnesses of a regular store at the barrier. The store's arena limit appears as an error, and the
  success theorems carry the size bound under which it is not reached.

  \<^bold>\<open>Shared\<close>. \<open>Kyzo_Prelude\<close> holds results, byte strings and big-endian words; \<open>Order_Code\<close> the interfaces of an
  order-preserving code and of a codec, interpreted for every kind of value; the locale \<open>evaluator\<close> of \<open>Expr_Fold\<close>
  the interface of an evaluator of expressions, interpreted for rows and for named assignments.

  \<^bold>\<open>Not modelled\<close>. The parser is a generated grammar. Magic sets, join ordering and the physical operators work on
  the arena representation of values, which is about layout and allocation; the semi-naive driver is a thread pool
  over them. The search indices are floating point and randomised. Operator bodies are functions of their arguments, which
  leaves out the nondeterministic ones of \<open>stdlib/nondet.rs\<close>, and the columnar evaluator's node counter does not wrap,
  which holds below \<open>2 ^ 32\<close> nodes; most of the standard library is floating point, regular expressions and dates of third-party crates. The meet-aggregate stores depend on the folds of
  aggregates, which are not modelled. The durable store and its cryptography are third-party crates and files; the
  server and the tooling are input and output.
\<close>

end
